(* ===== verification/Prelude.thy ===== *)
theory Prelude
  imports Main "HOL-Library.Word" "HOL-Library.List_Lexorder" "HOL-Library.Sublist"
    "HOL-Library.Code_Target_Numeral"
begin

text \<open>
  Shared vocabulary of the development: bytes and byte strings with Rust's
  slice order, the machine integers of the sources, the error type, big-endian
  encodings and the list lemmas the components share.
\<close>

section \<open>Types\<close>

type_synonym byte = "8 word"
type_synonym bytes = "byte list"
type_synonym u8 = "8 word"
type_synonym u32 = "32 word"
type_synonym u64 = "64 word"

text \<open>
  A Rust \<open>i64\<close> is the same 64 bits as a \<open>u64\<close>; the \<open>as\<close> casts between the
  two are the identity here, and a signed comparison reads the word with
  \<^term>\<open>sint\<close>.
\<close>

type_synonym i64 = "64 word"

text \<open>
  The error values of \<open>coord-core/src/error.rs\<close> that the modelled code returns,
  without the diagnostic strings. \<open>Panic\<close> stands for a Rust panic, such as a
  slice range that is out of bounds.
\<close>

datatype error =
    Internal
  | InvalidArgument
  | FailedPrecondition
  | NotFound
  | AlreadyExists
  | PermissionDenied
  | NotLeader
  | ClusterUnavailable
  | RequestTimeout
  | Storage
  | RevisionCompacted u64 u64
  | CommitRejected u64 u64
  | HistoryUnavailable u64
  | DataCorruption
  | LeaseNotFound i64
  | TxnTooLarge nat nat
  | ClusterSealed
  | Crypto
  | InsufficientShares nat nat
  | RegionNotFound u64
  | KeyNotInRegion u64
  | Panic

type_synonym 'a result = "error + 'a"

named_theorems codec_simps \<open>round trips and lengths of the encodings\<close>
named_theorems table_simps \<open>reads of a table after an update\<close>
named_theorems row_simps \<open>rows that an operation leaves alone\<close>

section \<open>The result type\<close>

text \<open>The \<open>?\<close> operator of Rust: the first error ends the computation.\<close>

definition bind_result :: "'a result \<Rightarrow> ('a \<Rightarrow> 'b result) \<Rightarrow> 'b result" where
  "bind_result r f = (case r of Inl e \<Rightarrow> Inl e | Inr x \<Rightarrow> f x)"

lemma bind_result_simps [simp]:
  "bind_result (Inl e) f = Inl e"
  "bind_result (Inr x) f = f x"
  by (simp_all add: bind_result_def)

lemma bind_result_eq_Inr [simp]:
  "bind_result r f = Inr y \<longleftrightarrow> (\<exists>x. r = Inr x \<and> f x = Inr y)"
  by (cases r) simp_all

lemma bind_result_cong [fundef_cong]:
  assumes "r = r'" and "\<And>x. r' = Inr x \<Longrightarrow> f x = f' x"
  shows "bind_result r f = bind_result r' f'"
  using assms by (cases r') simp_all

definition ok_or :: "error \<Rightarrow> 'a option \<Rightarrow> 'a result" where
  "ok_or e x = (case x of None \<Rightarrow> Inl e | Some y \<Rightarrow> Inr y)"

lemma ok_or_simps [simp]:
  "ok_or e None = Inl e"
  "ok_or e (Some y) = Inr y"
  by (simp_all add: ok_or_def)

lemma ok_or_eq_Inr [simp]: "ok_or e x = Inr y \<longleftrightarrow> x = Some y"
  by (cases x) simp_all

section \<open>Byte strings\<close>

text \<open>An ASCII literal of the source as bytes.\<close>

definition ascii :: "string \<Rightarrow> bytes" where
  "ascii s = map (\<lambda>c. of_nat (of_char c)) s"

lemma ascii_length [simp]: "length (ascii s) = length s"
  by (simp add: ascii_def)

lemma append_less_append [simp]: "(xs :: 'a :: linorder list) @ a < xs @ b \<longleftrightarrow> a < b"
  by (induction xs) auto

lemma append_le_append [simp]: "(xs :: 'a :: linorder list) @ a \<le> xs @ b \<longleftrightarrow> a \<le> b"
  by (induction xs) auto

lemma prefix_imp_le: "prefix p k \<Longrightarrow> p \<le> (k :: 'a :: linorder list)"
  by (induction p k rule: list_induct2') auto

lemma le_append [simp]: "(xs :: 'a :: linorder list) \<le> xs @ ys"
  by (rule prefix_imp_le) simp

lemma less_append_iff [simp]: "(xs :: 'a :: linorder list) < xs @ ys \<longleftrightarrow> ys \<noteq> []"
  using append_less_append [of xs "[]" ys] by (cases ys) auto

text \<open>The strings with a given prefix are an interval.\<close>

lemma prefix_between:
  fixes p :: "'a :: linorder list"
  assumes "p \<le> k" "k < p @ q"
  shows "prefix p k"
  using assms
proof (induction p arbitrary: k)
  case (Cons a p)
  then show ?case by (cases k) auto
qed simp

text \<open>Strings of the same length: the first difference decides, whatever follows.\<close>

lemma append_less_same_length:
  fixes xs :: "'a :: linorder list"
  assumes "length xs = length ys"
  shows "xs @ a < ys @ b \<longleftrightarrow> xs < ys \<or> xs = ys \<and> a < b"
  using assms by (induction xs ys rule: list_induct2) auto

text \<open>\<open>strip_prefix\<close> and the checked slice \<open>get(a..b)\<close> of Rust's standard library.\<close>

definition strip_prefix :: "bytes \<Rightarrow> bytes \<Rightarrow> bytes option" where
  "strip_prefix p k = (if prefix p k then Some (drop (length p) k) else None)"

definition subslice :: "nat \<Rightarrow> nat \<Rightarrow> bytes \<Rightarrow> bytes" where
  "subslice a b xs = take (b - a) (drop a xs)"

definition get_slice :: "nat \<Rightarrow> nat \<Rightarrow> bytes \<Rightarrow> bytes option" where
  "get_slice a b xs = (if a \<le> b \<and> b \<le> length xs then Some (subslice a b xs) else None)"

lemma strip_prefix_append [simp]: "strip_prefix p (p @ k) = Some k"
  by (simp add: strip_prefix_def)

lemma strip_prefix_Some: "strip_prefix p k = Some u \<longleftrightarrow> k = p @ u"
  by (auto simp: strip_prefix_def prefix_def)

lemma subslice_append_left [simp]: "length xs = a \<Longrightarrow> subslice a b (xs @ ys) = take (b - a) ys"
  by (simp add: subslice_def)

lemma subslice_0 [simp]: "subslice 0 b xs = take b xs"
  by (simp add: subslice_def)

lemma subslice_append_skip: "length xs \<le> a \<Longrightarrow> subslice a b (xs @ ys) = subslice (a - length xs) (b - length xs) ys"
  by (simp add: subslice_def)

lemma get_slice_append_skip:
  "length xs \<le> a \<Longrightarrow> a \<le> b \<Longrightarrow> get_slice a b (xs @ ys) = get_slice (a - length xs) (b - length xs) ys"
  by (auto simp: get_slice_def subslice_append_skip)

lemma in_map_filter: "y \<in> set (List.map_filter f xs) \<longleftrightarrow> (\<exists>x \<in> set xs. f x = Some y)"
  by (induction xs) (auto simp: List.map_filter_simps split: option.splits)

section \<open>Big-endian encodings\<close>

text \<open>
  \<open>to_be_bytes\<close> and \<open>from_be_bytes\<close>: \<open>be_bytes n v\<close> is the \<open>n\<close>-byte big-endian
  form of \<open>v\<close>, \<open>be_val\<close> reads one back.
\<close>

fun be_bytes :: "nat \<Rightarrow> nat \<Rightarrow> bytes" where
  "be_bytes 0 v = []"
| "be_bytes (Suc n) v = of_nat (v div 256 ^ n) # be_bytes n v"

fun be_val :: "bytes \<Rightarrow> nat" where
  "be_val [] = 0"
| "be_val (b # bs) = unat b * 256 ^ length bs + be_val bs"

lemma be_bytes_length [simp, codec_simps]: "length (be_bytes n v) = n"
  by (induction n) auto

lemma unat_byte_less: "unat (b :: byte) < 256"
  using unsigned_less [of b] by simp

lemma be_val_less: "be_val bs < 256 ^ length bs"
proof (induction bs)
  case (Cons b bs)
  have "unat b * 256 ^ length bs + be_val bs < (unat b + 1) * 256 ^ length bs"
    using Cons.IH by simp
  also have "\<dots> \<le> 256 * 256 ^ length bs"
    using unat_byte_less [of b] by (intro mult_right_mono) simp_all
  finally show ?case by simp
qed simp

lemma unat_of_nat_byte: "unat (of_nat n :: byte) = n mod 256"
  by (simp add: unat_of_nat)

lemma be_val_be_bytes_mod: "be_val (be_bytes n v) = v mod 256 ^ n"
proof (induction n)
  case (Suc n)
  have "v mod 256 ^ Suc n = 256 ^ n * (v div 256 ^ n mod 256) + v mod 256 ^ n"
    using mod_mult2_eq [of v "256 ^ n" 256] by (simp add: mult.commute)
  then show ?case
    using Suc.IH by (simp add: unat_of_nat_byte mult.commute)
qed simp

lemma be_val_be_bytes [codec_simps]: "v < 256 ^ n \<Longrightarrow> be_val (be_bytes n v) = v"
  by (simp add: be_val_be_bytes_mod)

lemma be_bytes_mod: "be_bytes n (v mod 256 ^ m) = be_bytes n v" if "n \<le> m" for n m
  using that
proof (induction n)
  case (Suc n)
  have "256 ^ m = 256 ^ n * (256 :: nat) ^ (m - n)"
    using Suc.prems by (metis Suc_leD le_add_diff_inverse power_add)
  then have "v mod 256 ^ m div 256 ^ n = v div 256 ^ n mod 256 ^ (m - n)"
    by (simp add: mod_mult2_eq div_add1_eq)
  moreover have "(256 :: nat) dvd 256 ^ (m - n)"
    using Suc.prems by simp
  ultimately have "v mod 256 ^ m div 256 ^ n mod 256 = v div 256 ^ n mod 256"
    by (simp add: mod_mod_cancel)
  then have "(of_nat (v mod 256 ^ m div 256 ^ n) :: byte) = of_nat (v div 256 ^ n)"
    by (metis unat_of_nat_byte word_unat_eq_iff)
  then show ?case
    using Suc by simp
qed simp

lemma be_bytes_be_val [codec_simps]: "be_bytes (length bs) (be_val bs) = bs"
proof (induction bs)
  case (Cons b bs)
  have "be_val (b # bs) div 256 ^ length bs = unat b"
    using be_val_less [of bs] by simp
  moreover have "be_bytes (length bs) (be_val (b # bs)) = be_bytes (length bs) (be_val bs)"
    using be_bytes_mod [of "length bs" "length bs" "be_val (b # bs)"] be_val_less [of bs] by simp
  ultimately show ?case
    using Cons.IH by simp
qed simp

lemma be_val_less_iff:
  "length xs = length ys \<Longrightarrow> be_val xs < be_val ys \<longleftrightarrow> xs < ys"
proof (induction xs ys rule: list_induct2)
  case (Cons x xs y ys)
  consider "x = y" | "x < y" | "y < x" by fastforce
  then show ?case
  proof cases
    case 2
    have "be_val (x # xs) < (unat x + 1) * 256 ^ length xs"
      using be_val_less [of xs] by simp
    also have "\<dots> \<le> unat y * 256 ^ length xs"
      using 2 by (intro mult_right_mono) (simp_all add: word_less_nat_alt)
    finally show ?thesis using 2 Cons.hyps by simp
  next
    case 3
    have "be_val (y # ys) < (unat y + 1) * 256 ^ length ys"
      using be_val_less [of ys] by simp
    also have "\<dots> \<le> unat x * 256 ^ length ys"
      using 3 by (intro mult_right_mono) (simp_all add: word_less_nat_alt)
    finally show ?thesis using 3 Cons.hyps by auto
  qed (use Cons in simp)
qed simp

lemma be_bytes_less_iff:
  "a < 256 ^ n \<Longrightarrow> b < 256 ^ n \<Longrightarrow> be_bytes n a < be_bytes n b \<longleftrightarrow> a < b"
  using be_val_less_iff [of "be_bytes n a" "be_bytes n b"] by (simp add: be_val_be_bytes)

text \<open>The widths the sources use.\<close>

definition u64_bytes :: "u64 \<Rightarrow> bytes" where
  "u64_bytes w = be_bytes 8 (unat w)"

definition u64_of :: "bytes \<Rightarrow> u64" where
  "u64_of bs = of_nat (be_val bs)"

definition u32_bytes :: "u32 \<Rightarrow> bytes" where
  "u32_bytes w = be_bytes 4 (unat w)"

definition u32_of :: "bytes \<Rightarrow> u32" where
  "u32_of bs = of_nat (be_val bs)"

lemma u64_bytes_length [simp, codec_simps]: "length (u64_bytes w) = 8"
  by (simp add: u64_bytes_def)

lemma u32_bytes_length [simp, codec_simps]: "length (u32_bytes w) = 4"
  by (simp add: u32_bytes_def)

lemma unat_u64_less: "unat (w :: u64) < 256 ^ 8"
  using unsigned_less [of w] by simp

lemma unat_u32_less: "unat (w :: u32) < 256 ^ 4"
  using unsigned_less [of w] by simp

lemma u64_of_u64_bytes [simp, codec_simps]: "u64_of (u64_bytes w) = w"
  by (simp only: u64_of_def u64_bytes_def be_val_be_bytes [OF unat_u64_less] of_nat_unat ucast_id)

lemma u32_of_u32_bytes [simp, codec_simps]: "u32_of (u32_bytes w) = w"
  by (simp only: u32_of_def u32_bytes_def be_val_be_bytes [OF unat_u32_less] of_nat_unat ucast_id)

lemma u64_bytes_u64_of [codec_simps]: "length bs = 8 \<Longrightarrow> u64_bytes (u64_of bs) = bs"
  using be_bytes_be_val [of bs] be_val_less [of bs]
  by (simp add: u64_of_def u64_bytes_def unat_of_nat take_bit_nat_eq_self)

lemma u64_bytes_less [simp]: "u64_bytes a < u64_bytes b \<longleftrightarrow> a < b"
  by (simp only: u64_bytes_def be_bytes_less_iff [OF unat_u64_less unat_u64_less] word_less_nat_alt)

lemma u64_bytes_inject [simp]: "u64_bytes a = u64_bytes b \<longleftrightarrow> a = b"
  by (metis u64_of_u64_bytes)

lemma u64_bytes_le [simp]: "u64_bytes a \<le> u64_bytes b \<longleftrightarrow> a \<le> b"
  by (metis u64_bytes_inject u64_bytes_less order_le_less)

lemma u32_bytes_inject [simp]: "u32_bytes a = u32_bytes b \<longleftrightarrow> a = b"
  by (metis u32_of_u32_bytes)

section \<open>Saturating arithmetic\<close>

definition sat_sub64 :: "u64 \<Rightarrow> u64 \<Rightarrow> u64" where
  "sat_sub64 a b = (if a < b then 0 else a - b)"

definition sat_add64 :: "u64 \<Rightarrow> u64 \<Rightarrow> u64" where
  "sat_add64 a b = (if unat a + unat b < 2 ^ 64 then a + b else - 1)"

lemma unat_sat_sub64: "unat (sat_sub64 a b) = unat a - unat b"
  by (simp add: sat_sub64_def word_less_nat_alt unat_sub word_le_nat_alt)

lemma unat_sat_add64: "unat (sat_add64 a b) = min (unat a + unat b) (2 ^ 64 - 1)"
proof (cases "unat a + unat b < 2 ^ 64")
  case True
  then show ?thesis by (simp add: sat_add64_def unat_word_ariths)
next
  case False
  then show ?thesis by (simp add: sat_add64_def unsigned_minus_1_eq_mask mask_eq_exp_minus_1)
qed

end
