(* ===== verification/Kv_Range.thy ===== *)
theory Kv_Range
  imports Prelude
begin

text \<open>
  The key-range vocabulary of \<open>coord-core/src/kv_range.rs\<close>: what a request
  \<open>(key, range_end)\<close> means, the successor of a prefix, the midpoint used for
  split proposals, and the interval a watch subscription delivers.
\<close>

section \<open>Definitions\<close>

datatype RangeSemantics = SingleKey | Interval

definition range_semantics_of :: "bytes \<Rightarrow> bytes \<Rightarrow> RangeSemantics" where
  "range_semantics_of key range_end =
    (if range_end = [] \<or> range_end = key then SingleKey else Interval)"

definition is_single_key :: "RangeSemantics \<Rightarrow> bool" where
  "is_single_key s = (case s of SingleKey \<Rightarrow> True | Interval \<Rightarrow> False)"

definition is_interval :: "RangeSemantics \<Rightarrow> bool" where
  "is_interval s = (case s of Interval \<Rightarrow> True | SingleKey \<Rightarrow> False)"

definition UNBOUNDED_RANGE_END :: bytes where
  "UNBOUNDED_RANGE_END = [0]"

text \<open>
  The loop of \<open>prefix_successor\<close> pops bytes off the end of a vector; the
  vector is held reversed, so that popping is a pattern match.
\<close>

fun prefix_successor_loop :: "bytes \<Rightarrow> bytes option" where
  "prefix_successor_loop [] = None"
| "prefix_successor_loop (lst # out) =
    (if lst \<noteq> 0xFF then Some (rev ((lst + 1) # out)) else prefix_successor_loop out)"

definition prefix_successor :: "bytes \<Rightarrow> bytes option" where
  "prefix_successor pfx = prefix_successor_loop (rev pfx)"

definition byte_at :: "bytes \<Rightarrow> nat \<Rightarrow> byte \<Rightarrow> byte" where
  "byte_at bs i d = (if i < length bs then bs ! i else d)"

text \<open>The averaging loop of \<open>mid_key\<close>, with its \<open>u16\<close> sum and carry.\<close>

fun mid_key_loop :: "bytes \<Rightarrow> bytes \<Rightarrow> nat list \<Rightarrow> 16 word \<Rightarrow> bytes" where
  "mid_key_loop start end0 [] carry = []"
| "mid_key_loop start end0 (i # is) carry =
    (let s = byte_at start i 0;
         e = byte_at end0 i 0xFF;
         sum = ucast s + ucast e + carry
     in ucast (sum div 2) # mid_key_loop start end0 is ((sum mod 2) * 256))"

definition mid_key :: "bytes \<Rightarrow> bytes \<Rightarrow> bytes" where
  "mid_key start end0 =
    (if start = [] \<and> end0 = [] then [0x80]
     else if end0 = [] \<or> end0 = [0xFF] then
       (if start < [0x80] then [0x80] else start @ [0x80])
     else
       (let len = max (length start) (length end0);
            mid = mid_key_loop start end0 [0..<len] 0
        in if mid \<le> start \<and> mid \<noteq> []
           then butlast mid @ [if last mid = 0xFF then 0xFF else last mid + 1]
           else mid))"

definition interval_contains :: "bytes \<Rightarrow> bytes option \<Rightarrow> bytes \<Rightarrow> bool" where
  "interval_contains lo hi key =
    (if key < lo then False else (case hi of None \<Rightarrow> True | Some h \<Rightarrow> key < h))"

definition watch_match_interval :: "bytes \<Rightarrow> bytes \<Rightarrow> bytes \<times> bytes option" where
  "watch_match_interval key range_end =
    (let prefix_upper = prefix_successor key;
         upper = (if range_end = [] then prefix_upper
                  else (case prefix_upper of
                          Some pu \<Rightarrow> Some (min pu range_end)
                        | None \<Rightarrow> Some range_end))
     in (key, upper))"

text \<open>The delivery test of the watch hub (\<open>coord-server/src/watch/mod.rs\<close>).\<close>

definition key_matches :: "bytes \<Rightarrow> bytes \<Rightarrow> bytes \<Rightarrow> bool" where
  "key_matches key pfx range_end =
    (let (lo, hi) = watch_match_interval pfx range_end in interval_contains lo hi key)"

section \<open>The successor of a prefix\<close>

lemma prefix_successor_loop_append:
  "prefix_successor_loop (xs @ [b]) =
    (case prefix_successor_loop xs of
       Some u \<Rightarrow> Some (b # u)
     | None \<Rightarrow> (if b \<noteq> 0xFF then Some [b + 1] else None))"
  by (induction xs) auto

text \<open>Read from the front, the loop increments the last byte that is not \<open>0xFF\<close>.\<close>

lemma prefix_successor_simps [simp]:
  "prefix_successor [] = None"
  "prefix_successor (b # p) =
    (case prefix_successor p of
       Some u \<Rightarrow> Some (b # u)
     | None \<Rightarrow> (if b \<noteq> 0xFF then Some [b + 1] else None))"
  by (simp_all add: prefix_successor_def prefix_successor_loop_append)

lemma byte_less_Suc: "b \<noteq> 0xFF \<Longrightarrow> (c :: byte) < b + 1 \<longleftrightarrow> c \<le> b"
proof -
  assume "b \<noteq> 0xFF"
  then have "unat b \<noteq> 255"
    by (simp add: word_unat_eq_iff)
  then have "unat (b + 1) = unat b + 1"
    using unat_byte_less [of b] by (simp add: unat_word_ariths)
  then show ?thesis
    by (simp add: word_less_nat_alt word_le_nat_alt less_Suc_eq_le)
qed

lemma byte_not_255_less: "\<not> 0xFF < (c :: byte)"
  using unat_byte_less [of c] by (simp add: word_less_nat_alt)

lemma prefix_successor_None_imp:
  "prefix_successor p = None \<Longrightarrow> p \<le> k \<longleftrightarrow> prefix p k"
proof (induction p arbitrary: k)
  case (Cons b p)
  then have "b = 0xFF" "prefix_successor p = None"
    by (auto split: option.splits if_splits)
  then show ?case
    using Cons.IH byte_not_255_less by (cases k) auto
qed simp

lemma prefix_successor_Some_imp:
  "prefix_successor p = Some u \<Longrightarrow> p \<le> k \<and> k < u \<longleftrightarrow> prefix p k"
proof (induction p arbitrary: k u)
  case (Cons b p)
  show ?case
  proof (cases "prefix_successor p")
    case None
    then have u: "b \<noteq> 0xFF" "u = [b + 1]"
      using Cons.prems by (auto split: if_splits)
    show ?thesis
      using u prefix_successor_None_imp [OF None] byte_less_Suc [OF u(1)]
      by (cases k) (auto simp: not_less)
  next
    case (Some v)
    then have "u = b # v"
      using Cons.prems by simp
    then show ?thesis
      using Cons.IH [OF Some, of "tl k"] by (cases k) auto
  qed
qed simp

section \<open>Properties\<close>

text \<open>\<open>[prefix, prefix_successor prefix)\<close> holds exactly the keys that start with
  \<open>prefix\<close>; where there is no successor, \<open>[prefix, \<infinity>)\<close> does.\<close>

theorem prefix_successor_exact:
  "prefix p k \<longleftrightarrow>
    p \<le> k \<and> (case prefix_successor p of None \<Rightarrow> True | Some u \<Rightarrow> k < u)"
  using prefix_successor_None_imp [of p k] prefix_successor_Some_imp [of p _ k]
  by (auto split: option.split)

text \<open>The delivery test matches byte prefixes: a key is delivered when it starts with the
  subscribed prefix and lies below \<open>range_end\<close> (when one is given). The request's
  documentation (\<open>apis/contracts/proto/coord/watch/watch.proto\<close>) promises something
  else: the single key when \<open>range_end\<close> is empty, and the whole interval otherwise.\<close>

theorem watch_delivery_exact:
  "key_matches k p range_end \<longleftrightarrow> prefix p k \<and> (range_end = [] \<or> k < range_end)"
proof (cases "prefix_successor p")
  case None
  then show ?thesis
    using prefix_successor_None_imp [OF None, of k]
    by (auto simp: key_matches_def watch_match_interval_def interval_contains_def not_less Let_def)
next
  case (Some u)
  then show ?thesis
    using prefix_successor_Some_imp [OF Some, of k]
    by (auto simp: key_matches_def watch_match_interval_def interval_contains_def not_less Let_def)
qed

text \<open>With no upper bound, \<open>mid_key\<close> proposes a key strictly above the start of the
  range.\<close>

theorem mid_key_unbounded:
  "end0 = [] \<or> end0 = [0xFF] \<Longrightarrow> start < mid_key start end0"
  by (auto simp: mid_key_def)

theorem mid_key_unbounded_witness:
  "([] :: bytes) = [] \<and> [0x90 :: byte] < mid_key [0x90] []"
  using mid_key_unbounded [of "[]" "[0x90]"] by simp

text \<open>With an upper bound the promise fails: the midpoint of \<open>a\<close> and \<open>b\<close> is the end of
  the range itself, and between \<open>a\<close>,\<open>FF\<close> and \<open>b\<close>,\<open>FF\<close> the truncated carry yields a
  key below the start.\<close>

theorem mid_key_out_of_range:
  "mid_key [0x61] [0x62] = [0x62] \<and>
   mid_key [0x61, 0xFF] [0x62, 0xFF] = [0x61, 0x80] \<and> [0x61, 0x80] < ([0x61, 0xFF] :: bytes)"
  by code_simp

end
