(* ===== verification/Backend.thy ===== *)
theory Backend
  imports Prelude
begin

text \<open>
  The storage backend: the contract of an ordered table (what the adapters of
  \<open>coord-server/src/storage/redb_backend.rs\<close> rely on), the read and write
  adapters with their scan loops, the transactions of
  \<open>coord-core/src/storage.rs\<close>, and the ordered in-memory tables of
  \<open>coord-test/src/mock.rs\<close>, on which the contract is discharged.
\<close>

type_synonym rows = "(bytes \<times> bytes) list"

section \<open>Definitions\<close>

text \<open>The seven tables; the names are those \<open>resolve_table\<close> accepts.\<close>

datatype table = T_kv | T_meta | T_lease | T_auth | T_changelog | T_kv_meta | T_commit_log

definition resolve_table :: "string \<Rightarrow> table result" where
  "resolve_table name =
    (if name = ''kv'' then Inr T_kv
     else if name = ''meta'' then Inr T_meta
     else if name = ''lease'' then Inr T_lease
     else if name = ''auth'' then Inr T_auth
     else if name = ''changelog'' then Inr T_changelog
     else if name = ''kv_meta'' then Inr T_kv_meta
     else if name = ''commit_log'' then Inr T_commit_log
     else Inl InvalidArgument)"

text \<open>
  The two scan loops of the adapters, over the rows \<open>table.range(start..)\<close>
  yields: each breaks at the first row that is out of range.
\<close>

fun scan_prefix :: "bytes \<Rightarrow> rows \<Rightarrow> rows" where
  "scan_prefix p [] = []"
| "scan_prefix p ((k, v) # it) = (if \<not> prefix p k then [] else (k, v) # scan_prefix p it)"

fun scan_range :: "bytes \<Rightarrow> nat \<Rightarrow> rows \<Rightarrow> rows \<Rightarrow> rows" where
  "scan_range end0 limit results [] = results"
| "scan_range end0 limit results ((k, v) # it) =
    (if end0 \<noteq> [] \<and> end0 \<le> k then results
     else
       (let results' = results @ [(k, v)]
        in if 0 < limit \<and> limit \<le> length results' then results'
           else scan_range end0 limit results' it))"

text \<open>The adapters, over any table type with a \<open>range(start..)\<close> operation.\<close>

definition redb_iter_prefix :: "('t \<Rightarrow> bytes \<Rightarrow> rows) \<Rightarrow> 't \<Rightarrow> bytes \<Rightarrow> rows" where
  "redb_iter_prefix range_from t p = scan_prefix p (range_from t p)"

definition redb_iter_range_limited ::
    "('t \<Rightarrow> bytes \<Rightarrow> rows) \<Rightarrow> 't \<Rightarrow> bytes \<Rightarrow> bytes \<Rightarrow> nat \<Rightarrow> rows" where
  "redb_iter_range_limited range_from t start end0 limit =
    scan_range end0 limit [] (range_from t start)"

definition redb_iter_range :: "('t \<Rightarrow> bytes \<Rightarrow> rows) \<Rightarrow> 't \<Rightarrow> bytes \<Rightarrow> bytes \<Rightarrow> rows" where
  "redb_iter_range range_from t start end0 = redb_iter_range_limited range_from t start end0 0"

text \<open>
  The ordered map of the in-memory backend: rows in strictly ascending key
  order, with the operations of \<open>BTreeMap\<close> that the backend calls.
\<close>

fun bt_get :: "rows \<Rightarrow> bytes \<Rightarrow> bytes option" where
  "bt_get [] key = None"
| "bt_get ((k, v) # t) key = (if key = k then Some v else bt_get t key)"

fun bt_insert :: "rows \<Rightarrow> bytes \<Rightarrow> bytes \<Rightarrow> rows" where
  "bt_insert [] key val = [(key, val)]"
| "bt_insert ((k, v) # t) key val =
    (if key < k then (key, val) # (k, v) # t
     else if key = k then (key, val) # t
     else (k, v) # bt_insert t key val)"

fun bt_remove :: "rows \<Rightarrow> bytes \<Rightarrow> rows" where
  "bt_remove [] key = []"
| "bt_remove ((k, v) # t) key = (if key = k then t else (k, v) # bt_remove t key)"

definition bt_range_from :: "rows \<Rightarrow> bytes \<Rightarrow> rows" where
  "bt_range_from t start = filter (\<lambda>r. start \<le> fst r) t"

text \<open>A database is one such map per table.\<close>

record db =
  kv_rows :: rows
  meta_rows :: rows
  lease_rows :: rows
  auth_rows :: rows
  changelog_rows :: rows
  kv_meta_rows :: rows
  commit_log_rows :: rows

fun tbl :: "db \<Rightarrow> table \<Rightarrow> rows" where
  "tbl d T_kv = kv_rows d"
| "tbl d T_meta = meta_rows d"
| "tbl d T_lease = lease_rows d"
| "tbl d T_auth = auth_rows d"
| "tbl d T_changelog = changelog_rows d"
| "tbl d T_kv_meta = kv_meta_rows d"
| "tbl d T_commit_log = commit_log_rows d"

fun set_tbl :: "db \<Rightarrow> table \<Rightarrow> rows \<Rightarrow> db" where
  "set_tbl d T_kv r = d\<lparr>kv_rows := r\<rparr>"
| "set_tbl d T_meta r = d\<lparr>meta_rows := r\<rparr>"
| "set_tbl d T_lease r = d\<lparr>lease_rows := r\<rparr>"
| "set_tbl d T_auth r = d\<lparr>auth_rows := r\<rparr>"
| "set_tbl d T_changelog r = d\<lparr>changelog_rows := r\<rparr>"
| "set_tbl d T_kv_meta r = d\<lparr>kv_meta_rows := r\<rparr>"
| "set_tbl d T_commit_log r = d\<lparr>commit_log_rows := r\<rparr>"

definition empty_db :: db where
  "empty_db =
    \<lparr>kv_rows = [], meta_rows = [], lease_rows = [], auth_rows = [], changelog_rows = [],
     kv_meta_rows = [], commit_log_rows = []\<rparr>"

definition tx_get :: "db \<Rightarrow> table \<Rightarrow> bytes \<Rightarrow> bytes option" where
  "tx_get d t key = bt_get (tbl d t) key"

definition tx_exists :: "db \<Rightarrow> table \<Rightarrow> bytes \<Rightarrow> bool" where
  "tx_exists d t key = (bt_get (tbl d t) key \<noteq> None)"

definition tx_iter_prefix :: "db \<Rightarrow> table \<Rightarrow> bytes \<Rightarrow> rows" where
  "tx_iter_prefix d t p = redb_iter_prefix bt_range_from (tbl d t) p"

definition tx_iter_range :: "db \<Rightarrow> table \<Rightarrow> bytes \<Rightarrow> bytes \<Rightarrow> rows" where
  "tx_iter_range d t start end0 = redb_iter_range bt_range_from (tbl d t) start end0"

definition tx_iter_range_limited :: "db \<Rightarrow> table \<Rightarrow> bytes \<Rightarrow> bytes \<Rightarrow> nat \<Rightarrow> rows" where
  "tx_iter_range_limited d t start end0 limit =
    redb_iter_range_limited bt_range_from (tbl d t) start end0 limit"

definition tx_insert :: "db \<Rightarrow> table \<Rightarrow> bytes \<Rightarrow> bytes \<Rightarrow> db" where
  "tx_insert d t key val = set_tbl d t (bt_insert (tbl d t) key val)"

definition tx_remove :: "db \<Rightarrow> table \<Rightarrow> bytes \<Rightarrow> db" where
  "tx_remove d t key = set_tbl d t (bt_remove (tbl d t) key)"

definition table_key_count :: "db \<Rightarrow> table \<Rightarrow> nat" where
  "table_key_count d t = length (tbl d t)"

text \<open>
  A read-write transaction runs a closure on the tables: \<open>Ok\<close> commits every
  write of it, \<open>Err\<close> leaves the tables as they were.
\<close>

definition backend_write :: "db \<Rightarrow> (db \<Rightarrow> ('a \<times> db) result) \<Rightarrow> 'a result \<times> db" where
  "backend_write d f = (case f d of Inl e \<Rightarrow> (Inl e, d) | Inr (x, d') \<Rightarrow> (Inr x, d'))"

section \<open>Rows in key order\<close>

definition keys_sorted :: "rows \<Rightarrow> bool" where
  "keys_sorted t = sorted_wrt (<) (map fst t)"

lemma keys_sorted_simps [simp]:
  "keys_sorted []"
  "keys_sorted ((k, v) # t) \<longleftrightarrow> (\<forall>r \<in> set t. k < fst r) \<and> keys_sorted t"
  by (auto simp: keys_sorted_def)

lemma keys_sorted_distinct: "keys_sorted t \<Longrightarrow> distinct (map fst t)"
  by (auto simp: keys_sorted_def strict_sorted_iff)

lemma keys_sorted_filter [simp]: "keys_sorted t \<Longrightarrow> keys_sorted (filter P t)"
  by (simp add: keys_sorted_def sorted_wrt_map sorted_wrt_filter)

lemma keys_sorted_take [simp]: "keys_sorted t \<Longrightarrow> keys_sorted (take n t)"
  by (simp add: keys_sorted_def take_map [symmetric] sorted_wrt_take)

lemma bt_get_map_of: "bt_get t k = map_of t k"
  by (induction t k rule: bt_get.induct) auto

lemma map_of_in_sorted: "keys_sorted t \<Longrightarrow> map_of t k = Some v \<longleftrightarrow> (k, v) \<in> set t"
  by (simp add: keys_sorted_distinct)

text \<open>Two sorted tables with the same lookups are the same table.\<close>

lemma keys_sorted_ext:
  assumes "keys_sorted t" "keys_sorted u" "map_of t = map_of u"
  shows "t = u"
proof -
  have "set t = set u"
    using assms map_of_in_sorted by (metis dual_order.eq_iff subrelI)
  moreover have "sorted (map fst t)" "sorted (map fst u)" "distinct (map fst t)" "distinct (map fst u)"
    using assms by (auto simp: keys_sorted_def strict_sorted_iff)
  ultimately show ?thesis
    by (intro map_sorted_distinct_set_unique [where f = fst]) (auto simp: distinct_map)
qed

lemma scan_prefix_takeWhile: "scan_prefix p it = takeWhile (\<lambda>r. prefix p (fst r)) it"
  by (induction p it rule: scan_prefix.induct) auto

text \<open>On rows at or above the prefix, breaking early loses nothing.\<close>

lemma scan_prefix_filter:
  assumes "keys_sorted it" "\<forall>r \<in> set it. p \<le> fst r"
  shows "scan_prefix p it = filter (\<lambda>r. prefix p (fst r)) it"
  using assms
proof (induction p it rule: scan_prefix.induct)
  case (2 p k v it)
  have "\<not> prefix p (fst r)" if "\<not> prefix p k" "r \<in> set it" for r
  proof
    assume "prefix p (fst r)"
    then obtain q where q: "fst r = p @ q" by (auto elim: prefixE)
    have "p \<le> k" "k < p @ q" using 2 that q by force+
    then show False
      using that(1) prefix_between by blast
  qed
  then show ?case using 2 by (auto simp: filter_empty_conv)
qed simp

definition in_range :: "bytes \<Rightarrow> bytes \<Rightarrow> bytes \<Rightarrow> bool" where
  "in_range start end0 k \<longleftrightarrow> start \<le> k \<and> (end0 = [] \<or> k < end0)"

lemma scan_range_unlimited:
  "scan_range end0 0 results it = results @ takeWhile (\<lambda>r. end0 = [] \<or> fst r < end0) it"
  by (induction it arbitrary: results) (auto simp: not_le)

lemma scan_range_limited:
  "length results < limit \<Longrightarrow> scan_range end0 limit results it =
     results @ take (limit - length results) (takeWhile (\<lambda>r. end0 = [] \<or> fst r < end0) it)"
proof (induction it arbitrary: results)
  case (Cons r it)
  obtain k v where r: "r = (k, v)" by (cases r)
  show ?case
  proof (cases "limit \<le> Suc (length results)")
    case True
    then have "limit - length results = Suc 0" using Cons.prems by simp
    then show ?thesis using True Cons.prems by (auto simp: r not_le Let_def)
  next
    case False
    then have "limit - length results = Suc (limit - Suc (length results))" by simp
    then show ?thesis using False Cons.IH [of "results @ [(k, v)]"] by (auto simp: r not_le Let_def)
  qed
qed simp

lemma takeWhile_end_filter:
  "keys_sorted it \<Longrightarrow>
   takeWhile (\<lambda>r. end0 = [] \<or> fst r < end0) it = filter (\<lambda>r. end0 = [] \<or> fst r < end0) it"
proof (induction it)
  case (Cons r it)
  then show ?case by (cases r) (auto simp: eq_commute [of "[]"] filter_empty_conv dest: order.strict_trans)
qed simp

section \<open>The contract of an ordered table\<close>

text \<open>
  What the adapters rely on: lookups, insertions and removals act on a finite
  map, and \<open>range(start..)\<close> yields the rows from \<open>start\<close> on, in key order.
\<close>

locale ordered_table =
  fixes rows_of :: "'t \<Rightarrow> rows"
    and tinv :: "'t \<Rightarrow> bool"
    and tget :: "'t \<Rightarrow> bytes \<Rightarrow> bytes option"
    and range_from :: "'t \<Rightarrow> bytes \<Rightarrow> rows"
    and tinsert :: "'t \<Rightarrow> bytes \<Rightarrow> bytes \<Rightarrow> 't"
    and tremove :: "'t \<Rightarrow> bytes \<Rightarrow> 't"
  assumes rows_sorted: "tinv t \<Longrightarrow> keys_sorted (rows_of t)"
    and tget_rows: "tinv t \<Longrightarrow> tget t k = map_of (rows_of t) k"
    and range_from_rows: "tinv t \<Longrightarrow> range_from t s = filter (\<lambda>r. s \<le> fst r) (rows_of t)"
    and tinv_tinsert: "tinv t \<Longrightarrow> tinv (tinsert t k v)"
    and tinv_tremove: "tinv t \<Longrightarrow> tinv (tremove t k)"
    and rows_tinsert: "tinv t \<Longrightarrow> map_of (rows_of (tinsert t k v)) = (map_of (rows_of t))(k \<mapsto> v)"
    and rows_tremove: "tinv t \<Longrightarrow> map_of (rows_of (tremove t k)) = (map_of (rows_of t))(k := None)"
begin

lemma tget_tinsert: "tinv t \<Longrightarrow> tget (tinsert t k v) k' = (if k' = k then Some v else tget t k')"
  by (simp add: tget_rows tinv_tinsert rows_tinsert)

lemma tget_tremove: "tinv t \<Longrightarrow> tget (tremove t k) k' = (if k' = k then None else tget t k')"
  by (simp add: tget_rows tinv_tremove rows_tremove)

lemma iter_prefix_filter:
  "tinv t \<Longrightarrow> redb_iter_prefix range_from t p = filter (\<lambda>r. prefix p (fst r)) (rows_of t)"
  by (subst redb_iter_prefix_def, subst scan_prefix_filter)
     (auto simp: range_from_rows rows_sorted intro!: filter_cong dest: prefix_imp_le)

lemma iter_range_limited_filter:
  "tinv t \<Longrightarrow> redb_iter_range_limited range_from t start end0 limit =
     (let rs = filter (\<lambda>r. in_range start end0 (fst r)) (rows_of t)
      in if limit = 0 then rs else take limit rs)"
  by (cases "limit = 0")
     (simp_all add: redb_iter_range_limited_def scan_range_unlimited scan_range_limited
       takeWhile_end_filter range_from_rows rows_sorted Let_def in_range_def conj_commute)

lemma iter_range_filter:
  "tinv t \<Longrightarrow> redb_iter_range range_from t start end0 =
     filter (\<lambda>r. in_range start end0 (fst r)) (rows_of t)"
  by (simp add: redb_iter_range_def iter_range_limited_filter)

lemma iter_prefix_member:
  "tinv t \<Longrightarrow> (k, v) \<in> set (redb_iter_prefix range_from t p) \<longleftrightarrow> prefix p k \<and> tget t k = Some v"
  by (auto simp: iter_prefix_filter tget_rows map_of_in_sorted rows_sorted)

lemma iter_range_member:
  "tinv t \<Longrightarrow> (k, v) \<in> set (redb_iter_range range_from t start end0) \<longleftrightarrow>
     in_range start end0 k \<and> tget t k = Some v"
  by (auto simp: iter_range_filter tget_rows map_of_in_sorted rows_sorted)

lemma iter_sorted:
  "tinv t \<Longrightarrow> keys_sorted (redb_iter_prefix range_from t p)"
  "tinv t \<Longrightarrow> keys_sorted (redb_iter_range range_from t start end0)"
  "tinv t \<Longrightarrow> keys_sorted (redb_iter_range_limited range_from t start end0 limit)"
  by (simp_all add: iter_prefix_filter iter_range_filter iter_range_limited_filter rows_sorted Let_def)

end

section \<open>The in-memory tables keep the contract\<close>

lemma bt_insert_fst: "fst ` set (bt_insert t k v) = insert k (fst ` set t)"
  by (induction t k v rule: bt_insert.induct) auto

lemma bt_insert_sorted: "keys_sorted t \<Longrightarrow> keys_sorted (bt_insert t k v)"
proof (induction t k v rule: bt_insert.induct)
  case (2 k v t key val)
  have "\<forall>r \<in> set (bt_insert t key val). k < fst r" if "k < key"
    using 2 that bt_insert_fst [of t key val]
    by (metis (no_types, lifting) imageE image_eqI insertE keys_sorted_simps(2))
  then show ?case using 2 by auto
qed simp

lemma bt_remove_subset: "set (bt_remove t k) \<subseteq> set t"
  by (induction t k rule: bt_remove.induct) auto

lemma bt_remove_sorted: "keys_sorted t \<Longrightarrow> keys_sorted (bt_remove t k)"
  by (induction t k rule: bt_remove.induct) (use bt_remove_subset in fastforce)+

lemma bt_get_bt_insert:
  "bt_get (bt_insert t k v) k' = (if k' = k then Some v else bt_get t k')"
  by (induction t k v rule: bt_insert.induct) auto

lemma bt_get_above: "\<forall>r \<in> set t. k < fst r \<Longrightarrow> bt_get t k = None"
  by (induction t k rule: bt_get.induct) auto

lemma bt_get_bt_remove:
  "keys_sorted t \<Longrightarrow> bt_get (bt_remove t k) k' = (if k' = k then None else bt_get t k')"
  by (induction t k rule: bt_remove.induct) (auto simp: bt_get_above)

interpretation bt: ordered_table "\<lambda>t. t" keys_sorted bt_get bt_range_from bt_insert bt_remove
proof (unfold_locales, goal_cases)
  case (6 t k v)
  then show ?case by (auto simp: fun_eq_iff bt_get_map_of [symmetric] bt_get_bt_insert)
next
  case (7 t k)
  then show ?case by (auto simp: fun_eq_iff bt_get_map_of [symmetric] bt_get_bt_remove)
qed (simp_all add: bt_get_map_of bt_range_from_def bt_insert_sorted bt_remove_sorted)

section \<open>Databases\<close>

lemma tbl_set_tbl [simp]: "tbl (set_tbl d t r) t' = (if t' = t then r else tbl d t')"
  by (cases t; cases t') simp_all

lemma tbl_empty_db [simp]: "tbl empty_db t = []"
  by (cases t) (simp_all add: empty_db_def)

lemma tbl_ext: "(\<And>t. tbl d t = tbl d' t) \<Longrightarrow> d = (d' :: db)"
  by (metis (mono_tags) db.equality old.unit.exhaust tbl.simps)

definition db_ok :: "db \<Rightarrow> bool" where
  "db_ok d \<longleftrightarrow> (\<forall>t. keys_sorted (tbl d t))"

lemma db_okI: "(\<And>t. keys_sorted (tbl d t)) \<Longrightarrow> db_ok d"
  by (simp add: db_ok_def)

lemma db_okD [simp]: "db_ok d \<Longrightarrow> keys_sorted (tbl d t)"
  by (simp add: db_ok_def)

lemma db_ok_empty [simp]: "db_ok empty_db"
  by (simp add: db_ok_def)

lemma db_ok_insert [simp]: "db_ok d \<Longrightarrow> db_ok (tx_insert d t k v)"
  by (simp add: db_ok_def tx_insert_def bt_insert_sorted)

lemma db_ok_remove [simp]: "db_ok d \<Longrightarrow> db_ok (tx_remove d t k)"
  by (simp add: db_ok_def tx_remove_def bt_remove_sorted)

lemma tx_get_empty [simp]: "tx_get empty_db t k = None"
  by (simp add: tx_get_def)

lemma tx_get_insert [table_simps]:
  "tx_get (tx_insert d t k v) t' k' = (if t' = t \<and> k' = k then Some v else tx_get d t' k')"
  by (simp add: tx_get_def tx_insert_def bt_get_bt_insert)

lemma tx_get_remove [table_simps]:
  "db_ok d \<Longrightarrow> tx_get (tx_remove d t k) t' k' = (if t' = t \<and> k' = k then None else tx_get d t' k')"
  by (simp add: tx_get_def tx_remove_def bt_get_bt_remove)

lemma tx_iter_prefix_filter:
  "db_ok d \<Longrightarrow> tx_iter_prefix d t p = filter (\<lambda>r. prefix p (fst r)) (tbl d t)"
  by (simp add: tx_iter_prefix_def bt.iter_prefix_filter)

lemma tx_iter_range_filter:
  "db_ok d \<Longrightarrow> tx_iter_range d t start end0 = filter (\<lambda>r. in_range start end0 (fst r)) (tbl d t)"
  by (simp add: tx_iter_range_def bt.iter_range_filter)

lemma tx_iter_range_limited_take:
  "db_ok d \<Longrightarrow> tx_iter_range_limited d t start end0 limit =
     (if limit = 0 then tx_iter_range d t start end0
      else take limit (tx_iter_range d t start end0))"
  by (simp add: tx_iter_range_limited_def tx_iter_range_def bt.iter_range_limited_filter
      bt.iter_range_filter Let_def)

lemma tx_iter_prefix_iff:
  "db_ok d \<Longrightarrow> (k, v) \<in> set (tx_iter_prefix d t p) \<longleftrightarrow> prefix p k \<and> tx_get d t k = Some v"
  by (simp add: tx_iter_prefix_def tx_get_def bt.iter_prefix_member)

lemma tx_iter_range_iff:
  "db_ok d \<Longrightarrow> (k, v) \<in> set (tx_iter_range d t start end0) \<longleftrightarrow>
     in_range start end0 k \<and> tx_get d t k = Some v"
  by (simp add: tx_iter_range_def tx_get_def bt.iter_range_member)

lemma tx_iter_prefix_sorted [simp]: "db_ok d \<Longrightarrow> keys_sorted (tx_iter_prefix d t p)"
  by (simp add: tx_iter_prefix_def bt.iter_sorted)

lemma tx_iter_range_sorted [simp]: "db_ok d \<Longrightarrow> keys_sorted (tx_iter_range d t start end0)"
  by (simp add: tx_iter_range_def bt.iter_sorted)

text \<open>Databases with the same lookups are the same.\<close>

lemma db_ext:
  assumes "db_ok d" "db_ok d'" "\<And>t k. tx_get d t k = tx_get d' t k"
  shows "d = d'"
proof (rule tbl_ext)
  fix t
  have "map_of (tbl d t) = map_of (tbl d' t)"
    using assms(3) by (auto simp: fun_eq_iff tx_get_def bt_get_map_of)
  then show "tbl d t = tbl d' t"
    using assms(1,2) keys_sorted_ext by (simp add: db_ok_def)
qed

lemma tx_iter_prefix_cong:
  assumes "db_ok d" "db_ok d'" "\<And>k. prefix p k \<Longrightarrow> tx_get d t k = tx_get d' t k"
  shows "tx_iter_prefix d t p = tx_iter_prefix d' t p"
proof (rule keys_sorted_ext)
  have "map_of (tx_iter_prefix d t p) k = Some v \<longleftrightarrow> map_of (tx_iter_prefix d' t p) k = Some v" for k v
    using assms by (simp add: map_of_in_sorted tx_iter_prefix_iff) metis
  then show "map_of (tx_iter_prefix d t p) = map_of (tx_iter_prefix d' t p)"
    by (metis (no_types, lifting) ext not_None_eq)
qed (use assms in simp_all)

lemma tx_iter_range_cong:
  assumes "db_ok d" "db_ok d'" "\<And>k. in_range s e k \<Longrightarrow> tx_get d t k = tx_get d' t k"
  shows "tx_iter_range d t s e = tx_iter_range d' t s e"
proof (rule keys_sorted_ext)
  have "map_of (tx_iter_range d t s e) k = Some v \<longleftrightarrow> map_of (tx_iter_range d' t s e) k = Some v" for k v
    using assms by (simp add: map_of_in_sorted tx_iter_range_iff) metis
  then show "map_of (tx_iter_range d t s e) = map_of (tx_iter_range d' t s e)"
    by (metis (no_types, lifting) ext not_None_eq)
qed (use assms in simp_all)

lemma backend_write_simps [simp]:
  "f d = Inl e \<Longrightarrow> backend_write d f = (Inl e, d)"
  "f d = Inr (x, d') \<Longrightarrow> backend_write d f = (Inr x, d')"
  by (simp_all add: backend_write_def)

end
