(* ===== verification/Mvcc_Codec.thy ===== *)
theory Mvcc_Codec
  imports Backend
begin

text \<open>
  Keys and records of the multi-version store as bytes: the first part of
  \<open>coord-server/src/storage/mvcc.rs\<close>. Every persistent record with a
  hand-written layout has its encoder, its decoder and the round trip; the
  contract they share is the locale \<open>codec\<close>.
\<close>

section \<open>Key space\<close>

definition KV_PREFIX :: bytes where "KV_PREFIX = ascii ''/kv/''"
definition LEASE_PREFIX :: bytes where "LEASE_PREFIX = ascii ''/_lease/''"
definition CHANGELOG_PREFIX :: bytes where "CHANGELOG_PREFIX = ascii ''/_changelog/''"
definition KV_META_PREFIX :: bytes where "KV_META_PREFIX = ascii ''/_kv_meta/''"
definition LEASE_V2_PREFIX :: bytes where "LEASE_V2_PREFIX = ascii ''/_leasev2/''"
definition LEASE_V2_REQ_PREFIX :: bytes where "LEASE_V2_REQ_PREFIX = ascii ''/_leasev2req/''"

definition META_LAST_APPLIED :: bytes where
  "META_LAST_APPLIED = ascii ''/_meta/last_applied''"
definition META_CURRENT_REVISION :: bytes where
  "META_CURRENT_REVISION = ascii ''/_meta/current_revision''"
definition META_COMPACT_REVISION :: bytes where
  "META_COMPACT_REVISION = ascii ''/_meta/compacted_revision''"

definition PD_QUEUE_PREFIX :: bytes where "PD_QUEUE_PREFIX = ascii ''/_pd/ops/''"
definition PD_INTENT_PREFIX :: bytes where "PD_INTENT_PREFIX = ascii ''/_pd/intents/''"

definition TSO_HIGH_WATER :: bytes where "TSO_HIGH_WATER = ascii ''/_sys/tso/high_water''"
definition TSO_LAST_BATCH :: bytes where "TSO_LAST_BATCH = ascii ''/_sys/tso/last_batch''"

definition SEQUENCER_DECISION_PREFIX :: bytes where
  "SEQUENCER_DECISION_PREFIX = ascii ''/_sys/seq/decision/''"
definition SEQUENCER_LAST_COMMIT_TS :: bytes where
  "SEQUENCER_LAST_COMMIT_TS = ascii ''/_sys/seq/last_commit_ts''"
definition SEQUENCER_TXN_PREFIX :: bytes where
  "SEQUENCER_TXN_PREFIX = ascii ''/_sys/seq/txn/''"
definition SEQUENCER_REQUEST_PREFIX :: bytes where
  "SEQUENCER_REQUEST_PREFIX = ascii ''/_sys/seq/req/''"
definition SEQUENCER_KEY_INDEX_PREFIX :: bytes where
  "SEQUENCER_KEY_INDEX_PREFIX = ascii ''/_sys/seq/vidx/''"
definition SEQUENCER_RANGE_INDEX_PREFIX :: bytes where
  "SEQUENCER_RANGE_INDEX_PREFIX = ascii ''/_sys/seq/ridx/''"
definition SEQUENCER_INTERVAL_INDEX_PREFIX :: bytes where
  "SEQUENCER_INTERVAL_INDEX_PREFIX = ascii ''/_sys/seq/iidx/''"
definition SEQUENCER_INDEX_LAST_TS :: bytes where
  "SEQUENCER_INDEX_LAST_TS = ascii ''/_sys/seq/vidx_last_ts''"

definition DECISION_APPLIED_TS :: bytes where
  "DECISION_APPLIED_TS = ascii ''/_sys/kv_t/decision_applied''"
definition DIRECT_WRITE_FENCE :: bytes where
  "DIRECT_WRITE_FENCE = ascii ''/_sys/kv_t/direct_write_fence''"
definition SAFE_TS_FENCE :: bytes where
  "SAFE_TS_FENCE = ascii ''/_sys/kv_t/safe_ts_fence''"
definition COMMIT_WATERMARK :: bytes where
  "COMMIT_WATERMARK = ascii ''/_sys/commit_log/watermark''"
definition IMPORT_HISTORY_FLOORS :: bytes where
  "IMPORT_HISTORY_FLOORS = ascii ''/_sys/kv_t/import_history_floors''"

definition encode_kv_key :: "bytes \<Rightarrow> bytes" where
  "encode_kv_key user_key = KV_PREFIX @ user_key"

definition decode_kv_key :: "bytes \<Rightarrow> bytes option" where
  "decode_kv_key internal_key = strip_prefix KV_PREFIX internal_key"

definition encode_kv_meta_key :: "bytes \<Rightarrow> bytes" where
  "encode_kv_meta_key user_key = KV_META_PREFIX @ user_key"

definition encode_changelog_key :: "u64 \<Rightarrow> bytes" where
  "encode_changelog_key revision = CHANGELOG_PREFIX @ u64_bytes revision"

definition encode_lease_key :: "i64 \<Rightarrow> bytes" where
  "encode_lease_key lease_id = LEASE_PREFIX @ u64_bytes lease_id"

definition encode_lease_v2_key :: "i64 \<Rightarrow> bytes" where
  "encode_lease_v2_key lease_id = LEASE_V2_PREFIX @ u64_bytes lease_id"

definition encode_lease_v2_req_key :: "bytes \<Rightarrow> bytes" where
  "encode_lease_v2_req_key request_id = LEASE_V2_REQ_PREFIX @ request_id"

definition encode_pd_intent_key :: "u64 \<Rightarrow> bytes" where
  "encode_pd_intent_key op_id = PD_INTENT_PREFIX @ u64_bytes op_id"

definition encode_pd_op_key :: "u64 \<Rightarrow> bytes" where
  "encode_pd_op_key op_id = PD_QUEUE_PREFIX @ u64_bytes op_id"

definition encode_sequencer_decision_key :: "u64 \<Rightarrow> bytes" where
  "encode_sequencer_decision_key commit_ts = SEQUENCER_DECISION_PREFIX @ u64_bytes commit_ts"

definition prefixed_hash_key :: "bytes \<Rightarrow> bytes \<Rightarrow> bytes" where
  "prefixed_hash_key pfx hash = pfx @ hash"

definition prefixed_key :: "bytes \<Rightarrow> bytes \<Rightarrow> bytes" where
  "prefixed_key pfx key = pfx @ key"

text \<open>
  \<open>prefix_upper_bound\<close>: the loop of \<open>prefix_successor\<close> again, with the empty
  string for "no upper bound".
\<close>

fun prefix_upper_bound_loop :: "bytes \<Rightarrow> bytes" where
  "prefix_upper_bound_loop [] = []"
| "prefix_upper_bound_loop (lst # rest) =
    (if lst \<noteq> 0xFF then rev ((lst + 1) # rest) else prefix_upper_bound_loop rest)"

definition prefix_upper_bound :: "bytes \<Rightarrow> bytes" where
  "prefix_upper_bound pfx = prefix_upper_bound_loop (rev pfx)"

definition ranges_intersect :: "bytes \<Rightarrow> bytes \<Rightarrow> bytes \<Rightarrow> bytes \<Rightarrow> bool" where
  "ranges_intersect a_start a_end b_start b_end \<longleftrightarrow>
    (b_end = [] \<or> a_start < b_end) \<and> (a_end = [] \<or> b_start < a_end)"

definition fence_contains :: "bytes \<Rightarrow> bytes \<Rightarrow> bytes \<Rightarrow> bool" where
  "fence_contains start end0 key \<longleftrightarrow> start \<le> key \<and> (end0 = [] \<or> key < end0)"

definition decode_u64 :: "bytes \<Rightarrow> u64 option" where
  "decode_u64 bs = (if length bs = 8 then Some (u64_of bs) else None)"

lemmas key_defs =
  KV_PREFIX_def LEASE_PREFIX_def CHANGELOG_PREFIX_def KV_META_PREFIX_def LEASE_V2_PREFIX_def
  LEASE_V2_REQ_PREFIX_def META_LAST_APPLIED_def META_CURRENT_REVISION_def META_COMPACT_REVISION_def
  PD_QUEUE_PREFIX_def PD_INTENT_PREFIX_def TSO_HIGH_WATER_def TSO_LAST_BATCH_def
  SEQUENCER_DECISION_PREFIX_def SEQUENCER_LAST_COMMIT_TS_def SEQUENCER_TXN_PREFIX_def
  SEQUENCER_REQUEST_PREFIX_def SEQUENCER_KEY_INDEX_PREFIX_def SEQUENCER_RANGE_INDEX_PREFIX_def
  SEQUENCER_INTERVAL_INDEX_PREFIX_def SEQUENCER_INDEX_LAST_TS_def DECISION_APPLIED_TS_def
  DIRECT_WRITE_FENCE_def SAFE_TS_FENCE_def COMMIT_WATERMARK_def IMPORT_HISTORY_FLOORS_def

section \<open>Records\<close>

record KvMetadata =
  version :: i64
  create_revision :: i64
  mod_revision :: i64
  lease_id :: i64
  deleted :: bool

definition KvMetadata_to_bytes :: "KvMetadata \<Rightarrow> bytes" where
  "KvMetadata_to_bytes m =
    u64_bytes (version m) @ u64_bytes (create_revision m) @ u64_bytes (mod_revision m) @
    u64_bytes (lease_id m) @ [if deleted m then 1 else 0]"

definition KvMetadata_from_bytes :: "bytes \<Rightarrow> KvMetadata option" where
  "KvMetadata_from_bytes bs =
    (if length bs < 32 then None
     else
       let del = (if 33 \<le> length bs then bs ! 32 = 1 else False)
       in Some \<lparr>version = u64_of (subslice 0 8 bs), create_revision = u64_of (subslice 8 16 bs),
                mod_revision = u64_of (subslice 16 24 bs), lease_id = u64_of (subslice 24 32 bs),
                deleted = del\<rparr>)"

definition new_key :: "u64 \<Rightarrow> i64 \<Rightarrow> KvMetadata" where
  "new_key revision lease =
    \<lparr>version = 1, create_revision = revision, mod_revision = revision, lease_id = lease,
     deleted = False\<rparr>"

definition update_meta :: "KvMetadata \<Rightarrow> u64 \<Rightarrow> i64 \<Rightarrow> KvMetadata" where
  "update_meta m revision lease =
    \<lparr>version = version m + 1, create_revision = create_revision m, mod_revision = revision,
     lease_id = lease, deleted = False\<rparr>"

definition mark_deleted :: "KvMetadata \<Rightarrow> u64 \<Rightarrow> KvMetadata" where
  "mark_deleted m revision =
    \<lparr>version = version m + 1, create_revision = create_revision m, mod_revision = revision,
     lease_id = lease_id m, deleted = True\<rparr>"

record AppliedLogId =
  ali_term :: u64
  ali_node_id :: u64
  ali_index :: u64

definition APPLIED_LOG_ID_MAGIC :: bytes where
  "APPLIED_LOG_ID_MAGIC = ascii ''ALI1''"

definition standalone :: "u64 \<Rightarrow> AppliedLogId" where
  "standalone index = \<lparr>ali_term = 0, ali_node_id = 0, ali_index = index\<rparr>"

definition AppliedLogId_to_bytes :: "AppliedLogId \<Rightarrow> bytes" where
  "AppliedLogId_to_bytes a =
    APPLIED_LOG_ID_MAGIC @ u64_bytes (ali_term a) @ u64_bytes (ali_node_id a) @
    u64_bytes (ali_index a)"

definition AppliedLogId_from_bytes :: "bytes \<Rightarrow> AppliedLogId option" where
  "AppliedLogId_from_bytes bs =
    (case strip_prefix APPLIED_LOG_ID_MAGIC bs of
       None \<Rightarrow> None
     | Some body \<Rightarrow>
         (case (get_slice 0 8 body, get_slice 8 16 body, get_slice 16 24 body) of
            (Some t, Some n, Some i) \<Rightarrow>
              Some \<lparr>ali_term = u64_of t, ali_node_id = u64_of n, ali_index = u64_of i\<rparr>
          | _ \<Rightarrow> None))"

record LeaseRecord =
  lr_ttl :: i64
  lr_deadline_wall_ms :: i64
  lr_keepalive_revision :: i64

definition LeaseRecord_to_bytes :: "LeaseRecord \<Rightarrow> bytes" where
  "LeaseRecord_to_bytes r =
    u64_bytes (lr_ttl r) @ u64_bytes (lr_deadline_wall_ms r) @ u64_bytes (lr_keepalive_revision r)"

definition LeaseRecord_from_bytes :: "bytes \<Rightarrow> LeaseRecord option" where
  "LeaseRecord_from_bytes bs =
    (if length bs < 24 then None
     else Some \<lparr>lr_ttl = u64_of (subslice 0 8 bs), lr_deadline_wall_ms = u64_of (subslice 8 16 bs),
                lr_keepalive_revision = u64_of (subslice 16 24 bs)\<rparr>)"

record LeaseV2Record =
  l2_ttl :: i64
  l2_granted_ts :: u64
  l2_deadline_wall_ms :: i64
  l2_revoked :: bool
  l2_revoked_commit_ts :: u64
  l2_grant_request_id :: bytes

definition LeaseV2Record_to_bytes :: "LeaseV2Record \<Rightarrow> bytes" where
  "LeaseV2Record_to_bytes r =
    (let len = min (length (l2_grant_request_id r)) 65535
     in u64_bytes (l2_ttl r) @ u64_bytes (l2_granted_ts r) @ u64_bytes (l2_deadline_wall_ms r) @
        [if l2_revoked r then 1 else 0] @ u64_bytes (l2_revoked_commit_ts r) @
        be_bytes 2 len @ take len (l2_grant_request_id r))"

definition LeaseV2Record_from_bytes :: "bytes \<Rightarrow> LeaseV2Record option" where
  "LeaseV2Record_from_bytes bs =
    (if length bs < 35 then None
     else
       let req_len = be_val (subslice 33 35 bs)
       in if length bs < 35 + req_len then None
          else Some \<lparr>l2_ttl = u64_of (subslice 0 8 bs), l2_granted_ts = u64_of (subslice 8 16 bs),
                     l2_deadline_wall_ms = u64_of (subslice 16 24 bs), l2_revoked = (bs ! 24 \<noteq> 0),
                     l2_revoked_commit_ts = u64_of (subslice 25 33 bs),
                     l2_grant_request_id = subslice 35 (35 + req_len) bs\<rparr>)"

record DirectWriteFence =
  df_start_key :: bytes
  df_end_key :: bytes
  df_op_id :: u64

definition encode_direct_write_fence :: "bytes \<Rightarrow> bytes \<Rightarrow> u64 \<Rightarrow> bytes" where
  "encode_direct_write_fence start end0 op_id =
    u64_bytes op_id @ u32_bytes (of_nat (length start)) @ start @ end0"

definition decode_direct_write_fence :: "bytes \<Rightarrow> DirectWriteFence option" where
  "decode_direct_write_fence bs =
    (case get_slice 0 8 bs of None \<Rightarrow> None | Some op \<Rightarrow>
      (case get_slice 8 12 bs of None \<Rightarrow> None | Some l \<Rightarrow>
        (let start_len = unat (u32_of l)
         in case get_slice 12 (12 + start_len) bs of None \<Rightarrow> None | Some start \<Rightarrow>
              (case get_slice (12 + start_len) (length bs) bs of None \<Rightarrow> None | Some e \<Rightarrow>
                Some \<lparr>df_start_key = start, df_end_key = e, df_op_id = u64_of op\<rparr>))))"

section \<open>Change events\<close>

datatype EventType = Put | Delete | Txn | Lease

record KeyValueChange =
  ch_key :: bytes
  ch_value :: "bytes option"
  ch_prev_value :: "bytes option"

record ChangeEvent =
  ev_revision :: u64
  ev_changes :: "KeyValueChange list"
  ev_event_type :: EventType

definition CHANGELOG_FORMAT_VERSION :: u8 where "CHANGELOG_FORMAT_VERSION = 2"

fun event_type_byte :: "EventType \<Rightarrow> u8" where
  "event_type_byte Put = 0"
| "event_type_byte Delete = 1"
| "event_type_byte Txn = 2"
| "event_type_byte Lease = 3"

definition change_to_bytes :: "KeyValueChange \<Rightarrow> bytes" where
  "change_to_bytes c =
    u32_bytes (of_nat (length (ch_key c))) @ ch_key c @
    (case ch_value c of
       Some v \<Rightarrow> [1] @ u32_bytes (of_nat (length v)) @ v
     | None \<Rightarrow> [0])"

definition ChangeEvent_to_bytes :: "ChangeEvent \<Rightarrow> bytes" where
  "ChangeEvent_to_bytes e =
    [CHANGELOG_FORMAT_VERSION] @ u64_bytes (ev_revision e) @ [event_type_byte (ev_event_type e)] @
    u32_bytes (of_nat (length (ev_changes e))) @ concat (map change_to_bytes (ev_changes e))"

text \<open>The decoding loop: \<open>n\<close> changes from \<open>offset\<close> on.\<close>

fun parse_changes :: "bytes \<Rightarrow> nat \<Rightarrow> nat \<Rightarrow> KeyValueChange list result" where
  "parse_changes data 0 offset = Inr []"
| "parse_changes data (Suc n) offset =
    (if length data < offset + 4 then Inl DataCorruption
     else
       let key_len = unat (u32_of (subslice offset (offset + 4) data));
           offset = offset + 4
       in if length data < offset + key_len then Inl DataCorruption
          else
            let key = subslice offset (offset + key_len) data;
                offset = offset + key_len
            in if length data \<le> offset then Inl DataCorruption
               else
                 let has_value = (data ! offset = 1);
                     offset = offset + 1
                 in if has_value then
                      (if length data < offset + 4 then Inl DataCorruption
                       else
                         let val_len = unat (u32_of (subslice offset (offset + 4) data));
                             offset = offset + 4
                         in if length data < offset + val_len then Inl DataCorruption
                            else
                              bind_result (parse_changes data n (offset + val_len)) (\<lambda>rest.
                                Inr (\<lparr>ch_key = key,
                                      ch_value = Some (subslice offset (offset + val_len) data),
                                      ch_prev_value = None\<rparr> # rest)))
                    else
                      bind_result (parse_changes data n offset) (\<lambda>rest.
                        Inr (\<lparr>ch_key = key, ch_value = None, ch_prev_value = None\<rparr> # rest)))"

text \<open>
  The length guard admits 13 bytes, but the version-2 header has 14: reading
  the change count of such an input is a slice out of range.
\<close>

definition ChangeEvent_from_bytes :: "bytes \<Rightarrow> ChangeEvent result" where
  "ChangeEvent_from_bytes data =
    (if length data < 13 then Inl DataCorruption
     else
       let (revision_start, event_type_pos) =
             (if data ! 0 = CHANGELOG_FORMAT_VERSION then (1, 9) else (0, 8));
           revision = u64_of (subslice revision_start (revision_start + 8) data)
       in bind_result
            (let t = data ! event_type_pos
             in if t = 0 then Inr Put else if t = 1 then Inr Delete
                else if t = 2 then Inr Txn else if t = 3 then Inr Lease
                else Inl DataCorruption)
            (\<lambda>event_type.
              if length data < event_type_pos + 5 then Inl Panic
              else
                let num_changes =
                      unat (u32_of (subslice (event_type_pos + 1) (event_type_pos + 5) data))
                in bind_result (parse_changes data num_changes (event_type_pos + 5)) (\<lambda>changes.
                     Inr \<lparr>ev_revision = revision, ev_changes = changes,
                          ev_event_type = event_type\<rparr>)))"

section \<open>Round trips\<close>

text \<open>
  The contract of a record layout, and what a client of a table may conclude:
  a row that was written can be read back.
\<close>

locale codec =
  fixes enc :: "'a \<Rightarrow> bytes" and dec :: "bytes \<Rightarrow> 'a option" and valid :: "'a \<Rightarrow> bool"
  assumes round_trip: "valid x \<Longrightarrow> dec (enc x) = Some x"
begin

lemma enc_inject: "valid x \<Longrightarrow> valid y \<Longrightarrow> enc x = enc y \<longleftrightarrow> x = y"
  by (metis option.inject round_trip)

lemma read_back: "valid x \<Longrightarrow> Option.bind (tx_get (tx_insert d t k (enc x)) t k) dec = Some x"
  by (simp add: tx_get_insert round_trip)

end

lemma subslice_u64 [simp]:
  "subslice (length xs) (length xs + 8) (xs @ u64_bytes w @ ys) = u64_bytes w"
  by simp

lemma KvMetadata_round_trip: "KvMetadata_from_bytes (KvMetadata_to_bytes m) = Some m"
  by (simp add: KvMetadata_from_bytes_def KvMetadata_to_bytes_def Let_def subslice_append_skip
      nth_append)

interpretation kv_meta_codec: codec KvMetadata_to_bytes KvMetadata_from_bytes "\<lambda>_. True"
  by unfold_locales (simp add: KvMetadata_round_trip)

interpretation applied_codec: codec AppliedLogId_to_bytes AppliedLogId_from_bytes "\<lambda>_. True"
  by unfold_locales
    (simp add: AppliedLogId_from_bytes_def AppliedLogId_to_bytes_def get_slice_def subslice_append_skip)

interpretation lease_codec: codec LeaseRecord_to_bytes LeaseRecord_from_bytes "\<lambda>_. True"
  by unfold_locales
    (simp add: LeaseRecord_from_bytes_def LeaseRecord_to_bytes_def subslice_append_skip)


lemma subslice_Cons: "0 < a \<Longrightarrow> subslice a b (x # xs) = subslice (a - 1) (b - 1) xs"
  by (cases a; cases b) (simp_all add: subslice_def)

definition LeaseV2Record_valid :: "LeaseV2Record \<Rightarrow> bool" where
  "LeaseV2Record_valid r \<longleftrightarrow> length (l2_grant_request_id r) \<le> 65535"

lemma LeaseV2Record_round_trip:
  assumes "LeaseV2Record_valid r"
  shows "LeaseV2Record_from_bytes (LeaseV2Record_to_bytes r) = Some r"
proof -
  let ?id = "l2_grant_request_id r"
  have len: "min (length ?id) 65535 = length ?id" "be_val (be_bytes 2 (length ?id)) = length ?id"
    using assms by (simp_all add: LeaseV2Record_valid_def be_val_be_bytes)
  show ?thesis
    by (simp add: LeaseV2Record_from_bytes_def LeaseV2Record_to_bytes_def Let_def len
        subslice_append_skip nth_append nth_Cons' subslice_Cons)
qed

interpretation lease_v2_codec: codec LeaseV2Record_to_bytes LeaseV2Record_from_bytes LeaseV2Record_valid
  by unfold_locales (rule LeaseV2Record_round_trip)

definition fence_to_bytes :: "DirectWriteFence \<Rightarrow> bytes" where
  "fence_to_bytes f = encode_direct_write_fence (df_start_key f) (df_end_key f) (df_op_id f)"

lemma unat_of_nat_u32: "n < 2 ^ 32 \<Longrightarrow> unat (of_nat n :: u32) = n"
  by (simp add: unat_of_nat take_bit_nat_eq_self)

interpretation fence_codec: codec fence_to_bytes decode_direct_write_fence
  "\<lambda>f. length (df_start_key f) < 2 ^ 32"
  by unfold_locales
    (simp add: fence_to_bytes_def encode_direct_write_fence_def decode_direct_write_fence_def
      get_slice_def subslice_append_skip unat_of_nat_u32 Let_def)

interpretation u64_codec: codec u64_bytes decode_u64 "\<lambda>_. True"
  by unfold_locales (simp add: decode_u64_def)

text \<open>A change event survives when every length fits its 32-bit field.\<close>

definition change_valid :: "KeyValueChange \<Rightarrow> bool" where
  "change_valid c \<longleftrightarrow> length (ch_key c) < 2 ^ 32 \<and> ch_prev_value c = None \<and>
    (case ch_value c of None \<Rightarrow> True | Some v \<Rightarrow> length v < 2 ^ 32)"

definition event_valid :: "ChangeEvent \<Rightarrow> bool" where
  "event_valid e \<longleftrightarrow> length (ev_changes e) < 2 ^ 32 \<and> (\<forall>c \<in> set (ev_changes e). change_valid c)"

lemma subslice_mid: "subslice (length pre) (length pre + length xs) (pre @ xs @ ys) = xs"
  by simp

lemma parse_changes_round_trip:
  "\<forall>c \<in> set cs. change_valid c \<Longrightarrow>
   parse_changes (pre @ concat (map change_to_bytes cs)) (length cs) (length pre) = Inr cs"
proof (induction cs arbitrary: pre)
  case (Cons c cs)
  let ?k = "ch_key c" and ?rest = "concat (map change_to_bytes cs)"
  have k: "unat (of_nat (length ?k) :: u32) = length ?k"
    using Cons.prems by (simp add: change_valid_def unat_of_nat_u32)
  have IH: "parse_changes (pre @ change_to_bytes c @ ?rest) (length cs)
      (length pre + length (change_to_bytes c)) = Inr cs"
    using Cons.IH [of "pre @ change_to_bytes c"] Cons.prems by simp
  show ?case
  proof (cases "ch_value c")
    case None
    then have c: "c = \<lparr>ch_key = ?k, ch_value = None, ch_prev_value = None\<rparr>"
      and enc: "change_to_bytes c = u32_bytes (of_nat (length ?k)) @ ?k @ [0]"
      using Cons.prems by (simp_all add: change_valid_def change_to_bytes_def)
    show ?thesis
      using IH k c by (simp add: enc subslice_append_skip nth_append Let_def ac_simps)
  next
    case (Some v)
    then have v: "unat (of_nat (length v) :: u32) = length v"
      and c: "c = \<lparr>ch_key = ?k, ch_value = Some v, ch_prev_value = None\<rparr>"
      and enc: "change_to_bytes c =
        u32_bytes (of_nat (length ?k)) @ ?k @ [1] @ u32_bytes (of_nat (length v)) @ v"
      using Cons.prems by (simp_all add: change_valid_def unat_of_nat_u32 change_to_bytes_def)
    show ?thesis
      using IH k v c by (simp add: enc subslice_append_skip subslice_Cons nth_append Let_def ac_simps)
  qed
qed simp


lemma event_type_byte_cases:
  "event_type_byte t = 0 \<longleftrightarrow> t = Put" "event_type_byte t = 1 \<longleftrightarrow> t = Delete"
  "event_type_byte t = 2 \<longleftrightarrow> t = Txn" "event_type_byte t = 3 \<longleftrightarrow> t = Lease"
  by (cases t; simp)+

lemma ChangeEvent_round_trip:
  assumes "event_valid e"
  shows "ChangeEvent_from_bytes (ChangeEvent_to_bytes e) = Inr e"
proof -
  let ?cs = "ev_changes e"
  let ?head = "[2] @ u64_bytes (ev_revision e) @ [event_type_byte (ev_event_type e)] @
    u32_bytes (of_nat (length ?cs))"
  have n: "unat (of_nat (length ?cs) :: u32) = length ?cs"
    using assms by (simp add: event_valid_def unat_of_nat_u32)
  have "parse_changes (?head @ concat (map change_to_bytes ?cs)) (length ?cs) (length ?head) = Inr ?cs"
    using assms by (intro parse_changes_round_trip) (simp add: event_valid_def)
  then show ?thesis
    by (cases "ev_event_type e")
       (simp_all add: ChangeEvent_from_bytes_def ChangeEvent_to_bytes_def CHANGELOG_FORMAT_VERSION_def
        Let_def nth_append subslice_Cons subslice_append_skip n)
qed

interpretation event_codec: codec ChangeEvent_to_bytes
  "\<lambda>bs. case ChangeEvent_from_bytes bs of Inl _ \<Rightarrow> None | Inr e \<Rightarrow> Some e" event_valid
  by unfold_locales (simp add: ChangeEvent_round_trip)

section \<open>Keys that keep an order\<close>

text \<open>
  Tables that a scan must visit in numeric order are keyed by a constant
  prefix and the big-endian number.
\<close>

locale ordered_key =
  fixes encode :: "u64 \<Rightarrow> bytes" and pfx :: bytes
  assumes encode_eq: "encode n = pfx @ u64_bytes n"
begin

lemma encode_less [simp]: "encode a < encode b \<longleftrightarrow> a < b"
  by (simp add: encode_eq)

lemma encode_le [simp]: "encode a \<le> encode b \<longleftrightarrow> a \<le> b"
  by (simp add: encode_eq)

lemma encode_inject [simp]: "encode a = encode b \<longleftrightarrow> a = b"
  by (simp add: encode_eq)

lemma encode_prefix [simp]: "prefix pfx (encode a)"
  by (simp add: encode_eq)

text \<open>A scan of the prefix meets the numbers in ascending order.\<close>

lemma scan_ascending:
  assumes "db_ok d" "\<And>k v. (k, v) \<in> set (tx_iter_prefix d t pfx) \<Longrightarrow> \<exists>n. k = encode n"
  shows "sorted_wrt (\<lambda>r s. \<forall>a b. fst r = encode a \<longrightarrow> fst s = encode b \<longrightarrow> a < b)
           (tx_iter_prefix d t pfx)"
  using tx_iter_prefix_sorted [OF assms(1), of t pfx]
  by (auto simp: keys_sorted_def sorted_wrt_map elim!: sorted_wrt_mono_rel [rotated])

end

interpretation changelog_key: ordered_key encode_changelog_key CHANGELOG_PREFIX
  by unfold_locales (simp add: encode_changelog_key_def)

interpretation decision_key: ordered_key encode_sequencer_decision_key SEQUENCER_DECISION_PREFIX
  by unfold_locales (simp add: encode_sequencer_decision_key_def)

interpretation lease_key: ordered_key encode_lease_key LEASE_PREFIX
  by unfold_locales (simp add: encode_lease_key_def)

interpretation lease_v2_key: ordered_key encode_lease_v2_key LEASE_V2_PREFIX
  by unfold_locales (simp add: encode_lease_v2_key_def)

interpretation pd_op_key: ordered_key encode_pd_op_key PD_QUEUE_PREFIX
  by unfold_locales (simp add: encode_pd_op_key_def)

interpretation pd_intent_key: ordered_key encode_pd_intent_key PD_INTENT_PREFIX
  by unfold_locales (simp add: encode_pd_intent_key_def)

lemma encode_kv_key_inject [simp]: "encode_kv_key a = encode_kv_key b \<longleftrightarrow> a = b"
  by (simp add: encode_kv_key_def)

lemma encode_kv_meta_key_inject [simp]: "encode_kv_meta_key a = encode_kv_meta_key b \<longleftrightarrow> a = b"
  by (simp add: encode_kv_meta_key_def)

lemma decode_encode_kv_key [simp]: "decode_kv_key (encode_kv_key k) = Some k"
  by (simp add: decode_kv_key_def encode_kv_key_def)

lemma decode_kv_key_Some: "decode_kv_key k = Some u \<longleftrightarrow> k = encode_kv_key u"
  by (simp add: decode_kv_key_def encode_kv_key_def strip_prefix_Some)

lemma encode_kv_key_less [simp]:
  "encode_kv_key a < encode_kv_key b \<longleftrightarrow> a < b" "encode_kv_key a \<le> encode_kv_key b \<longleftrightarrow> a \<le> b"
  by (simp_all add: encode_kv_key_def)

section \<open>Properties\<close>

text \<open>C20: A changelog entry whose lengths fit their 32-bit fields is decoded to the event
  that was encoded, except for the previous values: the entry does not hold them,
  so every change comes back without one.\<close>

theorem change_event_round_trip:
  assumes "length (ev_changes e) < 2 ^ 32"
    and "\<And>c. c \<in> set (ev_changes e) \<Longrightarrow>
      length (ch_key c) < 2 ^ 32 \<and> (case ch_value c of Some v \<Rightarrow> length v < 2 ^ 32 | None \<Rightarrow> True)"
  shows "ChangeEvent_from_bytes (ChangeEvent_to_bytes e) =
    Inr (e\<lparr>ev_changes := map (\<lambda>c. c\<lparr>ch_prev_value := None\<rparr>) (ev_changes e)\<rparr>)"
proof -
  let ?e = "e\<lparr>ev_changes := map (\<lambda>c. c\<lparr>ch_prev_value := None\<rparr>) (ev_changes e)\<rparr>"
  have "change_to_bytes (c\<lparr>ch_prev_value := None\<rparr>) = change_to_bytes c" for c by (simp add: change_to_bytes_def)
  then have "ChangeEvent_to_bytes e = ChangeEvent_to_bytes ?e" by (simp add: ChangeEvent_to_bytes_def comp_def)
  moreover have "event_valid ?e" using assms by (auto simp: event_valid_def change_valid_def split: option.splits)
  ultimately show ?thesis using ChangeEvent_round_trip [of ?e] by simp
qed

definition sample_event :: ChangeEvent where
  "sample_event =
    \<lparr>ev_revision = 7,
     ev_changes = [\<lparr>ch_key = [1, 2], ch_value = Some [3], ch_prev_value = None\<rparr>,
                   \<lparr>ch_key = [4], ch_value = None, ch_prev_value = Some [9]\<rparr>],
     ev_event_type = Txn\<rparr>"

theorem change_event_round_trip_witness:
  "ChangeEvent_from_bytes (ChangeEvent_to_bytes sample_event) =
    Inr \<lparr>ev_revision = 7,
         ev_changes = [\<lparr>ch_key = [1, 2], ch_value = Some [3], ch_prev_value = None\<rparr>,
                       \<lparr>ch_key = [4], ch_value = None, ch_prev_value = None\<rparr>],
         ev_event_type = Txn\<rparr>"
proof -
  have "length (ev_changes sample_event) < 2 ^ 32" by (simp add: sample_event_def)
  moreover have "length (ch_key c) < 2 ^ 32 \<and> (case ch_value c of Some v \<Rightarrow> length v < 2 ^ 32 | None \<Rightarrow> True)"
    if "c \<in> set (ev_changes sample_event)" for c
    using that by (auto simp: sample_event_def)
  ultimately show ?thesis using change_event_round_trip [of sample_event] by (simp add: sample_event_def)
qed

text \<open>The length guard of the changelog decoder is one byte short: a 13-byte entry that
  starts with the version byte passes it and the read of the change count runs
  out of the slice.\<close>

theorem change_event_short_panics:
  "ChangeEvent_from_bytes [2, 0, 0, 0, 0, 0, 0, 0, 0, 0, 0, 0, 0] = Inl Panic"
  by code_simp

end
