(* ===== verification/Barrier.thy ===== *)
theory Barrier
  imports Prelude
begin

text \<open>
  The storage barrier (\<open>coord-server/src/security/barrier.rs\<close>) and the key
  lookups of the keyring it uses (\<open>key_management.rs\<close>). AES-256-GCM and the LRU
  cache are other crates: the cipher is the pair of functions of \<open>aead\<close>, the
  cache is what its \<open>peek\<close> returns, and a nonce is an argument.
\<close>

section \<open>Definitions\<close>

record aead =
  aead_encrypt :: "bytes \<Rightarrow> bytes \<Rightarrow> bytes \<Rightarrow> bytes option"
  aead_decrypt :: "bytes \<Rightarrow> bytes \<Rightarrow> bytes \<Rightarrow> bytes option"

record KeyringInner =
  kek :: bytes
  kr_active_dek :: bytes
  kr_active_key_id :: u32
  next_key_id :: u32
  dek_cache :: "u32 \<Rightarrow> bytes option"
  sealed :: bool

definition active_dek :: "KeyringInner \<Rightarrow> (u32 \<times> bytes) result" where
  "active_dek kr = (if sealed kr then Inl Crypto else Inr (kr_active_key_id kr, kr_active_dek kr))"

definition get_dek :: "KeyringInner \<Rightarrow> u32 \<Rightarrow> bytes result" where
  "get_dek kr key_id =
    (if sealed kr then Inl Crypto
     else if key_id = kr_active_key_id kr then Inr (kr_active_dek kr)
     else ok_or Crypto (dek_cache kr key_id))"

definition seal :: "KeyringInner \<Rightarrow> KeyringInner" where
  "seal kr = kr\<lparr>kek := replicate (length (kek kr)) 0,
                kr_active_dek := replicate (length (kr_active_dek kr)) 0,
                dek_cache := (\<lambda>_. None), sealed := True\<rparr>"

definition MIN_CIPHERTEXT_LEN :: nat where "MIN_CIPHERTEXT_LEN = 4 + 12 + 16"

definition barrier_encrypt :: "aead \<Rightarrow> KeyringInner \<Rightarrow> bytes \<Rightarrow> bytes \<Rightarrow> bytes result" where
  "barrier_encrypt ae kr nonce plaintext =
    (if sealed kr then Inl Crypto
     else bind_result (active_dek kr) (\<lambda>(key_id, dek).
       bind_result (ok_or Crypto (aead_encrypt ae dek nonce plaintext)) (\<lambda>ciphertext.
         Inr (u32_bytes key_id @ nonce @ ciphertext))))"

definition barrier_decrypt :: "aead \<Rightarrow> KeyringInner \<Rightarrow> bytes \<Rightarrow> bytes result" where
  "barrier_decrypt ae kr encrypted =
    (if length encrypted < MIN_CIPHERTEXT_LEN then Inl Crypto
     else
       let key_id = u32_of (take 4 encrypted);
           nonce = subslice 4 16 encrypted;
           ciphertext = drop 16 encrypted
       in bind_result (get_dek kr key_id) (\<lambda>dek.
            ok_or Crypto (aead_decrypt ae dek nonce ciphertext)))"

definition try_decrypt :: "aead \<Rightarrow> KeyringInner \<Rightarrow> bytes \<Rightarrow> bytes option" where
  "try_decrypt ae kr encrypted =
    (case barrier_decrypt ae kr encrypted of Inl _ \<Rightarrow> None | Inr p \<Rightarrow> Some p)"

section \<open>What the cipher promises\<close>

text \<open>
  The documented behaviour of an AEAD with a 16-byte tag: a ciphertext is the
  plaintext's length plus the tag, and opens under the key and nonce it was
  sealed with.
\<close>

definition aead_ok :: "aead \<Rightarrow> bool" where
  "aead_ok ae \<longleftrightarrow>
    (\<forall>k n p c. aead_encrypt ae k n p = Some c \<longrightarrow>
       length c = length p + 16 \<and> aead_decrypt ae k n c = Some p)"

lemma aead_okD:
  assumes "aead_ok ae" "aead_encrypt ae k n p = Some c"
  shows "length c = length p + 16" "aead_decrypt ae k n c = Some p"
  using assms by (auto simp: aead_ok_def)

lemma barrier_decrypt_encrypt:
  assumes "aead_ok ae" "length nonce = 12" "barrier_encrypt ae kr nonce p = Inr c"
  shows "barrier_decrypt ae kr c = Inr p" "length c = length p + 32"
  using assms
  by (auto simp: barrier_encrypt_def barrier_decrypt_def active_dek_def get_dek_def
      MIN_CIPHERTEXT_LEN_def subslice_append_skip aead_okD split: if_splits)

section \<open>Properties\<close>

text \<open>What the barrier encrypts it decrypts to the same plaintext, at a cost of
  exactly 32 bytes.\<close>

theorem barrier_round_trip:
  assumes "aead_ok ae" "length nonce = 12" "barrier_encrypt ae kr nonce p = Inr c"
  shows "barrier_decrypt ae kr c = Inr p \<and> length c = length p + 32"
  using barrier_decrypt_encrypt [OF assms] by simp

text \<open>A cipher that satisfies the contract (for evaluation only).\<close>

definition tag_cipher :: aead where
  "tag_cipher =
    \<lparr>aead_encrypt = (\<lambda>k n p. Some (p @ replicate 16 0)),
     aead_decrypt = (\<lambda>k n c. if drop (length c - 16) c = replicate 16 0
                             then Some (take (length c - 16) c) else None)\<rparr>"

definition sample_keyring :: KeyringInner where
  "sample_keyring =
    \<lparr>kek = [], kr_active_dek = replicate 32 7, kr_active_key_id = 1, next_key_id = 2,
     dek_cache = (\<lambda>_. None), sealed = False\<rparr>"

lemma tag_cipher_ok: "aead_ok tag_cipher"
  by (simp add: aead_ok_def tag_cipher_def)

theorem barrier_round_trip_witness:
  "barrier_encrypt tag_cipher sample_keyring (replicate 12 9) [1, 2, 3] =
     Inr (u32_bytes 1 @ replicate 12 9 @ [1, 2, 3] @ replicate 16 0) \<and>
   barrier_decrypt tag_cipher sample_keyring
     (u32_bytes 1 @ replicate 12 9 @ [1, 2, 3] @ replicate 16 0) = Inr [1, 2, 3]"
proof -
  have "barrier_encrypt tag_cipher sample_keyring (replicate 12 9) [1, 2, 3] =
      Inr (u32_bytes 1 @ replicate 12 9 @ [1, 2, 3] @ replicate 16 0)"
    by (simp add: barrier_encrypt_def active_dek_def tag_cipher_def sample_keyring_def)
  then show ?thesis
    using barrier_round_trip [OF tag_cipher_ok, of "replicate 12 9" sample_keyring "[1, 2, 3]"]
    by simp
qed

text \<open>After a seal, neither encryption nor decryption of any ciphertext succeeds.\<close>

theorem sealed_refuses:
  "barrier_encrypt ae (seal kr) nonce p = Inl Crypto \<and> barrier_decrypt ae (seal kr) c = Inl Crypto"
  by (simp add: barrier_encrypt_def barrier_decrypt_def get_dek_def seal_def Let_def)

end
