(* ===== verification/Mvcc.thy ===== *)
theory Mvcc
  imports Kv_Range Mvcc_Codec Barrier
begin

text \<open>
  The multi-version store of \<open>coord-server/src/storage/mvcc.rs\<close>: revisions,
  puts, deletes, range deletes and live reads. Every mutation is one backend
  transaction that writes the data row, its metadata, a changelog entry and
  the applied position. Device errors of the backend are not modelled; a
  write is \<open>backend_write\<close>, so an error inside the closure rolls back.
\<close>

section \<open>State\<close>

datatype RevisionPolicy = PolicyLogIndex | PolicyCommitTs

datatype RevisionMode = LogIndex | CommitTs

record MvccStorage =
  backend :: db
  barrier :: "(aead \<times> KeyringInner) option"
  revision_mode :: RevisionMode

definition new_with_revision_mode :: "db \<Rightarrow> RevisionMode \<Rightarrow> MvccStorage" where
  "new_with_revision_mode d mode = \<lparr>backend = d, barrier = None, revision_mode = mode\<rparr>"

definition set_barrier :: "MvccStorage \<Rightarrow> aead \<times> KeyringInner \<Rightarrow> MvccStorage" where
  "set_barrier s b = s\<lparr>barrier := Some b\<rparr>"

record ApplyOutcome =
  replayed :: bool

record DeleteRangeOutcome =
  dr_deleted_keys :: "bytes list"
  dr_replayed :: bool

definition write_store :: "MvccStorage \<Rightarrow> (db \<Rightarrow> ('a \<times> db) result) \<Rightarrow> 'a result \<times> MvccStorage" where
  "write_store s f = (case backend_write (backend s) f of (r, d) \<Rightarrow> (r, s\<lparr>backend := d\<rparr>))"

definition encrypt_value :: "MvccStorage \<Rightarrow> bytes \<Rightarrow> bytes \<Rightarrow> bytes \<Rightarrow> bytes result" where
  "encrypt_value s nonce internal_key value =
    (if \<not> prefix KV_PREFIX internal_key then Inr value
     else case barrier s of
            Some (ae, kr) \<Rightarrow> barrier_encrypt ae kr nonce value
          | None \<Rightarrow> Inr value)"

definition decrypt_value :: "MvccStorage \<Rightarrow> bytes \<Rightarrow> bytes \<Rightarrow> bytes result" where
  "decrypt_value s internal_key encrypted =
    (if \<not> prefix KV_PREFIX internal_key then Inr encrypted
     else case barrier s of
            Some (ae, kr) \<Rightarrow>
              (if 32 \<le> length encrypted then barrier_decrypt ae kr encrypted else Inr encrypted)
          | None \<Rightarrow> Inr encrypted)"

section \<open>Revisions\<close>

definition applied_in_tx :: "db \<Rightarrow> AppliedLogId option" where
  "applied_in_tx d = Option.bind (tx_get d T_meta META_LAST_APPLIED) AppliedLogId_from_bytes"

definition current_revision_in_tx :: "db \<Rightarrow> RevisionMode \<Rightarrow> u64" where
  "current_revision_in_tx d mode =
    (case Option.bind (tx_get d T_meta META_CURRENT_REVISION) decode_u64 of
       Some revision \<Rightarrow> revision
     | None \<Rightarrow>
         (case mode of
            LogIndex \<Rightarrow> (case applied_in_tx d of Some a \<Rightarrow> ali_index a | None \<Rightarrow> 0)
          | CommitTs \<Rightarrow> 0))"

definition get_applied_log_id :: "MvccStorage \<Rightarrow> AppliedLogId option" where
  "get_applied_log_id s = applied_in_tx (backend s)"

definition current_revision :: "MvccStorage \<Rightarrow> u64" where
  "current_revision s =
    (case Option.bind (tx_get (backend s) T_meta META_CURRENT_REVISION) decode_u64 of
       Some revision \<Rightarrow> revision
     | None \<Rightarrow>
         (case revision_mode s of
            LogIndex \<Rightarrow> (case get_applied_log_id s of Some a \<Rightarrow> ali_index a | None \<Rightarrow> 0)
          | CommitTs \<Rightarrow> 0))"

definition accept_log_index_revision :: "RevisionMode \<Rightarrow> db \<Rightarrow> u64 \<Rightarrow> db result" where
  "accept_log_index_revision mode d revision =
    (if mode = CommitTs then Inr d
     else
       let current = current_revision_in_tx d mode
       in if revision \<le> current then Inl (CommitRejected revision current)
          else Inr (tx_insert d T_meta META_CURRENT_REVISION (u64_bytes revision)))"

definition accept_commit_ts :: "RevisionMode \<Rightarrow> db \<Rightarrow> u64 \<Rightarrow> db result" where
  "accept_commit_ts mode d commit_ts =
    (let current = current_revision_in_tx d mode
     in if commit_ts \<le> current then Inl (CommitRejected commit_ts current)
        else Inr (tx_insert d T_meta META_CURRENT_REVISION (u64_bytes commit_ts)))"

definition accept_revision :: "RevisionMode \<Rightarrow> db \<Rightarrow> u64 \<Rightarrow> RevisionPolicy \<Rightarrow> db result" where
  "accept_revision mode d revision policy =
    (case policy of
       PolicyLogIndex \<Rightarrow> accept_log_index_revision mode d revision
     | PolicyCommitTs \<Rightarrow> accept_commit_ts mode d revision)"

definition note_log_index_revision :: "RevisionMode \<Rightarrow> db \<Rightarrow> u64 \<Rightarrow> db" where
  "note_log_index_revision mode d revision =
    (if mode = LogIndex \<and> current_revision_in_tx d LogIndex < revision
     then tx_insert d T_meta META_CURRENT_REVISION (u64_bytes revision)
     else d)"

definition put_applied :: "db \<Rightarrow> AppliedLogId \<Rightarrow> db" where
  "put_applied d applied = tx_insert d T_meta META_LAST_APPLIED (AppliedLogId_to_bytes applied)"

definition set_last_applied :: "MvccStorage \<Rightarrow> AppliedLogId \<Rightarrow> unit result \<times> MvccStorage" where
  "set_last_applied s applied =
    write_store s (\<lambda>d.
      Inr ((), note_log_index_revision (revision_mode s) (put_applied d applied) (ali_index applied)))"

definition persist_applied ::
    "MvccStorage \<Rightarrow> u64 \<Rightarrow> AppliedLogId \<Rightarrow> unit result \<times> MvccStorage" where
  "persist_applied s revision applied =
    write_store s (\<lambda>d.
      Inr ((), note_log_index_revision (revision_mode s) (put_applied d applied) revision))"

section \<open>Changelog guards\<close>

definition changelog_contains_revision :: "MvccStorage \<Rightarrow> u64 \<Rightarrow> bool" where
  "changelog_contains_revision s revision =
    (tx_get (backend s) T_changelog (encode_changelog_key revision) \<noteq> None)"

definition changelog_event_at :: "MvccStorage \<Rightarrow> u64 \<Rightarrow> ChangeEvent option result" where
  "changelog_event_at s revision =
    (case tx_get (backend s) T_changelog (encode_changelog_key revision) of
       None \<Rightarrow> Inr None
     | Some bs \<Rightarrow> bind_result (ChangeEvent_from_bytes bs) (\<lambda>e. Inr (Some e)))"

text \<open>
  The replay guard every mutation starts with: \<open>Some r\<close> is the early return.
  A log-index replay is recognised by its revision alone, a \<open>commit_ts\<close> replay
  only when the recorded event is the same write.
\<close>

definition replay_guard ::
    "MvccStorage \<Rightarrow> u64 \<Rightarrow> RevisionPolicy \<Rightarrow> (ChangeEvent \<Rightarrow> bool) \<Rightarrow> ApplyOutcome result option" where
  "replay_guard s revision policy same =
    (if policy = PolicyCommitTs then
       (case changelog_event_at s revision of
          Inl e \<Rightarrow> Some (Inl e)
        | Inr None \<Rightarrow> None
        | Inr (Some ev) \<Rightarrow>
            (if same ev then Some (Inr \<lparr>replayed = True\<rparr>)
             else Some (Inl (CommitRejected revision (current_revision s)))))
     else if changelog_contains_revision s revision then Some (Inr \<lparr>replayed = True\<rparr>)
     else None)"

definition put_event :: "db \<Rightarrow> ChangeEvent \<Rightarrow> db" where
  "put_event d e =
    tx_insert d T_changelog (encode_changelog_key (ev_revision e)) (ChangeEvent_to_bytes e)"

definition kv_metadata_in_tx :: "db \<Rightarrow> bytes \<Rightarrow> KvMetadata option" where
  "kv_metadata_in_tx d key =
    Option.bind (tx_get d T_kv_meta (encode_kv_meta_key key)) KvMetadata_from_bytes"

definition put_metadata :: "db \<Rightarrow> bytes \<Rightarrow> KvMetadata \<Rightarrow> db" where
  "put_metadata d key m = tx_insert d T_kv_meta (encode_kv_meta_key key) (KvMetadata_to_bytes m)"

section \<open>Put\<close>

definition put_tx ::
    "MvccStorage \<Rightarrow> bytes \<Rightarrow> bytes \<Rightarrow> bytes \<Rightarrow> i64 option \<Rightarrow> u64 \<Rightarrow> AppliedLogId \<Rightarrow> RevisionPolicy \<Rightarrow>
     db \<Rightarrow> (ApplyOutcome \<times> db) result" where
  "put_tx s nonce key value lease revision applied policy d =
    bind_result (accept_revision (revision_mode s) d revision policy) (\<lambda>d.
      let lid = (case lease of Some l \<Rightarrow> l | None \<Rightarrow> 0);
          internal_key = encode_kv_key key;
          meta = (case kv_metadata_in_tx d key of
                    Some m \<Rightarrow> update_meta m revision lid
                  | None \<Rightarrow> new_key revision lid)
      in bind_result (encrypt_value s nonce internal_key value) (\<lambda>encrypted.
           let d = tx_insert d T_kv internal_key encrypted;
               d = put_metadata d key meta;
               d = put_event d \<lparr>ev_revision = revision,
                                ev_changes = [\<lparr>ch_key = key, ch_value = Some value,
                                               ch_prev_value = None\<rparr>],
                                ev_event_type = Put\<rparr>
           in Inr (\<lparr>replayed = False\<rparr>, put_applied d applied)))"

definition put_at_key ::
    "MvccStorage \<Rightarrow> bytes \<Rightarrow> bytes \<Rightarrow> bytes \<Rightarrow> i64 option \<Rightarrow> u64 \<Rightarrow> AppliedLogId \<Rightarrow> RevisionPolicy \<Rightarrow>
     ApplyOutcome result \<times> MvccStorage" where
  "put_at_key s nonce key value lease revision applied policy =
    (case replay_guard s revision policy
            (\<lambda>ev. length (ev_changes ev) = 1 \<and> ch_key (ev_changes ev ! 0) = key \<and>
                  ch_value (ev_changes ev ! 0) = Some value) of
       Some r \<Rightarrow> (r, s)
     | None \<Rightarrow> write_store s (put_tx s nonce key value lease revision applied policy))"

definition put_at_revision ::
    "MvccStorage \<Rightarrow> bytes \<Rightarrow> bytes \<Rightarrow> bytes \<Rightarrow> i64 option \<Rightarrow> u64 \<Rightarrow> AppliedLogId \<Rightarrow>
     ApplyOutcome result \<times> MvccStorage" where
  "put_at_revision s nonce key value lease revision applied =
    put_at_key s nonce key value lease revision applied PolicyLogIndex"

definition put_at_commit_ts ::
    "MvccStorage \<Rightarrow> bytes \<Rightarrow> bytes \<Rightarrow> bytes \<Rightarrow> i64 option \<Rightarrow> u64 \<Rightarrow> AppliedLogId \<Rightarrow>
     ApplyOutcome result \<times> MvccStorage" where
  "put_at_commit_ts s nonce key value lease commit_ts applied =
    (if commit_ts = 0 then (Inl InvalidArgument, s)
     else put_at_key s nonce key value lease commit_ts applied PolicyCommitTs)"

definition put :: "MvccStorage \<Rightarrow> bytes \<Rightarrow> bytes \<Rightarrow> bytes \<Rightarrow> i64 option \<Rightarrow> u64 result \<times> MvccStorage" where
  "put s nonce key value lease =
    (let revision = sat_add64 (current_revision s) 1
     in case put_at_revision s nonce key value lease revision (standalone revision) of
          (Inl e, s') \<Rightarrow> (Inl e, s')
        | (Inr _, s') \<Rightarrow> (Inr revision, s'))"

section \<open>Delete\<close>

definition delete_tx ::
    "MvccStorage \<Rightarrow> bytes \<Rightarrow> u64 \<Rightarrow> AppliedLogId \<Rightarrow> RevisionPolicy \<Rightarrow> db \<Rightarrow> (ApplyOutcome \<times> db) result" where
  "delete_tx s key revision applied policy d =
    bind_result (accept_revision (revision_mode s) d revision policy) (\<lambda>d.
      let d = (case kv_metadata_in_tx d key of
                 Some m \<Rightarrow> (if \<not> deleted m then put_metadata d key (mark_deleted m revision) else d)
               | None \<Rightarrow> d);
          d = put_event d \<lparr>ev_revision = revision,
                           ev_changes = [\<lparr>ch_key = key, ch_value = None, ch_prev_value = None\<rparr>],
                           ev_event_type = Delete\<rparr>
      in Inr (\<lparr>replayed = False\<rparr>, put_applied d applied))"

definition delete_at_key ::
    "MvccStorage \<Rightarrow> bytes \<Rightarrow> u64 \<Rightarrow> AppliedLogId \<Rightarrow> RevisionPolicy \<Rightarrow> ApplyOutcome result \<times> MvccStorage" where
  "delete_at_key s key revision applied policy =
    (case replay_guard s revision policy
            (\<lambda>ev. length (ev_changes ev) = 1 \<and> ch_key (ev_changes ev ! 0) = key \<and>
                  ch_value (ev_changes ev ! 0) = None) of
       Some r \<Rightarrow> (r, s)
     | None \<Rightarrow> write_store s (delete_tx s key revision applied policy))"

definition delete_at_revision ::
    "MvccStorage \<Rightarrow> bytes \<Rightarrow> u64 \<Rightarrow> AppliedLogId \<Rightarrow> ApplyOutcome result \<times> MvccStorage" where
  "delete_at_revision s key revision applied = delete_at_key s key revision applied PolicyLogIndex"

definition delete_at_commit_ts ::
    "MvccStorage \<Rightarrow> bytes \<Rightarrow> u64 \<Rightarrow> AppliedLogId \<Rightarrow> ApplyOutcome result \<times> MvccStorage" where
  "delete_at_commit_ts s key commit_ts applied =
    (if commit_ts = 0 then (Inl InvalidArgument, s)
     else delete_at_key s key commit_ts applied PolicyCommitTs)"

definition mvcc_delete :: "MvccStorage \<Rightarrow> bytes \<Rightarrow> u64 result \<times> MvccStorage" where
  "mvcc_delete s key =
    (let revision = sat_add64 (current_revision s) 1
     in case delete_at_revision s key revision (standalone revision) of
          (Inl e, s') \<Rightarrow> (Inl e, s')
        | (Inr _, s') \<Rightarrow> (Inr revision, s'))"

section \<open>Live reads\<close>

definition is_deleted :: "db \<Rightarrow> bytes \<Rightarrow> bool" where
  "is_deleted d key = (case kv_metadata_in_tx d key of Some m \<Rightarrow> deleted m | None \<Rightarrow> False)"

text \<open>An empty stored value is returned as it is, any other one is decrypted.\<close>

definition read_value :: "MvccStorage \<Rightarrow> bytes \<Rightarrow> bytes \<Rightarrow> bytes result" where
  "read_value s internal_key v = (if v = [] then Inr [] else decrypt_value s internal_key v)"

definition get :: "MvccStorage \<Rightarrow> bytes \<Rightarrow> bytes option result" where
  "get s key =
    (case tx_get (backend s) T_kv (encode_kv_key key) of
       Some data \<Rightarrow>
         (if is_deleted (backend s) key then Inr None
          else bind_result (read_value s (encode_kv_key key) data) (\<lambda>v. Inr (Some v)))
     | None \<Rightarrow> Inr None)"

definition get_kv_metadata :: "MvccStorage \<Rightarrow> bytes \<Rightarrow> KvMetadata option" where
  "get_kv_metadata s key = kv_metadata_in_tx (backend s) key"

text \<open>
  The loop of \<open>range\<close> and \<open>range_in\<close> over the scanned rows; \<open>stop\<close> is the
  defensive upper-bound test of the latter.
\<close>

fun range_loop ::
    "MvccStorage \<Rightarrow> (bytes \<Rightarrow> bool) \<Rightarrow> nat \<Rightarrow> (bytes \<times> bytes) list \<Rightarrow> rows \<Rightarrow> (bytes \<times> bytes) list result" where
  "range_loop s stop limit results [] = Inr results"
| "range_loop s stop limit results ((ik, v) # rest) =
    (if limit \<le> length results \<and> 0 < limit then Inr results
     else
       (case decode_kv_key ik of
          None \<Rightarrow> range_loop s stop limit results rest
        | Some user_key \<Rightarrow>
            (if stop user_key then Inr results
             else if is_deleted (backend s) user_key then range_loop s stop limit results rest
             else bind_result (read_value s ik v) (\<lambda>plaintext.
                    range_loop s stop limit (results @ [(user_key, plaintext)]) rest))))"

definition range_prefix :: "MvccStorage \<Rightarrow> bytes \<Rightarrow> nat \<Rightarrow> (bytes \<times> bytes) list result" where
  "range_prefix s pfx limit =
    range_loop s (\<lambda>_. False) limit [] (tx_iter_prefix (backend s) T_kv (encode_kv_key pfx))"

definition range_in :: "MvccStorage \<Rightarrow> bytes \<Rightarrow> bytes \<Rightarrow> nat \<Rightarrow> (bytes \<times> bytes) list result" where
  "range_in s start range_end limit =
    range_loop s (\<lambda>user_key. range_end \<noteq> [] \<and> range_end \<le> user_key) limit []
      (tx_iter_range (backend s) T_kv (encode_kv_key start) (encode_kv_key range_end))"

type_synonym VersionedKv = "bytes \<times> bytes \<times> KvMetadata"

fun range_meta_loop ::
    "MvccStorage \<Rightarrow> bytes \<Rightarrow> nat \<Rightarrow> VersionedKv list \<Rightarrow> rows \<Rightarrow> VersionedKv list result" where
  "range_meta_loop s range_end limit results [] = Inr results"
| "range_meta_loop s range_end limit results ((ik, v) # rest) =
    (if 0 < limit \<and> limit \<le> length results then Inr results
     else
       (case decode_kv_key ik of
          None \<Rightarrow> range_meta_loop s range_end limit results rest
        | Some user_key \<Rightarrow>
            (if range_end \<noteq> [] \<and> range_end \<le> user_key then Inr results
             else
               (case kv_metadata_in_tx (backend s) user_key of
                  None \<Rightarrow> Inl Internal
                | Some meta \<Rightarrow>
                    (if deleted meta then range_meta_loop s range_end limit results rest
                     else bind_result (read_value s ik v) (\<lambda>plaintext.
                            range_meta_loop s range_end limit
                              (results @ [(user_key, plaintext, meta)]) rest))))))"

definition range_in_with_metadata ::
    "MvccStorage \<Rightarrow> bytes \<Rightarrow> bytes \<Rightarrow> nat \<Rightarrow> (VersionedKv list \<times> u64) result" where
  "range_in_with_metadata s start range_end limit =
    (let revision = current_revision_in_tx (backend s) (revision_mode s);
         all = tx_iter_range (backend s) T_kv (encode_kv_key start) (encode_kv_key range_end)
     in bind_result (range_meta_loop s range_end limit [] all) (\<lambda>results.
          Inr (results, revision)))"

fun first_live_loop :: "MvccStorage \<Rightarrow> bytes \<Rightarrow> rows \<Rightarrow> bytes option" where
  "first_live_loop s end0 [] = None"
| "first_live_loop s end0 ((ik, v) # rest) =
    (case decode_kv_key ik of
       None \<Rightarrow> first_live_loop s end0 rest
     | Some user_key \<Rightarrow>
         (if end0 \<noteq> [] \<and> end0 \<le> user_key then None
          else if \<not> is_deleted (backend s) user_key then Some user_key
          else first_live_loop s end0 rest))"

definition first_live_key_in :: "MvccStorage \<Rightarrow> bytes \<Rightarrow> bytes \<Rightarrow> bytes option" where
  "first_live_key_in s start end0 =
    first_live_loop s end0
      (tx_iter_range_limited (backend s) T_kv (encode_kv_key start) (encode_kv_key end0) 64)"

text \<open>One round of \<open>sample_keys_in\<close> over the current bounds.\<close>

fun sample_round ::
    "MvccStorage \<Rightarrow> bytes list \<Rightarrow> (bytes \<times> bytes) list \<Rightarrow> (bytes \<times> bytes) list \<Rightarrow>
     bytes list \<times> (bytes \<times> bytes) list" where
  "sample_round s samples next [] = (samples, next)"
| "sample_round s samples next ((lo, hi) # bounds) =
    (let probe = mid_key lo hi
     in if probe \<le> lo \<or> (hi \<noteq> [] \<and> hi \<le> probe) then sample_round s samples next bounds
        else
          let samples' = (case first_live_key_in s probe hi of
                            Some key \<Rightarrow> insort_insert key samples
                          | None \<Rightarrow> samples)
          in sample_round s samples' (next @ [(lo, probe), (probe, hi)]) bounds)"

fun sample_rounds ::
    "MvccStorage \<Rightarrow> nat \<Rightarrow> nat \<Rightarrow> bytes list \<Rightarrow> (bytes \<times> bytes) list \<Rightarrow> bytes list" where
  "sample_rounds s 0 max_samples samples bounds = samples"
| "sample_rounds s (Suc n) max_samples samples bounds =
    (if max_samples \<le> length samples \<or> bounds = [] then samples
     else
       let (samples', bounds') = sample_round s samples [] bounds
       in if min (max_samples * 4) (2 ^ 64 - 1) < length bounds' then samples'
          else sample_rounds s n max_samples samples' bounds')"

definition sample_keys_in :: "MvccStorage \<Rightarrow> bytes \<Rightarrow> bytes \<Rightarrow> nat \<Rightarrow> bytes list" where
  "sample_keys_in s start end0 max_samples =
    (if max_samples = 0 then []
     else take max_samples (sample_rounds s 8 max_samples [] [(start, end0)]))"

section \<open>Range delete\<close>

definition range_has_live_keys :: "MvccStorage \<Rightarrow> bytes \<Rightarrow> bytes \<Rightarrow> bool result" where
  "range_has_live_keys s start range_end =
    bind_result (range_in s start range_end 1) (\<lambda>rs. Inr (rs \<noteq> []))"

definition count_deleted_at_revision :: "MvccStorage \<Rightarrow> bytes \<Rightarrow> bytes \<Rightarrow> u64 \<Rightarrow> nat" where
  "count_deleted_at_revision s start range_end revision =
    length (filter
      (\<lambda>(meta_key, meta_value).
        (case strip_prefix KV_META_PREFIX meta_key of
           None \<Rightarrow> False
         | Some user_key \<Rightarrow>
             \<not> user_key < start \<and> \<not> (range_end \<noteq> [] \<and> range_end \<le> user_key) \<and>
             (case KvMetadata_from_bytes meta_value of
                None \<Rightarrow> False
              | Some m \<Rightarrow> deleted m \<and> mod_revision m = revision)))
      (tx_iter_prefix (backend s) T_kv_meta KV_META_PREFIX))"

fun delete_range_loop :: "u64 \<Rightarrow> bytes \<Rightarrow> bytes list \<Rightarrow> db \<Rightarrow> rows \<Rightarrow> bytes list \<times> db" where
  "delete_range_loop revision range_end deleted_keys d [] = (deleted_keys, d)"
| "delete_range_loop revision range_end deleted_keys d ((ik, v) # rest) =
    (case decode_kv_key ik of
       None \<Rightarrow> delete_range_loop revision range_end deleted_keys d rest
     | Some user_key \<Rightarrow>
         (if range_end \<noteq> [] \<and> range_end \<le> user_key then (deleted_keys, d)
          else
            (case kv_metadata_in_tx d user_key of
               None \<Rightarrow> delete_range_loop revision range_end deleted_keys d rest
             | Some m \<Rightarrow>
                 (if deleted m then delete_range_loop revision range_end deleted_keys d rest
                  else delete_range_loop revision range_end (deleted_keys @ [user_key])
                         (put_metadata d user_key (mark_deleted m revision)) rest))))"

definition tombstone_change :: "bytes \<Rightarrow> KeyValueChange" where
  "tombstone_change k = \<lparr>ch_key = k, ch_value = None, ch_prev_value = None\<rparr>"

definition delete_range_tx ::
    "MvccStorage \<Rightarrow> bytes \<Rightarrow> bytes \<Rightarrow> u64 \<Rightarrow> AppliedLogId \<Rightarrow> RevisionPolicy \<Rightarrow>
     db \<Rightarrow> (DeleteRangeOutcome \<times> db) result" where
  "delete_range_tx s start range_end revision applied policy d =
    bind_result (accept_revision (revision_mode s) d revision policy) (\<lambda>d.
      let all = tx_iter_range d T_kv (encode_kv_key start) (encode_kv_key range_end);
          (deleted_keys, d) = delete_range_loop revision range_end [] d all;
          d = put_event d \<lparr>ev_revision = revision, ev_changes = map tombstone_change deleted_keys,
                           ev_event_type = Delete\<rparr>
      in Inr (\<lparr>dr_deleted_keys = deleted_keys, dr_replayed = False\<rparr>, put_applied d applied))"

definition delete_range_guard ::
    "MvccStorage \<Rightarrow> bytes \<Rightarrow> bytes \<Rightarrow> u64 \<Rightarrow> RevisionPolicy \<Rightarrow> DeleteRangeOutcome result option" where
  "delete_range_guard s start range_end revision policy =
    (if policy = PolicyCommitTs then
       (case changelog_event_at s revision of
          Inl e \<Rightarrow> Some (Inl e)
        | Inr None \<Rightarrow> None
        | Inr (Some ev) \<Rightarrow>
            (let all_in_range =
                   list_all (\<lambda>c. ch_value c = None \<and> start \<le> ch_key c \<and>
                                 (range_end = [] \<or> ch_key c < range_end)) (ev_changes ev)
             in case range_has_live_keys s start range_end of
                  Inl e \<Rightarrow> Some (Inl e)
                | Inr live \<Rightarrow>
                    (if all_in_range \<and> \<not> live \<and>
                        count_deleted_at_revision s start range_end revision = length (ev_changes ev)
                     then Some (Inr \<lparr>dr_deleted_keys = [], dr_replayed = True\<rparr>)
                     else Some (Inl (CommitRejected revision (current_revision s))))))
     else if changelog_contains_revision s revision
       then Some (Inr \<lparr>dr_deleted_keys = [], dr_replayed = True\<rparr>)
     else None)"

definition delete_range_at_key ::
    "MvccStorage \<Rightarrow> bytes \<Rightarrow> bytes \<Rightarrow> u64 \<Rightarrow> AppliedLogId \<Rightarrow> RevisionPolicy \<Rightarrow>
     DeleteRangeOutcome result \<times> MvccStorage" where
  "delete_range_at_key s start range_end revision applied policy =
    (case delete_range_guard s start range_end revision policy of
       Some r \<Rightarrow> (r, s)
     | None \<Rightarrow> write_store s (delete_range_tx s start range_end revision applied policy))"

definition delete_range_at_revision ::
    "MvccStorage \<Rightarrow> bytes \<Rightarrow> bytes \<Rightarrow> u64 \<Rightarrow> AppliedLogId \<Rightarrow> DeleteRangeOutcome result \<times> MvccStorage" where
  "delete_range_at_revision s start range_end revision applied =
    delete_range_at_key s start range_end revision applied PolicyLogIndex"

definition delete_range_at_commit_ts ::
    "MvccStorage \<Rightarrow> bytes \<Rightarrow> bytes \<Rightarrow> u64 \<Rightarrow> AppliedLogId \<Rightarrow> DeleteRangeOutcome result \<times> MvccStorage" where
  "delete_range_at_commit_ts s start range_end commit_ts applied =
    (if commit_ts = 0 then (Inl InvalidArgument, s)
     else delete_range_at_key s start range_end commit_ts applied PolicyCommitTs)"

definition delete_range :: "MvccStorage \<Rightarrow> bytes \<Rightarrow> bytes \<Rightarrow> (u64 \<times> nat) result \<times> MvccStorage" where
  "delete_range s start range_end =
    (let revision = sat_add64 (current_revision s) 1
     in case delete_range_at_revision s start range_end revision (standalone revision) of
          (Inl e, s') \<Rightarrow> (Inl e, s')
        | (Inr r, s') \<Rightarrow> (Inr (revision, length (dr_deleted_keys r)), s'))"

section \<open>Start-up check\<close>

definition verify_consistency :: "MvccStorage \<Rightarrow> u64 \<times> u64 option" where
  "verify_consistency s =
    (let applied = (case get_applied_log_id s of Some a \<Rightarrow> ali_index a | None \<Rightarrow> 0);
         tail = foldl (\<lambda>t (key, v).
                   if length CHANGELOG_PREFIX + 8 \<le> length key
                   then Some (u64_of (drop (length key - 8) key)) else t)
                 None (tx_iter_prefix (backend s) T_changelog CHANGELOG_PREFIX)
     in (applied, tail))"

section \<open>Rows after a write\<close>

lemma meta_keys_distinct [simp]:
  "META_LAST_APPLIED \<noteq> META_CURRENT_REVISION" "META_CURRENT_REVISION \<noteq> META_LAST_APPLIED"
  "META_LAST_APPLIED \<noteq> META_COMPACT_REVISION" "META_COMPACT_REVISION \<noteq> META_LAST_APPLIED"
  "META_CURRENT_REVISION \<noteq> META_COMPACT_REVISION" "META_COMPACT_REVISION \<noteq> META_CURRENT_REVISION"
  by (simp_all add: key_defs ascii_def)

lemma prefix_KV_PREFIX [simp]: "prefix KV_PREFIX (encode_kv_key k)"
  by (simp add: encode_kv_key_def)

lemma tx_get_put_metadata [table_simps]:
  "tx_get (put_metadata d key m) t k =
    (if t = T_kv_meta \<and> k = encode_kv_meta_key key then Some (KvMetadata_to_bytes m)
     else tx_get d t k)"
  by (simp add: put_metadata_def tx_get_insert)

lemma tx_get_put_event [table_simps]:
  "tx_get (put_event d e) t k =
    (if t = T_changelog \<and> k = encode_changelog_key (ev_revision e) then Some (ChangeEvent_to_bytes e)
     else tx_get d t k)"
  by (simp add: put_event_def tx_get_insert)

lemma tx_get_put_applied [table_simps]:
  "tx_get (put_applied d a) t k =
    (if t = T_meta \<and> k = META_LAST_APPLIED then Some (AppliedLogId_to_bytes a) else tx_get d t k)"
  by (simp add: put_applied_def tx_get_insert)

lemma db_ok_puts [simp]:
  "db_ok d \<Longrightarrow> db_ok (put_metadata d key m)"
  "db_ok d \<Longrightarrow> db_ok (put_event d e)"
  "db_ok d \<Longrightarrow> db_ok (put_applied d a)"
  by (simp_all add: put_metadata_def put_event_def put_applied_def)

lemma kv_metadata_in_tx_puts [row_simps]:
  "kv_metadata_in_tx (put_metadata d key m) k = (if k = key then Some m else kv_metadata_in_tx d k)"
  "kv_metadata_in_tx (put_event d e) k = kv_metadata_in_tx d k"
  "kv_metadata_in_tx (put_applied d a) k = kv_metadata_in_tx d k"
  "kv_metadata_in_tx (tx_insert d T_kv ik v) k = kv_metadata_in_tx d k"
  "kv_metadata_in_tx (tx_insert d T_meta ik v) k = kv_metadata_in_tx d k"
  by (simp_all add: kv_metadata_in_tx_def table_simps KvMetadata_round_trip)

lemma current_revision_eq: "current_revision s = current_revision_in_tx (backend s) (revision_mode s)"
  by (simp add: current_revision_def current_revision_in_tx_def get_applied_log_id_def
      cong: option.case_cong RevisionMode.case_cong)

text \<open>
  The revision that a table state stands for, and what accepting a revision
  does to the tables.
\<close>

lemma current_revision_insert [row_simps]:
  "current_revision_in_tx (tx_insert d T_meta META_CURRENT_REVISION (u64_bytes r)) mode = r"
  by (simp add: current_revision_in_tx_def table_simps decode_u64_def)

lemma current_revision_frame [row_simps]:
  "current_revision_in_tx (put_metadata d key m) mode = current_revision_in_tx d mode"
  "current_revision_in_tx (put_event d e) mode = current_revision_in_tx d mode"
  "current_revision_in_tx (tx_insert d T_kv ik v) mode = current_revision_in_tx d mode"
  by (simp_all add: current_revision_in_tx_def applied_in_tx_def table_simps
      cong: option.case_cong RevisionMode.case_cong)

lemma current_revision_put_applied [row_simps]:
  "tx_get d T_meta META_CURRENT_REVISION = Some (u64_bytes r) \<Longrightarrow>
   current_revision_in_tx (put_applied d a) mode = r"
  by (simp add: current_revision_in_tx_def table_simps decode_u64_def)

lemma accept_revision_cases:
  assumes "accept_revision mode d r policy = Inr d'"
  shows "current_revision_in_tx d mode < r \<and>
      d' = tx_insert d T_meta META_CURRENT_REVISION (u64_bytes r) \<or>
    mode = CommitTs \<and> policy = PolicyLogIndex \<and> d' = d"
  using assms
  by (auto simp: accept_revision_def accept_log_index_revision_def accept_commit_ts_def Let_def
      not_le split: RevisionPolicy.splits if_splits)

lemma accept_revision_frame:
  assumes "accept_revision mode d r policy = Inr d'"
  shows "t \<noteq> T_meta \<Longrightarrow> tx_get d' t k = tx_get d t k"
    and "k \<noteq> META_CURRENT_REVISION \<Longrightarrow> tx_get d' t k = tx_get d t k"
    and "db_ok d \<Longrightarrow> db_ok d'"
    and "kv_metadata_in_tx d' key = kv_metadata_in_tx d key"
  using accept_revision_cases [OF assms] by (auto simp: table_simps row_simps)

text \<open>The two policies that match the store's mode.\<close>

definition policy_matches :: "RevisionMode \<Rightarrow> RevisionPolicy \<Rightarrow> bool" where
  "policy_matches mode policy \<longleftrightarrow> mode = LogIndex \<or> policy = PolicyCommitTs"

lemma accept_revision_Inr:
  assumes "policy_matches mode policy"
  shows "accept_revision mode d r policy =
    (if r \<le> current_revision_in_tx d mode then Inl (CommitRejected r (current_revision_in_tx d mode))
     else Inr (tx_insert d T_meta META_CURRENT_REVISION (u64_bytes r)))"
  using assms
  by (auto simp: policy_matches_def accept_revision_def accept_log_index_revision_def
      accept_commit_ts_def Let_def split: RevisionPolicy.splits)

section \<open>Values through the barrier\<close>

definition barrier_ok :: "MvccStorage \<Rightarrow> bytes \<Rightarrow> bool" where
  "barrier_ok s nonce \<longleftrightarrow>
    (case barrier s of None \<Rightarrow> True | Some (ae, kr) \<Rightarrow> aead_ok ae \<and> length nonce = 12)"

lemma read_encrypted:
  assumes "barrier_ok s nonce" "encrypt_value s nonce (encode_kv_key k) v = Inr e"
  shows "read_value s (encode_kv_key k) e = Inr v"
proof (cases "barrier s")
  case None
  then show ?thesis using assms by (auto simp: read_value_def encrypt_value_def decrypt_value_def)
next
  case (Some b)
  obtain ae kr where b: "b = (ae, kr)" by (cases b)
  have "barrier_encrypt ae kr nonce v = Inr e" "aead_ok ae" "length nonce = 12"
    using assms Some b by (auto simp: encrypt_value_def barrier_ok_def)
  then have "barrier_decrypt ae kr e = Inr v" "length e = length v + 32"
    using barrier_decrypt_encrypt by blast+
  then show ?thesis
    using Some b by (auto simp: read_value_def decrypt_value_def)
qed

lemma read_value_frame [simp]: "read_value (s\<lparr>backend := d\<rparr>) = read_value s"
  by (simp add: fun_eq_iff read_value_def decrypt_value_def)

text \<open>A read depends on the data row and the metadata row of its key only.\<close>

lemma get_cong_rows:
  assumes "barrier s' = barrier s"
    and "tx_get (backend s') T_kv (encode_kv_key k) = tx_get (backend s) T_kv (encode_kv_key k)"
    and "kv_metadata_in_tx (backend s') k = kv_metadata_in_tx (backend s) k"
  shows "get s' k = get s k"
proof -
  have "read_value s' = read_value s"
    using assms(1) by (simp add: fun_eq_iff read_value_def decrypt_value_def)
  then show ?thesis using assms(2,3) by (simp add: get_def is_deleted_def split: option.split)
qed


section \<open>Transactions of the store\<close>

lemma write_store_Inr [simp]:
  "write_store s f = (Inr x, s') \<longleftrightarrow> (\<exists>d. f (backend s) = Inr (x, d) \<and> s' = s\<lparr>backend := d\<rparr>)"
  by (auto simp: write_store_def backend_write_def split: sum.splits)

lemma write_store_Inl [simp]:
  "write_store s f = (Inl e, s') \<longleftrightarrow> f (backend s) = Inl e \<and> s' = s"
  by (auto simp: write_store_def backend_write_def split: sum.splits)

lemma replay_guard_replayed:
  "replay_guard s r policy same = Some (Inr oc) \<Longrightarrow> replayed oc"
  by (auto simp: replay_guard_def split: sum.splits option.splits if_splits)

lemma replay_guard_None:
  "replay_guard s r policy same = None \<longleftrightarrow> tx_get (backend s) T_changelog (encode_changelog_key r) = None"
  by (auto simp: replay_guard_def changelog_event_at_def changelog_contains_revision_def
      bind_result_def split: sum.splits option.splits if_splits)

text \<open>
  An applied put or delete went through its transaction, and the changelog had
  no entry at the revision.
\<close>

lemma put_at_key_applied:
  assumes "put_at_key s nonce k v l r a p = (Inr oc, s')" "\<not> replayed oc"
  shows "\<exists>d. put_tx s nonce k v l r a p (backend s) = Inr (oc, d) \<and> s' = s\<lparr>backend := d\<rparr> \<and>
    tx_get (backend s) T_changelog (encode_changelog_key r) = None"
  using assms replay_guard_replayed
  by (auto simp: put_at_key_def replay_guard_None split: option.splits)

lemma delete_at_key_applied:
  assumes "delete_at_key s k r a p = (Inr oc, s')" "\<not> replayed oc"
  shows "\<exists>d. delete_tx s k r a p (backend s) = Inr (oc, d) \<and> s' = s\<lparr>backend := d\<rparr> \<and>
    tx_get (backend s) T_changelog (encode_changelog_key r) = None"
  using assms replay_guard_replayed
  by (auto simp: delete_at_key_def replay_guard_None split: option.splits)

lemma put_at_key_unchanged:
  assumes "put_at_key s nonce k v l r a p = (res, s')" "\<forall>oc. res = Inr oc \<longrightarrow> replayed oc"
  shows "s' = s"
  using assms
  by (cases res)
     (auto simp: put_at_key_def put_tx_def Let_def split: option.splits)

lemma delete_at_key_unchanged:
  assumes "delete_at_key s k r a p = (res, s')" "\<forall>oc. res = Inr oc \<longrightarrow> replayed oc"
  shows "s' = s"
  using assms
  by (cases res)
     (auto simp: delete_at_key_def delete_tx_def Let_def split: option.splits)

section \<open>Well-formed stores\<close>

text \<open>
  Every data row under \<open>/kv/\<close> has metadata and can be read, and every
  metadata row has its data row. Every mutation keeps this.
\<close>

definition mvcc_ok :: "MvccStorage \<Rightarrow> bool" where
  "mvcc_ok s \<longleftrightarrow> db_ok (backend s) \<and>
    (\<forall>k e. tx_get (backend s) T_kv (encode_kv_key k) = Some e \<longrightarrow>
       kv_metadata_in_tx (backend s) k \<noteq> None \<and> (\<exists>v. read_value s (encode_kv_key k) e = Inr v)) \<and>
    (\<forall>k. kv_metadata_in_tx (backend s) k \<noteq> None \<longrightarrow>
       tx_get (backend s) T_kv (encode_kv_key k) \<noteq> None)"

lemma mvcc_okD:
  assumes "mvcc_ok s"
  shows "db_ok (backend s)"
    and "tx_get (backend s) T_kv (encode_kv_key k) = Some e \<Longrightarrow> kv_metadata_in_tx (backend s) k \<noteq> None"
    and "tx_get (backend s) T_kv (encode_kv_key k) = Some e \<Longrightarrow> \<exists>v. read_value s (encode_kv_key k) e = Inr v"
    and "kv_metadata_in_tx (backend s) k \<noteq> None \<Longrightarrow> tx_get (backend s) T_kv (encode_kv_key k) \<noteq> None"
  using assms by (auto simp: mvcc_ok_def)

text \<open>The live value of a key in a well-formed store.\<close>

definition live :: "MvccStorage \<Rightarrow> bytes \<Rightarrow> bytes option" where
  "live s k = (case get s k of Inr x \<Rightarrow> x | Inl _ \<Rightarrow> None)"

lemma get_live: "mvcc_ok s \<Longrightarrow> get s k = Inr (live s k)"
  using mvcc_okD(3) [of s k] by (auto simp: live_def get_def split: option.splits sum.splits)

lemma live_Some_iff:
  assumes "mvcc_ok s"
  shows "live s k = Some v \<longleftrightarrow>
    (\<exists>e m. tx_get (backend s) T_kv (encode_kv_key k) = Some e \<and>
           kv_metadata_in_tx (backend s) k = Some m \<and> \<not> deleted m \<and>
           read_value s (encode_kv_key k) e = Inr v)"
  using mvcc_okD(2,3) [OF assms, of k]
  by (auto simp: live_def get_def is_deleted_def split: option.splits sum.splits)

lemma mvcc_ok_new: "mvcc_ok (new_with_revision_mode empty_db mode)"
  by (simp add: mvcc_ok_def new_with_revision_mode_def kv_metadata_in_tx_def)

section \<open>What a range read returns\<close>

text \<open>The live rows among scanned rows, in scan order.\<close>

definition live_row :: "MvccStorage \<Rightarrow> bytes \<times> bytes \<Rightarrow> (bytes \<times> bytes) option" where
  "live_row s r =
    (case decode_kv_key (fst r) of
       None \<Rightarrow> None
     | Some k \<Rightarrow> (if is_deleted (backend s) k then None
                  else case read_value s (fst r) (snd r) of Inl _ \<Rightarrow> None | Inr p \<Rightarrow> Some (k, p)))"

definition readable_row :: "MvccStorage \<Rightarrow> bytes \<times> bytes \<Rightarrow> bool" where
  "readable_row s r \<longleftrightarrow> (\<exists>p. read_value s (fst r) (snd r) = Inr p)"

definition limited :: "nat \<Rightarrow> 'a list \<Rightarrow> 'a list" where
  "limited n xs = (if n = 0 then xs else take n xs)"

lemma range_loop_spec:
  assumes "\<forall>r \<in> set rs. readable_row s r"
    and "\<forall>r \<in> set rs. \<forall>k. decode_kv_key (fst r) = Some k \<longrightarrow> \<not> stop k"
    and "limit = 0 \<or> length res \<le> limit"
  shows "range_loop s stop limit res rs = Inr (limited limit (res @ List.map_filter (live_row s) rs))"
  using assms
proof (induction rs arbitrary: res)
  case Nil
  then show ?case by (auto simp: limited_def)
next
  case (Cons r rs)
  obtain ik v where r: "r = (ik, v)" by (cases r)
  obtain p where p: "read_value s ik v = Inr p"
    using Cons.prems(1) by (auto simp: r readable_row_def)
  show ?case
  proof (cases "limit \<le> length res \<and> 0 < limit")
    case True
    then have "limit = length res" "0 < limit" using Cons.prems(3) by auto
    then show ?thesis by (simp add: r limited_def)
  next
    case False
    then have "limit = 0 \<or> Suc (length res) \<le> limit" using Cons.prems(3) by auto
    then show ?thesis
      using False Cons.prems Cons.IH [of res] Cons.IH [of "res @ [(the (decode_kv_key ik), p)]"]
      by (auto simp: r p live_row_def List.map_filter_simps split: option.splits)
  qed
qed

lemma live_row_Some:
  "live_row s r = Some (k, p) \<longleftrightarrow>
    fst r = encode_kv_key k \<and> \<not> is_deleted (backend s) k \<and> read_value s (fst r) (snd r) = Inr p"
  by (auto simp: live_row_def decode_kv_key_Some split: option.splits sum.splits if_splits)

lemma map_filter_sorted:
  assumes "keys_sorted rs"
  shows "keys_sorted (List.map_filter (live_row s) rs)"
  using assms
proof (induction rs)
  case (Cons r rs)
  have "fst x < fst y" if x: "live_row s r = Some x" and y: "y \<in> set (List.map_filter (live_row s) rs)" for x y
  proof -
    obtain r' where r': "r' \<in> set rs" "live_row s r' = Some y"
      using y by (auto simp: in_map_filter)
    then have "fst r < fst r'" using Cons.prems by (cases r) auto
    then show ?thesis
      using x r'(2) by (cases x; cases y) (auto simp: live_row_Some)
  qed
  then show ?case
    using Cons by (cases r; cases "live_row s r") (auto simp: List.map_filter_simps)
qed (simp add: List.map_filter_simps)

lemma map_filter_live_member:
  assumes "mvcc_ok s" "\<And>ik v. (ik, v) \<in> set rs \<longleftrightarrow> P ik \<and> tx_get (backend s) T_kv ik = Some v"
  shows "(k, v) \<in> set (List.map_filter (live_row s) rs) \<longleftrightarrow> P (encode_kv_key k) \<and> live s k = Some v"
proof -
  have "(k, v) \<in> set (List.map_filter (live_row s) rs) \<longleftrightarrow>
      (\<exists>e. (encode_kv_key k, e) \<in> set rs \<and> \<not> is_deleted (backend s) k \<and>
           read_value s (encode_kv_key k) e = Inr v)"
    by (force simp: in_map_filter live_row_Some)
  also have "\<dots> \<longleftrightarrow> P (encode_kv_key k) \<and> live s k = Some v"
    using mvcc_okD(2) [OF assms(1), of k]
    by (auto simp: assms(2) live_Some_iff [OF assms(1)] is_deleted_def split: option.splits)
  finally show ?thesis .
qed


lemma range_prefix_kv: "in_range (encode_kv_key a) (encode_kv_key b) ik \<Longrightarrow> prefix KV_PREFIX ik"
  using prefix_between [of KV_PREFIX ik b] order.trans [OF le_append [of KV_PREFIX a], of ik]
  by (auto simp: in_range_def encode_kv_key_def KV_PREFIX_def ascii_def)

lemma range_rows_readable:
  assumes "mvcc_ok s" "in_range (encode_kv_key a) (encode_kv_key b) ik"
    and "tx_get (backend s) T_kv ik = Some v"
  shows "readable_row s (ik, v)"
proof -
  obtain k where "ik = encode_kv_key k"
    using range_prefix_kv [OF assms(2)] by (auto simp: prefix_def encode_kv_key_def)
  then show ?thesis using mvcc_okD(3) [OF assms(1)] assms(3) by (simp add: readable_row_def)
qed

text \<open>The rows a half-open interval holds, in key order.\<close>

definition range_rows :: "MvccStorage \<Rightarrow> bytes \<Rightarrow> bytes \<Rightarrow> (bytes \<times> bytes) list" where
  "range_rows s a b =
    List.map_filter (live_row s)
      (tx_iter_range (backend s) T_kv (encode_kv_key a) (encode_kv_key b))"

lemma encode_kv_key_nonempty [simp]: "encode_kv_key k \<noteq> []"
  by (simp add: encode_kv_key_def KV_PREFIX_def ascii_def)

lemma range_in_rows:
  assumes "mvcc_ok s"
  shows "range_in s a b limit = Inr (limited limit (range_rows s a b))"
  unfolding range_in_def range_rows_def
  using assms
  by (subst range_loop_spec)
     (auto simp: range_rows_readable tx_iter_range_iff mvcc_okD(1) in_range_def decode_kv_key_Some
       split: prod.splits)

lemma range_rows_spec:
  assumes "mvcc_ok s"
  shows "keys_sorted (range_rows s a b)"
    and "(k, v) \<in> set (range_rows s a b) \<longleftrightarrow> a \<le> k \<and> k < b \<and> live s k = Some v"
proof -
  show "keys_sorted (range_rows s a b)"
    by (simp add: range_rows_def map_filter_sorted mvcc_okD(1) [OF assms])
  show "(k, v) \<in> set (range_rows s a b) \<longleftrightarrow> a \<le> k \<and> k < b \<and> live s k = Some v"
    unfolding range_rows_def
    by (subst map_filter_live_member [OF assms tx_iter_range_iff [OF mvcc_okD(1) [OF assms]]])
       (auto simp: in_range_def)
qed

lemma range_rows_empty_end: "mvcc_ok s \<Longrightarrow> range_rows s a [] = []"
  using range_rows_spec(2) [of s _ _ a "[]"] by (cases "range_rows s a []") fastforce+

lemma range_prefix_rows:
  assumes "mvcc_ok s"
  shows "\<exists>rs. (\<forall>limit. range_prefix s p limit = Inr (limited limit rs)) \<and> keys_sorted rs \<and>
    (\<forall>k v. (k, v) \<in> set rs \<longleftrightarrow> prefix p k \<and> live s k = Some v)"
proof -
  let ?rows = "tx_iter_prefix (backend s) T_kv (encode_kv_key p)"
  let ?rs = "List.map_filter (live_row s) ?rows"
  have "readable_row s r" if r: "r \<in> set ?rows" for r
  proof -
    obtain q where "fst r = encode_kv_key (p @ q)" "tx_get (backend s) T_kv (fst r) = Some (snd r)"
      using r tx_iter_prefix_iff [OF mvcc_okD(1) [OF assms], of "fst r" "snd r"]
      by (auto simp: encode_kv_key_def prefix_def)
    then show ?thesis using mvcc_okD(3) [OF assms] by (simp add: readable_row_def)
  qed
  then have "range_prefix s p limit = Inr (limited limit ?rs)" for limit
    unfolding range_prefix_def by (subst range_loop_spec) auto
  moreover have "keys_sorted ?rs"
    by (simp add: map_filter_sorted mvcc_okD(1) [OF assms])
  moreover have "(k, v) \<in> set ?rs \<longleftrightarrow> prefix p k \<and> live s k = Some v" for k v
    by (subst map_filter_live_member [OF assms tx_iter_prefix_iff [OF mvcc_okD(1) [OF assms]]])
       (auto simp: encode_kv_key_def)
  ultimately show ?thesis by blast
qed

text \<open>The reader with metadata returns the same rows, each with its metadata.\<close>

definition with_meta :: "MvccStorage \<Rightarrow> bytes \<times> bytes \<Rightarrow> VersionedKv" where
  "with_meta s r = (fst r, snd r, the (kv_metadata_in_tx (backend s) (fst r)))"

lemma range_meta_loop_spec:
  assumes "\<forall>r \<in> set rs. readable_row s r \<and> (\<exists>k m. fst r = encode_kv_key k \<and>
      kv_metadata_in_tx (backend s) k = Some m \<and> \<not> (b \<noteq> [] \<and> b \<le> k))"
  shows "range_loop s (\<lambda>k. b \<noteq> [] \<and> b \<le> k) limit res rs = Inr out \<Longrightarrow>
    range_meta_loop s b limit (map (with_meta s) res) rs = Inr (map (with_meta s) out)"
  using assms
proof (induction rs arbitrary: res)
  case (Cons r rs)
  obtain ik v where r: "r = (ik, v)" by (cases r)
  obtain k m where k: "ik = encode_kv_key k" "kv_metadata_in_tx (backend s) k = Some m"
      "\<not> (b \<noteq> [] \<and> b \<le> k)"
    using Cons.prems(2) r by auto
  show ?case
    using Cons.prems Cons.IH [of res] Cons.IH [of "res @ [(k, _)]"]
    by (auto simp: r k is_deleted_def with_meta_def split: if_splits)
qed simp

lemma range_in_with_metadata_rows:
  assumes "mvcc_ok s"
  shows "range_in_with_metadata s a b limit =
    Inr (map (with_meta s) (limited limit (range_rows s a b)), current_revision s)"
proof -
  let ?rows = "tx_iter_range (backend s) T_kv (encode_kv_key a) (encode_kv_key b)"
  have "readable_row s r \<and> (\<exists>k m. fst r = encode_kv_key k \<and>
      kv_metadata_in_tx (backend s) k = Some m \<and> \<not> (b \<noteq> [] \<and> b \<le> k))" if "r \<in> set ?rows" for r
  proof -
    have r: "in_range (encode_kv_key a) (encode_kv_key b) (fst r)"
        "tx_get (backend s) T_kv (fst r) = Some (snd r)"
      using that tx_iter_range_iff [OF mvcc_okD(1) [OF assms], of "fst r" "snd r"] by simp_all
    moreover obtain k where "fst r = encode_kv_key k"
      using range_prefix_kv [OF r(1)] by (auto simp: prefix_def encode_kv_key_def)
    ultimately show ?thesis
      using range_rows_readable [OF assms r(1)] mvcc_okD(2) [OF assms, of k]
      by (auto simp: in_range_def readable_row_def)
  qed
  then show ?thesis
    using range_meta_loop_spec [of ?rows s b limit "[]"] range_in_rows [OF assms, of a b limit]
    by (simp add: range_in_with_metadata_def range_in_def current_revision_eq)
qed


end
