(* ===== verification/Mvcc_Commit.thy ===== *)
theory Mvcc_Commit
  imports Mvcc
begin

text \<open>
  What a mutation of the store commits. Every mutation accepts its revision,
  writes data and metadata rows, and records the changes as one changelog
  event; \<open>kv_step\<close> is the effect on the rows, \<open>committed\<close> the effect of the
  whole transaction, stated over the abstract map from user keys to values.
\<close>

section \<open>Changes of the abstract map\<close>

definition apply_change :: "(bytes \<Rightarrow> bytes option) \<Rightarrow> KeyValueChange \<Rightarrow> bytes \<Rightarrow> bytes option" where
  "apply_change m c = m(ch_key c := ch_value c)"

definition apply_changes :: "(bytes \<Rightarrow> bytes option) \<Rightarrow> KeyValueChange list \<Rightarrow> bytes \<Rightarrow> bytes option" where
  "apply_changes = foldl apply_change"

lemma apply_changes_simps [simp]:
  "apply_changes m [] = m"
  "apply_changes m (c # cs) = apply_changes (m(ch_key c := ch_value c)) cs"
  "apply_changes m (cs @ ds) = apply_changes (apply_changes m cs) ds"
  by (simp_all add: apply_changes_def apply_change_def)

text \<open>The last change of a key decides; other keys keep their value.\<close>

definition last_change :: "KeyValueChange list \<Rightarrow> bytes \<Rightarrow> bytes option option" where
  "last_change cs k = foldl (\<lambda>acc c. if ch_key c = k then Some (ch_value c) else acc) None cs"

lemma last_change_simps [simp]:
  "last_change [] k = None"
  "last_change (cs @ [c]) k = (if ch_key c = k then Some (ch_value c) else last_change cs k)"
  by (simp_all add: last_change_def)

lemma apply_changes_last:
  "apply_changes m cs k = (case last_change cs k of None \<Rightarrow> m k | Some v \<Rightarrow> v)"
  by (induction cs rule: rev_induct) auto

lemma last_change_None: "last_change cs k = None \<longleftrightarrow> k \<notin> ch_key ` set cs"
  by (induction cs rule: rev_induct) auto

lemma apply_tombstones:
  "apply_changes m (map tombstone_change ks) k = (if k \<in> set ks then None else m k)"
  by (induction ks rule: rev_induct) (auto simp: tombstone_change_def)

section \<open>Steps\<close>

text \<open>
  Metadata is created at the step's revision, or keeps its creation revision
  and is either untouched or modified at the step's revision.
\<close>

definition meta_step :: "db \<Rightarrow> db \<Rightarrow> u64 \<Rightarrow> bool" where
  "meta_step d d' r \<longleftrightarrow>
    (\<forall>k. case kv_metadata_in_tx d k of
           None \<Rightarrow> (\<forall>m. kv_metadata_in_tx d' k = Some m \<longrightarrow> create_revision m = r \<and> mod_revision m = r)
         | Some m \<Rightarrow> (\<exists>m'. kv_metadata_in_tx d' k = Some m' \<and> create_revision m' = create_revision m \<and>
                           (m' = m \<or> mod_revision m' = r)))"

lemma meta_step_refl: "meta_step d d r"
  by (auto simp: meta_step_def split: option.splits)

lemma meta_step_trans:
  assumes "meta_step d d1 r" "meta_step d1 d2 r"
  shows "meta_step d d2 r"
  unfolding meta_step_def
proof
  fix k
  show "case kv_metadata_in_tx d k of
      None \<Rightarrow> (\<forall>m. kv_metadata_in_tx d2 k = Some m \<longrightarrow> create_revision m = r \<and> mod_revision m = r)
    | Some m \<Rightarrow> (\<exists>m'. kv_metadata_in_tx d2 k = Some m' \<and> create_revision m' = create_revision m \<and>
                      (m' = m \<or> mod_revision m' = r))"
    using assms [unfolded meta_step_def, THEN spec [of _ k]]
    by (cases "kv_metadata_in_tx d k"; cases "kv_metadata_in_tx d1 k") auto
qed

definition kv_step :: "MvccStorage \<Rightarrow> db \<Rightarrow> db \<Rightarrow> u64 \<Rightarrow> KeyValueChange list \<Rightarrow> bool" where
  "kv_step s d d' r cs \<longleftrightarrow>
    mvcc_ok (s\<lparr>backend := d'\<rparr>) \<and>
    live (s\<lparr>backend := d'\<rparr>) = apply_changes (live (s\<lparr>backend := d\<rparr>)) cs \<and>
    (\<forall>t k. t \<noteq> T_kv \<and> t \<noteq> T_kv_meta \<longrightarrow> tx_get d' t k = tx_get d t k) \<and>
    (\<forall>k. \<not> prefix KV_PREFIX k \<longrightarrow> tx_get d' T_kv k = tx_get d T_kv k) \<and>
    meta_step d d' r"

lemma kv_stepD:
  assumes "kv_step s d d' r cs"
  shows "mvcc_ok (s\<lparr>backend := d'\<rparr>)"
    and "live (s\<lparr>backend := d'\<rparr>) = apply_changes (live (s\<lparr>backend := d\<rparr>)) cs"
    and "t \<noteq> T_kv \<Longrightarrow> t \<noteq> T_kv_meta \<Longrightarrow> tx_get d' t k = tx_get d t k"
    and "\<not> prefix KV_PREFIX k \<Longrightarrow> tx_get d' T_kv k = tx_get d T_kv k"
    and "meta_step d d' r"
  using assms by (auto simp: kv_step_def)

lemma kv_step_refl: "mvcc_ok (s\<lparr>backend := d\<rparr>) \<Longrightarrow> kv_step s d d r []"
  by (simp add: kv_step_def meta_step_refl)

lemma kv_step_trans:
  "kv_step s d d1 r cs \<Longrightarrow> kv_step s d1 d2 r cs' \<Longrightarrow> kv_step s d d2 r (cs @ cs')"
  by (auto simp: kv_step_def intro: meta_step_trans)

text \<open>
  Reads look at the barrier and at the rows of the two tables only, so writes
  to the other tables change no value.
\<close>

lemma mvcc_ok_frame:
  assumes "mvcc_ok (s\<lparr>backend := d\<rparr>)" "db_ok d'"
    and "\<And>k. tx_get d' T_kv (encode_kv_key k) = tx_get d T_kv (encode_kv_key k)"
    and "\<And>k. kv_metadata_in_tx d' k = kv_metadata_in_tx d k"
  shows "mvcc_ok (s\<lparr>backend := d'\<rparr>)" "live (s\<lparr>backend := d'\<rparr>) = live (s\<lparr>backend := d\<rparr>)"
proof -
  show "mvcc_ok (s\<lparr>backend := d'\<rparr>)"
    using assms by (simp add: mvcc_ok_def)
  have "get (s\<lparr>backend := d'\<rparr>) k = get (s\<lparr>backend := d\<rparr>) k" for k
    by (rule get_cong_rows) (simp_all add: assms)
  then show "live (s\<lparr>backend := d'\<rparr>) = live (s\<lparr>backend := d\<rparr>)"
    by (simp add: fun_eq_iff live_def)
qed

definition put_meta :: "KvMetadata option \<Rightarrow> u64 \<Rightarrow> i64 option \<Rightarrow> KvMetadata" where
  "put_meta old r l =
    (let lid = (case l of Some x \<Rightarrow> x | None \<Rightarrow> 0)
     in case old of Some m \<Rightarrow> update_meta m r lid | None \<Rightarrow> new_key r lid)"

lemma put_meta_simps [simp]:
  "deleted (put_meta old r l) = False"
  "create_revision (put_meta old r l) = (case old of Some m \<Rightarrow> create_revision m | None \<Rightarrow> r)"
  "mod_revision (put_meta old r l) = r"
  by (simp_all add: put_meta_def Let_def update_meta_def new_key_def split: option.split)

lemma kv_step_put:
  assumes ok: "mvcc_ok (s\<lparr>backend := d\<rparr>)" and b: "barrier_ok s nonce"
    and e: "encrypt_value s nonce (encode_kv_key k) v = Inr e"
    and d': "d' = put_metadata (tx_insert d T_kv (encode_kv_key k) e) k
                    (put_meta (kv_metadata_in_tx d k) r l)"
  shows "kv_step s d d' r [\<lparr>ch_key = k, ch_value = Some v, ch_prev_value = None\<rparr>]"
proof -
  have kv: "tx_get d' T_kv ik = (if ik = encode_kv_key k then Some e else tx_get d T_kv ik)" for ik
    by (simp add: d' table_simps)
  have meta: "kv_metadata_in_tx d' k' =
      (if k' = k then Some (put_meta (kv_metadata_in_tx d k) r l) else kv_metadata_in_tx d k')" for k'
    by (simp add: d' row_simps)
  have db: "db_ok d \<Longrightarrow> db_ok d'" and other: "t \<noteq> T_kv \<and> t \<noteq> T_kv_meta \<Longrightarrow> tx_get d' t k' = tx_get d t k'" for t k'
    by (simp_all add: d' table_simps)
  have ok': "mvcc_ok (s\<lparr>backend := d'\<rparr>)"
    using ok db read_encrypted [OF b e] by (auto simp: mvcc_ok_def kv meta)
  have "live (s\<lparr>backend := d'\<rparr>) k' = ((live (s\<lparr>backend := d\<rparr>))(k \<mapsto> v)) k'" for k'
  proof (cases "k' = k")
    case True
    then show ?thesis
      using read_encrypted [OF b e] by (simp add: live_Some_iff [OF ok'] kv meta)
  next
    case False
    then have "get (s\<lparr>backend := d'\<rparr>) k' = get (s\<lparr>backend := d\<rparr>) k'"
      by (intro get_cong_rows) (simp_all add: kv meta)
    then show ?thesis using False by (simp add: live_def)
  qed
  then show ?thesis
    using ok' by (auto simp: kv_step_def kv other meta_step_def meta fun_eq_iff split: option.split)
qed

text \<open>Marking a set of keys deleted; a key without metadata has no row.\<close>

lemma kv_step_mark:
  assumes ok: "mvcc_ok (s\<lparr>backend := d\<rparr>)" and db: "db_ok d'"
    and other: "\<And>t k. t \<noteq> T_kv_meta \<Longrightarrow> tx_get d' t k = tx_get d t k"
    and meta: "\<And>k. kv_metadata_in_tx d' k =
      (if k \<in> K then map_option (\<lambda>m. m\<lparr>version := f m, mod_revision := g m, deleted := True\<rparr>) (kv_metadata_in_tx d k)
       else kv_metadata_in_tx d k)"
    and upd: "\<And>m. g m = r \<or> f m = version m \<and> g m = mod_revision m \<and> deleted m"
    and cs: "apply_changes (live (s\<lparr>backend := d\<rparr>)) cs =
      (\<lambda>k. if k \<in> K then None else live (s\<lparr>backend := d\<rparr>) k)"
  shows "kv_step s d d' r cs"
proof -
  have ok': "mvcc_ok (s\<lparr>backend := d'\<rparr>)"
    using ok db by (auto simp: mvcc_ok_def other meta)
  have "live (s\<lparr>backend := d'\<rparr>) k = (if k \<in> K then None else live (s\<lparr>backend := d\<rparr>) k)" for k
  proof (cases "k \<in> K")
    case True
    have "live (s\<lparr>backend := d'\<rparr>) k \<noteq> Some v" for v
      using True by (auto simp: live_Some_iff [OF ok'] meta)
    then show ?thesis using True by (metis not_Some_eq)
  next
    case False
    then have "get (s\<lparr>backend := d'\<rparr>) k = get (s\<lparr>backend := d\<rparr>) k"
      by (intro get_cong_rows) (simp_all add: other meta)
    then show ?thesis using False by (simp add: live_def)
  qed
  moreover have "x\<lparr>version := f x, mod_revision := g x, deleted := True\<rparr> = x \<or> g x = r" for x
    using upd [of x] by (cases x) auto
  then have "meta_step d d' r"
    by (auto simp: meta_step_def meta split: option.split)
  ultimately show ?thesis
    using ok' by (simp add: kv_step_def cs other fun_eq_iff)
qed

lemma mark_deleted_eq:
  "mark_deleted m r = m\<lparr>version := version m + 1, mod_revision := r, deleted := True\<rparr>"
  by (simp add: mark_deleted_def)

section \<open>Commits\<close>

definition committed :: "MvccStorage \<Rightarrow> MvccStorage \<Rightarrow> u64 \<Rightarrow> KeyValueChange list \<Rightarrow> bool" where
  "committed s s' r cs \<longleftrightarrow>
    mvcc_ok s' \<and> barrier s' = barrier s \<and> revision_mode s' = revision_mode s \<and>
    live s' = apply_changes (live s) cs \<and>
    current_revision s < r \<and> current_revision s' = r \<and>
    (\<exists>et. \<forall>ck. tx_get (backend s') T_changelog ck =
       (if ck = encode_changelog_key r
        then Some (ChangeEvent_to_bytes \<lparr>ev_revision = r, ev_changes = cs, ev_event_type = et\<rparr>)
        else tx_get (backend s) T_changelog ck)) \<and>
    meta_step (backend s) (backend s') r \<and>
    tx_get (backend s') T_meta META_COMPACT_REVISION = tx_get (backend s) T_meta META_COMPACT_REVISION \<and>
    tx_get (backend s') T_kv IMPORT_HISTORY_FLOORS = tx_get (backend s) T_kv IMPORT_HISTORY_FLOORS"

text \<open>Writes to the system rows of the key table: leases, fences, watermarks and the like.\<close>

definition sys_step :: "db \<Rightarrow> db \<Rightarrow> bool" where
  "sys_step d d' \<longleftrightarrow>
    (db_ok d \<longrightarrow> db_ok d') \<and> (\<forall>t k. t \<noteq> T_kv \<longrightarrow> tx_get d' t k = tx_get d t k) \<and>
    (\<forall>k. prefix KV_PREFIX k \<or> k = IMPORT_HISTORY_FLOORS \<longrightarrow> tx_get d' T_kv k = tx_get d T_kv k)"

lemma sys_step_refl [simp]: "sys_step d d"
  by (simp add: sys_step_def)

lemma sys_step_trans: "sys_step d d1 \<Longrightarrow> sys_step d1 d2 \<Longrightarrow> sys_step d d2"
  by (simp add: sys_step_def)

lemma sys_stepD:
  assumes "sys_step d d'"
  shows "db_ok d \<Longrightarrow> db_ok d'" "t \<noteq> T_kv \<Longrightarrow> tx_get d' t k = tx_get d t k"
    "tx_get d' T_kv (encode_kv_key uk) = tx_get d T_kv (encode_kv_key uk)"
    "tx_get d' T_kv IMPORT_HISTORY_FLOORS = tx_get d T_kv IMPORT_HISTORY_FLOORS"
    "kv_metadata_in_tx d' uk = kv_metadata_in_tx d uk"
  using assms by (auto simp: sys_step_def kv_metadata_in_tx_def)

lemma sys_step_write:
  assumes "\<not> prefix KV_PREFIX k" "k \<noteq> IMPORT_HISTORY_FLOORS"
  shows "sys_step d (tx_insert d T_kv k v)" "db_ok d \<Longrightarrow> sys_step d (tx_remove d T_kv k)"
  using assms by (auto simp: sys_step_def table_simps)

lemma note_log_index_rows:
  "t \<noteq> T_meta \<or> k \<noteq> META_CURRENT_REVISION \<Longrightarrow> tx_get (note_log_index_revision mode d r) t k = tx_get d t k"
  "db_ok d \<Longrightarrow> db_ok (note_log_index_revision mode d r)"
  by (auto simp: note_log_index_revision_def table_simps)

text \<open>
  An operation on system rows: user keys, their metadata, the changelog and the
  history bounds stay, and the revision does not go back.
\<close>

definition sys_frame :: "MvccStorage \<Rightarrow> MvccStorage \<Rightarrow> bool" where
  "sys_frame s s' \<longleftrightarrow>
    barrier s' = barrier s \<and> revision_mode s' = revision_mode s \<and>
    (db_ok (backend s) \<longrightarrow> db_ok (backend s')) \<and>
    (\<forall>k. tx_get (backend s') T_changelog k = tx_get (backend s) T_changelog k) \<and>
    (\<forall>k. tx_get (backend s') T_kv_meta k = tx_get (backend s) T_kv_meta k) \<and>
    (\<forall>k. prefix KV_PREFIX k \<or> k = IMPORT_HISTORY_FLOORS \<longrightarrow>
       tx_get (backend s') T_kv k = tx_get (backend s) T_kv k) \<and>
    tx_get (backend s') T_meta META_COMPACT_REVISION = tx_get (backend s) T_meta META_COMPACT_REVISION \<and>
    current_revision s \<le> current_revision s'"

lemma sys_frameD:
  assumes "sys_frame s s'"
  shows "db_ok (backend s) \<Longrightarrow> db_ok (backend s')"
    "tx_get (backend s') T_changelog k = tx_get (backend s) T_changelog k"
    "kv_metadata_in_tx (backend s') k = kv_metadata_in_tx (backend s) k"
    "tx_get (backend s') T_meta META_COMPACT_REVISION = tx_get (backend s) T_meta META_COMPACT_REVISION"
    "current_revision s \<le> current_revision s'" "barrier s' = barrier s" "revision_mode s' = revision_mode s"
    "tx_get (backend s') T_kv (encode_kv_key k) = tx_get (backend s) T_kv (encode_kv_key k)"
    "tx_get (backend s') T_kv IMPORT_HISTORY_FLOORS = tx_get (backend s) T_kv IMPORT_HISTORY_FLOORS"
  using assms by (auto simp: sys_frame_def kv_metadata_in_tx_def)

lemma sys_frame_refl [simp]: "sys_frame s s"
  by (simp add: sys_frame_def)

lemma sys_frame_trans: "sys_frame s s1 \<Longrightarrow> sys_frame s1 s2 \<Longrightarrow> sys_frame s s2"
  by (auto simp: sys_frame_def)

lemma sys_frame_ok:
  assumes f: "sys_frame s s'" and ok: "mvcc_ok s"
  shows "mvcc_ok s'" "live s' = live s"
proof -
  note fr = sys_frameD [OF f]
  have "mvcc_ok (s\<lparr>backend := backend s\<rparr>)" using ok by simp
  note keep = mvcc_ok_frame [OF this fr(1) [OF mvcc_okD(1) [OF ok]] fr(8,3)]
  have "s' = s\<lparr>backend := backend s'\<rparr>" using fr(6,7) by (cases s; cases s') simp
  then show "mvcc_ok s'" "live s' = live s" using keep by simp_all
qed

lemma not_prefix_floors [simp]: "\<not> prefix KV_PREFIX IMPORT_HISTORY_FLOORS"
  by (simp add: key_defs ascii_def)

lemma accept_mvcc_ok:
  assumes "mvcc_ok s" "accept_revision (revision_mode s) (backend s) r p = Inr d1"
  shows "mvcc_ok (s\<lparr>backend := d1\<rparr>)" "live (s\<lparr>backend := d1\<rparr>) = live s"
  using assms accept_revision_frame [OF assms(2)] mvcc_ok_frame [where s = s and d = "backend s" and d' = d1]
  by (simp_all add: mvcc_okD(1))

lemma committed_sysI:
  assumes ok: "mvcc_ok s" and pol: "policy_matches (revision_mode s) p"
    and acc: "accept_revision (revision_mode s) (backend s) r p = Inr d1"
    and sys: "sys_step d1 d1'" and step: "kv_step s d1' d2 r cs"
    and d': "d' = put_applied (put_event d2 \<lparr>ev_revision = r, ev_changes = cs, ev_event_type = et\<rparr>) a"
  shows "committed s (s\<lparr>backend := d'\<rparr>) r cs"
proof -
  have d1: "current_revision s < r" "d1 = tx_insert (backend s) T_meta META_CURRENT_REVISION (u64_bytes r)"
    using acc by (auto simp: accept_revision_Inr [OF pol] current_revision_eq split: if_splits)
  note frame = accept_revision_frame [OF acc] and st = kv_stepD [OF step] and sy = sys_stepD [OF sys]
  have mid: "mvcc_ok (s\<lparr>backend := d1'\<rparr>)" "live (s\<lparr>backend := d1'\<rparr>) = live s"
    using mvcc_ok_frame [OF accept_mvcc_ok(1) [OF ok acc] sy(1)] accept_mvcc_ok [OF ok acc] sy(3,5)
      mvcc_okD(1) [OF accept_mvcc_ok(1) [OF ok acc]]
    by simp_all
  have db: "db_ok d'" using mvcc_okD(1) [OF st(1)] by (simp add: d')
  have rows: "tx_get d' T_kv k = tx_get d2 T_kv k" "kv_metadata_in_tx d' k = kv_metadata_in_tx d2 k" for k
    by (simp_all add: d' table_simps row_simps)
  have "mvcc_ok (s\<lparr>backend := d'\<rparr>)" "live (s\<lparr>backend := d'\<rparr>) = live (s\<lparr>backend := d2\<rparr>)"
    using mvcc_ok_frame [OF st(1) db] rows by simp_all
  moreover have "live (s\<lparr>backend := d2\<rparr>) = apply_changes (live s) cs"
    using st(2) mid(2) by simp
  moreover have "current_revision (s\<lparr>backend := d'\<rparr>) = r"
    using st(3) [of T_meta] sy(2) [of T_meta] by (simp add: current_revision_eq d' row_simps table_simps d1(2))
  moreover have "tx_get d' T_changelog ck =
       (if ck = encode_changelog_key r
        then Some (ChangeEvent_to_bytes \<lparr>ev_revision = r, ev_changes = cs, ev_event_type = et\<rparr>)
        else tx_get (backend s) T_changelog ck)" for ck
    using st(3) [of T_changelog] sy(2) [of T_changelog] frame(1) by (simp add: d' table_simps)
  moreover have "meta_step (backend s) d' r"
    using st(5) frame(4) rows sy(5) by (simp add: meta_step_def cong: option.case_cong)
  moreover have "tx_get d' T_meta META_COMPACT_REVISION = tx_get (backend s) T_meta META_COMPACT_REVISION"
    using st(3) [of T_meta] sy(2) [of T_meta] frame(2) by (simp add: d' table_simps)
  moreover have "tx_get d' T_kv IMPORT_HISTORY_FLOORS = tx_get (backend s) T_kv IMPORT_HISTORY_FLOORS"
    using st(4) [of IMPORT_HISTORY_FLOORS] sy(4) frame(1) [of T_kv] rows by simp
  ultimately show ?thesis
    using d1(1) by (auto simp: committed_def)
qed

lemmas committedI = committed_sysI [OF _ _ _ sys_step_refl]

lemma put_tx_committed:
  assumes "mvcc_ok s" "policy_matches (revision_mode s) p" "barrier_ok s nonce"
    and "put_tx s nonce k v l r a p (backend s) = Inr (oc, d')"
  shows "committed s (s\<lparr>backend := d'\<rparr>) r [\<lparr>ch_key = k, ch_value = Some v, ch_prev_value = None\<rparr>]"
proof -
  obtain d1 e where acc: "accept_revision (revision_mode s) (backend s) r p = Inr d1"
    and e: "encrypt_value s nonce (encode_kv_key k) v = Inr e"
    and d': "d' = put_applied (put_event
      (put_metadata (tx_insert d1 T_kv (encode_kv_key k) e) k (put_meta (kv_metadata_in_tx d1 k) r l))
        \<lparr>ev_revision = r, ev_changes = [\<lparr>ch_key = k, ch_value = Some v, ch_prev_value = None\<rparr>],
         ev_event_type = Put\<rparr>) a"
    using assms(4) by (fastforce simp: put_tx_def Let_def put_meta_def)
  show ?thesis
    by (rule committedI [OF assms(1,2) acc kv_step_put [OF accept_mvcc_ok(1) [OF assms(1) acc] assms(3) e refl] d'])
qed

lemma delete_tx_committed:
  assumes "mvcc_ok s" "policy_matches (revision_mode s) p"
    and "delete_tx s k r a p (backend s) = Inr (oc, d')"
  shows "committed s (s\<lparr>backend := d'\<rparr>) r [tombstone_change k]"
proof -
  obtain d1 where acc: "accept_revision (revision_mode s) (backend s) r p = Inr d1"
    using assms(3) by (auto simp: delete_tx_def)
  define d2 where "d2 = (case kv_metadata_in_tx d1 k of
      Some m \<Rightarrow> (if \<not> deleted m then put_metadata d1 k (mark_deleted m r) else d1) | None \<Rightarrow> d1)"
  have d': "d' = put_applied (put_event d2 \<lparr>ev_revision = r, ev_changes = [tombstone_change k],
      ev_event_type = Delete\<rparr>) a"
    using assms(3) acc by (auto simp: delete_tx_def d2_def Let_def tombstone_change_def)
  note ok1 = accept_mvcc_ok(1) [OF assms(1) acc]
  have db: "db_ok d2" using mvcc_okD(1) [OF ok1] by (auto simp: d2_def split: option.split)
  have "kv_step s d1 d2 r [tombstone_change k]"
  proof (rule kv_step_mark [OF ok1 db, where K = "{k}" and f = "\<lambda>m. if deleted m then version m else version m + 1"
        and g = "\<lambda>m. if deleted m then mod_revision m else r"])
    show "kv_metadata_in_tx d2 k' = (if k' \<in> {k} then map_option
        (\<lambda>m. m\<lparr>version := if deleted m then version m else version m + 1,
               mod_revision := if deleted m then mod_revision m else r, deleted := True\<rparr>)
        (kv_metadata_in_tx d1 k') else kv_metadata_in_tx d1 k')" for k'
      by (auto simp: d2_def row_simps mark_deleted_eq split: option.split)
  qed (auto simp: d2_def table_simps tombstone_change_def fun_eq_iff split: option.split)
  then show ?thesis
    by (rule committedI [OF assms(1,2) acc _ d'])
qed

section \<open>What a range delete does\<close>

definition live_key :: "db \<Rightarrow> bytes \<Rightarrow> bool" where
  "live_key d k \<longleftrightarrow> (\<exists>m. kv_metadata_in_tx d k = Some m \<and> \<not> deleted m)"

definition mark_keys :: "u64 \<Rightarrow> bytes set \<Rightarrow> db \<Rightarrow> bytes \<Rightarrow> KvMetadata option" where
  "mark_keys r K d k =
    (if k \<in> K then map_option (\<lambda>m. mark_deleted m r) (kv_metadata_in_tx d k)
     else kv_metadata_in_tx d k)"

lemma delete_range_loop_spec:
  assumes "distinct ks" "\<forall>k \<in> set ks. \<not> (b \<noteq> [] \<and> b \<le> k)"
    and "map fst rs = map encode_kv_key ks"
    and "delete_range_loop r b acc d rs = (dels, d')"
  shows "dels = acc @ filter (live_key d) ks \<and>
    (\<forall>k. kv_metadata_in_tx d' k = mark_keys r (set (filter (live_key d) ks)) d k) \<and>
    (\<forall>t k. t \<noteq> T_kv_meta \<longrightarrow> tx_get d' t k = tx_get d t k) \<and>
    (db_ok d \<longrightarrow> db_ok d')"
  using assms
proof (induction ks arbitrary: acc d rs)
  case Nil
  then show ?case by (simp add: mark_keys_def)
next
  case (Cons k ks)
  obtain v rs' where rs: "rs = (encode_kv_key k, v) # rs'" "map fst rs' = map encode_kv_key ks"
    using Cons.prems(3) by (cases rs) auto
  have stop: "\<not> (b \<noteq> [] \<and> b \<le> k)" using Cons.prems(2) by auto
  show ?case
  proof (cases "live_key d k")
    case True
    then obtain m where m: "kv_metadata_in_tx d k = Some m" "\<not> deleted m" by (auto simp: live_key_def)
    let ?d1 = "put_metadata d k (mark_deleted m r)"
    have same: "live_key ?d1 k' = live_key d k'" if "k' \<in> set ks" for k'
      using Cons.prems(1) that by (auto simp: live_key_def row_simps)
    then have "filter (live_key ?d1) ks = filter (live_key d) ks" by (simp cong: filter_cong)
    moreover have "delete_range_loop r b (acc @ [k]) ?d1 rs' = (dels, d')"
      using Cons.prems(4) stop m by (auto simp: rs)
    ultimately show ?thesis
      using Cons.IH [of rs' "acc @ [k]" ?d1] Cons.prems(1,2) rs(2) True m
      by (auto simp: mark_keys_def row_simps table_simps)
  next
    case False
    then have "delete_range_loop r b acc d rs' = (dels, d')"
      using Cons.prems(4) stop by (auto simp: rs live_key_def split: option.splits if_splits)
    then show ?thesis
      using Cons.IH [of rs' acc d] Cons.prems(1,2) rs(2) False by (auto simp: mark_keys_def)
  qed
qed

lemma inj_encode_kv_key: "inj encode_kv_key"
  by (rule injI) simp

text \<open>The user keys a scan visits, when every row in its bounds is a user row.\<close>

lemma scan_keys:
  assumes "db_ok d" and user: "\<And>ik. in_range lo hi ik \<Longrightarrow> prefix KV_PREFIX ik"
  obtains ks where "map fst (tx_iter_range d T_kv lo hi) = map encode_kv_key ks"
    "sorted_wrt (<) ks" "distinct ks"
    "\<And>k. k \<in> set ks \<longleftrightarrow> in_range lo hi (encode_kv_key k) \<and> tx_get d T_kv (encode_kv_key k) \<noteq> None"
proof -
  let ?rows = "tx_iter_range d T_kv lo hi"
  let ?ks = "map (\<lambda>r. the (decode_kv_key (fst r))) ?rows"
  have key: "fst r = encode_kv_key (the (decode_kv_key (fst r)))" if r: "r \<in> set ?rows" for r
  proof -
    have "in_range lo hi (fst r)"
      using r tx_iter_range_iff [OF assms(1), of "fst r" "snd r"] by simp
    then obtain k where "fst r = encode_kv_key k"
      using user by (auto simp: prefix_def encode_kv_key_def)
    then show ?thesis by simp
  qed
  have map: "map fst ?rows = map encode_kv_key ?ks"
    using key by (auto simp: comp_def)
  have "sorted_wrt (<) (map encode_kv_key ?ks)"
    using tx_iter_range_sorted [OF assms(1), of T_kv] unfolding keys_sorted_def map [symmetric] .
  then have sorted: "sorted_wrt (<) ?ks" by (simp add: sorted_wrt_map)
  have mem: "k \<in> set ?ks \<longleftrightarrow> in_range lo hi (encode_kv_key k) \<and> tx_get d T_kv (encode_kv_key k) \<noteq> None" for k
  proof -
    have "k \<in> set ?ks \<longleftrightarrow> encode_kv_key k \<in> set (map fst ?rows)"
      by (simp only: map list.set_map inj_image_mem_iff [OF inj_encode_kv_key])
    also have "\<dots> \<longleftrightarrow> (\<exists>v. (encode_kv_key k, v) \<in> set ?rows)" by force
    finally show ?thesis by (auto simp: tx_iter_range_iff [OF assms(1)])
  qed
  have "distinct ?ks" using sorted strict_sorted_iff by blast
  then show thesis by (rule that [OF map sorted _ mem])
qed

text \<open>The keys a scan of \<open>[a, b)\<close> visits.\<close>

lemma range_scan_keys:
  assumes "db_ok d"
  obtains ks where "map fst (tx_iter_range d T_kv (encode_kv_key a) (encode_kv_key b)) = map encode_kv_key ks"
    "sorted_wrt (<) ks" "distinct ks"
    "\<And>k. k \<in> set ks \<longleftrightarrow> a \<le> k \<and> k < b \<and> tx_get d T_kv (encode_kv_key k) \<noteq> None"
  by (rule scan_keys [OF assms range_prefix_kv [of a b]], assumption, rule that) (auto simp: in_range_def)

lemma live_key_iff:
  assumes "mvcc_ok s"
  shows "live s k \<noteq> None \<longleftrightarrow> live_key (backend s) k"
  using mvcc_okD(2-4) [OF assms, of k]
  by (cases "tx_get (backend s) T_kv (encode_kv_key k)")
     (auto simp: live_def get_def is_deleted_def live_key_def split: option.splits)

lemma range_rows_keys:
  assumes "mvcc_ok s"
  shows "k \<in> set (map fst (range_rows s a b)) \<longleftrightarrow> a \<le> k \<and> k < b \<and> live s k \<noteq> None"
proof -
  have "k \<in> set (map fst (range_rows s a b)) \<longleftrightarrow> (\<exists>v. (k, v) \<in> set (range_rows s a b))"
    by force
  then show ?thesis by (auto simp: range_rows_spec(2) [OF assms])
qed


lemma delete_range_tx_committed:
  assumes ok: "mvcc_ok s" and pol: "policy_matches (revision_mode s) p"
    and tx: "delete_range_tx s a b r ap p (backend s) = Inr (oc, d')"
  shows "committed s (s\<lparr>backend := d'\<rparr>) r (map tombstone_change (map fst (range_rows s a b)))"
    and "oc = \<lparr>dr_deleted_keys = map fst (range_rows s a b), dr_replayed = False\<rparr>"
proof -
  obtain d1 where acc: "accept_revision (revision_mode s) (backend s) r p = Inr d1"
    using tx by (auto simp: delete_range_tx_def)
  note ok1 = accept_mvcc_ok [OF ok acc]
  have db1: "db_ok d1" using mvcc_okD(1) [OF ok1(1)] by simp
  let ?rows = "tx_iter_range d1 T_kv (encode_kv_key a) (encode_kv_key b)"
  obtain ks where ks: "map fst ?rows = map encode_kv_key ks" "sorted_wrt (<) ks" "distinct ks"
      "\<And>k. k \<in> set ks \<longleftrightarrow> a \<le> k \<and> k < b \<and> tx_get d1 T_kv (encode_kv_key k) \<noteq> None"
    by (rule range_scan_keys [OF db1, of a b]) (rule that)
  obtain dels d2 where loop: "delete_range_loop r b [] d1 ?rows = (dels, d2)" by fastforce
  have "\<forall>k \<in> set ks. \<not> (b \<noteq> [] \<and> b \<le> k)" by (simp add: ks(4) not_le)
  note loop_spec = delete_range_loop_spec [OF ks(3) this ks(1) loop]
  have spec: "dels = filter (live_key d1) ks"
      "\<And>k. kv_metadata_in_tx d2 k = mark_keys r (set dels) d1 k"
      "\<And>t k. t \<noteq> T_kv_meta \<Longrightarrow> tx_get d2 t k = tx_get d1 t k" "db_ok d2"
    using loop_spec db1 by simp_all
  have in_dels: "k \<in> set dels \<longleftrightarrow> a \<le> k \<and> k < b \<and> live (s\<lparr>backend := d1\<rparr>) k \<noteq> None" for k
    using mvcc_okD(4) [OF ok1(1), of k] unfolding spec(1) live_key_iff [OF ok1(1)]
    by (auto simp: ks(4) live_key_def)
  have dels: "dels = map fst (range_rows s a b)"
  proof -
    have "set dels = set (map fst (range_rows s a b))"
      by (rule set_eqI) (simp only: in_dels range_rows_keys [OF ok] ok1(2))
    moreover have "sorted_wrt (<) dels" using ks(2) by (simp add: spec(1) sorted_wrt_filter)
    moreover have "sorted_wrt (<) (map fst (range_rows s a b))"
      using range_rows_spec(1) [OF ok] by (simp add: keys_sorted_def)
    ultimately show ?thesis
      by (metis sorted_distinct_set_unique strict_sorted_iff)
  qed
  have step: "kv_step s d1 d2 r (map tombstone_change dels)"
    by (rule kv_step_mark [OF ok1(1) spec(4,3), where K = "set dels" and f = "\<lambda>m. version m + 1" and g = "\<lambda>m. r"])
       (auto simp: spec(2) mark_keys_def mark_deleted_eq apply_tombstones fun_eq_iff)
  have oc: "oc = \<lparr>dr_deleted_keys = dels, dr_replayed = False\<rparr>"
    and d': "d' = put_applied (put_event d2 \<lparr>ev_revision = r, ev_changes = map tombstone_change dels,
             ev_event_type = Delete\<rparr>) ap"
    using tx acc loop by (simp_all add: delete_range_tx_def Let_def)
  show "committed s (s\<lparr>backend := d'\<rparr>) r (map tombstone_change (map fst (range_rows s a b)))"
    using committedI [OF ok pol acc step d'] by (simp add: dels)
  show "oc = \<lparr>dr_deleted_keys = map fst (range_rows s a b), dr_replayed = False\<rparr>"
    by (simp add: oc dels)
qed

section \<open>Applied, replayed, rejected\<close>

lemma put_at_key_committed:
  assumes "mvcc_ok s" "policy_matches (revision_mode s) p" "barrier_ok s nonce"
    and "put_at_key s nonce k v l r a p = (Inr oc, s')" "\<not> replayed oc"
  shows "committed s s' r [\<lparr>ch_key = k, ch_value = Some v, ch_prev_value = None\<rparr>]"
  using put_at_key_applied [OF assms(4,5)] put_tx_committed [OF assms(1-3)] by blast

lemma delete_at_key_committed:
  assumes "mvcc_ok s" "policy_matches (revision_mode s) p"
    and "delete_at_key s k r a p = (Inr oc, s')" "\<not> replayed oc"
  shows "committed s s' r [tombstone_change k]"
  using delete_at_key_applied [OF assms(3,4)] delete_tx_committed [OF assms(1,2)] by blast

lemma delete_range_guard_replayed:
  "delete_range_guard s a b r p = Some (Inr oc) \<Longrightarrow> dr_replayed oc"
  by (auto simp: delete_range_guard_def Let_def split: sum.splits option.splits if_splits)

lemma delete_range_at_key_applied:
  assumes "delete_range_at_key s a b r ap p = (Inr oc, s')" "\<not> dr_replayed oc"
  shows "\<exists>d. delete_range_tx s a b r ap p (backend s) = Inr (oc, d) \<and> s' = s\<lparr>backend := d\<rparr>"
  using assms delete_range_guard_replayed
  by (auto simp: delete_range_at_key_def split: option.splits)

lemma delete_range_at_key_committed:
  assumes "mvcc_ok s" "policy_matches (revision_mode s) p"
    and "delete_range_at_key s a b r ap p = (Inr oc, s')" "\<not> dr_replayed oc"
  shows "committed s s' r (map tombstone_change (map fst (range_rows s a b)))"
    and "dr_deleted_keys oc = map fst (range_rows s a b)"
  using delete_range_at_key_applied [OF assms(3,4)] delete_range_tx_committed [OF assms(1,2)]
  by fastforce+

lemma delete_range_tx_not_replayed:
  "delete_range_tx s a b r ap p d = Inr (oc, d') \<Longrightarrow> \<not> dr_replayed oc"
  by (auto simp: delete_range_tx_def Let_def case_prod_beta)

lemma delete_range_at_key_unchanged:
  assumes "delete_range_at_key s a b r ap p = (res, s')" "\<forall>oc. res = Inr oc \<longrightarrow> dr_replayed oc"
  shows "s' = s"
  using assms delete_range_tx_not_replayed
  by (cases res) (auto simp: delete_range_at_key_def split: option.splits)

lemma committedD:
  assumes "committed s s' r cs"
  shows "mvcc_ok s'" "live s' = apply_changes (live s) cs" "current_revision s < r"
    "current_revision s' = r" "barrier s' = barrier s" "revision_mode s' = revision_mode s"
    "meta_step (backend s) (backend s') r"
    "tx_get (backend s') T_meta META_COMPACT_REVISION = tx_get (backend s) T_meta META_COMPACT_REVISION"
    "tx_get (backend s') T_kv IMPORT_HISTORY_FLOORS = tx_get (backend s) T_kv IMPORT_HISTORY_FLOORS"
  using assms by (auto simp: committed_def)

lemma committed_changelog:
  assumes "committed s s' r cs"
  obtains et where "\<And>ck. tx_get (backend s') T_changelog ck =
       (if ck = encode_changelog_key r
        then Some (ChangeEvent_to_bytes \<lparr>ev_revision = r, ev_changes = cs, ev_event_type = et\<rparr>)
        else tx_get (backend s) T_changelog ck)"
  using assms by (auto simp: committed_def)

text \<open>A put goes through whenever its revision is new and the value can be encrypted.\<close>

lemma put_at_key_succeeds:
  assumes "current_revision s < r" "\<not> changelog_contains_revision s r"
    and "policy_matches (revision_mode s) p" "encrypt_value s nonce (encode_kv_key k) v = Inr e"
  shows "\<exists>s'. put_at_key s nonce k v l r a p = (Inr \<lparr>replayed = False\<rparr>, s')"
proof -
  have "replay_guard s r p same = None" for same
    using assms(2) by (simp add: replay_guard_None changelog_contains_revision_def)
  moreover have "\<exists>d. put_tx s nonce k v l r a p (backend s) = Inr (\<lparr>replayed = False\<rparr>, d)"
    using assms(1,4) by (auto simp: put_tx_def accept_revision_Inr [OF assms(3)] current_revision_eq Let_def)
  ultimately show ?thesis
    by (auto simp: put_at_key_def)
qed

text \<open>Replaying the same write at the same revision is recognised; another write is refused.\<close>

lemma put_replay:
  assumes "committed s s' r [\<lparr>ch_key = k, ch_value = Some v, ch_prev_value = None\<rparr>]"
    and "length k < 2 ^ 32" "length v < 2 ^ 32"
  shows "put_at_key s' nonce k' v' l r a PolicyCommitTs =
    ((if k' = k \<and> v' = v then Inr \<lparr>replayed = True\<rparr> else Inl (CommitRejected r r)), s')"
proof -
  obtain et where ck: "tx_get (backend s') T_changelog (encode_changelog_key r) =
      Some (ChangeEvent_to_bytes \<lparr>ev_revision = r,
        ev_changes = [\<lparr>ch_key = k, ch_value = Some v, ch_prev_value = None\<rparr>], ev_event_type = et\<rparr>)"
    using assms(1) by (rule committed_changelog) simp
  have "event_valid \<lparr>ev_revision = r,
        ev_changes = [\<lparr>ch_key = k, ch_value = Some v, ch_prev_value = None\<rparr>], ev_event_type = et\<rparr>"
    using assms(2,3) by (simp add: event_valid_def change_valid_def)
  then show ?thesis
    using ck committedD(4) [OF assms(1)]
    by (auto simp: put_at_key_def replay_guard_def changelog_event_at_def ChangeEvent_round_trip)
qed

section \<open>Properties\<close>

abbreviation fresh :: "RevisionMode \<Rightarrow> MvccStorage" where
  "fresh mode \<equiv> new_with_revision_mode empty_db mode"

lemma fresh_simps [simp]:
  "barrier (fresh mode) = None" "revision_mode (fresh mode) = mode"
  "current_revision (fresh mode) = 0" "\<not> changelog_contains_revision (fresh mode) r"
  "barrier_ok (fresh mode) nonce" "encrypt_value (fresh mode) nonce ik v = Inr v"
  "get (fresh mode) k = Inr None"
  by (simp_all add: new_with_revision_mode_def current_revision_def get_applied_log_id_def
      applied_in_tx_def changelog_contains_revision_def barrier_ok_def encrypt_value_def get_def
      split: RevisionMode.split)

text \<open>C13: After a put that was applied, the key reads the new value, every other key reads
  what it read before, and the store's revision has moved forward to the put's.\<close>

theorem get_after_put:
  assumes "mvcc_ok s" "policy_matches (revision_mode s) p" "barrier_ok s nonce"
    and "put_at_key s nonce k v l r a p = (Inr oc, s')" "\<not> replayed oc"
  shows "get s' k' = (if k' = k then Inr (Some v) else get s k') \<and>
    current_revision s < r \<and> current_revision s' = r \<and> mvcc_ok s'"
proof -
  note c = committedD [OF put_at_key_committed [OF assms]]
  show ?thesis using c by (simp add: get_live [OF c(1)] get_live [OF assms(1)])
qed

theorem get_after_put_witness:
  "\<exists>s'. put_at_key (fresh CommitTs) [] [1] [10] None 5 (standalone 1) PolicyCommitTs =
      (Inr \<lparr>replayed = False\<rparr>, s') \<and>
    get s' [1] = Inr (Some [10]) \<and> get s' [2] = Inr None \<and> current_revision s' = 5"
proof -
  have pol: "policy_matches CommitTs PolicyCommitTs" by (simp add: policy_matches_def)
  obtain s' where s': "put_at_key (fresh CommitTs) [] [1] [10] None 5 (standalone 1) PolicyCommitTs =
      (Inr \<lparr>replayed = False\<rparr>, s')"
    using put_at_key_succeeds [of "fresh CommitTs" 5 PolicyCommitTs "[]" "[1]" "[10]" "[10]"] pol by auto
  show ?thesis
    using get_after_put [OF mvcc_ok_new _ _ s'] pol s' by (intro exI [of _ s']) simp
qed


text \<open>After a delete that was applied, the key reads nothing, every other key reads
  what it read before, and the revision is the delete's, whether or not the
  key existed.\<close>

theorem get_after_delete:
  assumes "mvcc_ok s" "policy_matches (revision_mode s) p"
    and "delete_at_key s k r a p = (Inr oc, s')" "\<not> replayed oc"
  shows "get s' k' = (if k' = k then Inr None else get s k') \<and>
    current_revision s < r \<and> current_revision s' = r \<and> mvcc_ok s'"
proof -
  note c = committedD [OF delete_at_key_committed [OF assms]]
  show ?thesis using c by (simp add: get_live [OF c(1)] get_live [OF assms(1)] tombstone_change_def)
qed

lemma delete_at_key_succeeds:
  assumes "current_revision s < r" "\<not> changelog_contains_revision s r"
    and "policy_matches (revision_mode s) p"
  shows "\<exists>s'. delete_at_key s k r a p = (Inr \<lparr>replayed = False\<rparr>, s')"
proof -
  have "replay_guard s r p same = None" for same
    using assms(2) by (simp add: replay_guard_None changelog_contains_revision_def)
  moreover have "\<exists>d. delete_tx s k r a p (backend s) = Inr (\<lparr>replayed = False\<rparr>, d)"
    using assms(1) by (auto simp: delete_tx_def accept_revision_Inr [OF assms(3)] current_revision_eq Let_def)
  ultimately show ?thesis
    by (auto simp: delete_at_key_def)
qed

text \<open>A store with one key, for the instances below.\<close>

lemma one_key_store:
  "\<exists>s. mvcc_ok s \<and> revision_mode s = LogIndex \<and> barrier s = None \<and> current_revision s = 1 \<and>
     live s = [[1] \<mapsto> [10]] \<and> (\<forall>r. r \<noteq> 1 \<longrightarrow> \<not> changelog_contains_revision s r)"
proof -
  have pol: "policy_matches LogIndex PolicyLogIndex" by (simp add: policy_matches_def)
  obtain s where s: "put_at_key (fresh LogIndex) [] [1] [10] None 1 (standalone 1) PolicyLogIndex =
      (Inr \<lparr>replayed = False\<rparr>, s)"
    using put_at_key_succeeds [of "fresh LogIndex" 1 PolicyLogIndex "[]" "[1]" "[10]" "[10]"] pol by auto
  have c: "committed (fresh LogIndex) s 1 [\<lparr>ch_key = [1], ch_value = Some [10], ch_prev_value = None\<rparr>]"
    using put_at_key_committed [OF mvcc_ok_new _ _ s] pol by simp
  have "\<not> changelog_contains_revision s r" if "r \<noteq> 1" for r
    by (rule committed_changelog [OF c])
       (use that in \<open>simp add: changelog_contains_revision_def new_with_revision_mode_def\<close>)
  moreover have "live (fresh LogIndex) = Map.empty"
    by (simp add: fun_eq_iff live_def)
  ultimately show ?thesis
    using committedD(1-6) [OF c] by (intro exI [of _ s]) simp
qed

theorem get_after_delete_witness:
  "\<exists>s s'. get s [1] = Inr (Some [10]) \<and>
    delete_at_key s [1] 2 (standalone 2) PolicyLogIndex = (Inr \<lparr>replayed = False\<rparr>, s') \<and>
    get s' [1] = Inr None \<and> current_revision s' = 2"
proof -
  obtain s where s: "mvcc_ok s" "revision_mode s = LogIndex" "current_revision s = 1"
      "live s = [[1] \<mapsto> [10]]" "\<not> changelog_contains_revision s 2"
    using one_key_store by fastforce
  have pol: "policy_matches LogIndex PolicyLogIndex" by (simp add: policy_matches_def)
  obtain s' where s': "delete_at_key s [1] 2 (standalone 2) PolicyLogIndex = (Inr \<lparr>replayed = False\<rparr>, s')"
    using delete_at_key_succeeds [of s 2 PolicyLogIndex] s pol by auto
  then show ?thesis
    using get_after_delete [OF s(1) _ s', of "[1]"] s pol
    by (intro exI [of _ s] exI [of _ s']) (simp add: get_live)
qed

text \<open>C14: A range delete that was applied removes exactly the live keys of \<open>[a, b)\<close>: they
  read nothing afterwards, the other keys keep their value, and the keys it
  reports are those keys in order.\<close>

theorem delete_range_exact:
  assumes "mvcc_ok s" "policy_matches (revision_mode s) p"
    and "delete_range_at_key s a b r ap p = (Inr oc, s')" "\<not> dr_replayed oc"
  shows "get s' k = (if a \<le> k \<and> k < b then Inr None else get s k) \<and>
    (k \<in> set (dr_deleted_keys oc) \<longleftrightarrow> a \<le> k \<and> k < b \<and> get s k \<noteq> Inr None) \<and>
    sorted_wrt (<) (dr_deleted_keys oc) \<and> current_revision s' = r"
proof -
  note c = committedD [OF delete_range_at_key_committed(1) [OF assms]]
    and keys = delete_range_at_key_committed(2) [OF assms]
  have "live s k = None" if "k \<notin> set (dr_deleted_keys oc)" "a \<le> k" "k < b"
    using that unfolding keys range_rows_keys [OF assms(1)] by auto
  then have "live s' k = (if a \<le> k \<and> k < b then None else live s k)"
    using range_rows_keys [OF assms(1), of k a b]
    by (auto simp only: c(2) apply_tombstones keys split: if_splits)
  moreover have "sorted_wrt (<) (dr_deleted_keys oc)"
    using range_rows_spec(1) [OF assms(1)] by (simp add: keys keys_sorted_def)
  ultimately show ?thesis
    using c(4) range_rows_keys [OF assms(1), of k a b]
    by (simp add: keys get_live [OF c(1)] get_live [OF assms(1)])
qed


lemma delete_range_at_key_succeeds:
  assumes "current_revision s < r" "\<not> changelog_contains_revision s r"
    and "policy_matches (revision_mode s) p"
  shows "\<exists>oc s'. delete_range_at_key s a b r ap p = (Inr oc, s') \<and> \<not> dr_replayed oc"
proof -
  have "delete_range_guard s a b r p = None"
    using assms(2) by (simp add: delete_range_guard_def changelog_event_at_def changelog_contains_revision_def)
  moreover have "\<exists>oc d. delete_range_tx s a b r ap p (backend s) = Inr (oc, d)"
    using assms(1)
    by (auto simp: delete_range_tx_def accept_revision_Inr [OF assms(3)] current_revision_eq Let_def case_prod_beta)
  ultimately show ?thesis
    using delete_range_tx_not_replayed by (fastforce simp: delete_range_at_key_def)
qed

theorem delete_range_exact_witness:
  "\<exists>s s' oc. get s [1] = Inr (Some [10]) \<and>
    delete_range_at_key s [0] [2] 2 (standalone 2) PolicyLogIndex = (Inr oc, s') \<and>
    get s' [1] = Inr None \<and> [1] \<in> set (dr_deleted_keys oc)"
proof -
  obtain s where s: "mvcc_ok s" "revision_mode s = LogIndex" "current_revision s = 1"
      "live s = [[1] \<mapsto> [10]]" "\<not> changelog_contains_revision s 2"
    using one_key_store by fastforce
  have pol: "policy_matches LogIndex PolicyLogIndex" by (simp add: policy_matches_def)
  obtain oc s' where s': "delete_range_at_key s [0] [2] 2 (standalone 2) PolicyLogIndex = (Inr oc, s')"
      "\<not> dr_replayed oc"
    using delete_range_at_key_succeeds [of s 2 PolicyLogIndex] s pol by fastforce
  show ?thesis
    using delete_range_exact [OF s(1) _ s', of "[1]"] s s' pol
    by (intro exI [of _ s] exI [of _ s'] exI [of _ oc]) (simp add: get_live)
qed

text \<open>A put, delete or range delete that fails, or that is recognised as a replay,
  leaves the whole store as it was.\<close>

theorem rejected_unchanged:
  "(\<forall>oc. pr = Inr oc \<longrightarrow> replayed oc) \<Longrightarrow> put_at_key s nonce k v l r a p = (pr, s1) \<Longrightarrow>
   (\<forall>oc. dr = Inr oc \<longrightarrow> replayed oc) \<Longrightarrow> delete_at_key s k r a p = (dr, s2) \<Longrightarrow>
   (\<forall>oc. rr = Inr oc \<longrightarrow> dr_replayed oc) \<Longrightarrow> delete_range_at_key s k e r a p = (rr, s3) \<Longrightarrow>
   s1 = s \<and> s2 = s \<and> s3 = s"
  using put_at_key_unchanged delete_at_key_unchanged delete_range_at_key_unchanged by metis

lemma stale_rejected:
  assumes "r \<le> current_revision s" "\<not> changelog_contains_revision s r"
    and "policy_matches (revision_mode s) p"
  shows "put_at_key s nonce k v l r a p = (Inl (CommitRejected r (current_revision s)), s)"
    and "delete_at_key s k r a p = (Inl (CommitRejected r (current_revision s)), s)"
    and "delete_range_at_key s k e r a p = (Inl (CommitRejected r (current_revision s)), s)"
proof -
  have guards: "replay_guard s r p same = None" "delete_range_guard s k e r p = None" for same
    using assms(2)
    by (simp_all add: replay_guard_None delete_range_guard_def changelog_event_at_def changelog_contains_revision_def)
  show "put_at_key s nonce k v l r a p = (Inl (CommitRejected r (current_revision s)), s)"
    "delete_at_key s k r a p = (Inl (CommitRejected r (current_revision s)), s)"
    "delete_range_at_key s k e r a p = (Inl (CommitRejected r (current_revision s)), s)"
    using assms(1)
    by (simp_all add: put_at_key_def delete_at_key_def delete_range_at_key_def guards put_tx_def delete_tx_def
        delete_range_tx_def accept_revision_Inr [OF assms(3)] current_revision_eq)
qed

theorem rejected_unchanged_witness:
  "put_at_key (fresh CommitTs) [] [1] [2] None 0 (standalone 0) PolicyCommitTs =
     (Inl (CommitRejected 0 0), fresh CommitTs) \<and>
   delete_at_key (fresh CommitTs) [1] 0 (standalone 0) PolicyCommitTs =
     (Inl (CommitRejected 0 0), fresh CommitTs) \<and>
   delete_range_at_key (fresh CommitTs) [1] [2] 0 (standalone 0) PolicyCommitTs =
     (Inl (CommitRejected 0 0), fresh CommitTs)"
proof -
  have pol: "policy_matches CommitTs PolicyCommitTs" by (simp add: policy_matches_def)
  note r = stale_rejected [of 0 "fresh CommitTs" PolicyCommitTs, simplified, OF pol]
  show ?thesis
    using rejected_unchanged [OF _ r(1) _ r(2) _ r(3)] r by simp
qed

text \<open>A write at an old revision is refused: with no changelog entry at it, a revision
  that is not above the store's current one is answered \<open>CommitRejected\<close> with the
  current revision, by every mutation.\<close>

theorem stale_revision_rejected:
  "r \<le> current_revision s \<Longrightarrow> \<not> changelog_contains_revision s r \<Longrightarrow>
   policy_matches (revision_mode s) p \<Longrightarrow>
   fst (put_at_key s nonce k v l r a p) = Inl (CommitRejected r (current_revision s)) \<and>
   fst (delete_at_key s k r a p) = Inl (CommitRejected r (current_revision s)) \<and>
   fst (delete_range_at_key s k e r a p) = Inl (CommitRejected r (current_revision s))"
  by (simp add: stale_rejected)

theorem stale_revision_rejected_witness:
  "fst (put_at_key (fresh LogIndex) [] [1] [2] None 0 (standalone 0) PolicyLogIndex) =
     Inl (CommitRejected 0 0)"
  using stale_revision_rejected [of 0 "fresh LogIndex" PolicyLogIndex "[]" "[1]" "[2]" None "standalone 0"]
  by (simp add: policy_matches_def)

text \<open>C19: A put with a \<open>commit_ts\<close> that was applied before is idempotent: the same key and
  value at the same \<open>commit_ts\<close> is reported as a replay and changes nothing, and
  any other key or value at that \<open>commit_ts\<close> is rejected.\<close>

theorem commit_ts_replay:
  assumes "mvcc_ok s" "barrier_ok s nonce" "length k < 2 ^ 32" "length v < 2 ^ 32"
    and "put_at_commit_ts s nonce k v l r a = (Inr oc, s')" "\<not> replayed oc"
  shows "put_at_commit_ts s' nonce' k' v' l' r a' =
    ((if k' = k \<and> v' = v then Inr \<lparr>replayed = True\<rparr> else Inl (CommitRejected r r)), s')"
proof -
  have p: "put_at_key s nonce k v l r a PolicyCommitTs = (Inr oc, s')" "r \<noteq> 0"
    using assms(5) by (auto simp: put_at_commit_ts_def split: if_splits)
  have "policy_matches (revision_mode s) PolicyCommitTs" by (simp add: policy_matches_def)
  then show ?thesis
    using put_replay [OF put_at_key_committed [OF assms(1) _ assms(2) p(1) assms(6)] assms(3,4)] p(2)
    by (simp add: put_at_commit_ts_def)
qed

theorem commit_ts_replay_witness:
  "\<exists>s'. put_at_commit_ts (fresh CommitTs) [] [1] [10] None 5 (standalone 1) =
      (Inr \<lparr>replayed = False\<rparr>, s') \<and>
    put_at_commit_ts s' [] [1] [10] None 5 (standalone 2) = (Inr \<lparr>replayed = True\<rparr>, s') \<and>
    put_at_commit_ts s' [] [1] [11] None 5 (standalone 2) = (Inl (CommitRejected 5 5), s')"
proof -
  obtain s' where s': "put_at_commit_ts (fresh CommitTs) [] [1] [10] None 5 (standalone 1) =
      (Inr \<lparr>replayed = False\<rparr>, s')"
    using put_at_key_succeeds [of "fresh CommitTs" 5 PolicyCommitTs "[]" "[1]" "[10]" "[10]"]
    by (auto simp: policy_matches_def put_at_commit_ts_def)
  show ?thesis
    using commit_ts_replay [OF mvcc_ok_new _ _ _ s'] s' by (intro exI [of _ s']) simp
qed

text \<open>C18: A range read of \<open>[a, b)\<close> with a proper upper bound (neither empty nor the single
  zero byte, which the callers document as "no bound") returns exactly the live pairs
  whose key lies in the interval, in ascending key order, and a limited read returns
  the first \<open>limit\<close> of them.\<close>

theorem range_in_exact:
  assumes "mvcc_ok s" "b \<noteq> []" "b \<noteq> [0]"
  shows "\<exists>rs. range_in s a b 0 = Inr rs \<and> sorted_wrt (<) (map fst rs) \<and>
    (\<forall>k v. (k, v) \<in> set rs \<longleftrightarrow> a \<le> k \<and> k < b \<and> get s k = Inr (Some v)) \<and>
    (\<forall>limit. 0 < limit \<longrightarrow> range_in s a b limit = Inr (take limit rs))"
  using range_rows_spec [OF assms(1)]
  by (intro exI [of _ "range_rows s a b"])
     (simp add: range_in_rows [OF assms(1)] limited_def keys_sorted_def get_live [OF assms(1)])

theorem range_in_exact_witness:
  "\<exists>s rs. range_in s [0] [9] 0 = Inr rs \<and> ([1], [10]) \<in> set rs"
proof -
  obtain s where s: "mvcc_ok s" "live s = [[1] \<mapsto> [10]]"
    using one_key_store by fastforce
  obtain rs where rs: "range_in s [0] [9] 0 = Inr rs"
      "\<forall>k v. (k, v) \<in> set rs \<longleftrightarrow> [0] \<le> k \<and> k < [9] \<and> get s k = Inr (Some v)"
    using range_in_exact [OF s(1), of "[9]" "[0]"] by auto
  then have "([1], [10]) \<in> set rs" using s by (simp add: get_live)
  then show ?thesis using rs(1) by blast
qed

text \<open>An empty upper bound is not "no upper bound" for the live range readers: they
  scan up to the bare key prefix and return nothing, whatever the store holds.\<close>

theorem range_in_empty_end:
  "mvcc_ok s \<Longrightarrow> range_in s a [] limit = Inr [] \<and>
    range_in_with_metadata s a [] limit = Inr ([], current_revision s)"
  by (simp add: range_in_rows range_in_with_metadata_rows range_rows_empty_end limited_def)

theorem range_in_empty_end_witness:
  "\<exists>s. get s [1] = Inr (Some [10]) \<and> range_in s [] [] 0 = Inr []"
proof -
  obtain s where s: "mvcc_ok s" "live s = [[1] \<mapsto> [10]]"
    using one_key_store by fastforce
  show ?thesis
    using range_in_empty_end [OF s(1), of "[]" 0] s by (intro exI [of _ s]) (simp add: get_live)
qed

text \<open>The documented "scan to the end of the key space", the single zero byte as the upper
  bound, is taken as a bound like any other: from any key on it returns nothing.\<close>

theorem range_in_from_key:
  assumes "mvcc_ok s" "a \<noteq> []"
  shows "range_in s a [0] limit = Inr []"
proof -
  have "k \<notin> fst ` set (range_rows s a [0])" for k
  proof
    assume "k \<in> fst ` set (range_rows s a [0])"
    then have "a \<le> k" "k < [0]" using range_rows_spec(2) [OF assms(1)] by force+
    then show False using assms(2) by (cases k) auto
  qed
  then have "range_rows s a [0] = []" by (metis image_is_empty set_empty2 subsetI subset_empty)
  then show ?thesis by (simp add: range_in_rows [OF assms(1)] limited_def)
qed

theorem range_in_from_key_witness:
  "\<exists>s. get s [1] = Inr (Some [10]) \<and> range_in s [1] [0] 0 = Inr []"
proof -
  obtain s where s: "mvcc_ok s" "live s = [[1] \<mapsto> [10]]"
    using one_key_store by fastforce
  show ?thesis
    using range_in_from_key [OF s(1), of "[1]" 0] s by (intro exI [of _ s]) (simp add: get_live)
qed

end
