(* ===== verification/Txn_Exec.thy ===== *)
theory Txn_Exec
  imports Mvcc_Commit
begin

text \<open>
  Compare-and-swap transactions: the request types of
  \<open>coord-server/src/txn/mod.rs\<close> and their execution in one write transaction
  of the store (\<open>execute_txn_at_revision\<close> in \<open>storage/mvcc.rs\<close>).
\<close>

section \<open>Requests\<close>

datatype CompareTarget = TargetVersion | TargetValue | TargetModRevision | TargetCreateRevision

datatype CompareOp = Equal | Greater | Less | NotEqual

datatype CompareValue =
    CvVersion i64
  | CvValue bytes
  | CvModRevision i64
  | CvCreateRevision i64

record TxnCompare =
  tc_key :: bytes
  tc_target :: CompareTarget
  tc_op :: CompareOp
  tc_target_value :: CompareValue

datatype TxnOp =
    TxnPut bytes bytes "i64 option"
  | TxnDelete bytes
  | TxnRange bytes bytes i64

datatype TxnOpResponse =
    RespPut u64
  | RespDelete u64
  | RespRange "(bytes \<times> bytes) list" i64 u64

record TxnResult =
  tr_succeeded :: bool
  tr_revision :: u64
  tr_responses :: "TxnOpResponse list"

fun cv_eq :: "CompareValue \<Rightarrow> CompareValue \<Rightarrow> bool" where
  "cv_eq (CvVersion a) (CvVersion b) = (a = b)"
| "cv_eq (CvValue a) (CvValue b) = (a = b)"
| "cv_eq (CvModRevision a) (CvModRevision b) = (a = b)"
| "cv_eq (CvCreateRevision a) (CvCreateRevision b) = (a = b)"
| "cv_eq _ _ = False"

fun cmp_gt :: "CompareValue \<Rightarrow> CompareValue \<Rightarrow> bool" where
  "cmp_gt (CvVersion a) (CvVersion b) = (sint b < sint a)"
| "cmp_gt (CvValue a) (CvValue b) = (b < a)"
| "cmp_gt (CvModRevision a) (CvModRevision b) = (sint b < sint a)"
| "cmp_gt (CvCreateRevision a) (CvCreateRevision b) = (sint b < sint a)"
| "cmp_gt _ _ = False"

fun cmp_lt :: "CompareValue \<Rightarrow> CompareValue \<Rightarrow> bool" where
  "cmp_lt (CvVersion a) (CvVersion b) = (sint a < sint b)"
| "cmp_lt (CvValue a) (CvValue b) = (a < b)"
| "cmp_lt (CvModRevision a) (CvModRevision b) = (sint a < sint b)"
| "cmp_lt (CvCreateRevision a) (CvCreateRevision b) = (sint a < sint b)"
| "cmp_lt _ _ = False"

fun compare_values :: "CompareValue \<Rightarrow> CompareValue \<Rightarrow> CompareOp \<Rightarrow> bool" where
  "compare_values self actual Equal = cv_eq self actual"
| "compare_values self actual NotEqual = (\<not> cv_eq self actual)"
| "compare_values self actual Greater = cmp_gt self actual"
| "compare_values self actual Less = cmp_lt self actual"

section \<open>Execution\<close>

text \<open>
  One comparison. A deleted key counts as absent; the value compared is the
  stored row as it is, not decrypted.
\<close>

definition compare_matches :: "db \<Rightarrow> TxnCompare \<Rightarrow> bool" where
  "compare_matches d cmp =
    (let raw_meta = kv_metadata_in_tx d (tc_key cmp);
         meta = (case raw_meta of Some m \<Rightarrow> (if \<not> deleted m then Some m else None) | None \<Rightarrow> None);
         gone = (case raw_meta of Some m \<Rightarrow> deleted m | None \<Rightarrow> False);
         value = (if gone then None else tx_get d T_kv (encode_kv_key (tc_key cmp)))
     in case tc_target cmp of
          TargetVersion \<Rightarrow>
            (case tc_target_value cmp of
               CvVersion t \<Rightarrow>
                 compare_values (CvVersion (case meta of Some m \<Rightarrow> version m | None \<Rightarrow> 0)) (CvVersion t) (tc_op cmp)
             | _ \<Rightarrow> False)
        | TargetValue \<Rightarrow>
            (case tc_target_value cmp of
               CvValue t \<Rightarrow>
                 compare_values (CvValue (case value of Some v \<Rightarrow> v | None \<Rightarrow> [])) (CvValue t) (tc_op cmp)
             | _ \<Rightarrow> False)
        | TargetModRevision \<Rightarrow>
            (case tc_target_value cmp of
               CvModRevision t \<Rightarrow>
                 compare_values (CvModRevision (case meta of Some m \<Rightarrow> mod_revision m | None \<Rightarrow> 0))
                   (CvModRevision t) (tc_op cmp)
             | _ \<Rightarrow> False)
        | TargetCreateRevision \<Rightarrow>
            (case tc_target_value cmp of
               CvCreateRevision t \<Rightarrow>
                 compare_values (CvCreateRevision (case meta of Some m \<Rightarrow> create_revision m | None \<Rightarrow> 0))
                   (CvCreateRevision t) (tc_op cmp)
             | _ \<Rightarrow> False))"

fun evaluate_compares_in_tx :: "db \<Rightarrow> TxnCompare list \<Rightarrow> bool" where
  "evaluate_compares_in_tx d [] = True"
| "evaluate_compares_in_tx d (cmp # rest) =
    (if \<not> compare_matches d cmp then False else evaluate_compares_in_tx d rest)"

text \<open>
  One operation. A range without an effective limit is unlimited (\<open>usize::MAX\<close>
  in the code, more than any vector holds).
\<close>

fun execute_op_in_tx ::
    "MvccStorage \<Rightarrow> bytes \<Rightarrow> db \<Rightarrow> TxnOp \<Rightarrow> u64 \<Rightarrow>
     ((TxnOpResponse \<times> KeyValueChange option) \<times> db) result" where
  "execute_op_in_tx s nonce d (TxnPut key value lease) revision =
    (let lid = (case lease of Some l \<Rightarrow> l | None \<Rightarrow> 0);
         internal_key = encode_kv_key key;
         meta = (case kv_metadata_in_tx d key of
                   Some m \<Rightarrow> update_meta m revision lid
                 | None \<Rightarrow> new_key revision lid)
     in bind_result (encrypt_value s nonce internal_key value) (\<lambda>encrypted.
          let d = tx_insert d T_kv internal_key encrypted;
              d = put_metadata d key meta
          in Inr ((RespPut revision,
                   Some \<lparr>ch_key = key, ch_value = Some value, ch_prev_value = None\<rparr>), d)))"
| "execute_op_in_tx s nonce d (TxnDelete key) revision =
    (let d = (case kv_metadata_in_tx d key of
                Some m \<Rightarrow> put_metadata d key (mark_deleted m revision)
              | None \<Rightarrow> d)
     in Inr ((RespDelete revision,
              Some \<lparr>ch_key = key, ch_value = None, ch_prev_value = None\<rparr>), d))"
| "execute_op_in_tx s nonce d (TxnRange key range_end limit) revision =
    (let semantics = range_semantics_of key range_end;
         all = (case semantics of
                  SingleKey \<Rightarrow>
                    (case tx_get d T_kv (encode_kv_key key) of
                       Some v \<Rightarrow> [(encode_kv_key key, v)]
                     | None \<Rightarrow> [])
                | Interval \<Rightarrow> tx_iter_range d T_kv (encode_kv_key key) (encode_kv_key range_end));
         max = (if 0 < sint limit then unat limit else 0)
     in bind_result
          (range_loop (s\<lparr>backend := d\<rparr>)
            (\<lambda>user_key. is_interval semantics \<and> range_end \<le> user_key) max [] all)
          (\<lambda>kvs. Inr ((RespRange kvs (of_nat (length kvs)) revision, None), d)))"

fun execute_ops ::
    "MvccStorage \<Rightarrow> (nat \<Rightarrow> bytes) \<Rightarrow> nat \<Rightarrow> db \<Rightarrow> TxnOp list \<Rightarrow> u64 \<Rightarrow>
     ((TxnOpResponse list \<times> KeyValueChange list) \<times> db) result" where
  "execute_ops s nonces i d [] revision = Inr (([], []), d)"
| "execute_ops s nonces i d (op # ops) revision =
    bind_result (execute_op_in_tx s (nonces i) d op revision) (\<lambda>((resp, change), d).
      bind_result (execute_ops s nonces (Suc i) d ops revision) (\<lambda>((responses, changes), d).
        Inr ((resp # responses, (case change of Some c \<Rightarrow> c # changes | None \<Rightarrow> changes)), d)))"

definition txn_tx ::
    "MvccStorage \<Rightarrow> (nat \<Rightarrow> bytes) \<Rightarrow> TxnCompare list \<Rightarrow> TxnOp list \<Rightarrow> TxnOp list \<Rightarrow> u64 \<Rightarrow>
     AppliedLogId \<Rightarrow> db \<Rightarrow> (TxnResult \<times> db) result" where
  "txn_tx s nonces compares success_ops failure_ops revision applied d =
    bind_result (accept_revision (revision_mode s) d revision PolicyLogIndex) (\<lambda>d.
      let succeeded = evaluate_compares_in_tx d compares;
          ops = (if succeeded then success_ops else failure_ops)
      in bind_result (execute_ops s nonces 0 d ops revision) (\<lambda>((responses, changes), d).
           let d = put_event d \<lparr>ev_revision = revision, ev_changes = changes, ev_event_type = Txn\<rparr>;
               d = put_applied d applied
           in Inr (\<lparr>tr_succeeded = succeeded, tr_revision = revision, tr_responses = responses\<rparr>, d)))"

definition execute_txn_at_revision ::
    "MvccStorage \<Rightarrow> (nat \<Rightarrow> bytes) \<Rightarrow> TxnCompare list \<Rightarrow> TxnOp list \<Rightarrow> TxnOp list \<Rightarrow> u64 \<Rightarrow>
     AppliedLogId \<Rightarrow> TxnResult result \<times> MvccStorage" where
  "execute_txn_at_revision s nonces compares success_ops failure_ops revision applied =
    (if changelog_contains_revision s revision
     then (Inr \<lparr>tr_succeeded = False, tr_revision = revision, tr_responses = []\<rparr>, s)
     else write_store s (txn_tx s nonces compares success_ops failure_ops revision applied))"

definition execute_txn ::
    "MvccStorage \<Rightarrow> (nat \<Rightarrow> bytes) \<Rightarrow> TxnCompare list \<Rightarrow> TxnOp list \<Rightarrow> TxnOp list \<Rightarrow>
     TxnResult result \<times> MvccStorage" where
  "execute_txn s nonces compares success_ops failure_ops =
    (let revision = sat_add64 (current_revision s) 1
     in execute_txn_at_revision s nonces compares success_ops failure_ops revision
          (standalone revision))"

section \<open>What a transaction commits\<close>

fun op_change :: "TxnOp \<Rightarrow> KeyValueChange list" where
  "op_change (TxnPut k v l) = [\<lparr>ch_key = k, ch_value = Some v, ch_prev_value = None\<rparr>]"
| "op_change (TxnDelete k) = [tombstone_change k]"
| "op_change (TxnRange k e n) = []"

definition op_changes :: "TxnOp list \<Rightarrow> KeyValueChange list" where
  "op_changes ops = concat (map op_change ops)"

text \<open>
  What an operation answers, given the map it runs on: a range without a
  \<open>range_end\<close> (or with the key itself) is the single key.
\<close>

definition in_request :: "bytes \<Rightarrow> bytes \<Rightarrow> bytes \<Rightarrow> bool" where
  "in_request k e k' \<longleftrightarrow> (if e = [] \<or> e = k then k' = k else k \<le> k' \<and> k' < e)"

fun resp_ok :: "(bytes \<Rightarrow> bytes option) \<Rightarrow> TxnOp \<Rightarrow> TxnOpResponse \<Rightarrow> u64 \<Rightarrow> bool" where
  "resp_ok m (TxnPut k v l) resp r = (resp = RespPut r)"
| "resp_ok m (TxnDelete k) resp r = (resp = RespDelete r)"
| "resp_ok m (TxnRange k e n) resp r =
    (\<exists>rs. resp = RespRange (limited (if 0 < sint n then unat n else 0) rs)
                  (of_nat (length (limited (if 0 < sint n then unat n else 0) rs))) r \<and>
          sorted_wrt (<) (map fst rs) \<and>
          (\<forall>k' v. (k', v) \<in> set rs \<longleftrightarrow> in_request k e k' \<and> m k' = Some v))"

fun resps_ok :: "(bytes \<Rightarrow> bytes option) \<Rightarrow> TxnOp list \<Rightarrow> TxnOpResponse list \<Rightarrow> u64 \<Rightarrow> bool" where
  "resps_ok m [] resps r = (resps = [])"
| "resps_ok m (op # ops) [] r = False"
| "resps_ok m (op # ops) (resp # resps) r =
    (resp_ok m op resp r \<and> resps_ok (apply_changes m (op_change op)) ops resps r)"

lemma txn_range_rows:
  assumes ok: "mvcc_ok (s\<lparr>backend := d\<rparr>)"
    and ex: "execute_op_in_tx s nonce d (TxnRange k e n) r = Inr ((resp, ch), d')"
  shows "resp_ok (live (s\<lparr>backend := d\<rparr>)) (TxnRange k e n) resp r" "ch = None" "d' = d"
proof -
  let ?s = "s\<lparr>backend := d\<rparr>" and ?max = "if 0 < sint n then unat n else 0"
  note db = mvcc_okD(1) [OF ok, simplified]
  show "ch = None" "d' = d" using ex by (auto simp: Let_def)
  show "resp_ok (live ?s) (TxnRange k e n) resp r"
  proof (cases "range_semantics_of k e")
    case SingleKey
    define rows where "rows = (case tx_get d T_kv (encode_kv_key k) of
      Some v \<Rightarrow> [(encode_kv_key k, v)] | None \<Rightarrow> [])"
    have mem: "(ik, v) \<in> set rows \<longleftrightarrow> ik = encode_kv_key k \<and> tx_get (backend ?s) T_kv ik = Some v" for ik v
      by (auto simp: rows_def split: option.splits)
    have sorted: "keys_sorted rows" by (auto simp: rows_def split: option.split)
    have read: "readable_row ?s x" if "x \<in> set rows" for x
      using that mem [of "fst x" "snd x"] mvcc_okD(3) [OF ok, of k] by (auto simp: readable_row_def)
    have "range_loop ?s (\<lambda>u. is_interval SingleKey \<and> e \<le> u) ?max [] rows =
        Inr (limited ?max (List.map_filter (live_row ?s) rows))"
      using read by (subst range_loop_spec) (auto simp: is_interval_def)
    then show ?thesis
      using ex SingleKey map_filter_live_member [OF ok mem] map_filter_sorted [OF sorted, of ?s]
      by (auto simp: Let_def rows_def [symmetric] keys_sorted_def in_request_def range_semantics_of_def
          split: if_splits intro!: exI [of _ "List.map_filter (live_row ?s) rows"])
  next
    case Interval
    then have "e \<noteq> []" "e \<noteq> k" by (auto simp: range_semantics_of_def split: if_splits)
    then have "range_loop ?s (\<lambda>u. is_interval Interval \<and> e \<le> u) ?max []
        (tx_iter_range d T_kv (encode_kv_key k) (encode_kv_key e)) = range_in ?s k e ?max"
      by (simp add: range_in_def is_interval_def)
    then show ?thesis
      using ex Interval \<open>e \<noteq> []\<close> \<open>e \<noteq> k\<close> range_rows_spec(1) [OF ok, of k e] range_rows_spec(2) [OF ok, of _ _ k e]
      by (auto simp: Let_def range_in_rows [OF ok] in_request_def keys_sorted_def
          intro!: exI [of _ "range_rows ?s k e"])
  qed
qed

lemma execute_op_step:
  assumes ok: "mvcc_ok (s\<lparr>backend := d\<rparr>)" and b: "barrier_ok s nonce"
    and ex: "execute_op_in_tx s nonce d op r = Inr ((resp, ch), d')"
  shows "kv_step s d d' r (op_change op) \<and> resp_ok (live (s\<lparr>backend := d\<rparr>)) op resp r \<and>
    (case ch of Some c \<Rightarrow> [c] | None \<Rightarrow> []) = op_change op"
proof (cases op)
  case (TxnPut k v l)
  then obtain e where e: "encrypt_value s nonce (encode_kv_key k) v = Inr e"
    and d': "d' = put_metadata (tx_insert d T_kv (encode_kv_key k) e) k (put_meta (kv_metadata_in_tx d k) r l)"
    and rest: "resp = RespPut r" "ch = Some \<lparr>ch_key = k, ch_value = Some v, ch_prev_value = None\<rparr>"
    using ex by (auto simp: put_meta_def Let_def)
  show ?thesis using kv_step_put [OF ok b e d'] TxnPut rest by simp
next
  case (TxnDelete k)
  then have d': "d' = (case kv_metadata_in_tx d k of
      Some m \<Rightarrow> put_metadata d k (mark_deleted m r) | None \<Rightarrow> d)"
    and rest: "resp = RespDelete r" "ch = Some (tombstone_change k)"
    using ex by (auto simp: Let_def tombstone_change_def)
  have "db_ok d'" using mvcc_okD(1) [OF ok] by (auto simp: d' split: option.split)
  then have "kv_step s d d' r [tombstone_change k]"
    by (rule kv_step_mark [OF ok, where K = "{k}" and f = "\<lambda>m. version m + 1" and g = "\<lambda>m. r"])
       (auto simp: d' table_simps row_simps mark_deleted_eq tombstone_change_def fun_eq_iff split: option.split)
  then show ?thesis using TxnDelete rest by simp
next
  case (TxnRange k e n)
  then have "execute_op_in_tx s nonce d (TxnRange k e n) r = Inr ((resp, ch), d')" using ex by simp
  note range = txn_range_rows [OF ok this]
  then show ?thesis using TxnRange kv_step_refl [OF ok] by (simp del: execute_op_in_tx.simps)
qed

lemma execute_ops_step:
  assumes "mvcc_ok (s\<lparr>backend := d\<rparr>)" "\<And>i. barrier_ok s (nonces i)"
    and "execute_ops s nonces i d ops r = Inr ((resps, chs), d')"
  shows "kv_step s d d' r (op_changes ops) \<and> chs = op_changes ops \<and>
    resps_ok (live (s\<lparr>backend := d\<rparr>)) ops resps r"
  using assms(1,3)
proof (induction ops arbitrary: i d resps chs)
  case Nil
  then show ?case by (auto simp: op_changes_def kv_step_refl)
next
  case (Cons op ops)
  obtain resp ch d1 resps1 chs1 where op: "execute_op_in_tx s (nonces i) d op r = Inr ((resp, ch), d1)"
    and ops: "execute_ops s nonces (Suc i) d1 ops r = Inr ((resps1, chs1), d')"
    and out: "resps = resp # resps1" "chs = (case ch of Some c \<Rightarrow> [c] | None \<Rightarrow> []) @ chs1"
    using Cons.prems(2) by (fastforce split: option.splits)
  note s1 = execute_op_step [OF Cons.prems(1) assms(2) op]
  then have ok1: "mvcc_ok (s\<lparr>backend := d1\<rparr>)"
      "live (s\<lparr>backend := d1\<rparr>) = apply_changes (live (s\<lparr>backend := d\<rparr>)) (op_change op)"
    using kv_stepD(1,2) by blast+
  note s2 = Cons.IH [OF ok1(1) ops]
  show ?case
    using s1 s2 kv_step_trans [of s d d1 r "op_change op" d' "op_changes ops"] ok1(2) out
    by (simp add: op_changes_def)
qed


lemma compare_frame:
  assumes "\<And>k. tx_get d' T_kv (encode_kv_key k) = tx_get d T_kv (encode_kv_key k)"
    and "\<And>k. kv_metadata_in_tx d' k = kv_metadata_in_tx d k"
  shows "evaluate_compares_in_tx d' cs = evaluate_compares_in_tx d cs"
proof -
  have "compare_matches d' c = compare_matches d c" for c
    by (simp only: compare_matches_def assms)
  then show ?thesis by (induction cs) simp_all
qed

lemma txn_committed:
  assumes ok: "mvcc_ok s" and mode: "revision_mode s = LogIndex" and b: "\<And>i. barrier_ok s (nonces i)"
    and new: "\<not> changelog_contains_revision s r"
    and ex: "execute_txn_at_revision s nonces cs sops fops r a = (Inr res, s')"
  shows "tr_succeeded res = evaluate_compares_in_tx (backend s) cs"
    and "committed s s' r (op_changes (if tr_succeeded res then sops else fops))"
    and "resps_ok (live s) (if tr_succeeded res then sops else fops) (tr_responses res) r"
    and "tr_revision res = r"
proof -
  have pol: "policy_matches (revision_mode s) PolicyLogIndex" by (simp add: policy_matches_def mode)
  obtain d1 where acc: "accept_revision (revision_mode s) (backend s) r PolicyLogIndex = Inr d1"
    using ex new by (auto simp: execute_txn_at_revision_def txn_tx_def)
  note frame = accept_revision_frame [OF acc] and ok1 = accept_mvcc_ok [OF ok acc]
  define succ where "succ = evaluate_compares_in_tx d1 cs"
  define ops where "ops = (if succ then sops else fops)"
  obtain resps chs d2 where ops: "execute_ops s nonces 0 d1 ops r = Inr ((resps, chs), d2)"
    and res: "res = \<lparr>tr_succeeded = succ, tr_revision = r, tr_responses = resps\<rparr>"
    and s': "s' = s\<lparr>backend := put_applied (put_event d2 \<lparr>ev_revision = r, ev_changes = chs,
      ev_event_type = Txn\<rparr>) a\<rparr>"
    using ex new acc by (auto simp: execute_txn_at_revision_def txn_tx_def Let_def succ_def ops_def)
  note st = execute_ops_step [OF ok1(1) b ops]
  have succ: "succ = evaluate_compares_in_tx (backend s) cs"
    unfolding succ_def by (rule compare_frame) (simp_all add: frame)
  show "tr_succeeded res = evaluate_compares_in_tx (backend s) cs" "tr_revision res = r"
    by (simp_all add: res succ)
  have "committed s s' r chs"
    unfolding s' using committedI [OF ok pol acc _ refl] st by simp
  then show "committed s s' r (op_changes (if tr_succeeded res then sops else fops))"
    using st by (simp add: res ops_def)
  show "resps_ok (live s) (if tr_succeeded res then sops else fops) (tr_responses res) r"
    using st ok1(2) by (simp add: res ops_def)
qed

section \<open>Properties\<close>

text \<open>C4: A transaction is atomic: its comparisons are decided on the state before it, the
  branch they select is applied as a whole at one revision, no operation of the
  other branch takes effect, and each response is what the operation answers on
  the state left by the operations before it.\<close>

theorem txn_atomic:
  assumes "mvcc_ok s" "revision_mode s = LogIndex" "\<And>i. barrier_ok s (nonces i)"
    and "\<not> changelog_contains_revision s r"
    and "execute_txn_at_revision s nonces cs sops fops r a = (Inr res, s')"
  shows "tr_succeeded res = evaluate_compares_in_tx (backend s) cs \<and>
    (let ops = (if tr_succeeded res then sops else fops)
     in (\<forall>k. get s' k = Inr (apply_changes (live s) (op_changes ops) k)) \<and>
        resps_ok (live s) ops (tr_responses res) r) \<and>
    current_revision s < r \<and> current_revision s' = r \<and> mvcc_ok s'"
proof -
  note t = txn_committed [OF assms]
  note c = committedD [OF t(2)]
  show ?thesis using t(1,3) c by (simp add: Let_def get_live [OF c(1)])
qed

theorem txn_atomic_witness:
  "\<exists>s'. let s = fresh LogIndex;
           cs = [\<lparr>tc_key = [1], tc_target = TargetVersion, tc_op = Equal, tc_target_value = CvVersion 0\<rparr>]
       in execute_txn_at_revision s (\<lambda>_. []) cs [TxnPut [1] [7] None, TxnDelete [2]] [] 3 (standalone 3) =
            (Inr \<lparr>tr_succeeded = True, tr_revision = 3, tr_responses = [RespPut 3, RespDelete 3]\<rparr>, s') \<and>
          get s' [1] = Inr (Some [7]) \<and> get s' [2] = Inr None \<and> current_revision s' = 3"
proof -
  let ?s = "fresh LogIndex"
  let ?cs = "[\<lparr>tc_key = [1], tc_target = TargetVersion, tc_op = Equal, tc_target_value = CvVersion 0\<rparr>]"
  have meta: "kv_metadata_in_tx empty_db k = None" for k by (simp add: kv_metadata_in_tx_def)
  have "\<exists>s'. execute_txn_at_revision ?s (\<lambda>_. []) ?cs [TxnPut [1] [7] None, TxnDelete [2]] [] 3 (standalone 3) =
      (Inr \<lparr>tr_succeeded = True, tr_revision = 3, tr_responses = [RespPut 3, RespDelete 3]\<rparr>, s')"
    by (simp add: execute_txn_at_revision_def txn_tx_def accept_revision_Inr policy_matches_def
        current_revision_eq [symmetric] current_revision_in_tx_def applied_in_tx_def
        new_with_revision_mode_def changelog_contains_revision_def compare_matches_def meta row_simps
        encrypt_value_def Let_def)
  then obtain s' where s': "execute_txn_at_revision ?s (\<lambda>_. []) ?cs [TxnPut [1] [7] None, TxnDelete [2]] [] 3
      (standalone 3) = (Inr \<lparr>tr_succeeded = True, tr_revision = 3, tr_responses = [RespPut 3, RespDelete 3]\<rparr>, s')"
    by blast
  show ?thesis
    using txn_atomic [OF mvcc_ok_new _ _ _ s'] s'
    by (intro exI [of _ s']) (simp add: Let_def op_changes_def tombstone_change_def)
qed


text \<open>Without a barrier, a comparison of a key's value sees exactly what a read of the
  key returns (the empty string for a key that does not exist).\<close>

theorem txn_compare_value_plain:
  assumes "mvcc_ok s" "barrier s = None"
  shows "compare_matches (backend s)
      \<lparr>tc_key = k, tc_target = TargetValue, tc_op = cop, tc_target_value = CvValue t\<rparr> =
    compare_values (CvValue (case get s k of Inr (Some v) \<Rightarrow> v | _ \<Rightarrow> [])) (CvValue t) cop"
  using mvcc_okD(2) [OF assms(1), of k]
  by (cases "tx_get (backend s) T_kv (encode_kv_key k)"; cases "kv_metadata_in_tx (backend s) k")
     (auto simp: compare_matches_def get_def is_deleted_def read_value_def decrypt_value_def assms(2))

theorem txn_compare_value_plain_witness:
  "\<exists>s. get s [1] = Inr (Some [10]) \<and>
    compare_matches (backend s)
      \<lparr>tc_key = [1], tc_target = TargetValue, tc_op = Equal, tc_target_value = CvValue [10]\<rparr>"
proof -
  obtain s where s: "mvcc_ok s" "barrier s = None" "live s = [[1] \<mapsto> [10]]"
    using one_key_store by fastforce
  show ?thesis
    using txn_compare_value_plain [OF s(1,2), of "[1]" Equal "[10]"] s
    by (intro exI [of _ s]) (simp add: get_live)
qed

lemma put_tx_row:
  "put_tx s nonce k v l r a p d = Inr (oc, d') \<Longrightarrow>
   \<exists>e. encrypt_value s nonce (encode_kv_key k) v = Inr e \<and> tx_get d' T_kv (encode_kv_key k) = Some e"
  by (auto simp: put_tx_def Let_def table_simps)

text \<open>With a barrier, the comparison is made on the ciphertext: right after a put, the
  key reads the value that was put, and a comparison of the key with that value
  fails.\<close>

theorem txn_compare_value_encrypted:
  assumes "mvcc_ok s" "policy_matches (revision_mode s) p" "barrier s = Some (ae, kr)"
    and "aead_ok ae" "length nonce = 12"
    and "put_at_key s nonce k v l r a p = (Inr oc, s')" "\<not> replayed oc"
  shows "get s' k = Inr (Some v) \<and>
    \<not> compare_matches (backend s')
        \<lparr>tc_key = k, tc_target = TargetValue, tc_op = Equal, tc_target_value = CvValue v\<rparr>"
proof -
  have b: "barrier_ok s nonce" using assms(3-5) by (simp add: barrier_ok_def)
  note c = committedD [OF put_at_key_committed [OF assms(1,2) b assms(6,7)]]
  have get: "get s' k = Inr (Some v)" by (simp add: get_live [OF c(1)] c(2))
  obtain d where d: "put_tx s nonce k v l r a p (backend s) = Inr (oc, d)" "s' = s\<lparr>backend := d\<rparr>"
    using put_at_key_applied [OF assms(6,7)] by blast
  obtain e where e: "encrypt_value s nonce (encode_kv_key k) v = Inr e"
      "tx_get d T_kv (encode_kv_key k) = Some e"
    using put_tx_row [OF d(1)] by blast
  have "length e = length v + 32"
    using e(1) assms(3) barrier_decrypt_encrypt(2) [OF assms(4,5)] by (simp add: encrypt_value_def)
  then have "e \<noteq> v" by auto
  moreover have "\<not> is_deleted d k"
    using get e(2) by (auto simp: get_def d(2))
  ultimately show ?thesis
    using get e(2) by (auto simp: compare_matches_def d(2) is_deleted_def Let_def split: option.splits)
qed

theorem txn_compare_value_encrypted_witness:
  "\<exists>s'. put_at_key (set_barrier (fresh LogIndex) (tag_cipher, sample_keyring)) (replicate 12 9) [1] [10]
        None 1 (standalone 1) PolicyLogIndex = (Inr \<lparr>replayed = False\<rparr>, s') \<and>
    get s' [1] = Inr (Some [10]) \<and>
    \<not> compare_matches (backend s')
        \<lparr>tc_key = [1], tc_target = TargetValue, tc_op = Equal, tc_target_value = CvValue [10]\<rparr>"
proof -
  let ?s = "set_barrier (fresh LogIndex) (tag_cipher, sample_keyring)"
  have ok: "mvcc_ok ?s"
    by (simp add: mvcc_ok_def set_barrier_def new_with_revision_mode_def kv_metadata_in_tx_def)
  have s: "revision_mode ?s = LogIndex" "current_revision ?s = 0" "\<not> changelog_contains_revision ?s 1"
      "barrier ?s = Some (tag_cipher, sample_keyring)"
    by (simp_all add: set_barrier_def new_with_revision_mode_def current_revision_def
        get_applied_log_id_def applied_in_tx_def changelog_contains_revision_def)
  have "\<exists>e. encrypt_value ?s (replicate 12 9) (encode_kv_key [1]) [10] = Inr e"
    by (simp add: encrypt_value_def s(4))
       (simp add: barrier_encrypt_def active_dek_def tag_cipher_def sample_keyring_def)
  then obtain e where e: "encrypt_value ?s (replicate 12 9) (encode_kv_key [1]) [10] = Inr e" by blast
  obtain s' where s': "put_at_key ?s (replicate 12 9) [1] [10] None 1 (standalone 1) PolicyLogIndex =
      (Inr \<lparr>replayed = False\<rparr>, s')"
    using put_at_key_succeeds [of ?s 1 PolicyLogIndex "replicate 12 9" "[1]" "[10]" e] s e
    by (auto simp: policy_matches_def)
  show ?thesis
    using txn_compare_value_encrypted [OF ok _ s(4) tag_cipher_ok _ s'] s s'
    by (intro exI [of _ s']) (simp add: policy_matches_def)
qed

end
