(* ===== verification/Mvcc_History.thy ===== *)
theory Mvcc_History
  imports Txn_Exec
begin

text \<open>
  Historical reads and compaction of the store: the changelog is replayed to
  answer a read at an old revision, and compaction removes changelog entries
  and tombstones below a revision. The list of imported ranges is stored with
  another crate's encoding, so its decoder is an argument \<open>dec\<close>.
\<close>

section \<open>Guards of a historical read\<close>

type_synonym ImportHistoryFloor = "bytes \<times> bytes \<times> u64"

definition compacted_revision :: "MvccStorage \<Rightarrow> u64" where
  "compacted_revision s =
    (case Option.bind (tx_get (backend s) T_meta META_COMPACT_REVISION) decode_u64 of
       Some r \<Rightarrow> r
     | None \<Rightarrow> 0)"

definition ensure_history_reconstructable :: "MvccStorage \<Rightarrow> u64 \<Rightarrow> unit result" where
  "ensure_history_reconstructable s target =
    (let compacted = compacted_revision s
     in if target \<le> compacted then Inl (RevisionCompacted target (sat_add64 compacted 1))
        else Inr ())"

definition import_history_floors ::
    "(bytes \<Rightarrow> ImportHistoryFloor list option) \<Rightarrow> MvccStorage \<Rightarrow> ImportHistoryFloor list result" where
  "import_history_floors dec s =
    (case tx_get (backend s) T_kv IMPORT_HISTORY_FLOORS of
       None \<Rightarrow> Inr []
     | Some bs \<Rightarrow> ok_or DataCorruption (dec bs))"

fun check_floors :: "(bytes \<Rightarrow> bytes \<Rightarrow> bool) \<Rightarrow> u64 \<Rightarrow> ImportHistoryFloor list \<Rightarrow> unit result" where
  "check_floors hits target [] = Inr ()"
| "check_floors hits target ((floor_start, floor_end, floor_revision) # rest) =
    (if floor_revision \<le> target then check_floors hits target rest
     else if hits floor_start floor_end then Inl (HistoryUnavailable target)
     else check_floors hits target rest)"

definition ensure_import_history_available ::
    "(bytes \<Rightarrow> ImportHistoryFloor list option) \<Rightarrow> MvccStorage \<Rightarrow> bytes \<Rightarrow> bytes \<Rightarrow> u64 \<Rightarrow> unit result" where
  "ensure_import_history_available dec s start range_end target =
    bind_result (import_history_floors dec s)
      (check_floors (\<lambda>fs fe. ranges_intersect start range_end fs fe) target)"

definition ensure_key_import_history_available ::
    "(bytes \<Rightarrow> ImportHistoryFloor list option) \<Rightarrow> MvccStorage \<Rightarrow> bytes \<Rightarrow> u64 \<Rightarrow> unit result" where
  "ensure_key_import_history_available dec s key target =
    bind_result (import_history_floors dec s)
      (check_floors (\<lambda>fs fe. fs \<le> key \<and> (fe = [] \<or> key < fe)) target)"

section \<open>Reading one key\<close>

text \<open>One changelog row: the changes of \<open>key\<close> in it, applied to the scan's two results.\<close>

fun scan_changes ::
    "bytes \<Rightarrow> bool \<Rightarrow> bytes option option \<times> bool \<Rightarrow> KeyValueChange list \<Rightarrow> bytes option option \<times> bool" where
  "scan_changes key is_after acc [] = acc"
| "scan_changes key is_after (last_value, written_after) (change # rest) =
    (if ch_key change \<noteq> key then scan_changes key is_after (last_value, written_after) rest
     else if is_after then scan_changes key is_after (last_value, True) rest
     else scan_changes key is_after (Some (ch_value change), written_after) rest)"

fun scan_changelog ::
    "bytes \<Rightarrow> bytes \<Rightarrow> bytes option option \<times> bool \<Rightarrow> rows \<Rightarrow> bytes option option \<times> bool" where
  "scan_changelog key end_key acc [] = acc"
| "scan_changelog key end_key acc ((ck, cv) # rest) =
    (let is_after = (end_key \<le> ck);
         acc' = (case ChangeEvent_from_bytes cv of
                   Inl _ \<Rightarrow> acc
                 | Inr event \<Rightarrow> scan_changes key is_after acc (ev_changes event))
     in if is_after \<and> snd acc' then acc' else scan_changelog key end_key acc' rest)"

definition get_at_revision ::
    "(bytes \<Rightarrow> ImportHistoryFloor list option) \<Rightarrow> MvccStorage \<Rightarrow> bytes \<Rightarrow> u64 \<Rightarrow> bytes option result" where
  "get_at_revision dec s key target =
    bind_result (ensure_history_reconstructable s target) (\<lambda>_.
      bind_result (ensure_key_import_history_available dec s key target) (\<lambda>_.
        let end_key = encode_changelog_key (sat_add64 target 1);
            (last_at_or_before, written_after) =
              scan_changelog key end_key (None, False)
                (tx_iter_prefix (backend s) T_changelog CHANGELOG_PREFIX)
        in case last_at_or_before of
             Some value \<Rightarrow> Inr value
           | None \<Rightarrow>
               (if \<not> written_after then get s key
                else
                  let created_after_target =
                        (case get_kv_metadata s key of
                           Some m \<Rightarrow> target < create_revision m
                         | None \<Rightarrow> False)
                  in if created_after_target then Inr None else Inl (HistoryUnavailable target))))"

section \<open>Reading a range\<close>

record HistoricalRangeView =
  hv_view :: rows
  hv_last_write :: "(bytes \<times> u64) list"
  hv_post_events :: "(bytes \<times> (u64 \<times> bool) list) list"

text \<open>Insertion into a sorted map with any value type, for the replay's maps.\<close>

fun map_insert :: "(bytes \<times> 'v) list \<Rightarrow> bytes \<Rightarrow> 'v \<Rightarrow> (bytes \<times> 'v) list" where
  "map_insert [] key val = [(key, val)]"
| "map_insert ((k, v) # t) key val =
    (if key < k then (key, val) # (k, v) # t
     else if key = k then (key, val) # t
     else (k, v) # map_insert t key val)"

record replay_state =
  rp_view :: rows
  rp_changed_after :: "bytes list"
  rp_last_write :: "(bytes \<times> u64) list"
  rp_post_events :: "(bytes \<times> (u64 \<times> bool) list) list"

definition replay_change ::
    "bytes \<Rightarrow> bytes \<Rightarrow> bool \<Rightarrow> u64 \<Rightarrow> replay_state \<Rightarrow> KeyValueChange \<Rightarrow> replay_state" where
  "replay_change start range_end is_after revision rp change =
    (let k = ch_key change
     in if k < start then rp
        else if range_end \<noteq> [] \<and> range_end \<le> k then rp
        else if is_after then
          rp\<lparr>rp_changed_after := List.insert k (rp_changed_after rp),
             rp_post_events :=
               map_insert (rp_post_events rp) k
                 ((case map_of (rp_post_events rp) k of Some es \<Rightarrow> es | None \<Rightarrow> []) @
                  [(revision, ch_value change = None)])\<rparr>
        else
          rp\<lparr>rp_last_write := map_insert (rp_last_write rp) k revision,
             rp_view := (case ch_value change of
                           Some v \<Rightarrow> bt_insert (rp_view rp) k v
                         | None \<Rightarrow> bt_remove (rp_view rp) k)\<rparr>)"

fun replay_rows :: "bytes \<Rightarrow> bytes \<Rightarrow> bytes \<Rightarrow> replay_state \<Rightarrow> rows \<Rightarrow> replay_state" where
  "replay_rows start range_end end_key rp [] = rp"
| "replay_rows start range_end end_key rp ((ck, cv) # rest) =
    (case ChangeEvent_from_bytes cv of
       Inl _ \<Rightarrow> replay_rows start range_end end_key rp rest
     | Inr event \<Rightarrow>
         replay_rows start range_end end_key
           (foldl (replay_change start range_end (end_key \<le> ck) (ev_revision event)) rp (ev_changes event))
           rest)"

text \<open>
  The completion step: the candidates are the live keys of the range and the
  keys written after the target. The result is the completed view and the keys
  whose value at the target cannot be reconstructed.
\<close>

fun complete_view ::
    "MvccStorage \<Rightarrow> u64 \<Rightarrow> bytes list \<Rightarrow> rows \<Rightarrow> bytes list \<Rightarrow> (bytes \<times> bytes option) list \<Rightarrow>
     rows \<times> bytes list" where
  "complete_view s target changed_after view bad [] = (view, bad)"
| "complete_view s target changed_after view bad ((key, live_value) # rest) =
    (if bt_get view key \<noteq> None then complete_view s target changed_after view bad rest
     else if key \<notin> set changed_after then
       (case live_value of
          Some value \<Rightarrow> complete_view s target changed_after (bt_insert view key value) bad rest
        | None \<Rightarrow> complete_view s target changed_after view bad rest)
     else
       (let created_after_target =
              (case get_kv_metadata s key of Some m \<Rightarrow> target < create_revision m | None \<Rightarrow> False)
        in complete_view s target changed_after view
             (if created_after_target then bad else bad @ [key]) rest))"

definition replay_historical_range ::
    "(bytes \<Rightarrow> ImportHistoryFloor list option) \<Rightarrow> MvccStorage \<Rightarrow> bytes \<Rightarrow> bytes \<Rightarrow> u64 \<Rightarrow>
     HistoricalRangeView result" where
  "replay_historical_range dec s start range_end target =
    bind_result (ensure_history_reconstructable s target) (\<lambda>_.
      bind_result (ensure_import_history_available dec s start range_end target) (\<lambda>_.
        let end_key = encode_changelog_key (sat_add64 target 1);
            rp = replay_rows start range_end end_key
                   \<lparr>rp_view = [], rp_changed_after = [], rp_last_write = [], rp_post_events = []\<rparr>
                   (tx_iter_prefix (backend s) T_changelog CHANGELOG_PREFIX);
            candidates = foldl (\<lambda>m k. map_insert m k None) [] (rp_changed_after rp)
        in bind_result (range_in s start range_end 0) (\<lambda>live_rows.
             let candidates = foldl (\<lambda>m (k, v). map_insert m k (Some v)) candidates live_rows;
                 (view, bad) = complete_view s target (rp_changed_after rp) (rp_view rp) [] candidates
             in if bad \<noteq> [] then Inl (HistoryUnavailable target)
                else Inr \<lparr>hv_view = view, hv_last_write = rp_last_write rp,
                          hv_post_events = rp_post_events rp\<rparr>)))"

fun limit_loop :: "nat \<Rightarrow> 'a list \<Rightarrow> 'a list \<Rightarrow> 'a list" where
  "limit_loop limit results [] = results"
| "limit_loop limit results (x # xs) =
    (if 0 < limit \<and> limit \<le> length results then results
     else limit_loop limit (results @ [x]) xs)"

definition range_at_revision ::
    "(bytes \<Rightarrow> ImportHistoryFloor list option) \<Rightarrow> MvccStorage \<Rightarrow> bytes \<Rightarrow> bytes \<Rightarrow> nat \<Rightarrow> u64 \<Rightarrow>
     (bytes \<times> bytes) list result" where
  "range_at_revision dec s start range_end limit target =
    bind_result (replay_historical_range dec s start range_end target) (\<lambda>h.
      Inr (limit_loop limit [] (hv_view h)))"

text \<open>Metadata at the target: the current version minus the writes that took effect since.\<close>

fun effective_count :: "bool \<Rightarrow> i64 \<Rightarrow> (u64 \<times> bool) list \<Rightarrow> i64" where
  "effective_count ex count [] = count"
| "effective_count ex count ((r, is_delete) # rest) =
    (if is_delete then
       (if ex then effective_count False (count + 1) rest else effective_count ex count rest)
     else effective_count True (count + 1) rest)"

definition historical_metadata ::
    "MvccStorage \<Rightarrow> u64 \<Rightarrow> HistoricalRangeView \<Rightarrow> bytes \<Rightarrow> KvMetadata result" where
  "historical_metadata s target h key =
    bind_result (ok_or Internal (get_kv_metadata s key)) (\<lambda>current.
      let effective_after =
            (case map_of (hv_post_events h) key of
               Some events \<Rightarrow> effective_count True 0 events
             | None \<Rightarrow> 0)
      in if effective_after = 0 then (if deleted current then Inl Internal else Inr current)
         else
           (if sint (version current) - sint effective_after < - (2 ^ 63) \<or>
               2 ^ 63 \<le> sint (version current) - sint effective_after then Inl Internal
            else
              bind_result (ok_or Internal (map_of (hv_last_write h) key)) (\<lambda>mod_rev.
                if target < create_revision current then Inl Internal
                else Inr \<lparr>version = version current - effective_after,
                          create_revision = create_revision current, mod_revision = mod_rev,
                          lease_id = lease_id current, deleted = False\<rparr>)))"

fun range_meta_at_loop ::
    "MvccStorage \<Rightarrow> u64 \<Rightarrow> HistoricalRangeView \<Rightarrow> nat \<Rightarrow> VersionedKv list \<Rightarrow> rows \<Rightarrow> VersionedKv list result" where
  "range_meta_at_loop s target h limit results [] = Inr results"
| "range_meta_at_loop s target h limit results ((key, value) # rest) =
    (if 0 < limit \<and> limit \<le> length results then Inr results
     else bind_result (historical_metadata s target h key) (\<lambda>m.
            range_meta_at_loop s target h limit (results @ [(key, value, m)]) rest))"

definition range_at_revision_with_metadata ::
    "(bytes \<Rightarrow> ImportHistoryFloor list option) \<Rightarrow> MvccStorage \<Rightarrow> bytes \<Rightarrow> bytes \<Rightarrow> nat \<Rightarrow> u64 \<Rightarrow>
     VersionedKv list result" where
  "range_at_revision_with_metadata dec s start range_end limit target =
    bind_result (replay_historical_range dec s start range_end target) (\<lambda>h.
      range_meta_at_loop s target h limit [] (hv_view h))"

section \<open>The changelog as a stream\<close>

fun changelog_events :: "bytes \<Rightarrow> rows \<Rightarrow> ChangeEvent list" where
  "changelog_events start_key [] = []"
| "changelog_events start_key ((key, value) # rest) =
    (if key < start_key then changelog_events start_key rest
     else case ChangeEvent_from_bytes value of
            Inr event \<Rightarrow> event # changelog_events start_key rest
          | Inl _ \<Rightarrow> changelog_events start_key rest)"

definition read_changelog_entries :: "MvccStorage \<Rightarrow> u64 \<Rightarrow> ChangeEvent list" where
  "read_changelog_entries s start_revision =
    changelog_events (encode_changelog_key start_revision)
      (tx_iter_prefix (backend s) T_changelog CHANGELOG_PREFIX)"

fun changelog_events_strict :: "bytes \<Rightarrow> rows \<Rightarrow> ChangeEvent list result" where
  "changelog_events_strict start_key [] = Inr []"
| "changelog_events_strict start_key ((key, value) # rest) =
    (if key < start_key then changelog_events_strict start_key rest
     else case ChangeEvent_from_bytes value of
            Inr event \<Rightarrow> bind_result (changelog_events_strict start_key rest) (\<lambda>es. Inr (event # es))
          | Inl _ \<Rightarrow> Inl DataCorruption)"

definition read_changelog_entries_strict :: "MvccStorage \<Rightarrow> u64 \<Rightarrow> ChangeEvent list result" where
  "read_changelog_entries_strict s start_revision =
    changelog_events_strict (encode_changelog_key start_revision)
      (tx_iter_prefix (backend s) T_changelog CHANGELOG_PREFIX)"

section \<open>Compaction\<close>

definition COMPACT_BATCH_SIZE :: nat where "COMPACT_BATCH_SIZE = 500"

record CompactOutcome =
  co_deleted_changelog :: nat
  co_deleted_tombstones :: nat

definition stale_changelog :: "u64 \<Rightarrow> bytes \<Rightarrow> bool" where
  "stale_changelog effective key =
    (let tail = drop (length CHANGELOG_PREFIX) key
     in length CHANGELOG_PREFIX \<le> length key \<and> length tail = 8 \<and> u64_of tail < effective)"

definition stale_tombstone :: "u64 \<Rightarrow> bytes \<Rightarrow> bool" where
  "stale_tombstone effective meta_value =
    (case KvMetadata_from_bytes meta_value of
       Some m \<Rightarrow> deleted m \<and> mod_revision m < effective
     | None \<Rightarrow> False)"

definition remove_tombstone :: "db \<Rightarrow> bytes \<Rightarrow> db" where
  "remove_tombstone d meta_key =
    (let d = (case strip_prefix KV_META_PREFIX meta_key of
                Some user_key \<Rightarrow> tx_remove d T_kv (encode_kv_key user_key)
              | None \<Rightarrow> d)
     in tx_remove d T_kv_meta meta_key)"

definition stale_changelog_keys :: "u64 \<Rightarrow> db \<Rightarrow> bytes list" where
  "stale_changelog_keys effective d =
    take COMPACT_BATCH_SIZE
      (filter (stale_changelog effective) (map fst (tx_iter_prefix d T_changelog CHANGELOG_PREFIX)))"

definition stale_tombstone_keys :: "u64 \<Rightarrow> db \<Rightarrow> bytes list" where
  "stale_tombstone_keys effective d =
    take COMPACT_BATCH_SIZE
      (map fst (filter (\<lambda>r. stale_tombstone effective (snd r)) (tx_iter_prefix d T_kv_meta KV_META_PREFIX)))"

definition compact_batch :: "u64 \<Rightarrow> db \<Rightarrow> nat \<times> nat \<times> db" where
  "compact_batch effective d =
    (let stale = stale_changelog_keys effective d;
         d = foldl (\<lambda>d key. tx_remove d T_changelog key) d stale;
         stale_tomb = stale_tombstone_keys effective d;
         d = foldl remove_tombstone d stale_tomb
     in (length stale, length stale_tomb, d))"

text \<open>Every batch that reports work removes at least one row, so the loop ends.\<close>

definition compact_size :: "db \<Rightarrow> nat" where
  "compact_size d = length (changelog_rows d) + length (kv_meta_rows d)"

lemma bt_remove_length: "length (bt_remove t k) \<le> length t"
  by (induction t k rule: bt_remove.induct) auto

lemma bt_remove_less: "k \<in> fst ` set t \<Longrightarrow> length (bt_remove t k) < length t"
  by (induction t k rule: bt_remove.induct) auto

lemma compact_size_remove:
  "compact_size (tx_remove d T_changelog k) \<le> compact_size d"
  "compact_size (remove_tombstone d k) \<le> compact_size d"
  by (simp_all add: compact_size_def tx_remove_def remove_tombstone_def bt_remove_length Let_def
      split: option.split)

lemma compact_size_foldl:
  assumes "\<And>d k. compact_size (f d k) \<le> compact_size d"
  shows "compact_size (foldl f d ks) \<le> compact_size d"
proof (induction ks arbitrary: d)
  case (Cons k ks)
  show ?case using Cons.IH [of "f d k"] assms [of d k] by simp
qed simp

lemma scan_prefix_subset: "set (scan_prefix p it) \<subseteq> set it"
  by (induction p it rule: scan_prefix.induct) auto

lemma tx_iter_prefix_subset: "set (tx_iter_prefix d t p) \<subseteq> set (tbl d t)"
  using scan_prefix_subset by (fastforce simp: tx_iter_prefix_def redb_iter_prefix_def bt_range_from_def)

lemma compact_foldl_less:
  assumes "\<And>d k. compact_size (f d k) \<le> compact_size d"
    and "ks \<noteq> []" "compact_size (f d (hd ks)) < compact_size d"
  shows "compact_size (foldl f d ks) < compact_size d"
proof -
  have "compact_size (foldl f (f d (hd ks)) (tl ks)) \<le> compact_size (f d (hd ks))"
    by (rule compact_size_foldl) (rule assms(1))
  then show ?thesis using assms(2,3) by (cases ks) simp_all
qed

lemma stale_keys_subset:
  "k \<in> set (stale_changelog_keys e d) \<Longrightarrow> k \<in> fst ` set (changelog_rows d)"
  "k \<in> set (stale_tombstone_keys e d) \<Longrightarrow> k \<in> fst ` set (kv_meta_rows d)"
  using tx_iter_prefix_subset [of d T_changelog CHANGELOG_PREFIX]
    tx_iter_prefix_subset [of d T_kv_meta KV_META_PREFIX]
  by (force simp: stale_changelog_keys_def stale_tombstone_keys_def dest!: in_set_takeD)+

lemma compact_batch_decreases:
  assumes "compact_batch effective d = (bc, bt, d')" "bc \<noteq> 0 \<or> bt \<noteq> 0"
  shows "compact_size d' < compact_size d"
proof -
  define stale where "stale = stale_changelog_keys effective d"
  define d1 where "d1 = foldl (\<lambda>d key. tx_remove d T_changelog key) d stale"
  define tomb where "tomb = stale_tombstone_keys effective d1"
  have out: "bc = length stale" "bt = length tomb" "d' = foldl remove_tombstone d1 tomb"
    using assms(1) by (simp_all add: compact_batch_def Let_def stale_def d1_def tomb_def)
  have le: "compact_size d1 \<le> compact_size d" "compact_size d' \<le> compact_size d1"
    unfolding out(3) d1_def by (rule compact_size_foldl compact_size_remove)+
  have "compact_size d1 < compact_size d" if "stale \<noteq> []"
  proof -
    have "hd stale \<in> fst ` set (changelog_rows d)"
      using stale_keys_subset(1) hd_in_set [OF that] unfolding stale_def .
    then have "compact_size (tx_remove d T_changelog (hd stale)) < compact_size d"
      by (simp add: compact_size_def tx_remove_def bt_remove_less)
    then show ?thesis unfolding d1_def using that by (intro compact_foldl_less compact_size_remove)
  qed
  moreover have "compact_size d' < compact_size d1" if "tomb \<noteq> []"
  proof -
    have "hd tomb \<in> fst ` set (kv_meta_rows d1)"
      using stale_keys_subset(2) hd_in_set [OF that] unfolding tomb_def .
    then have "compact_size (remove_tombstone d1 (hd tomb)) < compact_size d1"
      by (simp add: compact_size_def tx_remove_def remove_tombstone_def bt_remove_less Let_def
          split: option.split)
    then show ?thesis unfolding out(3) using that by (intro compact_foldl_less compact_size_remove)
  qed
  ultimately show ?thesis
    using assms(2) le unfolding out(1,2) by fastforce
qed

function compact_loop :: "u64 \<Rightarrow> nat \<Rightarrow> nat \<Rightarrow> db \<Rightarrow> nat \<times> nat \<times> db" where
  "compact_loop effective dc dt d =
    (case compact_batch effective d of
       (batch_changelog, batch_tombstones, d') \<Rightarrow>
         (if batch_changelog = 0 \<and> batch_tombstones = 0 then (dc, dt, d')
          else compact_loop effective (dc + batch_changelog) (dt + batch_tombstones) d'))"
  by pat_completeness auto
termination
  by (relation "measure (\<lambda>(e, c, t, d). compact_size d)") (auto dest!: compact_batch_decreases [OF sym])

declare compact_loop.simps [simp del]

definition apply_compact ::
    "MvccStorage \<Rightarrow> u64 \<Rightarrow> AppliedLogId \<Rightarrow> CompactOutcome result \<times> MvccStorage" where
  "apply_compact s revision applied =
    (let effective = min revision (current_revision s)
     in if effective = 0 \<or> effective \<le> compacted_revision s
        then (Inr \<lparr>co_deleted_changelog = 0, co_deleted_tombstones = 0\<rparr>, s)
        else
          let (dc, dt, d) = compact_loop effective 0 0 (backend s);
              d = tx_insert d T_meta META_COMPACT_REVISION (u64_bytes effective);
              d = put_applied d applied;
              d = note_log_index_revision (revision_mode s) d (ali_index applied)
          in (Inr \<lparr>co_deleted_changelog = dc, co_deleted_tombstones = dt\<rparr>, s\<lparr>backend := d\<rparr>))"

section \<open>What compaction removes\<close>

definition stale_meta_row :: "u64 \<Rightarrow> db \<Rightarrow> bytes \<Rightarrow> bool" where
  "stale_meta_row e d mk \<longleftrightarrow> prefix KV_META_PREFIX mk \<and>
    (\<exists>v. tx_get d T_kv_meta mk = Some v \<and> stale_tombstone e v)"

definition gone :: "db \<Rightarrow> db \<Rightarrow> bytes \<Rightarrow> bool" where
  "gone d d' mk \<longleftrightarrow> tx_get d T_kv_meta mk \<noteq> None \<and> tx_get d' T_kv_meta mk = None"

text \<open>
  \<open>shrunk e d d'\<close>: \<open>d'\<close> lacks some of the stale rows of \<open>d\<close> and is otherwise the
  same; a data row goes exactly when its metadata row does.
\<close>

definition shrunk :: "u64 \<Rightarrow> db \<Rightarrow> db \<Rightarrow> bool" where
  "shrunk e d d' \<longleftrightarrow>
    (db_ok d \<longrightarrow> db_ok d') \<and>
    (\<forall>ck. tx_get d' T_changelog ck = tx_get d T_changelog ck \<or>
          prefix CHANGELOG_PREFIX ck \<and> stale_changelog e ck \<and> tx_get d' T_changelog ck = None) \<and>
    (\<forall>mk. tx_get d' T_kv_meta mk = tx_get d T_kv_meta mk \<or>
          stale_meta_row e d mk \<and> tx_get d' T_kv_meta mk = None) \<and>
    (\<forall>k. tx_get d' T_kv (encode_kv_key k) =
      (if gone d d' (encode_kv_meta_key k) then None else tx_get d T_kv (encode_kv_key k))) \<and>
    (\<forall>ik. \<not> prefix KV_PREFIX ik \<longrightarrow> tx_get d' T_kv ik = tx_get d T_kv ik) \<and>
    (\<forall>t k. t \<noteq> T_kv \<and> t \<noteq> T_kv_meta \<and> t \<noteq> T_changelog \<longrightarrow> tx_get d' t k = tx_get d t k)"

lemma shrunkD:
  assumes "shrunk e d d'"
  shows "db_ok d \<Longrightarrow> db_ok d'"
    and "tx_get d' T_changelog ck = tx_get d T_changelog ck \<or>
          prefix CHANGELOG_PREFIX ck \<and> stale_changelog e ck \<and> tx_get d' T_changelog ck = None"
    and "tx_get d' T_kv_meta mk = tx_get d T_kv_meta mk \<or>
          stale_meta_row e d mk \<and> tx_get d' T_kv_meta mk = None"
    and "tx_get d' T_kv (encode_kv_key k) =
      (if gone d d' (encode_kv_meta_key k) then None else tx_get d T_kv (encode_kv_key k))"
    and "\<not> prefix KV_PREFIX ik \<Longrightarrow> tx_get d' T_kv ik = tx_get d T_kv ik"
    and "t \<noteq> T_kv \<Longrightarrow> t \<noteq> T_kv_meta \<Longrightarrow> t \<noteq> T_changelog \<Longrightarrow> tx_get d' t k' = tx_get d t k'"
  using assms by (auto simp: shrunk_def)

lemma shrunk_refl: "shrunk e d d"
  by (auto simp: shrunk_def gone_def)

lemma stale_meta_row_mono:
  assumes "shrunk e d d1" "stale_meta_row e d1 mk"
  shows "stale_meta_row e d mk"
  using shrunkD(3) [OF assms(1), of mk] assms(2) by (auto simp: stale_meta_row_def)

lemma shrunk_trans:
  assumes "shrunk e d d1" "shrunk e d1 d2"
  shows "shrunk e d d2"
proof -
  note a = shrunkD [OF assms(1)] and b = shrunkD [OF assms(2)]
  have changelog: "tx_get d2 T_changelog ck = tx_get d T_changelog ck \<or>
      prefix CHANGELOG_PREFIX ck \<and> stale_changelog e ck \<and> tx_get d2 T_changelog ck = None" for ck
    using a(2) [of ck] b(2) [of ck] by auto
  have meta: "tx_get d2 T_kv_meta mk = tx_get d T_kv_meta mk \<or>
      stale_meta_row e d mk \<and> tx_get d2 T_kv_meta mk = None" for mk
    using a(3) [of mk] b(3) [of mk] stale_meta_row_mono [OF assms(1)] by auto
  have kv: "tx_get d2 T_kv (encode_kv_key k) =
      (if gone d d2 (encode_kv_meta_key k) then None else tx_get d T_kv (encode_kv_key k))" for k
    using a(3) [of "encode_kv_meta_key k"] b(3) [of "encode_kv_meta_key k"] a(4) [of k] b(4) [of k]
    by (auto simp: gone_def split: if_splits)
  show ?thesis
    using a(1,5,6) b(1,5,6) changelog meta kv by (auto simp: shrunk_def)
qed

lemma shrunk_remove_changelog:
  assumes "db_ok d" "prefix CHANGELOG_PREFIX ck" "stale_changelog e ck"
  shows "shrunk e d (tx_remove d T_changelog ck)"
  using assms by (auto simp: shrunk_def table_simps gone_def)

lemma remove_tombstone_rows:
  assumes "db_ok d"
  shows "tx_get (remove_tombstone d (encode_kv_meta_key k)) t x =
    (if t = T_kv \<and> x = encode_kv_key k \<or> t = T_kv_meta \<and> x = encode_kv_meta_key k then None
     else tx_get d t x)"
    and "db_ok (remove_tombstone d mk)"
  using assms
  by (auto simp: remove_tombstone_def encode_kv_meta_key_def table_simps Let_def split: option.split)

lemma shrunk_remove_tombstone:
  assumes "db_ok d" "stale_meta_row e d mk"
  shows "shrunk e d (remove_tombstone d mk)"
proof -
  obtain k where k: "mk = encode_kv_meta_key k"
    using assms(2) by (auto simp: stale_meta_row_def prefix_def encode_kv_meta_key_def)
  show ?thesis
    using assms unfolding k by (auto simp: shrunk_def remove_tombstone_rows gone_def stale_meta_row_def)
qed

lemma shrunk_foldl_changelog:
  assumes "db_ok d" "\<forall>ck \<in> set cks. prefix CHANGELOG_PREFIX ck \<and> stale_changelog e ck"
  shows "shrunk e d (foldl (\<lambda>d key. tx_remove d T_changelog key) d cks)"
  using assms
proof (induction cks arbitrary: d)
  case (Cons ck cks)
  have "shrunk e d (tx_remove d T_changelog ck)"
    using Cons.prems by (intro shrunk_remove_changelog) auto
  moreover have "shrunk e (tx_remove d T_changelog ck)
      (foldl (\<lambda>d key. tx_remove d T_changelog key) (tx_remove d T_changelog ck) cks)"
    using Cons by simp
  ultimately show ?case by (simp add: shrunk_trans)
qed (simp add: shrunk_refl)

lemma shrunk_foldl_tombstone:
  assumes "db_ok d" "distinct mks" "\<forall>mk \<in> set mks. stale_meta_row e d mk"
  shows "shrunk e d (foldl remove_tombstone d mks)"
  using assms
proof (induction mks arbitrary: d)
  case (Cons mk mks)
  have 1: "shrunk e d (remove_tombstone d mk)"
    using Cons.prems by (intro shrunk_remove_tombstone) auto
  obtain k where k: "mk = encode_kv_meta_key k"
    using Cons.prems(3) by (auto simp: stale_meta_row_def prefix_def encode_kv_meta_key_def)
  have "\<forall>x \<in> set mks. stale_meta_row e (remove_tombstone d mk) x"
    using Cons.prems remove_tombstone_rows [OF Cons.prems(1)] unfolding k
    by (auto simp: stale_meta_row_def)
  then have "shrunk e (remove_tombstone d mk) (foldl remove_tombstone (remove_tombstone d mk) mks)"
    using Cons.IH Cons.prems remove_tombstone_rows(2) by simp
  then show ?case using 1 by (simp add: shrunk_trans)
qed (simp add: shrunk_refl)

lemma distinct_scan_keys: "db_ok d \<Longrightarrow> distinct (map fst (tx_iter_prefix d t p))"
  by (simp add: keys_sorted_distinct)

lemma shrunk_batch:
  assumes "db_ok d" "compact_batch e d = (bc, bt, d')"
  shows "shrunk e d d'"
proof -
  define stale where "stale = stale_changelog_keys e d"
  define d1 where "d1 = foldl (\<lambda>d key. tx_remove d T_changelog key) d stale"
  define tomb where "tomb = stale_tombstone_keys e d1"
  have d': "d' = foldl remove_tombstone d1 tomb"
    using assms(2) by (simp add: compact_batch_def Let_def stale_def d1_def tomb_def)
  have "\<forall>ck \<in> set stale. prefix CHANGELOG_PREFIX ck \<and> stale_changelog e ck"
    using tx_iter_prefix_iff [OF assms(1)]
    by (auto simp: stale_def stale_changelog_keys_def dest!: in_set_takeD)
  then have 1: "shrunk e d d1" unfolding d1_def by (intro shrunk_foldl_changelog assms(1))
  then have ok1: "db_ok d1" using shrunkD(1) assms(1) by blast
  have "distinct tomb"
    unfolding tomb_def stale_tombstone_keys_def
    using distinct_map_filter [OF distinct_scan_keys [OF ok1]] distinct_take by blast
  moreover have "\<forall>mk \<in> set tomb. stale_meta_row e d1 mk"
    using tx_iter_prefix_iff [OF ok1]
    by (auto simp: tomb_def stale_tombstone_keys_def stale_meta_row_def dest!: in_set_takeD)
  ultimately have "shrunk e d1 d'" unfolding d' by (intro shrunk_foldl_tombstone ok1)
  then show ?thesis by (rule shrunk_trans [OF 1])
qed

lemma batch_empty:
  assumes "db_ok d" "compact_batch e d = (0, 0, d')"
  shows "d' = d" "tx_get d T_changelog ck \<noteq> None \<Longrightarrow> prefix CHANGELOG_PREFIX ck \<Longrightarrow> \<not> stale_changelog e ck"
    "\<not> stale_meta_row e d mk"
proof -
  have stale: "stale_changelog_keys e d = []" and d': "d' = foldl remove_tombstone d (stale_tombstone_keys e d)"
    and tomb: "stale_tombstone_keys e d = []"
    using assms(2) by (auto simp: compact_batch_def Let_def)
  show "d' = d" by (simp add: d' tomb)
  show "\<not> stale_changelog e ck" if row: "tx_get d T_changelog ck \<noteq> None" "prefix CHANGELOG_PREFIX ck"
  proof -
    obtain v where "(ck, v) \<in> set (tx_iter_prefix d T_changelog CHANGELOG_PREFIX)"
      using row tx_iter_prefix_iff [OF assms(1)] by auto
    then show ?thesis
      using stale by (auto simp: stale_changelog_keys_def COMPACT_BATCH_SIZE_def filter_empty_conv)
  qed
  show "\<not> stale_meta_row e d mk"
    using tomb tx_iter_prefix_iff [OF assms(1), of mk _ T_kv_meta KV_META_PREFIX]
    by (force simp: stale_tombstone_keys_def COMPACT_BATCH_SIZE_def filter_empty_conv stale_meta_row_def)
qed

lemma compact_loop_spec:
  assumes "db_ok d" "compact_loop e dc dt d = (dc', dt', d')"
  shows "shrunk e d d' \<and>
    (\<forall>ck. tx_get d' T_changelog ck \<noteq> None \<longrightarrow> prefix CHANGELOG_PREFIX ck \<longrightarrow> \<not> stale_changelog e ck) \<and>
    (\<forall>mk. \<not> stale_meta_row e d' mk)"
  using assms
proof (induction e dc dt d rule: compact_loop.induct)
  case (1 e dc dt d)
  obtain bc bt d1 where b: "compact_batch e d = (bc, bt, d1)" by (cases "compact_batch e d")
  note sh = shrunk_batch [OF "1.prems"(1) b]
  show ?case
  proof (cases "bc = 0 \<and> bt = 0")
    case True
    then have "d' = d" "compact_batch e d = (0, 0, d)"
      using "1.prems"(2) b batch_empty(1) [OF "1.prems"(1)] by (auto simp: compact_loop.simps [of e dc dt d])
    then show ?thesis using batch_empty(2,3) [OF "1.prems"(1)] by (auto simp: shrunk_refl)
  next
    case False
    then have "compact_loop e (dc + bc) (dt + bt) d1 = (dc', dt', d')"
      using "1.prems"(2) b by (auto simp: compact_loop.simps [of e dc dt d])
    then show ?thesis
      using "1.IH" [OF b [symmetric] refl False] shrunkD(1) [OF sh "1.prems"(1)] shrunk_trans [OF sh] by blast
  qed
qed

end
