(* ===== verification/Time_Travel.thy ===== *)
theory Time_Travel
  imports Mvcc_History
begin

text \<open>
  Historical reads against a history. \<open>hist_ok s H\<close> relates a store to the
  abstract versioned map \<open>H\<close>: \<open>H r\<close> is the map of live values as of revision
  \<open>r\<close>. Every mutation and every compaction keeps a history, and a historical
  read that succeeds returns what the history says.
\<close>

section \<open>The history of a store\<close>

definition event_change :: "bytes \<Rightarrow> bytes \<Rightarrow> bytes option option" where
  "event_change bs k =
    (case ChangeEvent_from_bytes bs of Inl _ \<Rightarrow> None | Inr e \<Rightarrow> last_change (ev_changes e) k)"

text \<open>The value a revision's changelog entry gives a key, if it changes the key.\<close>

definition changes_at :: "MvccStorage \<Rightarrow> u64 \<Rightarrow> bytes \<Rightarrow> bytes option option" where
  "changes_at s r k =
    (case tx_get (backend s) T_changelog (encode_changelog_key r) of
       None \<Rightarrow> None
     | Some bs \<Rightarrow> event_change bs k)"

definition changelog_ok :: "MvccStorage \<Rightarrow> bool" where
  "changelog_ok s \<longleftrightarrow>
    (\<forall>ck bs. tx_get (backend s) T_changelog ck = Some bs \<longrightarrow>
      (\<exists>r. ck = encode_changelog_key r \<and> compacted_revision s \<le> r \<and> r \<le> current_revision s))"

definition meta_hist_ok :: "MvccStorage \<Rightarrow> (u64 \<Rightarrow> bytes \<Rightarrow> bytes option) \<Rightarrow> bool" where
  "meta_hist_ok s H \<longleftrightarrow>
    (\<forall>k. case kv_metadata_in_tx (backend s) k of
       None \<Rightarrow> (\<forall>T \<ge> compacted_revision s. H T k = None)
     | Some m \<Rightarrow> create_revision m \<le> current_revision s \<and>
         (\<forall>T \<ge> compacted_revision s. T < create_revision m \<or> deleted m \<and> mod_revision m \<le> T \<longrightarrow>
            H T k = None))"

definition hist_ok :: "MvccStorage \<Rightarrow> (u64 \<Rightarrow> bytes \<Rightarrow> bytes option) \<Rightarrow> bool" where
  "hist_ok s H \<longleftrightarrow>
    mvcc_ok s \<and> compacted_revision s \<le> current_revision s \<and> changelog_ok s \<and>
    (\<forall>r k v. changes_at s r k = Some v \<longrightarrow> H r k = v) \<and>
    (\<forall>T T' k. compacted_revision s \<le> T \<longrightarrow> T \<le> T' \<longrightarrow>
       (\<forall>r. T < r \<and> r \<le> T' \<longrightarrow> changes_at s r k = None) \<longrightarrow> H T k = H T' k) \<and>
    (\<forall>T. current_revision s \<le> T \<longrightarrow> H T = live s) \<and>
    meta_hist_ok s H \<and>
    (\<forall>k. live s k \<noteq> None \<longrightarrow> length k < 2 ^ 32)"

lemma hist_okD:
  assumes "hist_ok s H"
  shows "mvcc_ok s" "compacted_revision s \<le> current_revision s" "changelog_ok s"
    "changes_at s r k = Some v \<Longrightarrow> H r k = v"
    "compacted_revision s \<le> T \<Longrightarrow> T \<le> T' \<Longrightarrow>
       (\<And>r. T < r \<Longrightarrow> r \<le> T' \<Longrightarrow> changes_at s r k = None) \<Longrightarrow> H T k = H T' k"
    "current_revision s \<le> T \<Longrightarrow> H T = live s"
    "meta_hist_ok s H"
    "live s k \<noteq> None \<Longrightarrow> length k < 2 ^ 32"
  using assms by (auto simp: hist_ok_def)

lemma changelog_okD:
  assumes "changelog_ok s" "tx_get (backend s) T_changelog ck = Some bs"
  obtains r where "ck = encode_changelog_key r" "compacted_revision s \<le> r" "r \<le> current_revision s"
  using assms by (auto simp: changelog_ok_def)

lemma changes_at_range:
  assumes "changelog_ok s" "changes_at s r k \<noteq> None"
  shows "compacted_revision s \<le> r" "r \<le> current_revision s"
  using assms by (auto simp: changes_at_def changelog_ok_def split: option.splits)

lemma meta_None_live: "mvcc_ok s \<Longrightarrow> kv_metadata_in_tx (backend s) k = None \<Longrightarrow> live s k = None"
  by (metis live_Some_iff not_None_eq option.distinct(1))

lemma meta_deleted_live:
  "mvcc_ok s \<Longrightarrow> kv_metadata_in_tx (backend s) k = Some m \<Longrightarrow> deleted m \<Longrightarrow> live s k = None"
  by (metis live_Some_iff not_None_eq option.inject)

section \<open>A commit extends the history\<close>

definition extend_history ::
    "(u64 \<Rightarrow> bytes \<Rightarrow> bytes option) \<Rightarrow> u64 \<Rightarrow> (bytes \<Rightarrow> bytes option) \<Rightarrow> u64 \<Rightarrow> bytes \<Rightarrow> bytes option" where
  "extend_history H r m = (\<lambda>T. if T < r then H T else m)"

lemma compacted_revision_cong:
  "tx_get (backend s') T_meta META_COMPACT_REVISION = tx_get (backend s) T_meta META_COMPACT_REVISION \<Longrightarrow>
   compacted_revision s' = compacted_revision s"
  by (simp add: compacted_revision_def)

lemma committed_changes_at:
  assumes "committed s s' r cs" "length cs < 2 ^ 32" "\<forall>c \<in> set cs. change_valid c"
  shows "changes_at s' r' k = (if r' = r then last_change cs k else changes_at s r' k)"
proof -
  obtain et where ck: "\<And>ck. tx_get (backend s') T_changelog ck =
       (if ck = encode_changelog_key r
        then Some (ChangeEvent_to_bytes \<lparr>ev_revision = r, ev_changes = cs, ev_event_type = et\<rparr>)
        else tx_get (backend s) T_changelog ck)"
    by (rule committed_changelog [OF assms(1)]) (rule that)
  have "event_valid \<lparr>ev_revision = r, ev_changes = cs, ev_event_type = et\<rparr>"
    using assms(2,3) by (simp add: event_valid_def)
  then show ?thesis
    by (simp add: changes_at_def ck event_change_def ChangeEvent_round_trip)
qed

lemma commit_meta_hist:
  assumes c: "committed s s' r cs" and h: "hist_ok s H"
  shows "meta_hist_ok s' (extend_history H r (live s'))"
  unfolding meta_hist_ok_def
proof
  fix k
  note cd = committedD [OF c]
  have comp: "compacted_revision s' = compacted_revision s"
    by (rule compacted_revision_cong) (rule cd(8))
  have old: "case kv_metadata_in_tx (backend s) k of
       None \<Rightarrow> (\<forall>T \<ge> compacted_revision s. H T k = None)
     | Some m \<Rightarrow> create_revision m \<le> current_revision s \<and>
         (\<forall>T \<ge> compacted_revision s. T < create_revision m \<or> deleted m \<and> mod_revision m \<le> T \<longrightarrow> H T k = None)"
    using hist_okD(7) [OF h] by (simp add: meta_hist_ok_def)
  have step: "case kv_metadata_in_tx (backend s) k of
       None \<Rightarrow> (\<forall>m. kv_metadata_in_tx (backend s') k = Some m \<longrightarrow> create_revision m = r \<and> mod_revision m = r)
     | Some m \<Rightarrow> (\<exists>m'. kv_metadata_in_tx (backend s') k = Some m' \<and> create_revision m' = create_revision m \<and>
                       (m' = m \<or> mod_revision m' = r))"
    using cd(7) by (simp add: meta_step_def)
  show "case kv_metadata_in_tx (backend s') k of
       None \<Rightarrow> (\<forall>T \<ge> compacted_revision s'. extend_history H r (live s') T k = None)
     | Some m \<Rightarrow> create_revision m \<le> current_revision s' \<and>
         (\<forall>T \<ge> compacted_revision s'. T < create_revision m \<or> deleted m \<and> mod_revision m \<le> T \<longrightarrow>
            extend_history H r (live s') T k = None)"
  proof (cases "kv_metadata_in_tx (backend s') k")
    case None
    then have "kv_metadata_in_tx (backend s) k = None" using step by (auto split: option.splits)
    then show ?thesis
      using None old meta_None_live [OF cd(1) None] by (simp add: extend_history_def comp)
  next
    case (Some m')
    then show ?thesis
      using old step meta_deleted_live [OF cd(1) Some] cd(3,4)
      by (auto simp: extend_history_def comp split: option.splits)
  qed
qed

lemma live_keys_short:
  assumes "live s' = apply_changes (live s) cs" "\<forall>c \<in> set cs. change_valid c"
    and "\<And>k. live s k \<noteq> None \<Longrightarrow> length k < 2 ^ 32" "live s' k \<noteq> None"
  shows "length k < 2 ^ 32"
proof (cases "last_change cs k")
  case None
  then show ?thesis using assms(1,3,4) by (simp add: apply_changes_last)
next
  case (Some v)
  then have "\<exists>c \<in> set cs. ch_key c = k" using last_change_None [of cs k] by auto
  then show ?thesis using assms(2) by (auto simp: change_valid_def)
qed

lemma commit_changelog_ok:
  assumes c: "committed s s' r cs" and cur: "compacted_revision s \<le> current_revision s"
    and ok: "changelog_ok s"
  shows "changelog_ok s'"
  unfolding changelog_ok_def
proof (intro allI impI)
  fix ck bs
  assume row: "tx_get (backend s') T_changelog ck = Some bs"
  note cd = committedD [OF c]
  have comp: "compacted_revision s' = compacted_revision s"
    by (rule compacted_revision_cong) (rule cd(8))
  show "\<exists>r'. ck = encode_changelog_key r' \<and> compacted_revision s' \<le> r' \<and> r' \<le> current_revision s'"
  proof (cases "ck = encode_changelog_key r")
    case True
    then show ?thesis using cur cd(3,4) comp by (intro exI [of _ r]) simp
  next
    case False
    have "tx_get (backend s) T_changelog ck = Some bs"
      using row False by (rule_tac committed_changelog [OF c]) simp
    then obtain r' where "ck = encode_changelog_key r'" "compacted_revision s \<le> r'" "r' \<le> current_revision s"
      by (rule changelog_okD [OF ok])
    then show ?thesis using cd(3,4) comp by (intro exI [of _ r']) simp
  qed
qed

lemma commit_hist:
  assumes c: "committed s s' r cs" and h: "hist_ok s H"
    and v: "length cs < 2 ^ 32" "\<forall>c \<in> set cs. change_valid c"
  shows "hist_ok s' (extend_history H r (live s'))"
proof -
  note cd = committedD [OF c] and hd = hist_okD [OF h]
  note at = committed_changes_at [OF c v]
  have comp: "compacted_revision s' = compacted_revision s"
    by (rule compacted_revision_cong) (rule cd(8))
  have ck: "changelog_ok s'" by (rule commit_changelog_ok [OF c hd(2,3)])
  have new: "changes_at s r k = None" if "current_revision s < r" for r k
    using changes_at_range(2) [OF hd(3)] that by (meson leD)
  have live': "live s' k = (case last_change cs k of Some v \<Rightarrow> v | None \<Rightarrow> live s k)" for k
    using cd(2) by (simp add: apply_changes_last)
  have val: "extend_history H r (live s') r' k = v" if "changes_at s' r' k = Some v" for r' k v
  proof (cases "r' = r")
    case True
    then show ?thesis using that at live' by (simp add: extend_history_def)
  next
    case False
    then have "changes_at s r' k = Some v" using that at by simp
    moreover from this have "r' < r"
      using changes_at_range(2) [OF hd(3), of r' k] cd(3) by simp
    ultimately show ?thesis using hd(4) by (simp add: extend_history_def)
  qed
  have const: "extend_history H r (live s') T k = extend_history H r (live s') T' k"
    if T: "compacted_revision s \<le> T" "T \<le> T'" "\<forall>x. T < x \<and> x \<le> T' \<longrightarrow> changes_at s' x k = None" for T T' k
  proof -
    consider "T' < r" | "r \<le> T" | "T < r" "r \<le> T'" by fastforce
    then show ?thesis
    proof cases
      case 1
      have "changes_at s x k = None" if "T < x" "x \<le> T'" for x
        using T(3) that at [of x k] 1 by (cases "x = r") auto
      then have "H T k = H T' k" by (rule hd(5) [OF T(1,2)])
      moreover have "T < r" using 1 T(2) by simp
      ultimately show ?thesis using 1 by (simp add: extend_history_def)
    next
      case 2
      then have "\<not> T < r" "\<not> T' < r" using T(2) by auto
      then show ?thesis by (simp add: extend_history_def)
    next
      case 3
      have "changes_at s x k = None" if "T < x" "x \<le> T'" for x
        using T(3) that at [of x k] new [of r k] cd(3) by (cases "x = r") auto
      then have "H T k = live s k"
        using hd(5) [OF T(1,2)] hd(6) [of T'] cd(3) 3 by fastforce
      moreover have "live s' k = live s k" using T(3) 3 at [of r k] live' [of k] by simp
      moreover have "\<not> T' < r" using 3 by simp
      ultimately show ?thesis using 3 by (simp add: extend_history_def)
    qed
  qed
  have short: "length k < 2 ^ 32" if "live s' k \<noteq> None" for k
    using live_keys_short [OF cd(2) v(2) hd(8) that] .
  show ?thesis
    unfolding hist_ok_def
    using cd(1,3,4) comp ck val const commit_meta_hist [OF c h] short hd(2)
    by (auto simp: extend_history_def)
qed

section \<open>Compaction keeps the history above the watermark\<close>

lemma stale_changelog_key: "stale_changelog e (encode_changelog_key r) \<longleftrightarrow> r < e"
  by (simp add: stale_changelog_def encode_changelog_key_def)

lemma apply_compact_eq:
  assumes "apply_compact s revision applied = (res, s')" "s' \<noteq> s"
  shows "\<exists>e dc dt d. e = min revision (current_revision s) \<and> compacted_revision s < e \<and>
    compact_loop e 0 0 (backend s) = (dc, dt, d) \<and>
    s' = s\<lparr>backend := note_log_index_revision (revision_mode s)
        (put_applied (tx_insert d T_meta META_COMPACT_REVISION (u64_bytes e)) applied) (ali_index applied)\<rparr>"
proof -
  define e where "e = min revision (current_revision s)"
  obtain dc dt d where l: "compact_loop e 0 0 (backend s) = (dc, dt, d)"
    by (cases "compact_loop e 0 0 (backend s)")
  have "\<not> e \<le> compacted_revision s"
    using assms unfolding apply_compact_def Let_def e_def [symmetric] by (auto split: if_splits)
  moreover from this have "e \<noteq> 0" by auto
  ultimately show ?thesis
    using assms(1) l unfolding apply_compact_def Let_def e_def [symmetric] by simp
qed

lemma current_revision_noted:
  assumes "\<And>k. k \<noteq> META_COMPACT_REVISION \<Longrightarrow> tx_get d' T_meta k = tx_get d T_meta k"
    and "mode = LogIndex \<Longrightarrow> current_revision_in_tx d mode \<le> ali_index a"
  shows "current_revision_in_tx d mode \<le>
    current_revision_in_tx (note_log_index_revision mode (put_applied d' a) (ali_index a)) mode"
proof (cases mode)
  case CommitTs
  then show ?thesis
    using assms(1)
    by (simp add: note_log_index_revision_def current_revision_in_tx_def table_simps split: option.split)
next
  case LogIndex
  have "ali_index a \<le>
    current_revision_in_tx (note_log_index_revision LogIndex (put_applied d' a) (ali_index a)) LogIndex"
    by (simp add: note_log_index_revision_def current_revision_insert not_less)
  then show ?thesis using assms(2) LogIndex by (meson order_trans)
qed

text \<open>The rows and the registers after a compaction that does something.\<close>

lemma compact_rows:
  assumes ok: "mvcc_ok s" and l: "compact_loop e 0 0 (backend s) = (dc, dt, d)"
    and s': "s' = s\<lparr>backend := note_log_index_revision (revision_mode s)
        (put_applied (tx_insert d T_meta META_COMPACT_REVISION (u64_bytes e)) a) (ali_index a)\<rparr>"
    and idx: "revision_mode s = LogIndex \<Longrightarrow> current_revision s \<le> ali_index a"
  shows "t \<noteq> T_meta \<Longrightarrow> tx_get (backend s') t k = tx_get d t k" "db_ok (backend s')"
    "compacted_revision s' = e" "current_revision s \<le> current_revision s'"
    "kv_metadata_in_tx (backend s') k = kv_metadata_in_tx d k"
proof -
  have sh: "shrunk e (backend s) d"
    using compact_loop_spec [OF mvcc_okD(1) [OF ok] l] by blast
  show "tx_get (backend s') t k = tx_get d t k" if "t \<noteq> T_meta" for t k
    using that by (simp add: s' note_log_index_rows table_simps)
  show "db_ok (backend s')"
    using shrunkD(1) [OF sh mvcc_okD(1) [OF ok]] by (simp add: s' note_log_index_rows)
  show "compacted_revision s' = e"
    by (simp add: s' compacted_revision_def note_log_index_rows table_simps decode_u64_def)
  have "tx_get (tx_insert d T_meta META_COMPACT_REVISION (u64_bytes e)) T_meta k' = tx_get (backend s) T_meta k'"
    if "k' \<noteq> META_COMPACT_REVISION" for k'
    using that shrunkD(6) [OF sh, of T_meta] by (simp add: table_simps)
  then show "current_revision s \<le> current_revision s'"
    using current_revision_noted idx by (simp add: s' current_revision_eq)
  show "kv_metadata_in_tx (backend s') k = kv_metadata_in_tx d k"
    by (simp add: s' kv_metadata_in_tx_def note_log_index_rows table_simps)
qed

lemma shrunk_meta:
  assumes "shrunk e d d'"
  shows "kv_metadata_in_tx d' k = kv_metadata_in_tx d k \<and> \<not> gone d d' (encode_kv_meta_key k) \<or>
    (\<exists>m. kv_metadata_in_tx d k = Some m \<and> deleted m \<and> mod_revision m < e \<and>
         kv_metadata_in_tx d' k = None \<and> gone d d' (encode_kv_meta_key k))"
  using shrunkD(3) [OF assms, of "encode_kv_meta_key k"]
  by (auto simp: kv_metadata_in_tx_def gone_def stale_meta_row_def stale_tombstone_def split: option.splits)

lemma shrunk_live:
  assumes ok: "mvcc_ok s" and sh: "shrunk e (backend s) d"
  shows "mvcc_ok (s\<lparr>backend := d\<rparr>)" "live (s\<lparr>backend := d\<rparr>) = live s"
proof -
  note kv = shrunkD(4) [OF sh]
  show ok': "mvcc_ok (s\<lparr>backend := d\<rparr>)"
    unfolding mvcc_ok_def
  proof (intro conjI allI impI)
    show "db_ok (backend (s\<lparr>backend := d\<rparr>))"
      using shrunkD(1) [OF sh] mvcc_okD(1) [OF ok] by simp
  next
    fix k x
    assume "tx_get (backend (s\<lparr>backend := d\<rparr>)) T_kv (encode_kv_key k) = Some x"
    then show "kv_metadata_in_tx (backend (s\<lparr>backend := d\<rparr>)) k \<noteq> None"
      "\<exists>v. read_value (s\<lparr>backend := d\<rparr>) (encode_kv_key k) x = Inr v"
      using kv [of k] mvcc_okD(2,3) [OF ok, of k x] shrunk_meta [OF sh, of k]
      by (auto simp: read_value_def decrypt_value_def split: if_splits)
  next
    fix k
    assume "kv_metadata_in_tx (backend (s\<lparr>backend := d\<rparr>)) k \<noteq> None"
    then show "tx_get (backend (s\<lparr>backend := d\<rparr>)) T_kv (encode_kv_key k) \<noteq> None"
      using kv [of k] mvcc_okD(4) [OF ok, of k] shrunk_meta [OF sh, of k] by auto
  qed
  show "live (s\<lparr>backend := d\<rparr>) = live s"
  proof
    fix k
    consider "kv_metadata_in_tx d k = kv_metadata_in_tx (backend s) k" "\<not> gone (backend s) d (encode_kv_meta_key k)"
      | m where "kv_metadata_in_tx (backend s) k = Some m" "deleted m" "kv_metadata_in_tx d k = None"
      using shrunk_meta [OF sh, of k] by blast
    then show "live (s\<lparr>backend := d\<rparr>) k = live s k"
    proof cases
      case 1
      then have "get (s\<lparr>backend := d\<rparr>) k = get s k" using kv [of k] by (intro get_cong_rows) simp_all
      then show ?thesis by (simp add: live_def)
    next
      case 2
      then show ?thesis using meta_deleted_live [OF ok] meta_None_live [OF ok'] by simp
    qed
  qed
qed

lemma changelog_key_prefix: "prefix CHANGELOG_PREFIX (encode_changelog_key r)"
  by (simp add: encode_changelog_key_def)

lemma shrunk_meta_hist:
  assumes h: "meta_hist_ok s H" and sh: "shrunk e (backend s) d"
    and rows: "\<And>k. kv_metadata_in_tx (backend s') k = kv_metadata_in_tx d k"
    and e: "compacted_revision s \<le> e" "e \<le> current_revision s" "compacted_revision s' = e"
      "current_revision s \<le> current_revision s'"
  shows "meta_hist_ok s' H"
  unfolding meta_hist_ok_def rows e(3)
proof
  fix k
  let ?old = "kv_metadata_in_tx (backend s) k"
  have old: "case ?old of None \<Rightarrow> \<forall>T \<ge> compacted_revision s. H T k = None
     | Some m \<Rightarrow> create_revision m \<le> current_revision s \<and>
         (\<forall>T \<ge> compacted_revision s. T < create_revision m \<or> deleted m \<and> mod_revision m \<le> T \<longrightarrow> H T k = None)"
    using h by (simp add: meta_hist_ok_def)
  have le: "compacted_revision s \<le> T" if "e \<le> T" for T using e(1) that by simp
  have cur: "x \<le> current_revision s'" if "x \<le> current_revision s" for x using e(4) that by simp
  consider "kv_metadata_in_tx d k = ?old"
    | m where "?old = Some m" "deleted m" "mod_revision m < e" "kv_metadata_in_tx d k = None"
    using shrunk_meta [OF sh, of k] by blast
  then show "case kv_metadata_in_tx d k of None \<Rightarrow> \<forall>T \<ge> e. H T k = None
     | Some m \<Rightarrow> create_revision m \<le> current_revision s' \<and>
         (\<forall>T \<ge> e. T < create_revision m \<or> deleted m \<and> mod_revision m \<le> T \<longrightarrow> H T k = None)"
  proof cases
    case 1
    then show ?thesis using old le cur by (auto split: option.splits)
  next
    case 2
    then have "H T k = None" if "e \<le> T" for T using old le [OF that] that by simp
    then show ?thesis using 2 by simp
  qed
qed

lemma shrunk_hist:
  assumes h: "hist_ok s H" and sh: "shrunk e (backend s) d"
    and left: "\<And>ck. tx_get d T_changelog ck \<noteq> None \<Longrightarrow> prefix CHANGELOG_PREFIX ck \<Longrightarrow> \<not> stale_changelog e ck"
    and rows: "\<And>k. tx_get (backend s') T_changelog k = tx_get d T_changelog k"
      "\<And>k. kv_metadata_in_tx (backend s') k = kv_metadata_in_tx d k"
    and ok': "mvcc_ok s'" "live s' = live s"
    and e: "compacted_revision s \<le> e" "e \<le> current_revision s" "compacted_revision s' = e"
      "current_revision s \<le> current_revision s'"
  shows "hist_ok s' H"
proof -
  note hd = hist_okD [OF h]
  have row: "tx_get (backend s') T_changelog (encode_changelog_key r) =
      (if r < e then None else tx_get (backend s) T_changelog (encode_changelog_key r))" for r
  proof (cases "r < e")
    case True
    then have "tx_get d T_changelog (encode_changelog_key r) = None"
      using left [of "encode_changelog_key r"] changelog_key_prefix stale_changelog_key by blast
    then show ?thesis using True by (simp add: rows(1))
  next
    case False
    then show ?thesis
      using shrunkD(2) [OF sh, of "encode_changelog_key r"] by (simp add: rows(1) stale_changelog_key)
  qed
  have at: "changes_at s' r k = (if r < e then None else changes_at s r k)" for r k
    by (simp add: changes_at_def row)
  have ck: "changelog_ok s'"
    unfolding changelog_ok_def
  proof (intro allI impI)
    fix ck bs
    assume ck: "tx_get (backend s') T_changelog ck = Some bs"
    then have "tx_get (backend s) T_changelog ck = Some bs"
      using shrunkD(2) [OF sh, of ck] by (simp add: rows(1))
    then obtain r where "ck = encode_changelog_key r" "r \<le> current_revision s"
      by (rule changelog_okD [OF hd(3)])
    then show "\<exists>r. ck = encode_changelog_key r \<and> compacted_revision s' \<le> r \<and> r \<le> current_revision s'"
      using ck row [of r] e by (intro exI [of _ r]) (auto split: if_splits)
  qed
  have const: "H T k = H T' k"
    if T: "e \<le> T" "T \<le> T'" "\<forall>x. T < x \<and> x \<le> T' \<longrightarrow> changes_at s' x k = None" for T T' k
    by (rule hd(5)) (use T e(1) at in \<open>auto split: if_splits\<close>)
  have meta: "meta_hist_ok s' H" by (rule shrunk_meta_hist [OF hd(7) sh rows(2) e])
  show ?thesis
    unfolding hist_ok_def using ok' ck at hd(4,6,8) const meta e by (auto split: if_splits)
qed

lemma compact_hist:
  assumes h: "hist_ok s H" and c: "apply_compact s revision a = (res, s')"
    and idx: "revision_mode s = LogIndex \<Longrightarrow> current_revision s \<le> ali_index a"
  shows "hist_ok s' H \<and> live s' = live s \<and> compacted_revision s \<le> compacted_revision s' \<and>
    current_revision s \<le> current_revision s' \<and> barrier s' = barrier s \<and> revision_mode s' = revision_mode s"
proof (cases "s' = s")
  case True
  then show ?thesis using h by simp
next
  case False
  note hd = hist_okD [OF h]
  obtain e dc dt d where e: "e = min revision (current_revision s)" "compacted_revision s < e"
    and l: "compact_loop e 0 0 (backend s) = (dc, dt, d)"
    and s': "s' = s\<lparr>backend := note_log_index_revision (revision_mode s)
      (put_applied (tx_insert d T_meta META_COMPACT_REVISION (u64_bytes e)) a) (ali_index a)\<rparr>"
    using apply_compact_eq [OF c False] by blast
  note rows = compact_rows [OF hd(1) l s' idx]
  have spec: "shrunk e (backend s) d"
      "\<And>ck. tx_get d T_changelog ck \<noteq> None \<Longrightarrow> prefix CHANGELOG_PREFIX ck \<Longrightarrow> \<not> stale_changelog e ck"
    using compact_loop_spec [OF mvcc_okD(1) [OF hd(1)] l] by blast+
  have "mvcc_ok (s\<lparr>backend := backend s'\<rparr>)" "live (s\<lparr>backend := backend s'\<rparr>) = live (s\<lparr>backend := d\<rparr>)"
    using mvcc_ok_frame [OF shrunk_live(1) [OF hd(1) spec(1)] rows(2)] rows(1,5) by simp_all
  then have ok': "mvcc_ok s'" and live': "live s' = live s"
    using shrunk_live(2) [OF hd(1) spec(1)] by (simp_all add: s')
  have "e \<le> current_revision s" using e(1) by simp
  then have "hist_ok s' H"
    using shrunk_hist [OF h spec(1) spec(2) rows(1) [of T_changelog] rows(5) ok' live' _ _ rows(3,4)] e(2) by simp
  then show ?thesis using live' rows(3,4) e(2) by (simp add: s')
qed

section \<open>What a scan of the changelog finds\<close>

lemma last_change_Cons:
  "last_change (c # cs) k =
    (case last_change cs k of Some v \<Rightarrow> Some v | None \<Rightarrow> if ch_key c = k then Some (ch_value c) else None)"
proof (induction cs rule: rev_induct)
  case Nil
  show ?case using last_change_simps(2) [of "[]" c k] by simp
next
  case (snoc x xs)
  then show ?case using last_change_simps(2) [of "c # xs" x k] by simp
qed

lemma scan_changes_before:
  "scan_changes k False (lv, wa) cs = (case last_change cs k of Some v \<Rightarrow> Some v | None \<Rightarrow> lv, wa)"
  by (induction cs arbitrary: lv) (auto simp: last_change_Cons split: option.splits)

lemma scan_changes_after:
  "scan_changes k True (lv, wa) cs = (lv, wa \<or> last_change cs k \<noteq> None)"
  by (induction cs arbitrary: wa) (auto simp: last_change_Cons split: option.splits)

primrec latest :: "bytes \<Rightarrow> bytes option option \<Rightarrow> rows \<Rightarrow> bytes option option" where
  "latest k lv [] = lv"
| "latest k lv (r # rs) = latest k (case event_change (snd r) k of Some v \<Rightarrow> Some v | None \<Rightarrow> lv) rs"

lemma scan_changelog_eq:
  assumes "keys_sorted rs"
  shows "scan_changelog k ek (lv, wa) rs =
    (latest k lv (filter (\<lambda>r. fst r < ek) rs), wa \<or> (\<exists>r \<in> set rs. ek \<le> fst r \<and> event_change (snd r) k \<noteq> None))"
  using assms
proof (induction rs arbitrary: lv wa)
  case (Cons r rs)
  obtain ck cv where r: "r = (ck, cv)" by (cases r)
  have rest: "keys_sorted rs" "\<forall>x \<in> set rs. ck < fst x" using Cons.prems by (auto simp: r keys_sorted_def)
  show ?case
  proof (cases "ek \<le> ck")
    case True
    then have "filter (\<lambda>r. fst r < ek) rs = []" using rest(2) by (auto simp: filter_empty_conv)
    then show ?thesis
      using True Cons.IH [OF rest(1)]
      by (auto simp: r Let_def scan_changes_after event_change_def split: sum.splits)
  next
    case False
    then show ?thesis
      using Cons.IH [OF rest(1)]
      by (auto simp: r Let_def scan_changes_before event_change_def split: sum.splits option.splits)
  qed
qed simp

lemma latest_append: "latest k lv (xs @ ys) = latest k (latest k lv xs) ys"
  by (induction xs arbitrary: lv) auto

lemma latest_None: "latest k None rs = None \<longleftrightarrow> (\<forall>r \<in> set rs. event_change (snd r) k = None)"
  by (induction rs rule: rev_induct) (auto simp: latest_append split: option.splits)

lemma latest_Some:
  assumes "keys_sorted rs" "latest k None rs = Some v"
  shows "\<exists>r \<in> set rs. event_change (snd r) k = Some v \<and>
    (\<forall>x \<in> set rs. fst r < fst x \<longrightarrow> event_change (snd x) k = None)"
  using assms
proof (induction rs rule: rev_induct)
  case (snoc r rs)
  have rest: "keys_sorted rs" "\<forall>x \<in> set rs. fst x < fst r"
    using snoc.prems(1) by (auto simp: keys_sorted_def sorted_wrt_append)
  show ?case
  proof (cases "event_change (snd r) k")
    case None
    then show ?thesis using snoc.IH [OF rest(1)] snoc.prems(2) by (auto simp: latest_append)
  next
    case (Some w)
    then show ?thesis using snoc.prems(2) rest(2) by (fastforce simp: latest_append)
  qed
qed simp

section \<open>Historical reads are exact\<close>

text \<open>
  The scan reaches the value at \<open>T\<close> when the changelog still has a write of the
  key at or below \<open>T\<close>, has none above \<open>T\<close>, or the key was created above \<open>T\<close>.
\<close>

definition reconstructable :: "MvccStorage \<Rightarrow> bytes \<Rightarrow> u64 \<Rightarrow> bool" where
  "reconstructable s k T \<longleftrightarrow>
    (\<exists>r \<le> T. changes_at s r k \<noteq> None) \<or> (\<forall>r > T. changes_at s r k = None) \<or>
    (\<exists>m. kv_metadata_in_tx (backend s) k = Some m \<and> T < create_revision m)"

lemma unat_below_max:
  assumes "(T :: u64) \<noteq> - 1"
  shows "unat T + 1 < 2 ^ 64"
proof -
  have "unat (- 1 :: u64) = 2 ^ 64 - 1" by (simp add: unsigned_minus_1_eq_mask mask_eq_exp_minus_1)
  then have "unat T \<noteq> 2 ^ 64 - 1" using assms by (metis unsigned_word_eqI)
  moreover have "unat T < 2 ^ LENGTH(64)" by (rule unsigned_less)
  ultimately show ?thesis by simp
qed

lemma sat_succ64: "T \<noteq> - 1 \<Longrightarrow> sat_add64 T 1 = T + 1"
  using unat_below_max [of T] by (simp add: sat_add64_def)

lemma changelog_key_below_succ:
  assumes "T \<noteq> - 1"
  shows "encode_changelog_key r < encode_changelog_key (T + 1) \<longleftrightarrow> r \<le> T"
proof -
  have "unat (T + 1) = unat T + 1"
    using unat_sat_add64 [of T 1] sat_succ64 [OF assms] unat_below_max [OF assms] by simp
  then show ?thesis by (simp add: changelog_key.encode_less word_less_nat_alt word_le_nat_alt less_Suc_eq_le)
qed

lemma changelog_rows_iff:
  assumes "mvcc_ok s" "changelog_ok s"
  shows "(ck, bs) \<in> set (tx_iter_prefix (backend s) T_changelog CHANGELOG_PREFIX) \<longleftrightarrow>
    tx_get (backend s) T_changelog ck = Some bs"
  using tx_iter_prefix_iff [OF mvcc_okD(1) [OF assms(1)]] changelog_okD [OF assms(2)]
    changelog_key_prefix by metis

lemma changes_at_iff:
  "changes_at s r k \<noteq> None \<longleftrightarrow>
    (\<exists>bs. tx_get (backend s) T_changelog (encode_changelog_key r) = Some bs \<and> event_change bs k \<noteq> None)"
  by (simp add: changes_at_def split: option.split)

lemma scan_spec:
  assumes ok: "mvcc_ok s" "changelog_ok s" and T: "T \<noteq> - 1"
    and sc: "scan_changelog k (encode_changelog_key (sat_add64 T 1)) (None, False)
        (tx_iter_prefix (backend s) T_changelog CHANGELOG_PREFIX) = (lv, wa)"
  shows "lv = None \<longleftrightarrow> (\<forall>r \<le> T. changes_at s r k = None)"
    and "lv = Some v \<Longrightarrow> \<exists>r \<le> T. changes_at s r k = Some v \<and> (\<forall>x. r < x \<and> x \<le> T \<longrightarrow> changes_at s x k = None)"
    and "wa \<longleftrightarrow> (\<exists>r > T. changes_at s r k \<noteq> None)"
proof -
  let ?rows = "tx_iter_prefix (backend s) T_changelog CHANGELOG_PREFIX"
  let ?ek = "encode_changelog_key (T + 1)"
  let ?low = "filter (\<lambda>r. fst r < ?ek) ?rows"
  note ek = sat_succ64 [OF T] changelog_key_below_succ [OF T]
  have sorted: "keys_sorted ?rows" using mvcc_okD(1) [OF ok(1)] by simp
  have row_of: "tx_get (backend s) T_changelog ck = Some bs \<and> P ck \<longleftrightarrow>
      (\<exists>r. P (encode_changelog_key r) \<and> ck = encode_changelog_key r \<and> tx_get (backend s) T_changelog ck = Some bs)"
    for ck bs P
    using ok(2) unfolding changelog_ok_def by metis
  have low: "(ck, bs) \<in> set ?low \<longleftrightarrow>
      (\<exists>r \<le> T. ck = encode_changelog_key r \<and> tx_get (backend s) T_changelog ck = Some bs)" for ck bs
    unfolding set_filter mem_Collect_eq changelog_rows_iff [OF ok] fst_conv
      row_of [of ck bs "\<lambda>x. x < ?ek"] ek(2) ..
  have high: "(ck, bs) \<in> set ?rows \<and> ?ek \<le> ck \<longleftrightarrow>
      (\<exists>r > T. ck = encode_changelog_key r \<and> tx_get (backend s) T_changelog ck = Some bs)" for ck bs
  proof -
    have "?ek \<le> encode_changelog_key r \<longleftrightarrow> T < r" for r using ek(2) [of r] by (metis not_le)
    then show ?thesis
      unfolding changelog_rows_iff [OF ok] row_of [of ck bs "\<lambda>x. ?ek \<le> x"] by (simp only:)
  qed
  have eq: "lv = latest k None ?low" "wa \<longleftrightarrow> (\<exists>r \<in> set ?rows. ?ek \<le> fst r \<and> event_change (snd r) k \<noteq> None)"
    using sc scan_changelog_eq [OF sorted] by (simp_all add: ek(1))
  show "lv = None \<longleftrightarrow> (\<forall>r \<le> T. changes_at s r k = None)"
  proof -
    have "lv \<noteq> None \<longleftrightarrow> (\<exists>ck bs. (ck, bs) \<in> set ?low \<and> event_change bs k \<noteq> None)"
      unfolding eq(1) latest_None by (metis prod.collapse snd_conv)
    also have "\<dots> \<longleftrightarrow> (\<exists>r \<le> T. changes_at s r k \<noteq> None)"
      unfolding low changes_at_iff by blast
    finally show ?thesis by (cases lv) simp_all
  qed
  show "wa \<longleftrightarrow> (\<exists>r > T. changes_at s r k \<noteq> None)"
  proof -
    have "wa \<longleftrightarrow> (\<exists>ck bs. ((ck, bs) \<in> set ?rows \<and> ?ek \<le> ck) \<and> event_change bs k \<noteq> None)"
      unfolding eq(2) by (metis prod.collapse fst_conv snd_conv)
    also have "\<dots> \<longleftrightarrow> (\<exists>r > T. changes_at s r k \<noteq> None)"
      unfolding high changes_at_iff by blast
    finally show ?thesis .
  qed
  assume "lv = Some v"
  then obtain ck bs where row: "(ck, bs) \<in> set ?low" "event_change bs k = Some v"
    and later: "\<And>ck' bs'. (ck', bs') \<in> set ?low \<Longrightarrow> ck < ck' \<Longrightarrow> event_change bs' k = None"
    using latest_Some [of ?low k v] sorted eq(1) by fastforce
  obtain r where r: "r \<le> T" "ck = encode_changelog_key r" "tx_get (backend s) T_changelog ck = Some bs"
    using low row(1) by blast
  have "changes_at s x k = None" if "r < x" "x \<le> T" for x
  proof (cases "tx_get (backend s) T_changelog (encode_changelog_key x)")
    case (Some b)
    then have "(encode_changelog_key x, b) \<in> set ?low" using low that(2) by blast
    then have "event_change b k = None"
      by (rule later) (simp add: r(2) that(1))
    then show ?thesis using Some by (simp add: changes_at_def)
  qed (simp add: changes_at_def)
  moreover have "changes_at s r k = Some v" using r row(2) by (simp add: changes_at_def)
  ultimately show "\<exists>r \<le> T. changes_at s r k = Some v \<and> (\<forall>x. r < x \<and> x \<le> T \<longrightarrow> changes_at s x k = None)"
    using r(1) by blast
qed

lemma get_at_revision_eq:
  assumes h: "hist_ok s H" and T: "T \<noteq> - 1" "compacted_revision s < T"
    and fl: "ensure_key_import_history_available dec s k T = Inr ()"
  shows "get_at_revision dec s k T =
    (if reconstructable s k T then Inr (H T k) else Inl (HistoryUnavailable T))"
proof -
  note hd = hist_okD [OF h]
  obtain lv wa where sc: "scan_changelog k (encode_changelog_key (sat_add64 T 1)) (None, False)
        (tx_iter_prefix (backend s) T_changelog CHANGELOG_PREFIX) = (lv, wa)"
    by fastforce
  note spec = scan_spec [OF hd(1,3) T(1) sc]
  have hist: "ensure_history_reconstructable s T = Inr ()"
    using T(2) by (simp add: ensure_history_reconstructable_def Let_def)
  have unfolded: "get_at_revision dec s k T =
    (case lv of Some value \<Rightarrow> Inr value
     | None \<Rightarrow> if \<not> wa then get s k
       else if (case get_kv_metadata s k of Some m \<Rightarrow> T < create_revision m | None \<Rightarrow> False) then Inr None
       else Inl (HistoryUnavailable T))"
    by (cases lv) (simp_all add: get_at_revision_def hist fl sc Let_def)
  show ?thesis
  proof (cases lv)
    case (Some v)
    then obtain r where r: "r \<le> T" "changes_at s r k = Some v" "\<forall>x. r < x \<and> x \<le> T \<longrightarrow> changes_at s x k = None"
      using spec(2) by blast
    then have "H T k = v"
      using hd(4) hd(5) [of r T k] changes_at_range(1) [OF hd(3), of r k] by simp
    then show ?thesis using Some r by (auto simp: unfolded reconstructable_def)
  next
    case None
    then have none: "\<forall>r \<le> T. changes_at s r k = None" using spec(1) by simp
    show ?thesis
    proof (cases wa)
      case False
      then have "\<forall>r > T. changes_at s r k = None" using spec(3) by blast
      moreover from this have "H T k = H (max T (current_revision s)) k"
        using hd(5) [of T "max T (current_revision s)" k] T(2) by simp
      ultimately show ?thesis
        using None False get_live [OF hd(1)] hd(6) [of "max T (current_revision s)"]
        by (simp add: unfolded reconstructable_def)
    next
      case True
      have "H T k = None" if "kv_metadata_in_tx (backend s) k = Some m" "T < create_revision m" for m
        using hd(7) that T(2) by (auto simp: meta_hist_ok_def elim!: allE [of _ k])
      then show ?thesis
        using None True none spec(3)
        by (auto simp: unfolded reconstructable_def get_kv_metadata_def split: option.splits)
    qed
  qed
qed

section \<open>Runs of the store\<close>

text \<open>
  One state-changing call on the store. The side conditions are the ones the
  state machine gives: values and keys that fit a 32-bit length, a nonce of the
  cipher's length, and in log-index mode an applied index that has reached the
  revision (entries are applied in log order).
\<close>

inductive store_step :: "MvccStorage \<Rightarrow> MvccStorage \<Rightarrow> bool" where
  step_put: "policy_matches (revision_mode s) p \<Longrightarrow> barrier_ok s nonce \<Longrightarrow>
    length k < 2 ^ 32 \<Longrightarrow> length v < 2 ^ 32 \<Longrightarrow>
    put_at_key s nonce k v l r a p = (res, s') \<Longrightarrow> store_step s s'"
| step_delete: "policy_matches (revision_mode s) p \<Longrightarrow> length k < 2 ^ 32 \<Longrightarrow>
    delete_at_key s k r a p = (res, s') \<Longrightarrow> store_step s s'"
| step_delete_range: "policy_matches (revision_mode s) p \<Longrightarrow>
    (\<And>oc. dres = Inr oc \<Longrightarrow> length (dr_deleted_keys oc) < 2 ^ 32) \<Longrightarrow>
    delete_range_at_key s x y r a p = (dres, s') \<Longrightarrow> store_step s s'"
| step_txn: "revision_mode s = LogIndex \<Longrightarrow> (\<And>i. barrier_ok s (nonces i)) \<Longrightarrow>
    length (op_changes sops) < 2 ^ 32 \<Longrightarrow> length (op_changes fops) < 2 ^ 32 \<Longrightarrow>
    (\<And>c. c \<in> set (op_changes (sops @ fops)) \<Longrightarrow> change_valid c) \<Longrightarrow>
    execute_txn_at_revision s nonces cs sops fops r a = (tres, s') \<Longrightarrow> store_step s s'"
| step_compact: "(revision_mode s = LogIndex \<Longrightarrow> current_revision s \<le> ali_index a) \<Longrightarrow>
    apply_compact s revision a = (cres, s') \<Longrightarrow> store_step s s'"
| step_applied: "(revision_mode s = LogIndex \<Longrightarrow> current_revision s \<le> ali_index a) \<Longrightarrow>
    set_last_applied s a = (ures, s') \<Longrightarrow> store_step s s'"

definition keeps_history ::
    "MvccStorage \<Rightarrow> (u64 \<Rightarrow> bytes \<Rightarrow> bytes option) \<Rightarrow> MvccStorage \<Rightarrow> (u64 \<Rightarrow> bytes \<Rightarrow> bytes option) \<Rightarrow> bool" where
  "keeps_history s H s' H' \<longleftrightarrow>
    hist_ok s' H' \<and> (\<forall>T \<le> current_revision s. H' T = H T) \<and>
    compacted_revision s \<le> compacted_revision s' \<and> current_revision s \<le> current_revision s'"

lemma keeps_history_commit:
  assumes "hist_ok s H" "committed s s' r cs" "length cs < 2 ^ 32" "\<forall>c \<in> set cs. change_valid c"
  shows "keeps_history s H s' (extend_history H r (live s'))"
proof -
  note cd = committedD [OF assms(2)]
  have "compacted_revision s' = compacted_revision s"
    by (rule compacted_revision_cong) (rule cd(8))
  moreover have "T < r" if "T \<le> current_revision s" for T using that cd(3) by simp
  ultimately show ?thesis
    using commit_hist [OF assms(2,1,3,4)] less_imp_le [OF cd(3)] cd(4) by (simp add: keeps_history_def extend_history_def)
qed

lemma keeps_history_refl: "hist_ok s H \<Longrightarrow> keeps_history s H s H"
  by (simp add: keeps_history_def)

lemma keeps_history_frame:
  assumes h: "hist_ok s H" and f: "sys_frame s s'"
  shows "keeps_history s H s' H"
proof -
  note hd = hist_okD [OF h] and fr = sys_frameD [OF f] and keeps = sys_frame_ok [OF f]
  have comp: "compacted_revision s' = compacted_revision s"
    by (rule compacted_revision_cong) (rule fr(4))
  have left: "\<not> stale_changelog (compacted_revision s) ck" if "tx_get (backend s) T_changelog ck \<noteq> None" for ck
    using that hd(3) by (auto simp: changelog_ok_def stale_changelog_key not_less)
  have "hist_ok s' H"
    using shrunk_hist [OF h shrunk_refl left fr(2,3) keeps [OF hd(1)] order_refl hd(2) comp fr(5)] by simp
  then show ?thesis using comp fr(5) by (simp add: keeps_history_def)
qed

lemma keeps_history_applied:
  assumes h: "hist_ok s H" and a: "set_last_applied s a = (res, s')"
    and idx: "revision_mode s = LogIndex \<Longrightarrow> current_revision s \<le> ali_index a"
  shows "keeps_history s H s' H"
proof -
  have s': "s' = s\<lparr>backend := note_log_index_revision (revision_mode s) (put_applied (backend s) a) (ali_index a)\<rparr>"
    using a by (auto simp: set_last_applied_def write_store_def backend_write_def)
  have "sys_frame s s'"
    using current_revision_noted [of "backend s" "backend s"] idx
    by (auto simp: sys_frame_def s' note_log_index_rows table_simps current_revision_eq)
  then show ?thesis by (rule keeps_history_frame [OF h])
qed

lemma txn_unchanged:
  assumes "execute_txn_at_revision s nonces cs sops fops r a = (res, s')"
    and "changelog_contains_revision s r \<or> (\<exists>e. res = Inl e)"
  shows "s' = s"
  using assms by (auto simp: execute_txn_at_revision_def split: if_splits)

lemma store_step_history:
  assumes "store_step s s'" "hist_ok s H"
  shows "\<exists>H'. keeps_history s H s' H'"
  using assms
proof (induction rule: store_step.induct)
  case (step_put s p nonce k v l r a res s')
  show ?case
  proof (cases "\<exists>oc. res = Inr oc \<and> \<not> replayed oc")
    case True
    then have "committed s s' r [\<lparr>ch_key = k, ch_value = Some v, ch_prev_value = None\<rparr>]"
      using put_at_key_committed hist_okD(1) step_put by blast
    then show ?thesis
      using keeps_history_commit [OF step_put.prems] step_put.hyps by (fastforce simp: change_valid_def)
  next
    case False
    then have "s' = s" using put_at_key_unchanged step_put.hyps by blast
    then show ?thesis using keeps_history_refl step_put.prems by blast
  qed
next
  case (step_delete s p k r a res s')
  show ?case
  proof (cases "\<exists>oc. res = Inr oc \<and> \<not> replayed oc")
    case True
    then have "committed s s' r [tombstone_change k]"
      using delete_at_key_committed hist_okD(1) step_delete by blast
    then show ?thesis
      using keeps_history_commit [OF step_delete.prems] step_delete.hyps
      by (fastforce simp: change_valid_def tombstone_change_def)
  next
    case False
    then have "s' = s" using delete_at_key_unchanged step_delete.hyps by blast
    then show ?thesis using keeps_history_refl step_delete.prems by blast
  qed
next
  case (step_delete_range s p dres x y r a s')
  note hd = hist_okD [OF step_delete_range.prems]
  show ?case
  proof (cases "\<exists>oc. dres = Inr oc \<and> \<not> dr_replayed oc")
    case True
    then obtain oc where oc: "dres = Inr oc" "\<not> dr_replayed oc" by blast
    note c = delete_range_at_key_committed [OF hd(1) step_delete_range.hyps(1)
        step_delete_range.hyps(3) [unfolded oc(1)] oc(2)]
    have "length k < 2 ^ 32" if "k \<in> set (map fst (range_rows s x y))" for k
      using that hd(8) [of k] unfolding range_rows_keys [OF hd(1)] by blast
    then have "\<forall>c \<in> set (map tombstone_change (map fst (range_rows s x y))). change_valid c"
      by (auto simp: change_valid_def tombstone_change_def)
    then show ?thesis
      using keeps_history_commit [OF step_delete_range.prems c(1)] step_delete_range.hyps(2) [OF oc(1)] c(2)
      by auto
  next
    case False
    then have "s' = s" using delete_range_at_key_unchanged step_delete_range.hyps(3) by blast
    then show ?thesis using keeps_history_refl step_delete_range.prems by blast
  qed
next
  case (step_txn s nonces sops fops cs r a tres s')
  show ?case
  proof (cases "changelog_contains_revision s r \<or> (\<exists>e. tres = Inl e)")
    case True
    then have "s' = s" by (rule txn_unchanged [OF step_txn.hyps(6)])
    then show ?thesis using keeps_history_refl step_txn.prems by blast
  next
    case False
    then obtain res where res: "tres = Inr res" "\<not> changelog_contains_revision s r"
      by (cases tres) auto
    have "committed s s' r (op_changes (if tr_succeeded res then sops else fops))"
      by (rule txn_committed(2) [OF hist_okD(1) [OF step_txn.prems] step_txn.hyps(1,2) res(2)
          step_txn.hyps(6) [unfolded res(1)]])
    moreover have "\<forall>c \<in> set (op_changes (if tr_succeeded res then sops else fops)). change_valid c"
      using step_txn.hyps(5) by (auto simp: op_changes_def)
    ultimately show ?thesis
      using keeps_history_commit [OF step_txn.prems] step_txn.hyps(3,4) by (metis (full_types))
  qed
next
  case (step_compact s a revision cres s')
  then show ?case using compact_hist [of s H revision a cres s'] by (auto simp: keeps_history_def)
next
  case (step_applied s a ures s')
  then show ?case using keeps_history_applied by blast
qed

abbreviation reaches :: "MvccStorage \<Rightarrow> MvccStorage \<Rightarrow> bool" where
  "reaches \<equiv> rtranclp store_step"

lemma reaches_history:
  assumes "reaches s s'" "hist_ok s H"
  shows "\<exists>H'. keeps_history s H s' H'"
  using assms
proof (induction rule: rtranclp_induct)
  case base
  then show ?case using keeps_history_refl by blast
next
  case (step s1 s2)
  then obtain H1 where H1: "keeps_history s H s1 H1" by blast
  then obtain H2 where H2: "keeps_history s1 H1 s2 H2"
    using store_step_history [OF step.hyps(2), of H1] by (auto simp: keeps_history_def)
  have "keeps_history s H s2 H2"
    using H1 H2 unfolding keeps_history_def by (metis order_trans)
  then show ?case by blast
qed

lemma hist_ok_empty:
  assumes "backend s = empty_db"
  shows "hist_ok s (\<lambda>_ _. None)"
proof -
  have "live s = (\<lambda>_. None)" using assms by (simp add: fun_eq_iff live_def get_def)
  moreover have "mvcc_ok s" using assms by (simp add: mvcc_ok_def kv_metadata_in_tx_def)
  ultimately show ?thesis
    using assms
    by (simp add: hist_ok_def changelog_ok_def meta_hist_ok_def changes_at_def compacted_revision_def
        kv_metadata_in_tx_def)
qed

lemma reaches_hist:
  assumes "backend s0 = empty_db" "reaches s0 s"
  obtains H where "hist_ok s H"
  using reaches_history [OF assms(2) hist_ok_empty [OF assms(1)]] by (auto simp: keeps_history_def)

text \<open>A commit in a run, for the examples.\<close>

lemma put_run:
  assumes "mvcc_ok s" "revision_mode s = LogIndex" "barrier s = None" "current_revision s < r"
    and "\<not> changelog_contains_revision s r" "length k < 2 ^ 32" "length v < 2 ^ 32"
  shows "\<exists>s'. store_step s s' \<and> committed s s' r [\<lparr>ch_key = k, ch_value = Some v, ch_prev_value = None\<rparr>]"
proof -
  have pol: "policy_matches (revision_mode s) PolicyLogIndex" by (simp add: policy_matches_def assms(2))
  have enc: "encrypt_value s [] (encode_kv_key k) v = Inr v" and bar: "barrier_ok s []"
    using assms(3) by (simp_all add: encrypt_value_def barrier_ok_def)
  obtain s' where s': "put_at_key s [] k v None r (standalone r) PolicyLogIndex = (Inr \<lparr>replayed = False\<rparr>, s')"
    using put_at_key_succeeds [OF assms(4,5) pol enc] by blast
  then show ?thesis
    using put_at_key_committed [OF assms(1) pol bar s'] step_put [OF pol bar assms(6,7) s'] by auto
qed

text \<open>Two writes of one key, the second at a later revision.\<close>

lemma two_writes:
  "\<exists>s s'. reaches (fresh LogIndex) s \<and> reaches s s' \<and> compacted_revision s' = 0 \<and>
    current_revision s = 1 \<and> current_revision s' = 2 \<and> changes_at s' 1 [1] = Some (Some [10]) \<and>
    get s [1] = Inr (Some [10]) \<and> get s' [1] = Inr (Some [20]) \<and>
    tx_get (backend s') T_kv IMPORT_HISTORY_FLOORS = None"
proof -
  obtain s where s: "store_step (fresh LogIndex) s"
      "committed (fresh LogIndex) s 1 [\<lparr>ch_key = [1], ch_value = Some [10], ch_prev_value = None\<rparr>]"
    using put_run [of "fresh LogIndex" 1 "[1]" "[10]"] mvcc_ok_new by auto
  note c1 = committedD [OF s(2)]
  have new: "\<not> changelog_contains_revision s 2"
    by (rule committed_changelog [OF s(2)]) (simp add: changelog_contains_revision_def new_with_revision_mode_def)
  obtain s' where s': "store_step s s'"
      "committed s s' 2 [\<lparr>ch_key = [1], ch_value = Some [20], ch_prev_value = None\<rparr>]"
    using put_run [OF c1(1) _ _ _ new, of "[1]" "[20]"] c1(4,5,6) by auto
  note c2 = committedD [OF s'(2)]
  have live1: "live (fresh LogIndex) = (\<lambda>_. None)" by (simp add: fun_eq_iff live_def)
  have at: "changes_at s 1 [1] = Some (Some [10])"
    using committed_changes_at [OF s(2), of 1 "[1]"] by (simp add: change_valid_def last_change_def)
  have "changes_at s' 1 [1] = Some (Some [10])"
    using committed_changes_at [OF s'(2), of 1 "[1]"] at by (simp add: change_valid_def last_change_def)
  moreover have "compacted_revision s' = 0"
    using c1(8) c2(8) by (simp add: compacted_revision_def new_with_revision_mode_def)
  moreover have "tx_get (backend s') T_kv IMPORT_HISTORY_FLOORS = None"
    using c1(9) c2(9) by (simp add: new_with_revision_mode_def)
  moreover have "reaches (fresh LogIndex) s" "reaches s s'" using s(1) s'(1) by blast+
  ultimately show ?thesis
    using c1(2,4) c2(2,4) get_live [OF c1(1)] get_live [OF c2(1)] live1
    by (rule_tac exI [of _ s], rule_tac exI [of _ s']) simp
qed



text \<open>C17: compaction is invisible to plain reads. It never changes what a key reads
  as, the compaction watermark and the current revision never go back, and the
  watermark never passes the current revision.\<close>

theorem compact_keeps_reads:
  assumes "backend s0 = empty_db" "reaches s0 s"
    and "revision_mode s = LogIndex \<Longrightarrow> current_revision s \<le> ali_index a"
    and "apply_compact s revision a = (res, s')"
  shows "get s' k = get s k \<and> compacted_revision s \<le> compacted_revision s' \<and>
    compacted_revision s' \<le> current_revision s' \<and> current_revision s \<le> current_revision s'"
proof -
  obtain H where H: "hist_ok s H" by (rule reaches_hist [OF assms(1,2)])
  have c: "hist_ok s' H" "live s' = live s" "compacted_revision s \<le> compacted_revision s'"
    "current_revision s \<le> current_revision s'"
    using compact_hist [OF H assms(4,3)] by auto
  then show ?thesis
    using hist_okD(2) [OF c(1)] by (simp add: get_live hist_okD(1) [OF H] hist_okD(1) [OF c(1)])
qed

theorem compact_keeps_reads_witness:
  "\<exists>s. current_revision s = 2 \<and>
    get (snd (apply_compact s 2 (standalone 3))) [1] = Inr (Some [20])"
proof -
  obtain s s' where s: "reaches (fresh LogIndex) s" "reaches s s'" "current_revision s' = 2"
    "get s' [1] = Inr (Some [20])"
    using two_writes by blast
  have e: "backend (fresh LogIndex) = empty_db" by (simp add: new_with_revision_mode_def)
  obtain res s'' where c: "apply_compact s' 2 (standalone 3) = (res, s'')" by fastforce
  have "get s'' [1] = get s' [1]"
    using compact_keeps_reads [OF e rtranclp_trans [OF s(1,2)] _ c] s(3) by (simp add: standalone_def)
  then show ?thesis using s c by (intro exI [of _ s']) simp
qed

lemma delete_meta_None:
  assumes "policy_matches (revision_mode s) p" "kv_metadata_in_tx (backend s) k = None"
    and "delete_at_key s k r a p = (Inr oc, s')" "\<not> replayed oc"
  shows "kv_metadata_in_tx (backend s') k = None"
proof -
  obtain d where "delete_tx s k r a p (backend s) = Inr (oc, d)" "s' = s\<lparr>backend := d\<rparr>"
    using delete_at_key_applied [OF assms(3,4)] by blast
  then show ?thesis
    using assms(2)
    by (auto simp: delete_tx_def Let_def accept_revision_Inr [OF assms(1)] row_simps split: if_splits)
qed

text \<open>deleting a key that never existed hides its past. Nothing has been
  compacted and the key has no history at all, yet once the no-op delete is in
  the changelog a read of the key at the revision before it fails with
  \<open>HistoryUnavailable\<close>, although the plain read at that time answered that the
  key does not exist.\<close>

theorem noop_delete_hides_history:
  assumes "backend s0 = empty_db" "reaches s0 s" "policy_matches (revision_mode s) p" "length k < 2 ^ 32"
    and "kv_metadata_in_tx (backend s) k = None" "\<And>r. changes_at s r k = None"
    and "compacted_revision s < current_revision s"
    and "delete_at_key s k r a p = (Inr oc, s')" "\<not> replayed oc"
    and "ensure_key_import_history_available dec s' k (current_revision s) = Inr ()"
  shows "get s k = Inr None \<and>
    get_at_revision dec s' k (current_revision s) = Inl (HistoryUnavailable (current_revision s))"
proof -
  obtain H where H: "hist_ok s H" by (rule reaches_hist [OF assms(1,2)])
  note ok = hist_okD(1) [OF H]
  note c = delete_at_key_committed [OF ok assms(3,8,9)]
  note cd = committedD [OF c]
  have at: "changes_at s' x k = (if x = r then Some None else None)" for x
    using committed_changes_at [OF c] assms(4,6)
    by (simp add: change_valid_def tombstone_change_def last_change_def)
  have "kv_metadata_in_tx (backend s') k = None"
    using delete_meta_None [OF assms(3,5,8,9)] .
  then have "\<not> reconstructable s' k (current_revision s)"
    using cd(3) by (auto simp: reconstructable_def at)
  moreover have "store_step s s'" using step_delete assms(3,4,8) by blast
  moreover have "current_revision s \<noteq> - 1" using cd(3) by (metis word_n1_ge not_less)
  moreover have "compacted_revision s' = compacted_revision s"
    by (rule compacted_revision_cong) (rule cd(8))
  moreover obtain H' where "hist_ok s' H'"
    using store_step_history [OF \<open>store_step s s'\<close> H] by (auto simp: keeps_history_def)
  ultimately show ?thesis
    using get_at_revision_eq [of s' H' "current_revision s" dec k] assms(7,10)
      get_live [OF ok] meta_None_live [OF ok assms(5)] by simp
qed

theorem noop_delete_hides_history_witness:
  "\<exists>s s'. current_revision s = 1 \<and> get s [2] = Inr None \<and>
    delete_at_key s [2] 2 (standalone 2) PolicyLogIndex = (Inr \<lparr>replayed = False\<rparr>, s') \<and>
    get_at_revision (\<lambda>_. None) s' [2] 1 = Inl (HistoryUnavailable 1)"
proof -
  define s where "s = snd (set_last_applied (fresh LogIndex) (standalone 1))"
  have s: "set_last_applied (fresh LogIndex) (standalone 1) = (Inr (), s)"
    by (simp add: s_def set_last_applied_def write_store_def backend_write_def)
  have b: "backend s = note_log_index_revision LogIndex (put_applied empty_db (standalone 1)) 1"
    and m: "revision_mode s = LogIndex"
    using s by (auto simp: set_last_applied_def write_store_def backend_write_def new_with_revision_mode_def standalone_def)
  have e: "backend (fresh LogIndex) = empty_db" by (simp add: new_with_revision_mode_def)
  have r: "reaches (fresh LogIndex) s" using step_applied [OF _ s] by auto
  have pol: "policy_matches (revision_mode s) PolicyLogIndex" by (simp add: policy_matches_def m)
  have rows: "tx_get (backend s) t k = None" if "t \<noteq> T_meta" for t k
    using that by (simp add: b note_log_index_rows table_simps)
  have cur: "current_revision s = 1" "compacted_revision s = 0"
    by (simp_all add: current_revision_eq compacted_revision_def m b note_log_index_revision_def
        current_revision_in_tx_def applied_in_tx_def table_simps applied_codec.round_trip standalone_def)
  have "\<not> changelog_contains_revision s 2" by (simp add: changelog_contains_revision_def rows)
  then obtain s' where s': "delete_at_key s [2] 2 (standalone 2) PolicyLogIndex = (Inr \<lparr>replayed = False\<rparr>, s')"
    using delete_at_key_succeeds [of s 2 PolicyLogIndex "[2]" "standalone 2"] cur pol by auto
  have ok: "mvcc_ok s" using reaches_hist [OF e r] hist_okD(1) by blast
  have "tx_get (backend s') T_kv IMPORT_HISTORY_FLOORS = None"
    using committedD(9) [OF delete_at_key_committed [OF ok pol s']] rows
    by (simp add: key_defs ascii_def)
  then have fl: "ensure_key_import_history_available (\<lambda>_. None) s' [2] (current_revision s) = Inr ()"
    by (simp add: ensure_key_import_history_available_def import_history_floors_def)
  have "get s [2] = Inr None \<and> get_at_revision (\<lambda>_. None) s' [2] 1 = Inl (HistoryUnavailable 1)"
    using noop_delete_hides_history [OF e r pol _ _ _ _ s' _ fl]
    by (simp add: kv_metadata_in_tx_def changes_at_def rows cur)
  then show ?thesis using s' cur by blast
qed

end
