(* ===== verification/Registers.thy ===== *)
theory Registers
  imports Mvcc_Commit
begin

text \<open>
  The system registers of a region's store: the safe-timestamp fence, the commit
  watermark, the applied watermark and the direct-write fence
  (\<open>coord-server/src/storage/mvcc.rs\<close>), and the pure watermark computation of
  \<open>coord-server/src/kvt/commit_watermark.rs\<close>. The three watermarks share one
  contract, \<open>monotone_register\<close>: they never go back, and a command that was
  already applied does nothing.
\<close>

section \<open>Watermarks in the store\<close>

definition applied_contains :: "db \<Rightarrow> AppliedLogId \<Rightarrow> bool" where
  "applied_contains d applied =
    (case applied_in_tx d of Some lst \<Rightarrow> ali_index applied \<le> ali_index lst | None \<Rightarrow> False)"

definition read_u64_row :: "db \<Rightarrow> bytes \<Rightarrow> u64" where
  "read_u64_row d key =
    (case Option.bind (tx_get d T_kv key) decode_u64 of Some v \<Rightarrow> v | None \<Rightarrow> 0)"

definition safe_ts_fence :: "MvccStorage \<Rightarrow> u64" where
  "safe_ts_fence s = read_u64_row (backend s) SAFE_TS_FENCE"

definition set_safe_ts_fence :: "MvccStorage \<Rightarrow> u64 \<Rightarrow> AppliedLogId \<Rightarrow> u64 result \<times> MvccStorage" where
  "set_safe_ts_fence s fence_ts applied =
    write_store s (\<lambda>d.
      let prev = read_u64_row d SAFE_TS_FENCE
      in if applied_contains d applied then Inr (prev, d)
         else
           let effective = max prev fence_ts;
               d = (if prev < effective then tx_insert d T_kv SAFE_TS_FENCE (u64_bytes effective) else d)
           in Inr (effective, put_applied d applied))"

definition commit_watermark :: "MvccStorage \<Rightarrow> u64" where
  "commit_watermark s = read_u64_row (backend s) COMMIT_WATERMARK"

definition publish_commit_watermark ::
    "MvccStorage \<Rightarrow> u64 \<Rightarrow> AppliedLogId \<Rightarrow> u64 result \<times> MvccStorage" where
  "publish_commit_watermark s watermark applied =
    write_store s (\<lambda>d.
      let prev = read_u64_row d COMMIT_WATERMARK
      in if applied_contains d applied then Inr (prev, d)
         else
           let effective = max prev watermark;
               d = (if prev < effective then tx_insert d T_kv COMMIT_WATERMARK (u64_bytes effective) else d)
           in Inr (effective, put_applied d applied))"

definition advance_commit_ts_watermark ::
    "MvccStorage \<Rightarrow> u64 \<Rightarrow> AppliedLogId \<Rightarrow> u64 result \<times> MvccStorage" where
  "advance_commit_ts_watermark s commit_ts applied =
    write_store s (\<lambda>d.
      let mode = revision_mode s;
          current_before = current_revision_in_tx d mode
      in if applied_contains d applied then Inr (current_before, d)
         else
           let d = note_log_index_revision mode d (ali_index applied);
               current = current_revision_in_tx d mode;
               effective = (if mode = CommitTs then max current commit_ts else current);
               d = (if current < effective then tx_insert d T_meta META_CURRENT_REVISION (u64_bytes effective)
                    else d)
           in Inr (effective, put_applied d applied))"

section \<open>The direct-write fence\<close>

definition direct_write_fence_in_tx :: "db \<Rightarrow> DirectWriteFence option result" where
  "direct_write_fence_in_tx d =
    (case tx_get d T_kv DIRECT_WRITE_FENCE of
       None \<Rightarrow> Inr None
     | Some bs \<Rightarrow>
         (case decode_direct_write_fence bs of
            Some f \<Rightarrow> Inr (Some f)
          | None \<Rightarrow> Inl Storage))"

definition direct_write_fence :: "MvccStorage \<Rightarrow> DirectWriteFence option result" where
  "direct_write_fence s = direct_write_fence_in_tx (backend s)"

definition fence_direct_writes ::
    "MvccStorage \<Rightarrow> bytes \<Rightarrow> bytes \<Rightarrow> u64 \<Rightarrow> AppliedLogId \<Rightarrow> u64 result \<times> MvccStorage" where
  "fence_direct_writes s start end0 op_id applied =
    write_store s (\<lambda>d.
      if applied_contains d applied then
        bind_result (direct_write_fence_in_tx d)
          (\<lambda>f. Inr (case f of None \<Rightarrow> 0 | Some f \<Rightarrow> df_op_id f, d))
      else
        let d = tx_insert d T_kv DIRECT_WRITE_FENCE (encode_direct_write_fence start end0 op_id)
        in Inr (op_id, put_applied d applied))"

definition clear_direct_write_fence ::
    "MvccStorage \<Rightarrow> u64 \<Rightarrow> AppliedLogId \<Rightarrow> unit result \<times> MvccStorage" where
  "clear_direct_write_fence s op_id applied =
    write_store s (\<lambda>d.
      if applied_contains d applied then Inr ((), d)
      else
        bind_result (direct_write_fence_in_tx d) (\<lambda>f.
          let d = (case f of
                     Some f \<Rightarrow> (if op_id = 0 \<or> df_op_id f = op_id then tx_remove d T_kv DIRECT_WRITE_FENCE
                                else d)
                   | None \<Rightarrow> d)
          in Inr ((), put_applied d applied)))"

definition direct_write_fence_hit :: "MvccStorage \<Rightarrow> bytes \<Rightarrow> bytes option \<Rightarrow> u64 option result" where
  "direct_write_fence_hit s key end0 =
    bind_result (direct_write_fence s) (\<lambda>f.
      case f of
        None \<Rightarrow> Inr None
      | Some fence \<Rightarrow>
          let hit = (case end0 of
                       None \<Rightarrow> fence_contains (df_start_key fence) (df_end_key fence) key
                     | Some e \<Rightarrow>
                         (let empty = (e \<noteq> [] \<and> e \<le> key)
                          in \<not> empty \<and> (df_end_key fence = [] \<or> key < df_end_key fence) \<and>
                             (e = [] \<or> df_start_key fence < e)))
          in Inr (if hit then Some (df_op_id fence) else None))"

section \<open>The watermark computation\<close>

record CommitWatermarkState =
  ws_watermark :: u64
  ws_in_flight :: u64
  ws_min_in_flight_ts :: "u64 option"

definition min_of :: "u64 list \<Rightarrow> u64 option" where
  "min_of xs = (case xs of [] \<Rightarrow> None | y # ys \<Rightarrow> Some (foldl min y ys))"

definition commit_watermark_state :: "u64 \<Rightarrow> u64 list \<Rightarrow> CommitWatermarkState" where
  "commit_watermark_state decision_last_ts in_flight =
    (let min_in_flight = min_of in_flight;
         watermark = (case min_in_flight of
                        Some ts \<Rightarrow> min (sat_sub64 ts 1) decision_last_ts
                      | None \<Rightarrow> decision_last_ts)
     in \<lparr>ws_watermark = watermark, ws_in_flight = of_nat (length in_flight),
         ws_min_in_flight_ts = min_in_flight\<rparr>)"

definition pending_decision :: "u64 \<Rightarrow> u64 option \<Rightarrow> u64 option" where
  "pending_decision last_applied_ts next_decision_ts =
    (case next_decision_ts of
       Some ts \<Rightarrow> (if last_applied_ts < ts then Some ts else None)
     | None \<Rightarrow> None)"

definition unshipped_record :: "u64 \<Rightarrow> u64 \<Rightarrow> u64 option \<Rightarrow> u64 option" where
  "unshipped_record start_ts end_ts next_outbox_ts =
    (case next_outbox_ts of
       Some ts \<Rightarrow> (if start_ts \<le> ts \<and> (end_ts = 0 \<or> ts < end_ts) then Some ts else None)
     | None \<Rightarrow> None)"

section \<open>The contract of a watermark\<close>

text \<open>
  \<open>rd\<close> reads the register and \<open>pub\<close> applies a command that wants to raise it;
  \<open>seen\<close> tells whether the log position of a command was already applied.
\<close>

locale monotone_register =
  fixes rd :: "'s \<Rightarrow> u64"
    and pub :: "'s \<Rightarrow> u64 \<Rightarrow> AppliedLogId \<Rightarrow> u64 result \<times> 's"
    and seen :: "'s \<Rightarrow> AppliedLogId \<Rightarrow> bool"
    and inv :: "'s \<Rightarrow> bool"
  assumes pub_new: "inv s \<Longrightarrow> \<not> seen s a \<Longrightarrow>
      fst (pub s v a) = Inr (max (rd s) v) \<and> rd (snd (pub s v a)) = max (rd s) v \<and>
      inv (snd (pub s v a)) \<and> (\<forall>b. seen (snd (pub s v a)) b \<longleftrightarrow> ali_index b \<le> ali_index a)"
    and pub_seen: "inv s \<Longrightarrow> seen s a \<Longrightarrow> pub s v a = (Inr (rd s), s)"
begin

lemma pub_inv: "inv s \<Longrightarrow> inv (snd (pub s v a))"
  using pub_new pub_seen by (cases "seen s a") auto

lemma pub_mono: "inv s \<Longrightarrow> rd s \<le> rd (snd (pub s v a))"
  using pub_new pub_seen by (cases "seen s a") auto

lemma pub_returns: "inv s \<Longrightarrow> fst (pub s v a) = Inr (rd (snd (pub s v a)))"
  using pub_new pub_seen by (cases "seen s a") auto

lemma pub_replay:
  assumes "inv s"
  shows "pub (snd (pub s v a)) w a = (Inr (rd (snd (pub s v a))), snd (pub s v a))"
proof (cases "seen s a")
  case True
  then show ?thesis using pub_seen assms by simp
next
  case False
  then show ?thesis using pub_new [OF assms False] by (intro pub_seen) auto
qed

definition run :: "'s \<Rightarrow> (u64 \<times> AppliedLogId) list \<Rightarrow> 's" where
  "run s cmds = foldl (\<lambda>s (v, a). snd (pub s v a)) s cmds"

lemma run_simps [simp]:
  "run s [] = s" "run s ((v, a) # cmds) = run (snd (pub s v a)) cmds"
  by (simp_all add: run_def)

lemma run_inv: "inv s \<Longrightarrow> inv (run s cmds)"
  by (induction cmds arbitrary: s) (auto simp: pub_inv)

lemma run_mono: "inv s \<Longrightarrow> rd s \<le> rd (run s cmds)"
proof (induction cmds arbitrary: s)
  case (Cons c cmds)
  obtain v a where c: "c = (v, a)" by (cases c)
  show ?case
    using order_trans [OF pub_mono [OF Cons.prems] Cons.IH [OF pub_inv [OF Cons.prems]]] by (simp add: c)
qed simp

text \<open>Commands in log order, none of them applied before: the register is their maximum.\<close>

lemma run_max:
  assumes "inv s" "sorted_wrt (\<lambda>x y. ali_index (snd x) < ali_index (snd y)) cmds"
    and "\<forall>c \<in> set cmds. \<not> seen s (snd c)"
  shows "rd (run s cmds) = foldl max (rd s) (map fst cmds)"
  using assms
proof (induction cmds arbitrary: s)
  case (Cons c cmds)
  obtain v a where c: "c = (v, a)" by (cases c)
  have new: "\<not> seen s a" using Cons.prems(3) by (auto simp: c)
  note p = pub_new [OF Cons.prems(1) new, of v]
  have "\<forall>x \<in> set cmds. \<not> seen (snd (pub s v a)) (snd x)"
    using p Cons.prems(2) by (auto simp: c not_le)
  then show ?case
    using Cons.IH [of "snd (pub s v a)"] Cons.prems(2) p by (simp add: c)
qed simp

end

section \<open>The watermarks keep the contract\<close>

lemma system_rows_distinct [simp]:
  "SAFE_TS_FENCE \<noteq> COMMIT_WATERMARK" "COMMIT_WATERMARK \<noteq> SAFE_TS_FENCE"
  "DIRECT_WRITE_FENCE \<noteq> COMMIT_WATERMARK" "COMMIT_WATERMARK \<noteq> DIRECT_WRITE_FENCE"
  "DIRECT_WRITE_FENCE \<noteq> SAFE_TS_FENCE" "SAFE_TS_FENCE \<noteq> DIRECT_WRITE_FENCE"
  by (simp_all add: key_defs ascii_def)

lemma applied_in_tx_put [row_simps]: "applied_in_tx (put_applied d a) = Some a"
  by (simp add: applied_in_tx_def table_simps applied_codec.round_trip)

lemma applied_contains_put [row_simps]:
  "applied_contains (put_applied d a) b \<longleftrightarrow> ali_index b \<le> ali_index a"
  by (simp add: applied_contains_def row_simps)

lemma read_u64_row_rows [row_simps]:
  "read_u64_row (tx_insert d T_kv key (u64_bytes v)) key = v"
  "read_u64_row (put_applied d a) key = read_u64_row d key"
  by (simp_all add: read_u64_row_def table_simps decode_u64_def)

definition command_seen :: "MvccStorage \<Rightarrow> AppliedLogId \<Rightarrow> bool" where
  "command_seen s a = applied_contains (backend s) a"

lemma max_less_iff: "(a :: u64) < max a b \<longleftrightarrow> a < b"
  by (auto simp: max_def)

interpretation fence_reg: monotone_register safe_ts_fence set_safe_ts_fence command_seen "\<lambda>_. True"
  by unfold_locales
     (auto simp: set_safe_ts_fence_def safe_ts_fence_def command_seen_def write_store_def
       backend_write_def Let_def row_simps max_less_iff max_def)

interpretation watermark_reg: monotone_register commit_watermark publish_commit_watermark command_seen "\<lambda>_. True"
  by unfold_locales
     (auto simp: publish_commit_watermark_def commit_watermark_def command_seen_def write_store_def
       backend_write_def Let_def row_simps max_less_iff max_def)

lemma current_revision_put_applied_commit_ts:
  "current_revision_in_tx (put_applied d a) CommitTs = current_revision_in_tx d CommitTs"
  by (simp add: current_revision_in_tx_def table_simps split: option.split)

interpretation advance_reg: monotone_register current_revision advance_commit_ts_watermark command_seen
    "\<lambda>s. revision_mode s = CommitTs"
  by unfold_locales
     (auto simp: advance_commit_ts_watermark_def current_revision_eq command_seen_def write_store_def
       backend_write_def Let_def row_simps max_less_iff max_def note_log_index_revision_def
       current_revision_put_applied_commit_ts)

section \<open>What the registers promise\<close>

definition publish_all :: "MvccStorage \<Rightarrow> (u64 \<times> AppliedLogId) list \<Rightarrow> MvccStorage" where
  "publish_all s cmds = foldl (\<lambda>s (v, a). snd (publish_commit_watermark s v a)) s cmds"

text \<open>C22: The published commit watermark never goes back: after any further commands it is
  at least what it was, and after commands at new, ascending log positions it is
  exactly the maximum of the old value and theirs.\<close>

theorem commit_watermark_monotone:
  "commit_watermark s \<le> commit_watermark (publish_all s cmds) \<and>
    (sorted_wrt (\<lambda>x y. ali_index (snd x) < ali_index (snd y)) cmds \<and>
       (\<forall>c \<in> set cmds. \<not> applied_contains (backend s) (snd c)) \<longrightarrow>
     commit_watermark (publish_all s cmds) = foldl max (commit_watermark s) (map fst cmds))"
  using watermark_reg.run_mono [where s = s and cmds = cmds]
    watermark_reg.run_max [where s = s and cmds = cmds]
  by (simp add: publish_all_def watermark_reg.run_def command_seen_def)

theorem commit_watermark_monotone_witness:
  "commit_watermark (snd (publish_commit_watermark (snd (publish_commit_watermark
      (fresh CommitTs) 7 (standalone 1))) 5 (standalone 2))) = 7"
proof -
  have "\<not> applied_contains (backend (fresh CommitTs)) a" for a
    by (simp add: applied_contains_def applied_in_tx_def new_with_revision_mode_def)
  moreover have "commit_watermark (fresh CommitTs) = 0"
    by (simp add: commit_watermark_def read_u64_row_def new_with_revision_mode_def)
  ultimately show ?thesis
    using commit_watermark_monotone [of "fresh CommitTs" "[(7, standalone 1), (5, standalone 2)]"]
    by (simp add: standalone_def publish_all_def)
qed

text \<open>C23: The fence fixes the past. Once a region's applied watermark was advanced to a
  timestamp, every later put or delete at or below that timestamp is refused and
  changes nothing, unless it is the replay of a write already in the changelog.\<close>

theorem advance_fixes_history:
  assumes "revision_mode s = CommitTs" "\<not> applied_contains (backend s) a"
    and "advance_commit_ts_watermark s ts a = (res, s')"
    and "c \<le> ts" "changelog_event_at s' c = Inr None"
  shows "ts \<le> current_revision s' \<and>
    put_at_key s' nonce k v l c ap PolicyCommitTs = (Inl (CommitRejected c (current_revision s')), s') \<and>
    delete_at_key s' k c ap PolicyCommitTs = (Inl (CommitRejected c (current_revision s')), s')"
proof -
  have s': "s' = snd (advance_commit_ts_watermark s ts a)" by (simp add: assms(3))
  have "current_revision s' = max (current_revision s) ts" "revision_mode s' = CommitTs"
    using advance_reg.pub_new [of s a ts] assms(1,2) by (simp_all add: s' command_seen_def)
  moreover from this have "c \<le> current_revision s'" using assms(4) by (simp add: le_max_iff_disj)
  ultimately show ?thesis
    using assms(5)
    by (simp add: put_at_key_def delete_at_key_def replay_guard_def put_tx_def delete_tx_def
        accept_revision_def accept_commit_ts_def current_revision_eq write_store_def Let_def)
qed

theorem advance_fixes_history_witness:
  "\<exists>s'. snd (advance_commit_ts_watermark (fresh CommitTs) 9 (standalone 1)) = s' \<and>
    put_at_key s' [] [1] [10] None 5 (standalone 2) PolicyCommitTs =
      (Inl (CommitRejected 5 (current_revision s')), s')"
proof -
  have seen: "\<not> applied_contains (backend (fresh CommitTs)) (standalone 1)"
    by (simp add: applied_contains_def applied_in_tx_def new_with_revision_mode_def)
  obtain res s' where s': "advance_commit_ts_watermark (fresh CommitTs) 9 (standalone 1) = (res, s')"
    by fastforce
  have ev: "changelog_event_at s' 5 = Inr None"
    using s'
    by (auto simp: advance_commit_ts_watermark_def write_store_def backend_write_def Let_def
        new_with_revision_mode_def changelog_event_at_def note_log_index_revision_def table_simps
        split: if_splits)
  show ?thesis
    using advance_fixes_history [OF _ seen s' _ ev, of "[]" "[1]" "[10]" None "standalone 2"] s' by simp
qed

text \<open>The direct-write fence stops exactly the writes that touch the fenced interval.
  After the fence \<open>[fs, fe)\<close> was set, a point write hits it exactly when its key lies
  in it, and a range write exactly when the two intervals share a key; an empty end is no upper bound.\<close>

theorem fence_hit_exact:
  assumes "\<not> applied_contains (backend s) a" "fe = [] \<or> fs < fe" "length fs < 2 ^ 32"
    and "fence_direct_writes s fs fe op_id a = (res, s')"
  shows "direct_write_fence_hit s' key None =
      Inr (if fs \<le> key \<and> (fe = [] \<or> key < fe) then Some op_id else None) \<and>
    direct_write_fence_hit s' key (Some e) =
      Inr (if \<exists>x. key \<le> x \<and> (e = [] \<or> x < e) \<and> fs \<le> x \<and> (fe = [] \<or> x < fe) then Some op_id else None)"
proof -
  have "direct_write_fence s' = Inr (Some \<lparr>df_start_key = fs, df_end_key = fe, df_op_id = op_id\<rparr>)"
    using assms(1,4) fence_codec.round_trip [of "\<lparr>df_start_key = fs, df_end_key = fe, df_op_id = op_id\<rparr>"] assms(3)
    by (auto simp: fence_direct_writes_def write_store_def backend_write_def Let_def direct_write_fence_def
        direct_write_fence_in_tx_def table_simps fence_to_bytes_def)
  moreover have "(\<exists>x. key \<le> x \<and> (e = [] \<or> x < e) \<and> fs \<le> x \<and> (fe = [] \<or> x < fe)) \<longleftrightarrow>
      \<not> (e \<noteq> [] \<and> e \<le> key) \<and> (fe = [] \<or> key < fe) \<and> (e = [] \<or> fs < e)"
    (is "?L \<longleftrightarrow> ?R")
  proof
    assume ?L
    then show ?R by (auto dest: order.strict_trans1 simp: not_le)
  next
    assume ?R
    then have "key \<le> max key fs \<and> (e = [] \<or> max key fs < e) \<and> fs \<le> max key fs \<and> (fe = [] \<or> max key fs < fe)"
      using assms(2) by (auto simp: max_def not_le)
    then show ?L by blast
  qed
  ultimately show ?thesis
    by (simp add: direct_write_fence_hit_def fence_contains_def)
qed

theorem fence_hit_exact_witness:
  "\<exists>s'. snd (fence_direct_writes (fresh CommitTs) [5] [8] 3 (standalone 1)) = s' \<and>
    direct_write_fence_hit s' [1] (Some [6]) = Inr (Some 3) \<and>
    direct_write_fence_hit s' [8] None = Inr None"
proof -
  have seen: "\<not> applied_contains (backend (fresh CommitTs)) (standalone 1)"
    by (simp add: applied_contains_def applied_in_tx_def new_with_revision_mode_def)
  obtain res s' where s': "fence_direct_writes (fresh CommitTs) [5] [8] 3 (standalone 1) = (res, s')"
    by fastforce
  have "[1] \<le> [5 :: 8 word] \<and> ([5] < [6 :: 8 word]) \<and> [5 :: 8 word] < [8]" by simp
  then show ?thesis
    using fence_hit_exact [OF seen _ _ s', of "[1]" "[6]"] fence_hit_exact [OF seen _ _ s', of "[8]"] s'
    by auto
qed

lemma less_foldl_min: "w < foldl min y ys \<longleftrightarrow> w < y \<and> (\<forall>t \<in> set ys. w < t)"
  for w :: u64
  by (induction ys arbitrary: y) auto

text \<open>C24: The computed watermark is the highest promise that can be kept: it does not pass
  the last decision, lies below every timestamp in flight, and every timestamp
  with these two properties is at most the watermark.\<close>

theorem watermark_greatest:
  assumes "\<forall>ts \<in> set in_flight. 0 < ts"
  shows "w \<le> ws_watermark (commit_watermark_state lst in_flight) \<longleftrightarrow>
    w \<le> lst \<and> (\<forall>ts \<in> set in_flight. w < ts)"
proof (cases in_flight)
  case Nil
  then show ?thesis by (simp add: commit_watermark_state_def min_of_def Let_def)
next
  case (Cons y ys)
  have "0 < foldl min y ys" using assms by (simp add: Cons less_foldl_min)
  then have "w \<le> sat_sub64 (foldl min y ys) 1 \<longleftrightarrow> w < foldl min y ys"
    by (auto simp: word_le_nat_alt word_less_nat_alt unat_sat_sub64)
  then show ?thesis
    by (auto simp: commit_watermark_state_def min_of_def Let_def Cons less_foldl_min)
qed

theorem watermark_greatest_witness:
  "ws_watermark (commit_watermark_state 10 [9, 7]) \<ge> 6 \<and>
   \<not> ws_watermark (commit_watermark_state 10 [9, 7]) \<ge> 7"
  using watermark_greatest [of "[9, 7]" 6 10] watermark_greatest [of "[9, 7]" 7 10] by simp

end
