(* ===== verification/Envelope.thy ===== *)
theory Envelope
  imports Mvcc_Commit
begin

text \<open>
  The format envelope of stored values (\<open>coord-server/src/storage/envelope.rs\<close>):
  magic, version byte, payload. The payload is written and read by the postcard
  crate, which is the parameter \<open>postcard\<close> of every operation here.
\<close>

record 'a postcard =
  to_allocvec :: "'a \<Rightarrow> bytes option"
  take_from_bytes :: "bytes \<Rightarrow> ('a \<times> bytes) option"

text \<open>Documented behaviour: reading back a written value consumes exactly its bytes.\<close>

definition postcard_ok :: "'a postcard \<Rightarrow> bool" where
  "postcard_ok pc \<longleftrightarrow>
    (\<forall>v bs rest. to_allocvec pc v = Some bs \<longrightarrow> take_from_bytes pc (bs @ rest) = Some (v, rest))"

lemma postcard_okD:
  "postcard_ok pc \<Longrightarrow> to_allocvec pc v = Some bs \<Longrightarrow> take_from_bytes pc (bs @ rest) = Some (v, rest)"
  by (simp add: postcard_ok_def)

definition MAGIC :: bytes where "MAGIC = 2 # ascii ''CRD''"

definition VERSION_V2 :: "8 word" where "VERSION_V2 = 2"

definition PREFIX_LEN :: nat where "PREFIX_LEN = length MAGIC + 1"

datatype DecodeError = MissingEnvelope | UnsupportedVersion "8 word" | PayloadV2 | TrailingBytes nat

definition envelope_encode :: "'a postcard \<Rightarrow> 'a \<Rightarrow> bytes option" where
  "envelope_encode pc value =
    (case to_allocvec pc value of
       None \<Rightarrow> None
     | Some payload \<Rightarrow> Some (MAGIC @ [VERSION_V2] @ payload))"

definition split_envelope :: "bytes \<Rightarrow> DecodeError + bytes" where
  "split_envelope data =
    (if PREFIX_LEN \<le> length data \<and> take (length MAGIC) data = MAGIC then
       (let ver = data ! length MAGIC
        in if ver = VERSION_V2 then Inr (drop PREFIX_LEN data) else Inl (UnsupportedVersion ver))
     else Inl MissingEnvelope)"

definition decode_postcard_exact :: "'a postcard \<Rightarrow> bytes \<Rightarrow> DecodeError + 'a" where
  "decode_postcard_exact pc data =
    (case take_from_bytes pc data of
       None \<Rightarrow> Inl PayloadV2
     | Some (value, remainder) \<Rightarrow>
         (if remainder \<noteq> [] then Inl (TrailingBytes (length remainder)) else Inr value))"

definition envelope_decode :: "'a postcard \<Rightarrow> bytes \<Rightarrow> DecodeError + 'a" where
  "envelope_decode pc data =
    (case split_envelope data of Inl e \<Rightarrow> Inl e | Inr payload \<Rightarrow> decode_postcard_exact pc payload)"

text \<open>The option view (\<open>.ok()\<close>) that the row readers use.\<close>

definition envelope_ok :: "'a postcard \<Rightarrow> bytes \<Rightarrow> 'a option" where
  "envelope_ok pc data = (case envelope_decode pc data of Inr v \<Rightarrow> Some v | Inl _ \<Rightarrow> None)"

lemma MAGIC_length [simp]: "length MAGIC = 4" "PREFIX_LEN = 5"
  by (simp_all add: MAGIC_def PREFIX_LEN_def ascii_def)

lemma split_envelope_prefix: "split_envelope (MAGIC @ v # payload) =
    (if v = VERSION_V2 then Inr payload else Inl (UnsupportedVersion v))"
  by (simp add: split_envelope_def Let_def nth_append)

lemma envelope_decode_encode:
  assumes "postcard_ok pc" "envelope_encode pc v = Some bs"
  shows "envelope_decode pc bs = Inr v" "envelope_ok pc bs = Some v"
    "extra \<noteq> [] \<Longrightarrow> envelope_decode pc (bs @ extra) = Inl (TrailingBytes (length extra))"
proof -
  obtain payload where p: "to_allocvec pc v = Some payload" "bs = MAGIC @ VERSION_V2 # payload"
    using assms(2) by (auto simp: envelope_encode_def split: option.splits)
  note take = postcard_okD [OF assms(1) p(1)]
  show "envelope_decode pc bs = Inr v"
    using take [of "[]"] by (simp add: envelope_decode_def p(2) split_envelope_prefix decode_postcard_exact_def)
  then show "envelope_ok pc bs = Some v" by (simp add: envelope_ok_def)
  show "envelope_decode pc (bs @ extra) = Inl (TrailingBytes (length extra))" if "extra \<noteq> []"
    using take [of extra] that
    by (simp add: envelope_decode_def p(2) split_envelope_prefix decode_postcard_exact_def)
qed

text \<open>The envelope reads back what was written and nothing else: an encoded value
  decodes to itself, the same bytes with anything appended are refused with the
  number of extra bytes, and any other version byte is refused by name.\<close>

theorem envelope_exact:
  assumes "postcard_ok pc" "envelope_encode pc v = Some bs"
  shows "envelope_decode pc bs = Inr v \<and>
    (extra \<noteq> [] \<longrightarrow> envelope_decode pc (bs @ extra) = Inl (TrailingBytes (length extra))) \<and>
    (w \<noteq> VERSION_V2 \<longrightarrow> envelope_decode pc (bs[length MAGIC := w]) = Inl (UnsupportedVersion w))"
proof -
  have "envelope_decode pc (bs[length MAGIC := w]) = Inl (UnsupportedVersion w)" if "w \<noteq> VERSION_V2"
  proof -
    obtain payload where p: "bs = MAGIC @ VERSION_V2 # payload"
      using assms(2) by (auto simp: envelope_encode_def split: option.splits)
    have "bs[length MAGIC := w] = MAGIC @ w # payload" by (simp add: p list_update_append)
    then show ?thesis using that by (simp add: envelope_decode_def split_envelope_prefix)
  qed
  then show ?thesis using envelope_decode_encode [OF assms] by simp
qed

text \<open>A payload format for the examples: a 64-bit number, big-endian.\<close>

definition u64_postcard :: "u64 postcard" where
  "u64_postcard = \<lparr>to_allocvec = (\<lambda>v. Some (u64_bytes v)),
     take_from_bytes = (\<lambda>bs. if 8 \<le> length bs then Some (u64_of (take 8 bs), drop 8 bs) else None)\<rparr>"

lemma u64_postcard_ok: "postcard_ok u64_postcard"
  by (simp add: postcard_ok_def u64_postcard_def)

theorem envelope_exact_witness:
  "envelope_decode u64_postcard (MAGIC @ VERSION_V2 # u64_bytes 7 @ [1, 2]) = Inl (TrailingBytes 2)"
  using envelope_exact [OF u64_postcard_ok, of 7 "MAGIC @ VERSION_V2 # u64_bytes 7" "[1, 2]"]
  by (simp add: envelope_encode_def u64_postcard_def)

text \<open>A codec for the examples: a value is its position in a list.\<close>

fun position :: "'a \<Rightarrow> 'a list \<Rightarrow> nat option" where
  "position x [] = None"
| "position x (y # ys) = (if x = y then Some 0 else map_option Suc (position x ys))"

definition table_codec :: "'a list \<Rightarrow> 'a postcard" where
  "table_codec xs =
    \<lparr>to_allocvec = (\<lambda>v. map_option (\<lambda>i. [of_nat i]) (position v xs)),
     take_from_bytes = (\<lambda>bs. case bs of b # rest \<Rightarrow> (if unat b < length xs then Some (xs ! unat b, rest) else None)
                                      | [] \<Rightarrow> None)\<rparr>"

lemma position_nth: "position x xs = Some i \<Longrightarrow> i < length xs \<and> xs ! i = x"
  by (induction xs arbitrary: i) (auto split: if_splits)

lemma table_codec_ok: "length xs \<le> 256 \<Longrightarrow> postcard_ok (table_codec xs)"
  by (auto simp: postcard_ok_def table_codec_def unat_of_nat_byte dest!: position_nth)

end
