(* ===== verification/Tso.thy ===== *)
theory Tso
  imports Registers Envelope
begin

text \<open>
  The timestamp oracle: batch allocation in the system region's state machine
  (\<open>apply_tso_allocate\<close> in \<open>coord-server/src/storage/mvcc.rs\<close>) and the caching
  client of \<open>coord-server/src/raft/tso.rs\<close>. Metrics and the sleeping between
  retries are left out; the number of retries before the refill deadline is the
  parameter \<open>attempts\<close>.
\<close>

section \<open>Allocation in the state machine\<close>

record TsoBatchRecord =
  tbr_revision :: u64
  tbr_start_ts :: u64
  tbr_end_ts :: u64

record TsoBatchOutcome =
  tbo_start_ts :: u64
  tbo_end_ts :: u64
  tbo_replayed :: bool

definition tso_high_water_in_tx :: "db \<Rightarrow> u64" where
  "tso_high_water_in_tx d =
    (case Option.bind (tx_get d T_kv TSO_HIGH_WATER) decode_u64 of Some v \<Rightarrow> v | None \<Rightarrow> 1)"

definition tso_high_water :: "MvccStorage \<Rightarrow> u64" where
  "tso_high_water s = tso_high_water_in_tx (backend s)"

definition checked_add64 :: "u64 \<Rightarrow> u64 \<Rightarrow> u64 option" where
  "checked_add64 a b = (if unat a + unat b < 2 ^ 64 then Some (a + b) else None)"

definition tso_replay :: "TsoBatchRecord postcard \<Rightarrow> MvccStorage \<Rightarrow> u64 \<Rightarrow> TsoBatchOutcome" where
  "tso_replay pc s revision =
    (let high_water = tso_high_water s;
         gap = \<lparr>tbo_start_ts = high_water, tbo_end_ts = high_water, tbo_replayed = True\<rparr>
     in case Option.bind (tx_get (backend s) T_kv TSO_LAST_BATCH) (envelope_ok pc) of
          Some rc \<Rightarrow>
            (if tbr_revision rc = revision
             then \<lparr>tbo_start_ts = tbr_start_ts rc, tbo_end_ts = tbr_end_ts rc, tbo_replayed = True\<rparr>
             else gap)
        | None \<Rightarrow> gap)"

definition tso_allocate_tx ::
    "TsoBatchRecord postcard \<Rightarrow> RevisionMode \<Rightarrow> u32 \<Rightarrow> u64 \<Rightarrow> AppliedLogId \<Rightarrow> db \<Rightarrow>
     (TsoBatchOutcome \<times> db) result" where
  "tso_allocate_tx pc mode batch_size revision applied d =
    (let d = note_log_index_revision mode d revision;
         start_ts = tso_high_water_in_tx d
     in bind_result (ok_or Internal (checked_add64 start_ts (ucast (max batch_size 1)))) (\<lambda>end_ts.
          bind_result (ok_or Internal (envelope_encode pc
             \<lparr>tbr_revision = revision, tbr_start_ts = start_ts, tbr_end_ts = end_ts\<rparr>)) (\<lambda>record_bytes.
            let d = tx_insert d T_kv TSO_HIGH_WATER (u64_bytes end_ts);
                d = tx_insert d T_kv TSO_LAST_BATCH record_bytes;
                d = put_event d \<lparr>ev_revision = revision, ev_changes = [], ev_event_type = Put\<rparr>
            in Inr (\<lparr>tbo_start_ts = start_ts, tbo_end_ts = end_ts, tbo_replayed = False\<rparr>,
                    put_applied d applied))))"

definition apply_tso_allocate ::
    "TsoBatchRecord postcard \<Rightarrow> MvccStorage \<Rightarrow> u32 \<Rightarrow> u64 \<Rightarrow> AppliedLogId \<Rightarrow>
     TsoBatchOutcome result \<times> MvccStorage" where
  "apply_tso_allocate pc s batch_size revision applied =
    (if changelog_contains_revision s revision then (Inr (tso_replay pc s revision), s)
     else write_store s (tso_allocate_tx pc (revision_mode s) batch_size revision applied))"

section \<open>The caching client\<close>

record TsoBatch =
  start_ts :: u64
  end_ts :: u64

definition normalize_batch_size :: "u32 \<Rightarrow> u32 \<Rightarrow> u32 result" where
  "normalize_batch_size requested mx =
    (let size = max requested 1 in if mx < size then Inl InvalidArgument else Inr size)"

record TsoClient =
  tc_batch_size :: u32
  tc_next :: u64
  tc_end :: u64
  tc_was_leader :: bool

definition tso_client_new :: "u32 \<Rightarrow> TsoClient" where
  "tso_client_new batch_size =
    \<lparr>tc_batch_size = max batch_size 1, tc_next = 0, tc_end = 0, tc_was_leader = False\<rparr>"

definition cached_range :: "TsoClient \<Rightarrow> u64 \<times> u64" where
  "cached_range c = (tc_next c, tc_end c)"

definition TSO_REFILL_THRESHOLD_DIVISOR :: nat where "TSO_REFILL_THRESHOLD_DIVISOR = 8"

definition skip_to_above :: "u64 \<Rightarrow> TsoClient \<Rightarrow> TsoClient" where
  "skip_to_above floor c =
    (if floor = 0 then c
     else if tc_next c \<le> floor then c\<lparr>tc_next := min (sat_add64 floor 1) (tc_end c)\<rparr>
     else c)"

definition refill_threshold :: "TsoClient \<Rightarrow> nat" where
  "refill_threshold c =
    max ((unat (tc_batch_size c) + TSO_REFILL_THRESHOLD_DIVISOR - 1) div TSO_REFILL_THRESHOLD_DIVISOR) 1"

definition needs_refill :: "TsoClient \<Rightarrow> bool" where
  "needs_refill c \<longleftrightarrow> unat (sat_sub64 (tc_end c) (tc_next c)) \<le> refill_threshold c"

definition claim :: "TsoClient \<Rightarrow> u64 option \<times> TsoClient" where
  "claim c = (if tc_end c \<le> tc_next c then (None, c) else (Some (tc_next c), c\<lparr>tc_next := tc_next c + 1\<rparr>))"

definition discard_batch :: "TsoClient \<Rightarrow> TsoClient" where
  "discard_batch c = c\<lparr>tc_next := tc_end c\<rparr>"

definition install_batch :: "TsoClient \<Rightarrow> TsoBatch \<Rightarrow> unit result \<times> TsoClient" where
  "install_batch c batch =
    (if end_ts batch \<le> start_ts batch then (Inl Internal, c)
     else if start_ts batch < tc_next c then (Inl Internal, c)
     else (Inr (), c\<lparr>tc_next := start_ts batch, tc_end := end_ts batch\<rparr>))"

text \<open>
  The refill loop over a source of batches; \<open>attempts\<close> is how often the loop
  still finds itself before its deadline.
\<close>

fun refill_loop ::
    "('src \<Rightarrow> u32 \<Rightarrow> TsoBatch result \<times> 'src) \<Rightarrow> nat \<Rightarrow> 'src \<Rightarrow> TsoClient \<Rightarrow> unit result \<times> 'src \<times> TsoClient" where
  "refill_loop alloc attempts src c =
    (case alloc src (tc_batch_size c) of
       (Inr batch, src') \<Rightarrow> (case install_batch c batch of (r, c') \<Rightarrow> (r, src', c'))
     | (Inl err, src') \<Rightarrow>
         (if err = NotLeader then (Inl err, src', (discard_batch c)\<lparr>tc_was_leader := False\<rparr>)
          else if err \<noteq> ClusterUnavailable then (Inl err, src', c)
          else (case attempts of 0 \<Rightarrow> (Inl err, src', c) | Suc n \<Rightarrow> refill_loop alloc n src' c)))"

definition refill ::
    "('src \<Rightarrow> u32 \<Rightarrow> TsoBatch result \<times> 'src) \<Rightarrow> nat \<Rightarrow> 'src \<Rightarrow> TsoClient \<Rightarrow> unit result \<times> 'src \<times> TsoClient" where
  "refill alloc attempts src c =
    (if \<not> needs_refill c then (Inr (), src, c) else refill_loop alloc attempts src c)"

text \<open>The loop of \<open>get_ts_above\<close>, which has no bound of its own: \<open>None\<close> is running out of fuel.\<close>

fun get_ts_loop ::
    "('src \<Rightarrow> u32 \<Rightarrow> TsoBatch result \<times> 'src) \<Rightarrow> nat \<Rightarrow> u64 \<Rightarrow> nat \<Rightarrow> 'src \<Rightarrow> TsoClient \<Rightarrow>
     (u64 result \<times> 'src \<times> TsoClient) option" where
  "get_ts_loop alloc attempts floor 0 src c = None"
| "get_ts_loop alloc attempts floor (Suc fuel) src c =
    (let c = skip_to_above floor c
     in if needs_refill c then
          (case refill alloc attempts src c of
             (Inl e, src', c') \<Rightarrow> Some (Inl e, src', c')
           | (Inr _, src', c') \<Rightarrow> get_ts_loop alloc attempts floor fuel src' c')
        else
          (case claim c of
             (Some ts, c') \<Rightarrow>
               (if floor < ts then Some (Inr ts, src, c') else get_ts_loop alloc attempts floor fuel src c')
           | (None, c') \<Rightarrow> get_ts_loop alloc attempts floor fuel src c'))"

definition get_ts_above ::
    "('src \<Rightarrow> u32 \<Rightarrow> TsoBatch result \<times> 'src) \<Rightarrow> nat \<Rightarrow> bool \<Rightarrow> u64 \<Rightarrow> nat \<Rightarrow> 'src \<Rightarrow> TsoClient \<Rightarrow>
     (u64 result \<times> 'src \<times> TsoClient) option" where
  "get_ts_above alloc attempts is_leader floor fuel src c =
    (if \<not> is_leader then
       Some (Inl NotLeader, src, if tc_was_leader c then (discard_batch c)\<lparr>tc_was_leader := False\<rparr> else c)
     else get_ts_loop alloc attempts floor fuel src (c\<lparr>tc_was_leader := True\<rparr>))"

definition get_ts ::
    "('src \<Rightarrow> u32 \<Rightarrow> TsoBatch result \<times> 'src) \<Rightarrow> nat \<Rightarrow> bool \<Rightarrow> nat \<Rightarrow> 'src \<Rightarrow> TsoClient \<Rightarrow>
     (u64 result \<times> 'src \<times> TsoClient) option" where
  "get_ts alloc attempts is_leader fuel src c = get_ts_above alloc attempts is_leader 0 fuel src c"

section \<open>One allocation\<close>

lemma tso_rows_distinct [simp]: "TSO_HIGH_WATER \<noteq> TSO_LAST_BATCH" "TSO_LAST_BATCH \<noteq> TSO_HIGH_WATER"
  by (simp_all add: key_defs ascii_def)

lemma high_water_frame [row_simps]:
  "tso_high_water_in_tx (put_applied d a) = tso_high_water_in_tx d"
  "tso_high_water_in_tx (put_event d e) = tso_high_water_in_tx d"
  "tso_high_water_in_tx (note_log_index_revision mode d r) = tso_high_water_in_tx d"
  "tso_high_water_in_tx (tx_insert d T_kv TSO_LAST_BATCH bs) = tso_high_water_in_tx d"
  "tso_high_water_in_tx (tx_insert d T_kv TSO_HIGH_WATER (u64_bytes v)) = v"
  by (simp_all add: tso_high_water_in_tx_def table_simps note_log_index_revision_def decode_u64_def)

lemma checked_add64_Some:
  "checked_add64 a b = Some c \<longleftrightarrow> c = a + b \<and> unat c = unat a + unat b"
proof -
  have "unat a + unat b < 2 ^ 64 \<Longrightarrow> unat (a + b) = unat a + unat b"
    by (simp add: unat_word_ariths)
  moreover have "unat (a + b) < 2 ^ LENGTH(64)" by (rule unsigned_less)
  ultimately show ?thesis by (auto simp: checked_add64_def)
qed

lemma unat_ucast_u32: "unat (ucast (w :: u32) :: u64) = unat w"
  by transfer simp

lemma batch_positive: "0 < unat (ucast (max n (1 :: u32)) :: u64)"
proof -
  have "unat (ucast (max n (1 :: u32)) :: u64) = unat (max n 1)"
    by (simp add: unat_ucast_u32)
  moreover have "1 \<le> max n (1 :: u32)" by simp
  ultimately show ?thesis by (simp add: word_le_nat_alt)
qed

lemma allocate_applied:
  assumes "apply_tso_allocate pc s n r a = (Inr oc, s')" "\<not> tbo_replayed oc"
  shows "tbo_start_ts oc = tso_high_water s" "tbo_end_ts oc = tso_high_water s'"
    "unat (tso_high_water s') = unat (tso_high_water s) + unat (max n 1)"
    "changelog_contains_revision s' r"
    "\<exists>bs. tx_get (backend s') T_kv TSO_LAST_BATCH = Some bs \<and> envelope_encode pc
       \<lparr>tbr_revision = r, tbr_start_ts = tbo_start_ts oc, tbr_end_ts = tbo_end_ts oc\<rparr> = Some bs"
proof -
  have new: "\<not> changelog_contains_revision s r"
    using assms by (auto simp: apply_tso_allocate_def tso_replay_def Let_def split: option.splits if_splits)
  have u: "unat (ucast (max n 1) :: u64) = unat (max n 1)" by (simp add: unat_ucast_u32)
  obtain e bs where e: "checked_add64 (tso_high_water s) (ucast (max n 1)) = Some e"
    and bs: "envelope_encode pc \<lparr>tbr_revision = r, tbr_start_ts = tso_high_water s, tbr_end_ts = e\<rparr> = Some bs"
    and oc: "oc = \<lparr>tbo_start_ts = tso_high_water s, tbo_end_ts = e, tbo_replayed = False\<rparr>"
    and s': "backend s' = put_applied (put_event (tx_insert (tx_insert
        (note_log_index_revision (revision_mode s) (backend s) r) T_kv TSO_HIGH_WATER (u64_bytes e)) T_kv TSO_LAST_BATCH bs)
        \<lparr>ev_revision = r, ev_changes = [], ev_event_type = Put\<rparr>) a"
    using assms(1) new
    by (auto simp: apply_tso_allocate_def write_store_def backend_write_def tso_allocate_tx_def Let_def
        row_simps tso_high_water_def ok_or_def split: option.splits)
  have al_end: "tso_high_water s' = e" by (simp add: tso_high_water_def s' row_simps)
  show "tbo_start_ts oc = tso_high_water s" "tbo_end_ts oc = tso_high_water s'"
    by (simp_all add: oc al_end)
  show "unat (tso_high_water s') = unat (tso_high_water s) + unat (max n 1)"
    using e u by (metis al_end checked_add64_Some)
  show "changelog_contains_revision s' r"
    by (simp add: changelog_contains_revision_def s' table_simps)
  show "\<exists>bs. tx_get (backend s') T_kv TSO_LAST_BATCH = Some bs \<and> envelope_encode pc
       \<lparr>tbr_revision = r, tbr_start_ts = tbo_start_ts oc, tbr_end_ts = tbo_end_ts oc\<rparr> = Some bs"
    using bs by (simp add: oc s' table_simps)
qed

text \<open>An allocation hands out a new interval exactly once. It starts at the high-water
  mark, has the requested size (at least one) and ends at the new mark; applying
  the same log entry again returns the same interval and leaves the store alone.\<close>

theorem tso_allocate_exact:
  assumes "postcard_ok pc" "apply_tso_allocate pc s n r a = (Inr oc, s')" "\<not> tbo_replayed oc"
  shows "tbo_start_ts oc = tso_high_water s \<and> tbo_end_ts oc = tso_high_water s' \<and>
    unat (tbo_end_ts oc) = unat (tbo_start_ts oc) + unat (max n 1) \<and>
    apply_tso_allocate pc s' m r b = (Inr (oc\<lparr>tbo_replayed := True\<rparr>), s')"
proof -
  note al = allocate_applied [OF assms(2,3)]
  obtain bs where bs: "tx_get (backend s') T_kv TSO_LAST_BATCH = Some bs" "envelope_encode pc
       \<lparr>tbr_revision = r, tbr_start_ts = tbo_start_ts oc, tbr_end_ts = tbo_end_ts oc\<rparr> = Some bs"
    using al(5) by blast
  have "tso_replay pc s' r = oc\<lparr>tbo_replayed := True\<rparr>"
    using envelope_decode_encode(2) [OF assms(1) bs(2)]
    by (cases oc) (simp add: tso_replay_def Let_def bs(1))
  then show ?thesis using al by (simp add: apply_tso_allocate_def)
qed

text \<open>A record format for the examples: three 64-bit numbers.\<close>

definition batch_postcard :: "TsoBatchRecord postcard" where
  "batch_postcard =
    \<lparr>to_allocvec = (\<lambda>r. Some (u64_bytes (tbr_revision r) @ u64_bytes (tbr_start_ts r) @ u64_bytes (tbr_end_ts r))),
     take_from_bytes = (\<lambda>bs. if 24 \<le> length bs
       then Some (\<lparr>tbr_revision = u64_of (take 8 bs), tbr_start_ts = u64_of (take 8 (drop 8 bs)),
                   tbr_end_ts = u64_of (take 8 (drop 16 bs))\<rparr>, drop 24 bs)
       else None)\<rparr>"

lemma batch_postcard_ok: "postcard_ok batch_postcard"
  by (simp add: postcard_ok_def batch_postcard_def)

lemma allocate_succeeds:
  assumes "\<not> changelog_contains_revision s r" "unat (tso_high_water s) + unat (max n 1) < 2 ^ 64"
    and "\<And>v. to_allocvec pc v \<noteq> None"
  shows "\<exists>oc s'. apply_tso_allocate pc s n r a = (Inr oc, s') \<and> \<not> tbo_replayed oc"
proof -
  obtain e where e: "checked_add64 (tso_high_water_in_tx (backend s)) (ucast (max n 1)) = Some e"
    using assms(2) by (auto simp: checked_add64_def unat_ucast_u32 tso_high_water_def)
  obtain bs where "envelope_encode pc \<lparr>tbr_revision = r, tbr_start_ts = tso_high_water_in_tx (backend s),
      tbr_end_ts = e\<rparr> = Some bs"
    using assms(3) [of "\<lparr>tbr_revision = r, tbr_start_ts = tso_high_water_in_tx (backend s), tbr_end_ts = e\<rparr>"]
    by (auto simp: envelope_encode_def)
  then show ?thesis
    using assms(1) e
    by (simp add: apply_tso_allocate_def write_store_def backend_write_def tso_allocate_tx_def Let_def
        row_simps ok_or_def)
qed

lemma fresh_high_water: "tso_high_water (fresh mode) = 1"
  by (simp add: tso_high_water_def tso_high_water_in_tx_def new_with_revision_mode_def)

theorem tso_allocate_exact_witness:
  "\<exists>oc s'. apply_tso_allocate batch_postcard (fresh LogIndex) 8 1 (standalone 1) = (Inr oc, s') \<and>
    tbo_start_ts oc = 1 \<and> unat (tbo_end_ts oc) = 9 \<and>
    apply_tso_allocate batch_postcard s' 8 1 (standalone 1) = (Inr (oc\<lparr>tbo_replayed := True\<rparr>), s')"
proof -
  obtain oc s' where al: "apply_tso_allocate batch_postcard (fresh LogIndex) 8 1 (standalone 1) = (Inr oc, s')"
    "\<not> tbo_replayed oc"
    using allocate_succeeds [of "fresh LogIndex" 1 8 batch_postcard "standalone 1"]
    by (auto simp: fresh_high_water batch_postcard_def)
  then show ?thesis
    using tso_allocate_exact [OF batch_postcard_ok al, of 8 "standalone 1"] by (auto simp: fresh_high_water)
qed

section \<open>Many clients\<close>

text \<open>
  Clients on any number of nodes share the store. A batch travels from the
  state machine to its client, where it is installed later or lost. Every
  critical section of a client is one step, so the steps of all tasks and nodes
  interleave freely; \<open>ts_issued\<close> records what was handed out, newest first.
\<close>

record tso_system =
  ts_store :: MvccStorage
  ts_client :: "nat \<Rightarrow> TsoClient"
  ts_inflight :: "nat \<Rightarrow> TsoBatch option"
  ts_issued :: "(nat \<times> u64) list"

inductive tso_step :: "TsoBatchRecord postcard \<Rightarrow> tso_system \<Rightarrow> tso_system \<Rightarrow> bool"
  for pc :: "TsoBatchRecord postcard" where
  ts_allocate: "apply_tso_allocate pc (ts_store t) n r a = (Inr oc, s') \<Longrightarrow> \<not> tbo_replayed oc \<Longrightarrow>
    tso_step pc t (t\<lparr>ts_store := s', ts_inflight := (ts_inflight t)(i := Some
      \<lparr>start_ts = tbo_start_ts oc, end_ts = tbo_end_ts oc\<rparr>)\<rparr>)"
| ts_install: "ts_inflight t i = Some b \<Longrightarrow> install_batch (ts_client t i) b = (res, c') \<Longrightarrow>
    tso_step pc t (t\<lparr>ts_client := (ts_client t)(i := c'), ts_inflight := (ts_inflight t)(i := None)\<rparr>)"
| ts_lose: "tso_step pc t (t\<lparr>ts_inflight := (ts_inflight t)(i := None)\<rparr>)"
| ts_skip: "tso_step pc t (t\<lparr>ts_client := (ts_client t)(i := skip_to_above floor (ts_client t i))\<rparr>)"
| ts_discard: "tso_step pc t (t\<lparr>ts_client := (ts_client t)(i := discard_batch (ts_client t i))\<rparr>)"
| ts_claim: "claim (ts_client t i) = (Some ts, c') \<Longrightarrow>
    tso_step pc t (t\<lparr>ts_client := (ts_client t)(i := c'), ts_issued := (i, ts) # ts_issued t\<rparr>)"

definition tso_init :: "MvccStorage \<Rightarrow> (nat \<Rightarrow> u32) \<Rightarrow> tso_system" where
  "tso_init s sizes = \<lparr>ts_store = s, ts_client = (\<lambda>i. tso_client_new (sizes i)),
     ts_inflight = (\<lambda>_. None), ts_issued = []\<rparr>"

text \<open>Timestamps a client holds, in its cache and on the way to it.\<close>

definition cached :: "TsoClient \<Rightarrow> u64 set" where
  "cached c = {tc_next c..<tc_end c}"

definition travelling :: "TsoBatch option \<Rightarrow> u64 set" where
  "travelling b = (case b of None \<Rightarrow> {} | Some b \<Rightarrow> {start_ts b..<end_ts b})"

definition held :: "tso_system \<Rightarrow> nat \<Rightarrow> u64 set" where
  "held t i = cached (ts_client t i) \<union> travelling (ts_inflight t i)"

definition tso_inv :: "tso_system \<Rightarrow> bool" where
  "tso_inv t \<longleftrightarrow>
    (\<forall>i. \<forall>x \<in> held t i. x < tso_high_water (ts_store t)) \<and>
    (\<forall>i j. i \<noteq> j \<longrightarrow> held t i \<inter> held t j = {}) \<and>
    (\<forall>i. cached (ts_client t i) \<inter> travelling (ts_inflight t i) = {}) \<and>
    (\<forall>i x. (i, x) \<in> set (ts_issued t) \<longrightarrow>
       x < tso_high_water (ts_store t) \<and> x < tc_next (ts_client t i) \<and> (\<forall>j. x \<notin> held t j)) \<and>
    (\<forall>i. tc_next (ts_client t i) \<le> tc_end (ts_client t i)) \<and>
    distinct (map snd (ts_issued t)) \<and>
    (\<forall>i. sorted_wrt (>) (map snd (filter (\<lambda>e. fst e = i) (ts_issued t))))"

lemma tso_invD:
  assumes "tso_inv t"
  shows "x \<in> held t i \<Longrightarrow> x < tso_high_water (ts_store t)"
    "i \<noteq> j \<Longrightarrow> x \<in> held t i \<Longrightarrow> x \<notin> held t j"
    "cached (ts_client t i) \<inter> travelling (ts_inflight t i) = {}"
    "(i, x) \<in> set (ts_issued t) \<Longrightarrow> x < tso_high_water (ts_store t)"
    "(i, x) \<in> set (ts_issued t) \<Longrightarrow> x < tc_next (ts_client t i)"
    "(i, x) \<in> set (ts_issued t) \<Longrightarrow> x \<notin> held t j"
    "tc_next (ts_client t i) \<le> tc_end (ts_client t i)"
    "distinct (map snd (ts_issued t))"
    "sorted_wrt (>) (map snd (filter (\<lambda>e. fst e = i) (ts_issued t)))"
  using assms unfolding tso_inv_def by blast+

text \<open>Shrinking one client's timestamps and raising its lower bound keeps the invariant.\<close>

lemma tso_inv_shrink:
  assumes inv: "tso_inv t"
    and sub: "cached c' \<union> travelling b' \<subseteq> held t i" "cached c' \<inter> travelling b' = {}"
    and nxt: "tc_next (ts_client t i) \<le> tc_next c'" "tc_next c' \<le> tc_end c'"
  shows "tso_inv (t\<lparr>ts_client := (ts_client t)(i := c'), ts_inflight := (ts_inflight t)(i := b')\<rparr>)"
    (is "tso_inv ?t")
proof -
  note d = tso_invD [OF inv]
  have held: "held ?t j \<subseteq> held t j" for j using sub(1) by (auto simp: held_def)
  have other: "ts_client ?t j = ts_client t j" "ts_inflight ?t j = ts_inflight t j" if "j \<noteq> i" for j
    using that by simp_all
  have lt: "x < tc_next (ts_client ?t j)" if "(j, x) \<in> set (ts_issued t)" for j x
    using d(5) [OF that] nxt(1) by (cases "j = i") auto
  show ?thesis
    unfolding tso_inv_def
  proof (intro conjI allI ballI impI)
    fix j x assume "x \<in> held ?t j" then show "x < tso_high_water (ts_store ?t)" using held d(1) by auto
  next
    fix j k assume "j \<noteq> (k :: nat)"
    then show "held ?t j \<inter> held ?t k = {}" using held d(2) by blast
  next
    fix j show "cached (ts_client ?t j) \<inter> travelling (ts_inflight ?t j) = {}"
      using sub(2) d(3) by (cases "j = i") auto
  next
    fix j x assume "(j, x) \<in> set (ts_issued ?t)"
    then have x: "(j, x) \<in> set (ts_issued t)" by simp
    show "x < tso_high_water (ts_store ?t)" using d(4) [OF x] by simp
    show "x < tc_next (ts_client ?t j)" by (rule lt [OF x])
    show "x \<notin> held ?t k" for k using d(6) [OF x] held by blast
  next
    fix j show "tc_next (ts_client ?t j) \<le> tc_end (ts_client ?t j)" using nxt(2) d(7) by (cases "j = i") auto
  qed (use d(8,9) in simp_all)
qed

lemma held_bounds:
  "cached c = {} \<longleftrightarrow> tc_end c \<le> tc_next c"
  by (auto simp: cached_def)

lemma tso_inv_allocate:
  assumes inv: "tso_inv t" and al: "apply_tso_allocate pc (ts_store t) n r a = (Inr oc, s')" "\<not> tbo_replayed oc"
  shows "tso_inv (t\<lparr>ts_store := s', ts_inflight := (ts_inflight t)(i := Some
      \<lparr>start_ts = tbo_start_ts oc, end_ts = tbo_end_ts oc\<rparr>)\<rparr>)" (is "tso_inv ?t")
proof -
  note d = tso_invD [OF inv] and oc = allocate_applied [OF al]
  have hw: "tso_high_water (ts_store t) \<le> tso_high_water s'"
    using oc(3) by (simp add: word_le_nat_alt)
  have up: "x < tso_high_water s'" if "x < tso_high_water (ts_store t)" for x
    using that hw by (rule order.strict_trans2)
  have fresh: "travelling (ts_inflight ?t i) = {tso_high_water (ts_store t)..<tso_high_water s'}"
    by (simp add: travelling_def oc(1,2))
  have held: "x \<in> held ?t j \<longleftrightarrow>
      (if j = i then x \<in> cached (ts_client t i) \<or> tso_high_water (ts_store t) \<le> x \<and> x < tso_high_water s'
       else x \<in> held t j)" for j x
    using fresh by (auto simp: held_def)
  have old: "x < tso_high_water (ts_store t)" if "x \<in> cached (ts_client t j)" for j x
    using d(1) [of x j] that by (simp add: held_def)
  have src: "x \<in> held t j \<or> j = i \<and> tso_high_water (ts_store t) \<le> x" if "x \<in> held ?t j" for x j
    using that unfolding held by (simp add: held_def split: if_splits) blast
  show ?thesis
    unfolding tso_inv_def
  proof (intro conjI allI ballI impI)
    fix j x assume "x \<in> held ?t j"
    then show "x < tso_high_water (ts_store ?t)"
      using held up [OF old] up [OF d(1)] by (auto split: if_splits)
  next
    fix j k assume jk: "j \<noteq> (k :: nat)"
    show "held ?t j \<inter> held ?t k = {}"
    proof (rule equals0I)
      fix x assume "x \<in> held ?t j \<inter> held ?t k"
      then have x: "x \<in> held ?t j" "x \<in> held ?t k" by blast+
      show False using jk src [OF x(1)] src [OF x(2)] d(1) [of x j] d(1) [of x k] d(2) [OF jk, of x] leD by blast
    qed
  next
    fix j show "cached (ts_client ?t j) \<inter> travelling (ts_inflight ?t j) = {}"
      using fresh old leD d(3) by (cases "j = i") fastforce+
  next
    fix j x assume "(j, x) \<in> set (ts_issued ?t)"
    then have x: "(j, x) \<in> set (ts_issued t)" by simp
    show "x < tso_high_water (ts_store ?t)" using up [OF d(4) [OF x]] by simp
    show "x < tc_next (ts_client ?t j)" using d(5) [OF x] by simp
    show "x \<notin> held ?t k" for k
      using d(4) [OF x] d(6) [OF x, of k] src [of x k] leD by blast
  qed (use d(7,8,9) in simp_all)
qed

lemma unat_succ_less: "(a :: u64) < b \<Longrightarrow> unat (a + 1) = unat a + 1"
  using unsigned_less [of b, where 'a = nat] by (simp add: word_less_nat_alt unat_word_ariths)

lemma claim_cached:
  assumes "claim c = (Some ts, c')"
  shows "ts = tc_next c" "tc_next c < tc_end c" "c' = c\<lparr>tc_next := tc_next c + 1\<rparr>"
    "tc_next c < tc_next c'" "tc_next c' \<le> tc_end c'" "cached c' = cached c - {ts}"
proof -
  show base: "ts = tc_next c" "tc_next c < tc_end c" "c' = c\<lparr>tc_next := tc_next c + 1\<rparr>"
    using assms by (auto simp: claim_def split: if_splits)
  have suc: "unat (tc_next c + 1) = unat (tc_next c) + 1" by (rule unat_succ_less [OF base(2)])
  then show "tc_next c < tc_next c'" "tc_next c' \<le> tc_end c'"
    using base(2) by (simp_all add: base(3) word_less_nat_alt word_le_nat_alt)
  have above: "tc_next c + 1 \<le> x \<longleftrightarrow> tc_next c \<le> x \<and> x \<noteq> tc_next c" for x
    using suc by (auto simp: word_le_nat_alt word_unat_eq_iff)
  show "cached c' = cached c - {ts}"
  proof (rule set_eqI)
    fix x
    show "x \<in> cached c' \<longleftrightarrow> x \<in> cached c - {ts}"
      using above [of x] by (simp add: cached_def base(1,3)) blast
  qed
qed

lemma install_cached:
  assumes "install_batch c b = (res, c')"
  shows "c' = c \<or> tc_next c \<le> tc_next c' \<and> tc_next c' \<le> tc_end c' \<and> cached c' = travelling (Some b)"
  using assms by (auto simp: install_batch_def cached_def travelling_def split: if_splits)

lemma skip_cached:
  assumes "tc_next c \<le> tc_end c"
  shows "cached (skip_to_above floor c) \<subseteq> cached c" "tc_next c \<le> tc_next (skip_to_above floor c)"
    "tc_next (skip_to_above floor c) \<le> tc_end (skip_to_above floor c)"
proof -
  have "unat floor < 2 ^ LENGTH(64)" by (rule unsigned_less)
  then have "floor \<le> sat_add64 floor 1" by (simp add: word_le_nat_alt unat_sat_add64)
  then show "tc_next c \<le> tc_next (skip_to_above floor c)"
    using assms by (auto simp: skip_to_above_def intro: order_trans)
  then show "cached (skip_to_above floor c) \<subseteq> cached c"
    by (auto simp: cached_def skip_to_above_def split: if_splits)
  show "tc_next (skip_to_above floor c) \<le> tc_end (skip_to_above floor c)"
    using assms by (simp add: skip_to_above_def)
qed

lemma skip_above:
  assumes "tc_next c \<le> tc_end c" "tc_next c = 0 \<Longrightarrow> tc_end c = 0"
    and "tc_next (skip_to_above floor c) < tc_end (skip_to_above floor c)"
  shows "floor < tc_next (skip_to_above floor c)"
proof (cases "tc_next c \<le> floor \<and> floor \<noteq> 0")
  case True
  then have eq: "tc_next (skip_to_above floor c) = sat_add64 floor 1" "sat_add64 floor 1 < tc_end c"
    using assms(3) by (auto simp: skip_to_above_def min_def split: if_splits)
  have "unat (tc_end c) < 2 ^ LENGTH(64)" by (rule unsigned_less)
  then have "unat floor < unat (sat_add64 floor 1)"
    using eq(2) by (simp add: word_less_nat_alt unat_sat_add64)
  then show ?thesis by (simp add: eq(1) word_less_nat_alt)
next
  case False
  then show ?thesis
    using assms(2,3) by (cases "tc_next c = 0") (auto simp: skip_to_above_def not_le word_gt_0 split: if_splits)
qed

lemma tso_inv_step:
  assumes "tso_step pc t t'" "tso_inv t"
  shows "tso_inv t'"
  using assms
proof (induction rule: tso_step.induct)
  case (ts_allocate t n r a oc s' i)
  then show ?case using tso_inv_allocate by blast
next
  case (ts_install t i b res c')
  note d = tso_invD [OF ts_install.prems]
  have "cached c' \<union> travelling None \<subseteq> held t i" "tc_next (ts_client t i) \<le> tc_next c'" "tc_next c' \<le> tc_end c'"
    using install_cached [OF ts_install.hyps(2)] ts_install.hyps(1) d(7)
    by (auto simp: held_def travelling_def)
  then show ?case by (intro tso_inv_shrink [OF ts_install.prems]) (simp_all add: travelling_def)
next
  case (ts_lose t i)
  have "tso_inv (t\<lparr>ts_client := (ts_client t)(i := ts_client t i), ts_inflight := (ts_inflight t)(i := None)\<rparr>)"
    using tso_invD(7) [OF ts_lose.prems]
    by (intro tso_inv_shrink [OF ts_lose.prems]) (auto simp: held_def travelling_def)
  then show ?case by simp
next
  case (ts_skip t i floor)
  note d = tso_invD [OF ts_skip.prems]
  have "tso_inv (t\<lparr>ts_client := (ts_client t)(i := skip_to_above floor (ts_client t i)),
      ts_inflight := (ts_inflight t)(i := ts_inflight t i)\<rparr>)"
    using skip_cached [OF d(7) [of i], of floor] d(3) [of i]
    by (intro tso_inv_shrink [OF ts_skip.prems]) (auto simp: held_def)
  then show ?case by simp
next
  case (ts_discard t i)
  note d = tso_invD [OF ts_discard.prems]
  have "tso_inv (t\<lparr>ts_client := (ts_client t)(i := discard_batch (ts_client t i)),
      ts_inflight := (ts_inflight t)(i := ts_inflight t i)\<rparr>)"
    using d(7) by (intro tso_inv_shrink [OF ts_discard.prems]) (auto simp: held_def discard_batch_def cached_def)
  then show ?case by simp
next
  case (ts_claim t i ts c')
  note d = tso_invD [OF ts_claim.prems] and cl = claim_cached [OF ts_claim.hyps]
  let ?t = "t\<lparr>ts_client := (ts_client t)(i := c'), ts_inflight := (ts_inflight t)(i := ts_inflight t i)\<rparr>"
  have inv: "tso_inv ?t"
    using cl(4,5,6) d(3) by (intro tso_inv_shrink [OF ts_claim.prems]) (auto simp: held_def less_imp_le)
  have ts: "ts \<in> held t i" using cl(1,2) by (simp add: held_def cached_def)
  have gone: "ts \<notin> held ?t j" for j
    using d(2) [of i j ts] d(3) [of i] ts cl(1,2,6) by (cases "j = i") (auto simp: held_def cached_def)
  have new: "x < ts" if "(i, x) \<in> set (ts_issued t)" for x using d(5) [OF that] cl(1) by simp
  have "ts \<notin> snd ` set (ts_issued t)" using d(6) ts by auto
  then show ?case
    using inv gone d(1) [OF ts] cl(1,4) new d(8,9)
    unfolding tso_inv_def by (auto simp: held_def)
qed

lemma tso_reachable_inv:
  assumes "rtranclp (tso_step pc) (tso_init s sizes) t"
  shows "tso_inv t"
  using assms
proof (induction rule: rtranclp_induct)
  case base
  show ?case
    by (simp add: tso_inv_def tso_init_def held_def cached_def travelling_def tso_client_new_def)
next
  case (step t t')
  then show ?case using tso_inv_step by blast
qed

text \<open>C10: Timestamps are globally unique. However the requests, refills, lost responses,
  leader changes and fence skips of any number of clients interleave, no
  timestamp is handed out twice, and each client hands out increasing ones.\<close>

theorem tso_unique:
  assumes "rtranclp (tso_step pc) (tso_init s sizes) t"
  shows "distinct (map snd (ts_issued t)) \<and>
    sorted_wrt (>) (map snd (filter (\<lambda>e. fst e = i) (ts_issued t))) \<and>
    (\<forall>e \<in> set (ts_issued t). snd e < tso_high_water (ts_store t))"
  using tso_invD(4,8,9) [OF tso_reachable_inv [OF assms]] by auto

theorem tso_unique_witness:
  "\<exists>t. rtranclp (tso_step batch_postcard) (tso_init (fresh LogIndex) (\<lambda>_. 8)) t \<and>
    ts_issued t = [(0, 2), (0, 1)] \<and> distinct (map snd (ts_issued t))"
proof -
  obtain oc s' where al: "apply_tso_allocate batch_postcard (fresh LogIndex) 8 1 (standalone 1) = (Inr oc, s')"
    "\<not> tbo_replayed oc"
    using allocate_succeeds [of "fresh LogIndex" 1 8 batch_postcard "standalone 1"]
    by (auto simp: fresh_high_water batch_postcard_def)
  have st: "tbo_start_ts oc = 1" using allocate_applied(1) [OF al] by (simp add: fresh_high_water)
  have en: "tbo_end_ts oc = 9"
    using allocate_applied(2,3) [OF al] by (simp add: fresh_high_water word_unat_eq_iff)
  let ?t0 = "tso_init (fresh LogIndex) (\<lambda>_. 8)"
  let ?c = "\<lparr>tc_batch_size = 8, tc_next = 1, tc_end = 9, tc_was_leader = False\<rparr>"
  let ?b = "\<lparr>start_ts = 1, end_ts = 9\<rparr>"
  define t1 where "t1 = ?t0\<lparr>ts_store := s', ts_inflight := (ts_inflight ?t0)(0 := Some ?b)\<rparr>"
  define t2 where "t2 = t1\<lparr>ts_client := (ts_client t1)(0 := ?c), ts_inflight := (ts_inflight t1)(0 := None)\<rparr>"
  define t3 where "t3 = t2\<lparr>ts_client := (ts_client t2)(0 := ?c\<lparr>tc_next := 2\<rparr>), ts_issued := (0, 1) # ts_issued t2\<rparr>"
  define t4 where "t4 = t3\<lparr>ts_client := (ts_client t3)(0 := ?c\<lparr>tc_next := 3\<rparr>), ts_issued := (0, 2) # ts_issued t3\<rparr>"
  have 1: "tso_step batch_postcard ?t0 t1"
    unfolding t1_def using tso_step.ts_allocate [where t = ?t0 and i = 0, OF _ al(2)] al(1) st en
    by (simp add: tso_init_def)
  have nle: "(9 :: u64) \<le> 1 \<longleftrightarrow> False" by (simp add: word_le_nat_alt)
  have 2: "tso_step batch_postcard t1 t2"
    unfolding t2_def by (rule tso_step.ts_install [where b = ?b])
      (auto simp: t1_def tso_init_def install_batch_def tso_client_new_def nle)
  have 3: "tso_step batch_postcard t2 t3"
    unfolding t3_def by (rule tso_step.ts_claim) (simp add: t2_def claim_def nle)
  have 4: "tso_step batch_postcard t3 t4"
    unfolding t4_def by (rule tso_step.ts_claim) (simp add: t3_def claim_def nle)
  have r: "rtranclp (tso_step batch_postcard) ?t0 t4"
    by (rule converse_rtranclp_into_rtranclp [where r = "tso_step batch_postcard"], rule 1,
        rule converse_rtranclp_into_rtranclp [where r = "tso_step batch_postcard"], rule 2,
        rule converse_rtranclp_into_rtranclp [where r = "tso_step batch_postcard"], rule 3,
        rule converse_rtranclp_into_rtranclp [where r = "tso_step batch_postcard"], rule 4) simp
  have "ts_issued t4 = [(0, 2), (0, 1)]" by (simp add: t4_def t3_def t2_def t1_def tso_init_def)
  then show ?thesis using tso_unique [OF r] r by blast
qed

section \<open>Getting a timestamp\<close>

text \<open>
  What a healthy source of batches promises: consecutive intervals from its
  high-water mark on, for as many requests as its log has room for.
\<close>

locale tso_source =
  fixes alloc :: "'src \<Rightarrow> u32 \<Rightarrow> TsoBatch result \<times> 'src"
    and high :: "'src \<Rightarrow> u64"
    and budget :: "'src \<Rightarrow> nat"
  assumes alloc_next: "0 < budget src \<Longrightarrow> 0 < n \<Longrightarrow> unat (high src) + unat n < 2 ^ 64 \<Longrightarrow>
    \<exists>src'. alloc src n = (Inr \<lparr>start_ts = high src, end_ts = high src + ucast n\<rparr>, src') \<and>
           high src' = high src + ucast n \<and> budget src = Suc (budget src')"
begin

lemma refill_ok:
  assumes "0 < budget src" "needs_refill c" "0 < tc_batch_size c" "tc_next c \<le> high src"
    and "unat (high src) + unat (tc_batch_size c) < 2 ^ 64"
  shows "\<exists>src'. refill alloc attempts src c =
      (Inr (), src', c\<lparr>tc_next := high src, tc_end := high src + ucast (tc_batch_size c)\<rparr>) \<and>
    high src' = high src + ucast (tc_batch_size c) \<and> budget src = Suc (budget src')"
proof -
  obtain src' where al: "alloc src (tc_batch_size c) =
      (Inr \<lparr>start_ts = high src, end_ts = high src + ucast (tc_batch_size c)\<rparr>, src')"
    "high src' = high src + ucast (tc_batch_size c)" "budget src = Suc (budget src')"
    using alloc_next [OF assms(1,3,5)] by blast
  have "high src < high src + ucast (tc_batch_size c)"
    using assms(3,5) by (simp add: word_less_nat_alt unat_word_ariths unat_ucast_u32)
  then show ?thesis
    using al assms(2,4) by (auto simp: refill_def refill_loop.simps [of alloc attempts src c] install_batch_def)
qed

lemma get_ts_fresh_batch:
  assumes "2 \<le> unat (tc_batch_size c)" "tc_end c = tc_next c + ucast (tc_batch_size c)"
    and "unat (tc_next c) + unat (tc_batch_size c) < 2 ^ 64" "floor < tc_next c"
  shows "get_ts_loop alloc attempts floor (Suc fuel) src c =
    Some (Inr (tc_next c), src, c\<lparr>tc_next := tc_next c + 1\<rparr>)"
proof -
  have e: "unat (tc_end c) = unat (tc_next c) + unat (tc_batch_size c)"
    using assms(2,3) by (simp add: unat_word_ariths unat_ucast_u32)
  have skip: "skip_to_above floor c = c"
    using assms(4) by (auto simp: skip_to_above_def)
  have "\<not> needs_refill c"
    using assms(1) by (simp add: needs_refill_def unat_sat_sub64 e refill_threshold_def TSO_REFILL_THRESHOLD_DIVISOR_def)
  moreover have "claim c = (Some (tc_next c), c\<lparr>tc_next := tc_next c + 1\<rparr>)"
    using assms(1) e by (simp add: claim_def word_le_nat_alt)
  ultimately show ?thesis using skip assms(4) by simp
qed

lemma get_ts_returns:
  assumes n: "2 \<le> unat (tc_batch_size c)" and b: "2 \<le> budget src"
    and room: "unat (high src) + 2 * unat (tc_batch_size c) < 2 ^ 64"
    and c: "tc_next c \<le> tc_end c" "tc_end c \<le> high src" "tc_next c = 0 \<Longrightarrow> tc_end c = 0"
    and fl: "floor \<le> high src" "0 < high src"
  shows "\<exists>ts src' c'. get_ts_loop alloc attempts floor 3 src c = Some (Inr ts, src', c') \<and> floor < ts"
proof -
  define c1 where "c1 = skip_to_above floor c"
  have c1: "tc_batch_size c1 = tc_batch_size c" "tc_end c1 = tc_end c" "tc_next c1 \<le> tc_end c1"
    using skip_cached(3) [OF c(1), of floor] by (simp_all add: c1_def skip_to_above_def)
  show ?thesis
  proof (cases "needs_refill c1")
    case False
    then have lt: "tc_next c1 < tc_end c1"
      using c1(3) by (auto simp: needs_refill_def unat_sat_sub64 word_less_nat_alt refill_threshold_def)
    have "floor < tc_next c1" using skip_above [OF c(1,3)] lt by (simp add: c1_def)
    then show ?thesis
      unfolding numeral_3_eq_3 get_ts_loop.simps(2) Let_def c1_def [symmetric]
      using False lt by (simp add: claim_def not_le [symmetric])
  next
    case True
    have pos: "0 < tc_batch_size c" using n by (simp add: word_less_nat_alt)
    have "\<exists>src'. refill alloc attempts src c1 =
        (Inr (), src', c1\<lparr>tc_next := high src, tc_end := high src + ucast (tc_batch_size c)\<rparr>) \<and>
      high src' = high src + ucast (tc_batch_size c) \<and> budget src = Suc (budget src')"
      using refill_ok [OF _ True, of src] pos b c1 c(2) room by auto
    then obtain src1 where r1: "refill alloc attempts src c1 =
        (Inr (), src1, c1\<lparr>tc_next := high src, tc_end := high src + ucast (tc_batch_size c)\<rparr>)"
      and h1: "high src1 = high src + ucast (tc_batch_size c)" "budget src = Suc (budget src1)" by blast
    define c2 where "c2 = c1\<lparr>tc_next := high src, tc_end := high src + ucast (tc_batch_size c)\<rparr>"
    have step1: "get_ts_loop alloc attempts floor 3 src c = get_ts_loop alloc attempts floor (Suc (Suc 0)) src1 c2"
      unfolding numeral_3_eq_3 get_ts_loop.simps(2) [of alloc attempts floor "Suc (Suc 0)"] Let_def c1_def [symmetric]
      using True r1 by (simp add: c2_def)
    have c2: "tc_batch_size c2 = tc_batch_size c" "tc_next c2 = high src"
      "tc_end c2 = tc_next c2 + ucast (tc_batch_size c2)" by (simp_all add: c2_def c1(1))
    show ?thesis
    proof (cases "floor < high src")
      case True
      then show ?thesis
        using get_ts_fresh_batch [of c2 floor attempts "Suc 0" src1] n c2 room by (auto simp: step1)
    next
      case False
      then have fl': "floor = high src" using fl(1) by simp
      define c3 where "c3 = skip_to_above floor c2"
      have room1: "unat (high src1) = unat (high src) + unat (tc_batch_size c)"
        using room by (simp add: h1(1) unat_word_ariths unat_ucast_u32)
      have c3: "tc_batch_size c3 = tc_batch_size c" "tc_end c3 = high src1"
        "tc_next c3 = min (sat_add64 floor 1) (high src1)"
        using fl(2) c2 h1(1) by (simp_all add: c3_def skip_to_above_def fl' word_gt_0)
      have le: "tc_next c3 \<le> tc_end c3" by (simp add: c3(2,3))
      have "floor < sat_add64 floor 1" "floor < high src1"
        using room room1 n by (simp_all add: word_less_nat_alt unat_sat_add64 fl')
      then have lt: "floor < tc_next c3" by (simp add: c3(3))
      show ?thesis
      proof (cases "needs_refill c3")
        case False
        then have "tc_next c3 < tc_end c3"
          using le by (auto simp: needs_refill_def unat_sat_sub64 word_less_nat_alt refill_threshold_def)
        then show ?thesis
          unfolding step1 get_ts_loop.simps(2) [of alloc attempts floor "Suc 0"] Let_def c3_def [symmetric]
          using False lt by (simp add: claim_def not_le [symmetric])
      next
        case True
        obtain src2 where r2: "refill alloc attempts src1 c3 =
            (Inr (), src2, c3\<lparr>tc_next := high src1, tc_end := high src1 + ucast (tc_batch_size c)\<rparr>)"
          using refill_ok [OF _ True, of src1 attempts] pos b h1(2) c3(1,2) le room room1 by auto
        have "floor < high src1" using lt le c3(2) by simp
        then show ?thesis
          unfolding step1 get_ts_loop.simps(2) [of alloc attempts floor "Suc 0"] Let_def c3_def [symmetric]
          using True r2 get_ts_fresh_batch [of "c3\<lparr>tc_next := high src1, tc_end := high src1 + ucast (tc_batch_size c)\<rparr>"
              floor attempts 0 src2] n c3(1) room room1
          by (auto simp del: get_ts_loop.simps)
      qed
    qed
  qed
qed

text \<open>A batch of one never leaves the refill loop.\<close>

lemma get_ts_spins:
  assumes "tc_batch_size c = 1" "tc_next c \<le> high src" "unat (tc_end c) \<le> unat (tc_next c) + 1"
    and "fuel \<le> budget src" "unat (high src) + fuel < 2 ^ 64"
  shows "get_ts_loop alloc attempts 0 fuel src c = None"
  using assms
proof (induction fuel arbitrary: src c)
  case (Suc fuel)
  have need: "needs_refill c"
    using Suc.prems(1,3) by (simp add: needs_refill_def unat_sat_sub64 refill_threshold_def TSO_REFILL_THRESHOLD_DIVISOR_def)
  obtain src' where r: "refill alloc attempts src c = (Inr (), src', c\<lparr>tc_next := high src, tc_end := high src + 1\<rparr>)"
    and h: "high src' = high src + 1" "budget src = Suc (budget src')"
    using refill_ok [OF _ need, of src attempts] Suc.prems by auto
  have one: "unat (high src + 1) = unat (high src) + 1"
    using Suc.prems(5) by (simp add: unat_word_ariths)
  have "get_ts_loop alloc attempts 0 fuel src' (c\<lparr>tc_next := high src, tc_end := high src + 1\<rparr>) = None"
    by (rule Suc.IH) (use Suc.prems h one in \<open>auto simp: word_le_nat_alt\<close>)
  then show ?case using need r by (simp add: skip_to_above_def)
qed simp

end

text \<open>
  The leader's allocator: a request is appended to the log and applied at the
  next index.
\<close>

definition raft_allocate ::
    "TsoBatchRecord postcard \<Rightarrow> MvccStorage \<times> u64 \<Rightarrow> u32 \<Rightarrow> TsoBatch result \<times> (MvccStorage \<times> u64)" where
  "raft_allocate pc src batch_size =
    (case src of (s, idx) \<Rightarrow>
      (case apply_tso_allocate pc s (max batch_size 1) idx (standalone idx) of
         (Inr oc, s') \<Rightarrow> (Inr \<lparr>start_ts = tbo_start_ts oc, end_ts = tbo_end_ts oc\<rparr>, (s', idx + 1))
       | (Inl e, s') \<Rightarrow> (Inl e, (s', idx + 1))))"

definition log_budget :: "MvccStorage \<times> u64 \<Rightarrow> nat" where
  "log_budget src =
    (if \<forall>r. snd src \<le> r \<longrightarrow> \<not> changelog_contains_revision (fst src) r then 2 ^ 64 - 1 - unat (snd src) else 0)"

lemma allocate_changelog:
  assumes "apply_tso_allocate pc s n r a = (Inr oc, s')" "\<not> tbo_replayed oc" "x \<noteq> r"
  shows "changelog_contains_revision s' x = changelog_contains_revision s x"
  using assms
  by (auto simp: apply_tso_allocate_def write_store_def backend_write_def tso_allocate_tx_def Let_def
      changelog_contains_revision_def table_simps note_log_index_revision_def ok_or_def
      split: if_splits option.splits sum.splits prod.splits)

text \<open>The state machine is such a source, for every record format that serialises all records.\<close>

lemma raft_source:
  assumes pc: "\<And>v. to_allocvec pc v \<noteq> None"
  shows "tso_source (raft_allocate pc) (\<lambda>src. tso_high_water (fst src)) log_budget"
proof
  fix src :: "MvccStorage \<times> u64" and n :: u32
  assume b: "0 < log_budget src" and n: "0 < n" and room: "unat (tso_high_water (fst src)) + unat n < 2 ^ 64"
  obtain s idx where src: "src = (s, idx)" by (cases src)
  have new: "\<not> changelog_contains_revision s r" if "idx \<le> r" for r
    using b that by (auto simp: log_budget_def src split: if_splits)
  have mx: "max n 1 = n" using n by (simp add: max_absorb1 word_le_nat_alt word_less_nat_alt)
  obtain oc s' where al: "apply_tso_allocate pc s n idx (standalone idx) = (Inr oc, s')" "\<not> tbo_replayed oc"
    using allocate_succeeds [of s idx n pc "standalone idx"] new room mx pc
    by (auto simp: src)
  note oc = allocate_applied [OF al]
  have hw: "tso_high_water s' = tso_high_water s + ucast n"
    using oc(3) mx room by (simp add: word_unat_eq_iff unat_word_ariths unat_ucast_u32 src)
  have idx: "unat (idx + 1) = unat idx + 1" "unat idx + 1 < 2 ^ 64"
    using b by (auto simp: log_budget_def src unat_word_ariths split: if_splits)
  have "\<not> changelog_contains_revision s' r" if "idx + 1 \<le> r" for r
  proof -
    have "idx \<le> r" "r \<noteq> idx" using that idx(1) by (auto simp: word_le_nat_alt)
    then show ?thesis using allocate_changelog [OF al, of r] new [of r] by simp
  qed
  then have "log_budget (s', idx + 1) = 2 ^ 64 - 1 - (unat idx + 1)"
    using idx(1) by (simp add: log_budget_def)
  moreover have "log_budget src = 2 ^ 64 - 1 - unat idx" using new by (simp add: log_budget_def src)
  ultimately show "\<exists>src'. raft_allocate pc src n =
      (Inr \<lparr>start_ts = tso_high_water (fst src), end_ts = tso_high_water (fst src) + ucast n\<rparr>, src') \<and>
    tso_high_water (fst src') = tso_high_water (fst src) + ucast n \<and> log_budget src = Suc (log_budget src')"
    using al oc(1,2) hw idx(2) mx by (intro exI [of _ "(s', idx + 1)"]) (simp add: raft_allocate_def src)
qed

interpretation raft_tso: tso_source "raft_allocate batch_postcard" "\<lambda>src. tso_high_water (fst src)" log_budget
  by (rule raft_source) (simp add: batch_postcard_def)

text \<open>C21: A leader finds a timestamp. With a batch size of at least two, a published fence that
  is not above the high-water mark of the allocator, a cache whose batch the allocator
  handed out, and room below the largest timestamp and log position, a leader that
  asks its own state machine for batches gets a timestamp above the fence within
  three rounds of the loop, whatever is left in its cache.\<close>

theorem get_ts_terminates:
  assumes "\<And>v. to_allocvec pc v \<noteq> None" "2 \<le> unat (tc_batch_size c)" "\<And>r. idx \<le> r \<Longrightarrow> \<not> changelog_contains_revision s r"
    and "unat idx + 3 < 2 ^ 64" "unat (tso_high_water s) + 2 * unat (tc_batch_size c) < 2 ^ 64"
    and "tc_next c \<le> tc_end c" "tc_end c \<le> tso_high_water s" "tc_next c = 0 \<Longrightarrow> tc_end c = 0"
    and "floor \<le> tso_high_water s" "0 < tso_high_water s"
  shows "\<exists>ts src' c'. get_ts_above (raft_allocate pc) attempts True floor 3 (s, idx) c =
    Some (Inr ts, src', c') \<and> floor < ts"
  using tso_source.get_ts_returns [OF raft_source [of pc, OF assms(1)], of "c\<lparr>tc_was_leader := True\<rparr>" "(s, idx)" floor attempts] assms(2-)
  by (simp add: get_ts_above_def log_budget_def)

theorem get_ts_terminates_witness:
  "\<exists>ts src' c'. get_ts_above (raft_allocate batch_postcard) 0 True 1 3 (fresh LogIndex, 1) (tso_client_new 1024) =
    Some (Inr ts, src', c') \<and> 1 < ts"
  using get_ts_terminates [of batch_postcard "tso_client_new 1024" 1 "fresh LogIndex" 1 0]
  by (simp add: tso_client_new_def fresh_high_water max_def word_le_nat_alt batch_postcard_def)

text \<open>With the configured batch size one, which the configuration check accepts,
  \<open>get_ts\<close> never returns: a full batch is already at the refill threshold, so
  every round throws it away and asks for the next one. However many rounds are
  allowed, none of them hands out a timestamp.\<close>

theorem get_ts_batch_one_spins:
  assumes "\<And>v. to_allocvec pc v \<noteq> None" "\<And>r. idx \<le> r \<Longrightarrow> \<not> changelog_contains_revision s r"
    and "unat idx + fuel < 2 ^ 64" "unat (tso_high_water s) + fuel < 2 ^ 64"
  shows "get_ts (raft_allocate pc) attempts True fuel (s, idx) (tso_client_new 1) = None"
  using tso_source.get_ts_spins [OF raft_source [of pc, OF assms(1)], of "(tso_client_new 1)\<lparr>tc_was_leader := True\<rparr>" "(s, idx)" fuel attempts] assms(2-)
  by (simp add: get_ts_def get_ts_above_def log_budget_def tso_client_new_def)

theorem get_ts_batch_one_spins_witness:
  "get_ts (raft_allocate batch_postcard) 0 True 1000000 (fresh LogIndex, 1) (tso_client_new 1) = None"
  by (rule get_ts_batch_one_spins) (simp_all add: fresh_high_water batch_postcard_def)

end
