(* ===== verification/Lease_Table.thy ===== *)
theory Lease_Table
  imports Registers
begin

text \<open>
  Leases in the state machine (\<open>coord-server/src/storage/mvcc.rs\<close>): the lease
  tables of both protocol versions, the deletion of the keys bound to a lease,
  and the listings the lease services start from.
\<close>

section \<open>Keys bound to a lease\<close>

fun lease_delete_loop :: "i64 \<Rightarrow> u64 \<Rightarrow> db \<Rightarrow> bytes list \<Rightarrow> rows \<Rightarrow> bytes list \<times> db" where
  "lease_delete_loop target_lease_id revision d deleted_keys [] = (deleted_keys, d)"
| "lease_delete_loop target_lease_id revision d deleted_keys ((mk, mv) # rest) =
    (case KvMetadata_from_bytes mv of
       Some meta \<Rightarrow>
         (if lease_id meta = target_lease_id \<and> \<not> deleted meta \<and> prefix KV_META_PREFIX mk then
            (let user_key = drop (length KV_META_PREFIX) mk;
                 d = put_metadata d user_key (mark_deleted meta revision)
             in lease_delete_loop target_lease_id revision d (deleted_keys @ [user_key]) rest)
          else lease_delete_loop target_lease_id revision d deleted_keys rest)
     | None \<Rightarrow> lease_delete_loop target_lease_id revision d deleted_keys rest)"

definition delete_keys_by_lease_in_tx :: "db \<Rightarrow> i64 \<Rightarrow> u64 \<Rightarrow> bytes list \<times> db" where
  "delete_keys_by_lease_in_tx d target_lease_id revision =
    lease_delete_loop target_lease_id revision d [] (tx_iter_prefix d T_kv_meta KV_META_PREFIX)"

fun keys_by_lease_loop :: "i64 \<Rightarrow> nat \<Rightarrow> bytes list \<Rightarrow> rows \<Rightarrow> bytes list" where
  "keys_by_lease_loop lid limit keys [] = keys"
| "keys_by_lease_loop lid limit keys ((mk, mv) # rest) =
    (case KvMetadata_from_bytes mv of
       None \<Rightarrow> keys_by_lease_loop lid limit keys rest
     | Some meta \<Rightarrow>
         (if lease_id meta = lid \<and> \<not> deleted meta \<and> prefix KV_META_PREFIX mk then
            (let keys = keys @ [drop (length KV_META_PREFIX) mk]
             in if limit \<le> length keys then keys else keys_by_lease_loop lid limit keys rest)
          else keys_by_lease_loop lid limit keys rest))"

definition keys_by_lease :: "MvccStorage \<Rightarrow> i64 \<Rightarrow> nat \<Rightarrow> bytes list" where
  "keys_by_lease s lid limit =
    (if limit = 0 then []
     else keys_by_lease_loop lid limit [] (tx_iter_prefix (backend s) T_kv_meta KV_META_PREFIX))"

section \<open>The lease table of the first protocol version\<close>

datatype LeaseOp =
    LeaseGrant i64 i64 i64
  | LeaseKeepAlive i64 i64
  | LeaseRevoke i64 bool

definition lease_record_in_tx :: "db \<Rightarrow> i64 \<Rightarrow> LeaseRecord option" where
  "lease_record_in_tx d lid = Option.bind (tx_get d T_kv (encode_lease_key lid)) LeaseRecord_from_bytes"

definition get_lease_record :: "MvccStorage \<Rightarrow> i64 \<Rightarrow> LeaseRecord option" where
  "get_lease_record s lid = lease_record_in_tx (backend s) lid"

definition parse_lease_rows :: "bytes \<Rightarrow> (bytes \<Rightarrow> 'r option) \<Rightarrow> rows \<Rightarrow> (i64 \<times> 'r) list" where
  "parse_lease_rows pfx parse rs =
    List.map_filter (\<lambda>(key, value).
      case strip_prefix pfx key of
        None \<Rightarrow> None
      | Some id_bytes \<Rightarrow>
          (if length id_bytes = 8 then map_option (\<lambda>r. (u64_of id_bytes, r)) (parse value) else None)) rs"

definition list_lease_records :: "MvccStorage \<Rightarrow> (i64 \<times> LeaseRecord) list" where
  "list_lease_records s =
    parse_lease_rows LEASE_PREFIX LeaseRecord_from_bytes (tx_iter_prefix (backend s) T_kv LEASE_PREFIX)"

definition lease_op_in_tx :: "LeaseOp \<Rightarrow> u64 \<Rightarrow> db \<Rightarrow> KeyValueChange list \<times> db" where
  "lease_op_in_tx op revision d =
    (case op of
       LeaseGrant lid ttl deadline_wall_ms \<Rightarrow>
         (case lease_record_in_tx d lid of
            Some prev \<Rightarrow> ([], d)
          | None \<Rightarrow>
              ([], tx_insert d T_kv (encode_lease_key lid) (LeaseRecord_to_bytes
                 \<lparr>lr_ttl = ttl, lr_deadline_wall_ms = deadline_wall_ms, lr_keepalive_revision = revision\<rparr>)))
     | LeaseKeepAlive lid deadline_wall_ms \<Rightarrow>
         (case lease_record_in_tx d lid of
            Some r \<Rightarrow>
              ([], tx_insert d T_kv (encode_lease_key lid) (LeaseRecord_to_bytes
                 (r\<lparr>lr_deadline_wall_ms := deadline_wall_ms, lr_keepalive_revision := revision\<rparr>)))
          | None \<Rightarrow> ([], d))
     | LeaseRevoke lid delete_keys \<Rightarrow>
         (let d = tx_remove d T_kv (encode_lease_key lid)
          in if delete_keys then
               (case delete_keys_by_lease_in_tx d lid revision of
                  (dels, d) \<Rightarrow> (map tombstone_change dels, d))
             else ([], d)))"

definition apply_lease_op ::
    "MvccStorage \<Rightarrow> LeaseOp \<Rightarrow> u64 \<Rightarrow> AppliedLogId \<Rightarrow> (ApplyOutcome \<times> KeyValueChange list) result \<times> MvccStorage" where
  "apply_lease_op s op revision applied =
    (if changelog_contains_revision s revision then (Inr (\<lparr>replayed = True\<rparr>, []), s)
     else write_store s (\<lambda>d.
       let d = note_log_index_revision (revision_mode s) d revision
       in case lease_op_in_tx op revision d of
            (changes, d) \<Rightarrow>
              (let d = put_event d \<lparr>ev_revision = revision, ev_changes = changes, ev_event_type = Lease\<rparr>
               in Inr ((\<lparr>replayed = False\<rparr>, changes), put_applied d applied))))"

definition apply_lease_op_standalone :: "MvccStorage \<Rightarrow> LeaseOp \<Rightarrow> u64 result \<times> MvccStorage" where
  "apply_lease_op_standalone s op =
    (let revision = sat_add64 (current_revision s) 1
     in case apply_lease_op s op revision (standalone revision) of
          (Inl e, s') \<Rightarrow> (Inl e, s')
        | (Inr _, s') \<Rightarrow> (Inr revision, s'))"

definition apply_delete_keys_by_lease ::
    "MvccStorage \<Rightarrow> i64 \<Rightarrow> u64 \<Rightarrow> AppliedLogId \<Rightarrow> (ApplyOutcome \<times> KeyValueChange list) result \<times> MvccStorage" where
  "apply_delete_keys_by_lease s lid revision applied =
    (if changelog_contains_revision s revision then (Inr (\<lparr>replayed = True\<rparr>, []), s)
     else write_store s (\<lambda>d.
       let d = note_log_index_revision (revision_mode s) d revision
       in case delete_keys_by_lease_in_tx d lid revision of
            (dels, d) \<Rightarrow>
              (let changes = map tombstone_change dels;
                   d = put_event d \<lparr>ev_revision = revision, ev_changes = changes, ev_event_type = Lease\<rparr>
               in Inr ((\<lparr>replayed = False\<rparr>, changes), put_applied d applied))))"

definition delete_keys_by_lease_at_commit_ts ::
    "MvccStorage \<Rightarrow> i64 \<Rightarrow> u64 \<Rightarrow> AppliedLogId \<Rightarrow> (ApplyOutcome \<times> bytes list) result \<times> MvccStorage" where
  "delete_keys_by_lease_at_commit_ts s lid commit_ts applied =
    (if commit_ts = 0 then (Inl InvalidArgument, s)
     else case changelog_event_at s commit_ts of
       Inl e \<Rightarrow> (Inl e, s)
     | Inr (Some event) \<Rightarrow>
         (if ev_event_type event = Lease then (Inr (\<lparr>replayed = True\<rparr>, []), s)
          else (Inl (CommitRejected commit_ts (current_revision s)), s))
     | Inr None \<Rightarrow>
         write_store s (\<lambda>d.
           bind_result (direct_write_fence_in_tx d) (\<lambda>fence.
             if fence \<noteq> None
             then Inl (CommitRejected commit_ts (current_revision_in_tx d (revision_mode s)))
             else case delete_keys_by_lease_in_tx d lid commit_ts of
               (dels, d) \<Rightarrow>
                 (if dels = [] then Inr ((\<lparr>replayed = False\<rparr>, dels), put_applied d applied)
                  else bind_result (accept_commit_ts (revision_mode s) d commit_ts) (\<lambda>d.
                    let d = put_event d \<lparr>ev_revision = commit_ts, ev_changes = map tombstone_change dels,
                                         ev_event_type = Lease\<rparr>
                    in Inr ((\<lparr>replayed = False\<rparr>, dels), put_applied d applied))))))"

section \<open>The lease table of the second protocol version\<close>

datatype LeaseV2Op =
    V2Grant i64 i64 u64 i64 bytes
  | V2KeepAlive i64 i64
  | V2Revoke i64 u64 i64 bytes

datatype LeaseV2Apply =
    GrantApplied i64 u64 i64 bool
  | KeepAliveApplied bool
  | RevokeApplied u64

definition lease_v2_record_in_tx :: "db \<Rightarrow> i64 \<Rightarrow> LeaseV2Record option" where
  "lease_v2_record_in_tx d lid =
    Option.bind (tx_get d T_kv (encode_lease_v2_key lid)) LeaseV2Record_from_bytes"

definition put_lease_v2 :: "db \<Rightarrow> i64 \<Rightarrow> LeaseV2Record \<Rightarrow> db" where
  "put_lease_v2 d lid r = tx_insert d T_kv (encode_lease_v2_key lid) (LeaseV2Record_to_bytes r)"

definition get_lease_v2_record :: "MvccStorage \<Rightarrow> i64 \<Rightarrow> LeaseV2Record option" where
  "get_lease_v2_record s lid = lease_v2_record_in_tx (backend s) lid"

definition list_lease_v2_records :: "MvccStorage \<Rightarrow> (i64 \<times> LeaseV2Record) list" where
  "list_lease_v2_records s =
    parse_lease_rows LEASE_V2_PREFIX LeaseV2Record_from_bytes (tx_iter_prefix (backend s) T_kv LEASE_V2_PREFIX)"

definition request_lease_in_tx :: "db \<Rightarrow> bytes \<Rightarrow> i64 option" where
  "request_lease_in_tx d request_id =
    Option.bind (tx_get d T_kv (encode_lease_v2_req_key request_id)) decode_u64"

text \<open>A grant whose request was answered before: the lease it created, if it still has a record.\<close>

definition granted_before :: "db \<Rightarrow> bytes \<Rightarrow> (i64 \<times> LeaseV2Record) option" where
  "granted_before d request_id =
    (if request_id = [] then None
     else case request_lease_in_tx d request_id of
       None \<Rightarrow> None
     | Some lid \<Rightarrow> map_option (\<lambda>r. (lid, r)) (lease_v2_record_in_tx d lid))"

definition v2_grant_in_tx :: "i64 \<Rightarrow> i64 \<Rightarrow> u64 \<Rightarrow> i64 \<Rightarrow> bytes \<Rightarrow> db \<Rightarrow> LeaseV2Apply \<times> db" where
  "v2_grant_in_tx lid ttl_seconds granted_ts deadline_wall_ms request_id d =
    (case granted_before d request_id of
       Some (existing_id, r) \<Rightarrow> (GrantApplied existing_id (l2_granted_ts r) (l2_ttl r) True, d)
     | None \<Rightarrow>
         (case lease_v2_record_in_tx d lid of
            Some r \<Rightarrow>
              (let same_request = (request_id \<noteq> [] \<and> l2_grant_request_id r = request_id)
               in (GrantApplied lid (l2_granted_ts r) (l2_ttl r) same_request, d))
          | None \<Rightarrow>
              (let d = put_lease_v2 d lid
                     \<lparr>l2_ttl = ttl_seconds, l2_granted_ts = granted_ts, l2_deadline_wall_ms = deadline_wall_ms,
                      l2_revoked = False, l2_revoked_commit_ts = 0, l2_grant_request_id = request_id\<rparr>;
                   d = (if request_id \<noteq> [] then tx_insert d T_kv (encode_lease_v2_req_key request_id) (u64_bytes lid)
                        else d)
               in (GrantApplied lid granted_ts ttl_seconds True, d))))"

definition v2_keep_alive_in_tx :: "i64 \<Rightarrow> i64 \<Rightarrow> db \<Rightarrow> LeaseV2Apply \<times> db" where
  "v2_keep_alive_in_tx lid deadline_wall_ms d =
    (case lease_v2_record_in_tx d lid of
       None \<Rightarrow> (KeepAliveApplied False, d)
     | Some r \<Rightarrow>
         (if l2_revoked r then (KeepAliveApplied False, d)
          else (KeepAliveApplied True, put_lease_v2 d lid (r\<lparr>l2_deadline_wall_ms := deadline_wall_ms\<rparr>))))"

definition v2_revoke_in_tx :: "i64 \<Rightarrow> u64 \<Rightarrow> i64 \<Rightarrow> db \<Rightarrow> LeaseV2Apply \<times> db" where
  "v2_revoke_in_tx lid commit_ts expected_deadline_wall_ms d =
    (case lease_v2_record_in_tx d lid of
       None \<Rightarrow> (RevokeApplied 0, d)
     | Some r \<Rightarrow>
         (if \<not> l2_revoked r then
            (if expected_deadline_wall_ms \<noteq> 0 \<and> sint expected_deadline_wall_ms < sint (l2_deadline_wall_ms r)
             then (RevokeApplied 0, d)
             else (RevokeApplied commit_ts,
                   put_lease_v2 d lid (r\<lparr>l2_revoked := True, l2_revoked_commit_ts := commit_ts\<rparr>)))
          else if l2_revoked_commit_ts r < commit_ts then
            (RevokeApplied commit_ts, put_lease_v2 d lid (r\<lparr>l2_revoked_commit_ts := commit_ts\<rparr>))
          else (RevokeApplied 0, d)))"

definition lease_v2_op_in_tx :: "LeaseV2Op \<Rightarrow> db \<Rightarrow> LeaseV2Apply \<times> db" where
  "lease_v2_op_in_tx op d =
    (case op of
       V2Grant lid ttl_seconds granted_ts deadline_wall_ms request_id \<Rightarrow>
         v2_grant_in_tx lid ttl_seconds granted_ts deadline_wall_ms request_id d
     | V2KeepAlive lid deadline_wall_ms \<Rightarrow> v2_keep_alive_in_tx lid deadline_wall_ms d
     | V2Revoke lid commit_ts expected_deadline_wall_ms request_id \<Rightarrow>
         v2_revoke_in_tx lid commit_ts expected_deadline_wall_ms d)"

definition apply_lease_v2_op ::
    "MvccStorage \<Rightarrow> LeaseV2Op \<Rightarrow> u64 \<Rightarrow> AppliedLogId \<Rightarrow> (LeaseV2Apply \<times> ApplyOutcome) result \<times> MvccStorage" where
  "apply_lease_v2_op s op revision applied =
    write_store s (\<lambda>d.
      let d = note_log_index_revision (revision_mode s) d revision
      in case lease_v2_op_in_tx op d of
           (outcome, d) \<Rightarrow> Inr ((outcome, \<lparr>replayed = False\<rparr>), put_applied d applied))"

section \<open>The rows a lease operation writes\<close>

lemma lease_keys [simp]:
  "\<not> prefix KV_PREFIX (encode_lease_key i)" "encode_lease_key i \<noteq> IMPORT_HISTORY_FLOORS"
  "\<not> prefix KV_PREFIX (encode_lease_v2_key i)" "encode_lease_v2_key i \<noteq> IMPORT_HISTORY_FLOORS"
  "\<not> prefix KV_PREFIX (encode_lease_v2_req_key q)" "encode_lease_v2_req_key q \<noteq> IMPORT_HISTORY_FLOORS"
  "encode_lease_v2_key i \<noteq> encode_lease_v2_req_key q"
  by (simp_all add: encode_lease_key_def encode_lease_v2_key_def encode_lease_v2_req_key_def key_defs ascii_def)

lemma lease_key_inj [simp]:
  "encode_lease_key i = encode_lease_key j \<longleftrightarrow> i = j"
  "encode_lease_v2_key i = encode_lease_v2_key j \<longleftrightarrow> i = j"
  "encode_lease_v2_req_key q = encode_lease_v2_req_key q' \<longleftrightarrow> q = q'"
  by (simp_all add: encode_lease_key_def encode_lease_v2_key_def encode_lease_v2_req_key_def)

definition meta_user_key :: "bytes \<times> bytes \<Rightarrow> bytes" where
  "meta_user_key row = drop (length KV_META_PREFIX) (fst row)"

definition bound_key :: "i64 \<Rightarrow> db \<Rightarrow> bytes \<Rightarrow> bool" where
  "bound_key lid d k \<longleftrightarrow> (\<exists>m. kv_metadata_in_tx d k = Some m \<and> \<not> deleted m \<and> lease_id m = lid)"

lemma lease_delete_loop_spec:
  assumes "distinct (map fst rs)" "\<forall>(mk, mv) \<in> set rs. prefix KV_META_PREFIX mk \<and> tx_get d T_kv_meta mk = Some mv"
    and "lease_delete_loop lid r d acc rs = (dels, d')"
  shows "dels = acc @ filter (bound_key lid d) (map meta_user_key rs) \<and>
    (\<forall>k. kv_metadata_in_tx d' k =
       mark_keys r (set (filter (bound_key lid d) (map meta_user_key rs))) d k) \<and>
    (\<forall>t k. t \<noteq> T_kv_meta \<longrightarrow> tx_get d' t k = tx_get d t k) \<and> (db_ok d \<longrightarrow> db_ok d')"
  using assms
proof (induction rs arbitrary: acc d)
  case Nil
  then show ?case by (simp add: mark_keys_def)
next
  case (Cons row rs)
  obtain mk mv where row: "row = (mk, mv)" by fastforce
  obtain k where mk: "mk = encode_kv_meta_key k" "tx_get d T_kv_meta mk = Some mv"
    using Cons.prems(2) by (auto simp: row prefix_def encode_kv_meta_key_def)
  have k: "drop (length KV_META_PREFIX) mk = k" "prefix KV_META_PREFIX mk" "meta_user_key (mk, mv) = k"
    by (simp_all add: mk(1) encode_kv_meta_key_def meta_user_key_def)
  have meta: "kv_metadata_in_tx d k = KvMetadata_from_bytes mv"
    using mk by (simp add: kv_metadata_in_tx_def)
  have rest: "distinct (map fst rs)" "k \<notin> set (map meta_user_key rs)"
  proof -
    show "distinct (map fst rs)" using Cons.prems(1) by simp
    have "fst r = mk" if "r \<in> set rs" "k = meta_user_key r" for r
      using Cons.prems(2) that by (auto simp: mk(1) encode_kv_meta_key_def prefix_def meta_user_key_def)
    then show "k \<notin> set (map meta_user_key rs)"
      using Cons.prems(1) by (force simp: row)
  qed
  show ?case
  proof (cases "bound_key lid d k")
    case True
    then obtain m where m: "KvMetadata_from_bytes mv = Some m" "\<not> deleted m" "lease_id m = lid"
      by (auto simp: bound_key_def meta)
    let ?d1 = "put_metadata d k (mark_deleted m r)"
    have rows: "\<forall>(mk, mv) \<in> set rs. prefix KV_META_PREFIX mk \<and> tx_get ?d1 T_kv_meta mk = Some mv"
    proof (clarify, intro conjI)
      fix mk' mv' assume r: "(mk', mv') \<in> set rs"
      then have "mk' \<noteq> mk" using Cons.prems(1) by (force simp: row)
      moreover have "prefix KV_META_PREFIX mk'" "tx_get d T_kv_meta mk' = Some mv'"
        using Cons.prems(2) r by auto
      ultimately show "prefix KV_META_PREFIX mk'" "tx_get ?d1 T_kv_meta mk' = Some mv'"
        by (simp_all add: put_metadata_def table_simps mk(1))
    qed
    have "filter (bound_key lid ?d1) (map meta_user_key rs) =
        filter (bound_key lid d) (map meta_user_key rs)"
      using rest(2) by (intro filter_cong) (auto simp: bound_key_def row_simps)
    moreover have "lease_delete_loop lid r ?d1 (acc @ [k]) rs = (dels, d')"
      using Cons.prems(3) m k by (simp add: row)
    ultimately have IH: "dels = (acc @ [k]) @ filter (bound_key lid d) (map meta_user_key rs)"
        "\<And>k'. kv_metadata_in_tx d' k' = mark_keys r (set (filter (bound_key lid d) (map meta_user_key rs))) ?d1 k'"
        "\<And>t k'. t \<noteq> T_kv_meta \<Longrightarrow> tx_get d' t k' = tx_get ?d1 t k'" "db_ok ?d1 \<Longrightarrow> db_ok d'"
      using Cons.IH [OF rest(1) rows, of "acc @ [k]"] by (simp_all del: set_filter set_map)
    have "k \<notin> set (filter (bound_key lid d) (map meta_user_key rs))" using rest(2) by simp
    then have "kv_metadata_in_tx d' k' =
        mark_keys r (insert k (set (filter (bound_key lid d) (map meta_user_key rs)))) d k'" for k'
      unfolding IH(2) using m(1) by (simp add: mark_keys_def row_simps meta del: set_filter set_map)
    then show ?thesis
      using IH True by (simp add: row k(3) table_simps put_metadata_def del: set_filter set_map)
  next
    case False
    then have "lease_delete_loop lid r d acc rs = (dels, d')"
      using Cons.prems(3) by (auto simp: row bound_key_def meta k split: option.splits if_splits)
    then show ?thesis
      using Cons.IH [OF rest(1), of d acc] Cons.prems(2) False k(3) by (simp add: row)
  qed
qed

text \<open>The keys bound to a lease, in key order.\<close>

definition lease_keys_of :: "i64 \<Rightarrow> db \<Rightarrow> bytes list" where
  "lease_keys_of lid d =
    filter (bound_key lid d) (map meta_user_key (tx_iter_prefix d T_kv_meta KV_META_PREFIX))"

lemma meta_rows:
  assumes "db_ok d"
  shows "distinct (map fst (tx_iter_prefix d T_kv_meta KV_META_PREFIX))"
    "\<forall>(mk, mv) \<in> set (tx_iter_prefix d T_kv_meta KV_META_PREFIX). prefix KV_META_PREFIX mk \<and> tx_get d T_kv_meta mk = Some mv"
proof -
  have "sorted_wrt (<) (map fst (tx_iter_prefix d T_kv_meta KV_META_PREFIX))"
    using tx_iter_prefix_sorted [OF assms] by (simp add: keys_sorted_def)
  then show "distinct (map fst (tx_iter_prefix d T_kv_meta KV_META_PREFIX))"
    using strict_sorted_iff by blast
  show "\<forall>(mk, mv) \<in> set (tx_iter_prefix d T_kv_meta KV_META_PREFIX). prefix KV_META_PREFIX mk \<and> tx_get d T_kv_meta mk = Some mv"
    by (auto simp: tx_iter_prefix_iff [OF assms])
qed

lemma lease_keys_of_iff:
  assumes "db_ok d"
  shows "k \<in> set (lease_keys_of lid d) \<longleftrightarrow> bound_key lid d k"
proof -
  have "k \<in> meta_user_key ` set (tx_iter_prefix d T_kv_meta KV_META_PREFIX)"
    if b: "bound_key lid d k"
  proof -
    obtain mv where "tx_get d T_kv_meta (encode_kv_meta_key k) = Some mv"
      using b by (cases "tx_get d T_kv_meta (encode_kv_meta_key k)") (simp_all add: bound_key_def kv_metadata_in_tx_def)
    then have "(encode_kv_meta_key k, mv) \<in> set (tx_iter_prefix d T_kv_meta KV_META_PREFIX)"
      by (simp add: tx_iter_prefix_iff [OF assms] encode_kv_meta_key_def)
    then show ?thesis by (force simp: encode_kv_meta_key_def meta_user_key_def)
  qed
  then show ?thesis by (auto simp: lease_keys_of_def)
qed

lemma delete_keys_by_lease_spec:
  assumes "db_ok d" "delete_keys_by_lease_in_tx d lid r = (dels, d')"
  shows "dels = lease_keys_of lid d" "kv_metadata_in_tx d' k = mark_keys r (set dels) d k"
    "t \<noteq> T_kv_meta \<Longrightarrow> tx_get d' t ik = tx_get d t ik" "db_ok d'"
  using lease_delete_loop_spec [OF meta_rows [OF assms(1)] assms(2) [unfolded delete_keys_by_lease_in_tx_def]] assms(1)
  by (simp_all add: lease_keys_of_def)

lemma lease_keys_of_cong:
  assumes "db_ok d" "db_ok d'" "\<And>ik. tx_get d' T_kv_meta ik = tx_get d T_kv_meta ik"
  shows "lease_keys_of lid d' = lease_keys_of lid d"
proof -
  have "bound_key lid d' = bound_key lid d" by (simp add: fun_eq_iff bound_key_def kv_metadata_in_tx_def assms(3))
  moreover have "tx_iter_prefix d' T_kv_meta KV_META_PREFIX = tx_iter_prefix d T_kv_meta KV_META_PREFIX"
    by (rule tx_iter_prefix_cong) (simp_all add: assms)
  ultimately show ?thesis by (simp add: lease_keys_of_def)
qed

lemma kv_step_lease:
  assumes ok: "mvcc_ok (s\<lparr>backend := d\<rparr>)" and del: "delete_keys_by_lease_in_tx d lid r = (dels, d')"
  shows "kv_step s d d' r (map tombstone_change dels)"
proof -
  have db: "db_ok d" using mvcc_okD(1) [OF ok] by simp
  note sp = delete_keys_by_lease_spec [OF db del]
  show ?thesis
    by (rule kv_step_mark [OF ok sp(4,3), where K = "set dels" and f = "\<lambda>m. version m + 1" and g = "\<lambda>m. r"])
       (auto simp: sp(2) mark_keys_def mark_deleted_eq apply_tombstones fun_eq_iff)
qed

text \<open>The listing of a lease's keys is the same scan, cut at the limit.\<close>

lemma keys_by_lease_loop_eq:
  assumes "\<forall>(mk, mv) \<in> set rs. prefix KV_META_PREFIX mk \<and> tx_get d T_kv_meta mk = Some mv" "length acc < limit"
  shows "keys_by_lease_loop lid limit acc rs =
    take limit (acc @ filter (bound_key lid d) (map meta_user_key rs))"
  using assms
proof (induction rs arbitrary: acc)
  case (Cons row rs)
  obtain mk mv where row: "row = (mk, mv)" by fastforce
  obtain k where mk: "mk = encode_kv_meta_key k" "tx_get d T_kv_meta mk = Some mv"
    using Cons.prems(1) by (auto simp: row prefix_def encode_kv_meta_key_def)
  have k: "drop (length KV_META_PREFIX) mk = k" "prefix KV_META_PREFIX mk" "meta_user_key (mk, mv) = k"
    by (simp_all add: mk(1) encode_kv_meta_key_def meta_user_key_def)
  have meta: "kv_metadata_in_tx d k = KvMetadata_from_bytes mv"
    using mk by (simp add: kv_metadata_in_tx_def)
  have bound: "bound_key lid d k \<longleftrightarrow> (\<exists>m. KvMetadata_from_bytes mv = Some m \<and> \<not> deleted m \<and> lease_id m = lid)"
    by (simp add: bound_key_def meta)
  have IH: "keys_by_lease_loop lid limit acc rs =
      take limit (acc @ filter (bound_key lid d) (map meta_user_key rs))"
    if "length acc < limit" for acc
    using Cons.IH [OF _ that] Cons.prems(1) by simp
  show ?case
    using Cons.prems(2) IH [of acc] IH [of "acc @ [k]"] k
    by (cases "limit = Suc (length acc)") (auto simp: row bound not_le Let_def split: option.split)
qed simp

lemma keys_by_lease_eq:
  assumes "db_ok (backend s)"
  shows "keys_by_lease s lid limit = take limit (lease_keys_of lid (backend s))"
  using keys_by_lease_loop_eq [OF meta_rows(2) [OF assms], of "[]" limit lid]
  by (simp add: keys_by_lease_def lease_keys_of_def)

section \<open>What an operation commits\<close>

lemma note_is_accept:
  assumes "revision_mode s = LogIndex" "current_revision s < r"
  shows "accept_revision (revision_mode s) (backend s) r PolicyLogIndex =
    Inr (note_log_index_revision (revision_mode s) (backend s) r)"
  using assms by (simp add: accept_revision_def accept_log_index_revision_def note_log_index_revision_def
      current_revision_eq Let_def not_le)

lemma lease_write_step:
  "sys_step d (tx_insert d T_kv (encode_lease_key i) v)"
  "db_ok d \<Longrightarrow> sys_step d (tx_remove d T_kv (encode_lease_key i))"
  "sys_step d (put_lease_v2 d i r)" "sys_step d (tx_insert d T_kv (encode_lease_v2_req_key q) v)"
  by (simp_all add: sys_step_write put_lease_v2_def)

lemma lease_op_in_tx_split:
  assumes ok: "mvcc_ok (s\<lparr>backend := d\<rparr>)" and op: "lease_op_in_tx op r d = (cs, d2)"
  shows "\<exists>d1. sys_step d d1 \<and> kv_step s d1 d2 r cs"
proof -
  have db: "db_ok d" using mvcc_okD(1) [OF ok] by simp
  have mid: "mvcc_ok (s\<lparr>backend := d1\<rparr>)" if "sys_step d d1" for d1
    using mvcc_ok_frame(1) [OF ok] sys_stepD [OF that] db by simp
  have refl: "\<exists>d1. sys_step d d1 \<and> kv_step s d1 d' r []" if "sys_step d d'" for d'
    using that kv_step_refl [OF mid [OF that]] by blast
  show ?thesis
  proof (cases op)
    case (LeaseGrant lid ttl dl)
    then show ?thesis using op refl lease_write_step(1) by (auto simp: lease_op_in_tx_def split: option.splits)
  next
    case (LeaseKeepAlive lid dl)
    then show ?thesis using op refl lease_write_step(1) by (auto simp: lease_op_in_tx_def split: option.splits)
  next
    case (LeaseRevoke lid del)
    let ?d1 = "tx_remove d T_kv (encode_lease_key lid)"
    have sys: "sys_step d ?d1" by (rule lease_write_step(2) [OF db])
    show ?thesis
    proof (cases del)
      case True
      obtain dels where "delete_keys_by_lease_in_tx ?d1 lid r = (dels, d2)" "cs = map tombstone_change dels"
        using op True by (auto simp: lease_op_in_tx_def LeaseRevoke Let_def split: prod.splits)
      then show ?thesis using kv_step_lease [OF mid [OF sys]] sys by blast
    next
      case False
      then show ?thesis using op refl [OF sys] by (simp add: lease_op_in_tx_def LeaseRevoke Let_def)
    qed
  qed
qed

lemma apply_lease_op_runs:
  assumes "\<not> changelog_contains_revision s r"
    and "lease_op_in_tx op r (note_log_index_revision (revision_mode s) (backend s) r) = (cs, d2)"
  shows "apply_lease_op s op r a = (Inr (\<lparr>replayed = False\<rparr>, cs), s\<lparr>backend :=
    put_applied (put_event d2 \<lparr>ev_revision = r, ev_changes = cs, ev_event_type = Lease\<rparr>) a\<rparr>)"
  using assms by (simp add: apply_lease_op_def Let_def write_store_def backend_write_def)

lemma apply_lease_op_committed:
  assumes ok: "mvcc_ok s" and mode: "revision_mode s = LogIndex" and r: "current_revision s < r"
    and run: "apply_lease_op s op r a = (Inr (oc, cs), s')" "\<not> replayed oc"
  shows "committed s s' r cs"
proof -
  let ?d = "note_log_index_revision (revision_mode s) (backend s) r"
  note acc = note_is_accept [OF mode r]
  have new: "\<not> changelog_contains_revision s r" using run by (auto simp: apply_lease_op_def)
  obtain cs' d2 where d2: "lease_op_in_tx op r ?d = (cs', d2)" by fastforce
  have s': "cs' = cs" "s' = s\<lparr>backend :=
      put_applied (put_event d2 \<lparr>ev_revision = r, ev_changes = cs, ev_event_type = Lease\<rparr>) a\<rparr>"
    using apply_lease_op_runs [OF new d2, of a] run(1) by auto
  obtain d1 where "sys_step ?d d1" "kv_step s d1 d2 r cs"
    using lease_op_in_tx_split [OF accept_mvcc_ok(1) [OF ok acc] d2] s'(1) by blast
  then show ?thesis
    unfolding s'(2) by (intro committed_sysI [OF ok _ acc _ _ refl]) (simp_all add: policy_matches_def mode)
qed

lemma delete_keys_by_lease_at_commit_ts_committed:
  assumes ok: "mvcc_ok s" and run: "delete_keys_by_lease_at_commit_ts s lid ts a = (Inr (oc, dels), s')"
    and new: "\<not> replayed oc" "dels \<noteq> []"
  shows "committed s s' ts (map tombstone_change dels)" "dels = lease_keys_of lid (backend s)"
proof -
  obtain dels' d1 where del: "delete_keys_by_lease_in_tx (backend s) lid ts = (dels', d1)" by fastforce
  obtain d2 where acc: "accept_commit_ts (revision_mode s) d1 ts = Inr d2" and eq: "dels' = dels"
    and s': "s' = s\<lparr>backend := put_applied (put_event d2 \<lparr>ev_revision = ts, ev_changes = map tombstone_change dels,
      ev_event_type = Lease\<rparr>) a\<rparr>"
    using run new del
    by (auto simp: delete_keys_by_lease_at_commit_ts_def write_store_def backend_write_def Let_def
        split: if_splits sum.splits option.splits)
  note sp = delete_keys_by_lease_spec [OF mvcc_okD(1) [OF ok] del]
  show "dels = lease_keys_of lid (backend s)" using sp(1) eq by simp
  have cur: "current_revision_in_tx d1 mode = current_revision_in_tx (backend s) mode" for mode
    using sp(3) [of T_meta] by (simp add: current_revision_in_tx_def applied_in_tx_def cong: option.case_cong RevisionMode.case_cong)
  let ?e = "tx_insert (backend s) T_meta META_CURRENT_REVISION (u64_bytes ts)"
  have acc': "accept_revision (revision_mode s) (backend s) ts PolicyCommitTs = Inr ?e"
    and d2: "d2 = tx_insert d1 T_meta META_CURRENT_REVISION (u64_bytes ts)"
    using acc by (auto simp: accept_revision_def accept_commit_ts_def cur Let_def split: if_splits)
  have "kv_step s ?e d2 ts (map tombstone_change dels)"
  proof (rule kv_step_mark [OF accept_mvcc_ok(1) [OF ok acc'], where K = "set dels" and f = "\<lambda>m. version m + 1" and g = "\<lambda>m. ts"])
    show "db_ok d2" using sp(4) by (simp add: d2)
    show "tx_get d2 t k = tx_get ?e t k" if "t \<noteq> T_kv_meta" for t k
      using that by (simp add: d2 table_simps sp(3))
    show "kv_metadata_in_tx d2 k = (if k \<in> set dels then map_option
        (\<lambda>m. m\<lparr>version := version m + 1, mod_revision := ts, deleted := True\<rparr>) (kv_metadata_in_tx ?e k)
        else kv_metadata_in_tx ?e k)" for k
      using sp(2) [of k] by (simp add: d2 kv_metadata_in_tx_def table_simps mark_keys_def mark_deleted_eq eq)
  qed (auto simp: apply_tombstones fun_eq_iff)
  then show "committed s s' ts (map tombstone_change dels)"
    unfolding s' by (intro committedI [OF ok _ acc' _ refl]) (simp_all add: policy_matches_def)
qed

section \<open>Records of the second version\<close>

lemma LeaseV2Record_from_bytes_valid:
  assumes "LeaseV2Record_from_bytes bs = Some r"
  shows "LeaseV2Record_valid r"
proof -
  have "be_val (subslice 33 35 bs) < 256 ^ length (subslice 33 35 bs)" by (rule be_val_less)
  also have "\<dots> \<le> 256 ^ 2" by (rule power_increasing) (simp_all add: subslice_def)
  finally show ?thesis
    using assms by (auto simp: LeaseV2Record_from_bytes_def LeaseV2Record_valid_def Let_def subslice_def split: if_splits)
qed

lemma lease_v2_in_tx_valid: "lease_v2_record_in_tx d i = Some r \<Longrightarrow> LeaseV2Record_valid r"
  by (auto simp: lease_v2_record_in_tx_def intro: LeaseV2Record_from_bytes_valid split: bind_splits)

lemma v2_rows [row_simps]:
  "LeaseV2Record_valid r \<Longrightarrow> lease_v2_record_in_tx (put_lease_v2 d i r) j = (if j = i then Some r else lease_v2_record_in_tx d j)"
  "j \<noteq> i \<Longrightarrow> lease_v2_record_in_tx (put_lease_v2 d i r) j = lease_v2_record_in_tx d j"
  "lease_v2_record_in_tx (tx_insert d T_kv (encode_lease_v2_req_key q) v) j = lease_v2_record_in_tx d j"
  "request_lease_in_tx (put_lease_v2 d i r) q = request_lease_in_tx d q"
  "request_lease_in_tx (tx_insert d T_kv (encode_lease_v2_req_key q') (u64_bytes i)) q =
     (if q = q' then Some i else request_lease_in_tx d q)"
  using lease_keys(7) [symmetric]
  by (auto simp: lease_v2_record_in_tx_def request_lease_in_tx_def put_lease_v2_def table_simps
      LeaseV2Record_round_trip decode_u64_def)

lemma v2_frame [row_simps]:
  "lease_v2_record_in_tx (put_applied d a) = lease_v2_record_in_tx d"
  "lease_v2_record_in_tx (note_log_index_revision mode d r) = lease_v2_record_in_tx d"
  "request_lease_in_tx (put_applied d a) = request_lease_in_tx d"
  "request_lease_in_tx (note_log_index_revision mode d r) = request_lease_in_tx d"
  by (simp_all add: fun_eq_iff lease_v2_record_in_tx_def request_lease_in_tx_def put_applied_def
      note_log_index_rows table_simps)

lemma granted_before_frame [row_simps]:
  "granted_before (put_applied d a) q = granted_before d q"
  "granted_before (note_log_index_revision mode d r) q = granted_before d q"
  by (simp_all add: granted_before_def row_simps cong: option.case_cong)

lemma apply_lease_v2_op_eq:
  obtains outcome d where
    "lease_v2_op_in_tx op (note_log_index_revision (revision_mode s) (backend s) r) = (outcome, d)"
    "apply_lease_v2_op s op r a = (Inr (outcome, \<lparr>replayed = False\<rparr>), s\<lparr>backend := put_applied d a\<rparr>)"
  by (cases "lease_v2_op_in_tx op (note_log_index_revision (revision_mode s) (backend s) r)")
     (simp add: apply_lease_v2_op_def write_store_def backend_write_def Let_def)

text \<open>What may happen to a record: it is never replaced, and a revoked lease stays revoked.\<close>

definition lease_v2_advances :: "LeaseV2Record \<Rightarrow> LeaseV2Record \<Rightarrow> bool" where
  "lease_v2_advances r r' \<longleftrightarrow>
    l2_ttl r' = l2_ttl r \<and> l2_granted_ts r' = l2_granted_ts r \<and> l2_grant_request_id r' = l2_grant_request_id r \<and>
    (l2_revoked r \<longrightarrow> l2_revoked r' \<and> l2_deadline_wall_ms r' = l2_deadline_wall_ms r \<and>
       l2_revoked_commit_ts r \<le> l2_revoked_commit_ts r')"

lemma lease_v2_advances_trans:
  "lease_v2_advances r r1 \<Longrightarrow> lease_v2_advances r1 r2 \<Longrightarrow> lease_v2_advances r r2"
  by (auto simp: lease_v2_advances_def)

lemma lease_v2_advances_valid: "LeaseV2Record_valid r \<Longrightarrow> lease_v2_advances r r' \<Longrightarrow> LeaseV2Record_valid r'"
  by (simp add: lease_v2_advances_def LeaseV2Record_valid_def)

lemma v2_op_advances:
  assumes rec: "lease_v2_record_in_tx d i = Some r" and op: "lease_v2_op_in_tx op d = (oc, d')"
  shows "\<exists>r'. lease_v2_record_in_tx d' i = Some r' \<and> lease_v2_advances r r'"
proof -
  have same: "\<exists>r'. lease_v2_record_in_tx d'' i = Some r' \<and> lease_v2_advances r r'"
    if "lease_v2_record_in_tx d'' i = lease_v2_record_in_tx d i" for d''
    using that rec by (simp add: lease_v2_advances_def)
  have upd: "\<exists>r'. lease_v2_record_in_tx (put_lease_v2 d j x') i = Some r' \<and> lease_v2_advances r r'"
    if x: "lease_v2_record_in_tx d j = Some x" "lease_v2_advances x x'" for j x x'
    using rec x lease_v2_advances_valid [OF lease_v2_in_tx_valid [OF x(1)] x(2)]
    by (cases "j = i") (auto simp: row_simps lease_v2_advances_def)
  show ?thesis
  proof (cases op)
    case (V2Grant j ttl ts dl q)
    show ?thesis
    proof (cases "granted_before d q \<noteq> None \<or> lease_v2_record_in_tx d j \<noteq> None")
      case True
      then have "d' = d" using op by (auto simp: V2Grant lease_v2_op_in_tx_def v2_grant_in_tx_def Let_def split: option.splits)
      then show ?thesis using same by simp
    next
      case False
      then have new: "granted_before d q = None" "lease_v2_record_in_tx d j = None" by blast+
      then have "j \<noteq> i" using rec by auto
      then show ?thesis using op new rec
        by (auto simp: V2Grant lease_v2_op_in_tx_def v2_grant_in_tx_def Let_def row_simps lease_v2_advances_def)
    qed
  next
    case (V2KeepAlive j dl)
    show ?thesis
    proof (cases "\<exists>x. lease_v2_record_in_tx d j = Some x \<and> \<not> l2_revoked x")
      case True
      then obtain x where x: "lease_v2_record_in_tx d j = Some x" "\<not> l2_revoked x" by blast
      then have "d' = put_lease_v2 d j (x\<lparr>l2_deadline_wall_ms := dl\<rparr>)"
        using op by (simp add: V2KeepAlive lease_v2_op_in_tx_def v2_keep_alive_in_tx_def)
      then show ?thesis using upd [OF x(1)] x(2) by (simp add: lease_v2_advances_def)
    next
      case False
      then have "d' = d" using op
        by (auto simp: V2KeepAlive lease_v2_op_in_tx_def v2_keep_alive_in_tx_def split: option.splits if_splits)
      then show ?thesis using same by simp
    qed
  next
    case (V2Revoke j ts dl q)
    have "d' = d \<or> (\<exists>x x'. d' = put_lease_v2 d j x' \<and> lease_v2_record_in_tx d j = Some x \<and> lease_v2_advances x x')"
      using op by (auto simp: V2Revoke lease_v2_op_in_tx_def v2_revoke_in_tx_def lease_v2_advances_def
          split: option.splits if_splits)
    then show ?thesis using same upd by blast
  qed
qed

lemma v2_op_request:
  assumes rec: "lease_v2_record_in_tx d i = Some r" and q: "q \<noteq> []" "request_lease_in_tx d q = Some i"
    and op: "lease_v2_op_in_tx op d = (oc, d')"
  shows "request_lease_in_tx d' q = Some i"
proof -
  have g: "granted_before d q \<noteq> None" using rec q by (simp add: granted_before_def)
  show ?thesis
  proof (cases op)
    case (V2Grant j ttl ts dl q')
    show ?thesis
    proof (cases "granted_before d q' \<noteq> None \<or> lease_v2_record_in_tx d j \<noteq> None")
      case True
      then have "d' = d" using op by (auto simp: V2Grant lease_v2_op_in_tx_def v2_grant_in_tx_def Let_def split: option.splits)
      then show ?thesis using q(2) by simp
    next
      case False
      then have new: "granted_before d q' = None" "lease_v2_record_in_tx d j = None" by blast+
      then have "q' \<noteq> q" using g by auto
      then show ?thesis using op new q(2)
        by (auto simp: V2Grant lease_v2_op_in_tx_def v2_grant_in_tx_def Let_def row_simps)
    qed
  next
    case (V2KeepAlive j dl)
    then show ?thesis using op q(2)
      by (auto simp: lease_v2_op_in_tx_def v2_keep_alive_in_tx_def row_simps split: option.splits if_splits)
  next
    case (V2Revoke j ts dl q')
    then show ?thesis using op q(2)
      by (auto simp: lease_v2_op_in_tx_def v2_revoke_in_tx_def row_simps split: option.splits if_splits)
  qed
qed

definition lease_v2_runs :: "MvccStorage \<Rightarrow> (LeaseV2Op \<times> u64 \<times> AppliedLogId) list \<Rightarrow> MvccStorage" where
  "lease_v2_runs s ops = foldl (\<lambda>s (op, r, a). snd (apply_lease_v2_op s op r a)) s ops"

lemma lease_v2_runs_snoc:
  "lease_v2_runs s (ops @ [(op, r, a)]) = snd (apply_lease_v2_op (lease_v2_runs s ops) op r a)"
  by (simp add: lease_v2_runs_def)

lemma lease_v2_runs_advances:
  assumes "get_lease_v2_record s i = Some r"
  shows "\<exists>r'. get_lease_v2_record (lease_v2_runs s ops) i = Some r' \<and> lease_v2_advances r r'"
proof (induction ops rule: rev_induct)
  case Nil
  then show ?case using assms by (simp add: lease_v2_runs_def lease_v2_advances_def)
next
  case (snoc x ops)
  obtain op rv a where x: "x = (op, rv, a)" by (cases x)
  let ?t = "lease_v2_runs s ops"
  obtain r1 where r1: "get_lease_v2_record ?t i = Some r1" "lease_v2_advances r r1" using snoc by blast
  show ?case
  proof (rule apply_lease_v2_op_eq [of op ?t rv a])
    fix oc d
    assume op: "lease_v2_op_in_tx op (note_log_index_revision (revision_mode ?t) (backend ?t) rv) = (oc, d)"
      and eq: "apply_lease_v2_op ?t op rv a = (Inr (oc, \<lparr>replayed = False\<rparr>), ?t\<lparr>backend := put_applied d a\<rparr>)"
    have "lease_v2_record_in_tx (note_log_index_revision (revision_mode ?t) (backend ?t) rv) i = Some r1"
      using r1(1) by (simp add: get_lease_v2_record_def row_simps)
    from v2_op_advances [OF this op] lease_v2_advances_trans [OF r1(2)]
    show ?thesis by (auto simp: x lease_v2_runs_snoc eq get_lease_v2_record_def row_simps)
  qed
qed

lemma lease_v2_runs_request:
  assumes "get_lease_v2_record s i = Some r" "q \<noteq> []" "request_lease_in_tx (backend s) q = Some i"
  shows "request_lease_in_tx (backend (lease_v2_runs s ops)) q = Some i"
proof (induction ops rule: rev_induct)
  case Nil
  then show ?case using assms by (simp add: lease_v2_runs_def)
next
  case (snoc x ops)
  obtain op rv a where x: "x = (op, rv, a)" by (cases x)
  let ?t = "lease_v2_runs s ops"
  obtain r1 where r1: "get_lease_v2_record ?t i = Some r1"
    using lease_v2_runs_advances [OF assms(1)] by blast
  show ?case
  proof (rule apply_lease_v2_op_eq [of op ?t rv a])
    fix oc d
    assume op: "lease_v2_op_in_tx op (note_log_index_revision (revision_mode ?t) (backend ?t) rv) = (oc, d)"
      and eq: "apply_lease_v2_op ?t op rv a = (Inr (oc, \<lparr>replayed = False\<rparr>), ?t\<lparr>backend := put_applied d a\<rparr>)"
    let ?n = "note_log_index_revision (revision_mode ?t) (backend ?t) rv"
    have "lease_v2_record_in_tx ?n i = Some r1" "request_lease_in_tx ?n q = Some i"
      using r1 snoc by (simp_all add: get_lease_v2_record_def row_simps)
    from v2_op_request [OF this(1) assms(2) this(2) op]
    show ?thesis by (simp add: x lease_v2_runs_snoc eq row_simps)
  qed
qed

text \<open>The listings the services start from are complete.\<close>

lemma set_map_filter: "y \<in> set (List.map_filter f xs) \<longleftrightarrow> (\<exists>x \<in> set xs. f x = Some y)"
  by (induction xs) (auto simp: List.map_filter_simps split: option.splits)

lemma parse_lease_rows_iff:
  assumes "db_ok d"
  shows "(i, r) \<in> set (parse_lease_rows pfx parse (tx_iter_prefix d T_kv pfx)) \<longleftrightarrow>
    Option.bind (tx_get d T_kv (pfx @ u64_bytes i)) parse = Some r"
proof -
  have "(i, r) \<in> set (parse_lease_rows pfx parse (tx_iter_prefix d T_kv pfx)) \<longleftrightarrow>
      (\<exists>ib v. tx_get d T_kv (pfx @ ib) = Some v \<and> length ib = 8 \<and> u64_of ib = i \<and> parse v = Some r)"
  proof
    assume "(i, r) \<in> set (parse_lease_rows pfx parse (tx_iter_prefix d T_kv pfx))"
    then obtain k v ib where "(k, v) \<in> set (tx_iter_prefix d T_kv pfx)" "strip_prefix pfx k = Some ib"
        and ib: "length ib = 8" "u64_of ib = i" "parse v = Some r"
      by (auto simp: parse_lease_rows_def set_map_filter split: option.splits if_splits)
    then have "tx_get d T_kv (pfx @ ib) = Some v"
      by (auto simp: tx_iter_prefix_iff [OF assms] strip_prefix_def prefix_def)
    then show "\<exists>ib v. tx_get d T_kv (pfx @ ib) = Some v \<and> length ib = 8 \<and> u64_of ib = i \<and> parse v = Some r"
      using ib by blast
  next
    assume "\<exists>ib v. tx_get d T_kv (pfx @ ib) = Some v \<and> length ib = 8 \<and> u64_of ib = i \<and> parse v = Some r"
    then obtain ib v where row: "tx_get d T_kv (pfx @ ib) = Some v" "length ib = 8" "u64_of ib = i" "parse v = Some r"
      by blast
    then have "(pfx @ ib, v) \<in> set (tx_iter_prefix d T_kv pfx)" by (simp add: tx_iter_prefix_iff [OF assms])
    then show "(i, r) \<in> set (parse_lease_rows pfx parse (tx_iter_prefix d T_kv pfx))"
      using row by (force simp: parse_lease_rows_def set_map_filter)
  qed
  also have "\<dots> \<longleftrightarrow> (\<exists>v. tx_get d T_kv (pfx @ u64_bytes i) = Some v \<and> parse v = Some r)"
    using u64_bytes_u64_of by (auto intro: exI [of _ "u64_bytes i"])
  finally show ?thesis by (cases "tx_get d T_kv (pfx @ u64_bytes i)") auto
qed

lemma list_lease_iff:
  assumes "db_ok (backend s)"
  shows "(i, r) \<in> set (list_lease_records s) \<longleftrightarrow> get_lease_record s i = Some r"
    "(i, r2) \<in> set (list_lease_v2_records s) \<longleftrightarrow> get_lease_v2_record s i = Some r2"
  by (simp_all add: list_lease_records_def list_lease_v2_records_def parse_lease_rows_iff [OF assms]
      get_lease_record_def lease_record_in_tx_def encode_lease_key_def
      get_lease_v2_record_def lease_v2_record_in_tx_def encode_lease_v2_key_def)

section \<open>Properties\<close>

lemma revoke_tx:
  assumes "db_ok d" "lease_op_in_tx (LeaseRevoke lid True) r d = (cs, d2)"
  shows "cs = map tombstone_change (lease_keys_of lid d)"
    "tx_get d2 T_kv ik = (if ik = encode_lease_key lid then None else tx_get d T_kv ik)"
proof -
  let ?d1 = "tx_remove d T_kv (encode_lease_key lid)"
  obtain dels where del: "delete_keys_by_lease_in_tx ?d1 lid r = (dels, d2)" "cs = map tombstone_change dels"
    using assms(2) by (auto simp: lease_op_in_tx_def Let_def split: prod.splits)
  have db1: "db_ok ?d1" using assms(1) by simp
  note sp = delete_keys_by_lease_spec [OF db1 del(1)]
  have "lease_keys_of lid ?d1 = lease_keys_of lid d"
    by (rule lease_keys_of_cong [OF assms(1) db1]) (simp add: table_simps assms(1))
  then show "cs = map tombstone_change (lease_keys_of lid d)" by (simp add: del(2) sp(1))
  show "tx_get d2 T_kv ik = (if ik = encode_lease_key lid then None else tx_get d T_kv ik)"
    by (simp add: sp(3) table_simps assms(1))
qed

text \<open>C25: Revoking a lease removes exactly what it holds: the keys bound to it read nothing
  afterwards and are reported as deletions, every other key reads what it read,
  the record is gone and the other leases keep theirs; the same log entry applied
  again changes nothing.\<close>

theorem lease_revoke_exact:
  assumes ok: "mvcc_ok s" and mode: "revision_mode s = LogIndex" and r: "current_revision s < r"
    and new: "\<not> changelog_contains_revision s r"
  shows "\<exists>cs s'. apply_lease_op s (LeaseRevoke lid True) r a = (Inr (\<lparr>replayed = False\<rparr>, cs), s') \<and>
    (\<forall>k. get s' k = (if bound_key lid (backend s) k then Inr None else get s k)) \<and>
    set cs = {tombstone_change k |k. bound_key lid (backend s) k} \<and>
    (\<forall>i. get_lease_record s' i = (if i = lid then None else get_lease_record s i)) \<and>
    mvcc_ok s' \<and> current_revision s' = r \<and>
    apply_lease_op s' (LeaseRevoke lid True) r b = (Inr (\<lparr>replayed = True\<rparr>, []), s')"
proof -
  let ?d = "note_log_index_revision (revision_mode s) (backend s) r"
  have db: "db_ok (backend s)" "db_ok ?d" using mvcc_okD(1) [OF ok] by (simp_all add: note_log_index_rows)
  obtain cs d2 where d2: "lease_op_in_tx (LeaseRevoke lid True) r ?d = (cs, d2)" by fastforce
  note run = apply_lease_op_runs [OF new d2, of a] and tx = revoke_tx [OF db(2) d2]
  let ?s' = "s\<lparr>backend := put_applied (put_event d2 \<lparr>ev_revision = r, ev_changes = cs, ev_event_type = Lease\<rparr>) a\<rparr>"
  have keys: "lease_keys_of lid ?d = lease_keys_of lid (backend s)"
    by (rule lease_keys_of_cong [OF db]) (simp add: note_log_index_rows)
  have c: "committed s ?s' r cs" by (rule apply_lease_op_committed [OF ok mode r run]) simp
  note cd = committedD [OF c]
  have cs: "set cs = {tombstone_change k |k. bound_key lid (backend s) k}"
    by (auto simp: tx(1) keys lease_keys_of_iff [OF db(1)])
  have "apply_changes (live s) cs k = (if bound_key lid (backend s) k then None else live s k)" for k
    unfolding tx(1) keys by (simp add: apply_tombstones lease_keys_of_iff [OF db(1)])
  then have "live ?s' k = (if bound_key lid (backend s) k then None else live s k)" for k
    by (simp only: cd(2))
  then have "get ?s' k = (if bound_key lid (backend s) k then Inr None else get s k)" for k
    by (simp add: get_live [OF cd(1)] get_live [OF ok])
  moreover have "get_lease_record ?s' i = (if i = lid then None else get_lease_record s i)" for i
    by (simp add: get_lease_record_def lease_record_in_tx_def row_simps table_simps tx(2) note_log_index_rows)
  moreover have "changelog_contains_revision ?s' r"
    by (simp add: changelog_contains_revision_def row_simps table_simps)
  then have "apply_lease_op ?s' (LeaseRevoke lid True) r b = (Inr (\<lparr>replayed = True\<rparr>, []), ?s')"
    by (simp add: apply_lease_op_def)
  ultimately show ?thesis using run cs cd(1,4) by blast
qed

text \<open>A store with one key bound to lease 7.\<close>

lemma leased_store:
  "\<exists>s. mvcc_ok s \<and> revision_mode s = LogIndex \<and> current_revision s = 1 \<and> get s [1] = Inr (Some [10]) \<and>
     bound_key 7 (backend s) [1] \<and> \<not> changelog_contains_revision s 2"
proof -
  have pol: "policy_matches LogIndex PolicyLogIndex" by (simp add: policy_matches_def)
  obtain s where s: "put_at_key (fresh LogIndex) [] [1] [10] (Some 7) 1 (standalone 1) PolicyLogIndex =
      (Inr \<lparr>replayed = False\<rparr>, s)"
    using put_at_key_succeeds [of "fresh LogIndex" 1 PolicyLogIndex "[]" "[1]" "[10]" "[10]"] pol by auto
  then obtain d where d: "put_tx (fresh LogIndex) [] [1] [10] (Some 7) 1 (standalone 1) PolicyLogIndex empty_db =
      Inr (\<lparr>replayed = False\<rparr>, d)" "s = (fresh LogIndex)\<lparr>backend := d\<rparr>"
    using put_at_key_applied [OF s] by (auto simp: new_with_revision_mode_def)
  have meta: "kv_metadata_in_tx empty_db [1] = None" by (simp add: kv_metadata_in_tx_def)
  have b: "bound_key 7 (backend s) [1]"
    using d by (auto simp: put_tx_def accept_revision_Inr [OF pol] Let_def bound_key_def row_simps
        kv_metadata_in_tx_def new_key_def table_simps KvMetadata_round_trip split: if_splits)
  have c: "committed (fresh LogIndex) s 1 [\<lparr>ch_key = [1], ch_value = Some [10], ch_prev_value = None\<rparr>]"
    using put_at_key_committed [OF mvcc_ok_new _ _ s] pol by simp
  have "\<not> changelog_contains_revision s 2"
    by (rule committed_changelog [OF c]) (simp add: changelog_contains_revision_def new_with_revision_mode_def)
  then show ?thesis
    using committedD(1-6) [OF c] b by (intro exI [of _ s]) (simp add: get_live)
qed

theorem lease_revoke_exact_witness:
  "\<exists>s s' cs. get s [1] = Inr (Some [10]) \<and>
    apply_lease_op s (LeaseRevoke 7 True) 2 (standalone 2) = (Inr (\<lparr>replayed = False\<rparr>, cs), s') \<and>
    get s' [1] = Inr None \<and> tombstone_change [1] \<in> set cs"
proof -
  obtain s where s: "mvcc_ok s" "revision_mode s = LogIndex" "current_revision s = 1" "get s [1] = Inr (Some [10])"
     "bound_key 7 (backend s) [1]" "\<not> changelog_contains_revision s 2"
    using leased_store by blast
  have lt: "current_revision s < 2" by (simp add: s(3))
  show ?thesis
    using lease_revoke_exact [OF s(1,2) lt s(6), of 7 "standalone 2" "standalone 2"] s(4,5) by fastforce
qed

text \<open>C27: A lease keeps its identity. Whatever lease operations follow, the record of a lease
  keeps its time to live, grant timestamp and request; a revoked lease stays
  revoked with its deadline, and its revocation timestamp never goes back.\<close>

theorem lease_v2_lifecycle:
  assumes "get_lease_v2_record s lid = Some rec"
  shows "\<exists>rec'. get_lease_v2_record (lease_v2_runs s ops) lid = Some rec' \<and>
    l2_ttl rec' = l2_ttl rec \<and> l2_granted_ts rec' = l2_granted_ts rec \<and>
    l2_grant_request_id rec' = l2_grant_request_id rec \<and>
    (l2_revoked rec \<longrightarrow> l2_revoked rec' \<and> l2_deadline_wall_ms rec' = l2_deadline_wall_ms rec \<and>
       l2_revoked_commit_ts rec \<le> l2_revoked_commit_ts rec')"
  using lease_v2_runs_advances [OF assms, of ops] by (simp add: lease_v2_advances_def)

lemma v2_grant_new:
  assumes "length q \<le> 65535" "granted_before (backend s) q = None" "get_lease_v2_record s lid = None"
  shows "\<exists>s'. apply_lease_v2_op s (V2Grant lid ttl ts dl q) r a =
      (Inr (GrantApplied lid ts ttl True, \<lparr>replayed = False\<rparr>), s') \<and>
    get_lease_v2_record s' lid = Some \<lparr>l2_ttl = ttl, l2_granted_ts = ts, l2_deadline_wall_ms = dl,
      l2_revoked = False, l2_revoked_commit_ts = 0, l2_grant_request_id = q\<rparr> \<and>
    (q \<noteq> [] \<longrightarrow> request_lease_in_tx (backend s') q = Some lid)"
proof (rule apply_lease_v2_op_eq [of "V2Grant lid ttl ts dl q" s r a])
  fix oc d
  assume op: "lease_v2_op_in_tx (V2Grant lid ttl ts dl q) (note_log_index_revision (revision_mode s) (backend s) r) = (oc, d)"
    and eq: "apply_lease_v2_op s (V2Grant lid ttl ts dl q) r a =
      (Inr (oc, \<lparr>replayed = False\<rparr>), s\<lparr>backend := put_applied d a\<rparr>)"
  have "granted_before (note_log_index_revision (revision_mode s) (backend s) r) q = None"
    "lease_v2_record_in_tx (note_log_index_revision (revision_mode s) (backend s) r) lid = None"
    using assms(2,3) by (simp_all add: row_simps get_lease_v2_record_def)
  then show ?thesis
    using op assms(1) unfolding eq
    by (auto simp: lease_v2_op_in_tx_def v2_grant_in_tx_def Let_def get_lease_v2_record_def row_simps LeaseV2Record_valid_def)
qed

lemma v2_grant_again:
  assumes "q \<noteq> []" "request_lease_in_tx (backend s) q = Some lid" "get_lease_v2_record s lid = Some rec"
  shows "\<exists>s'. apply_lease_v2_op s (V2Grant lid' ttl' ts' dl' q) r a =
      (Inr (GrantApplied lid (l2_granted_ts rec) (l2_ttl rec) True, \<lparr>replayed = False\<rparr>), s') \<and>
    (\<forall>i. get_lease_v2_record s' i = get_lease_v2_record s i)"
proof (rule apply_lease_v2_op_eq [of "V2Grant lid' ttl' ts' dl' q" s r a])
  fix oc d
  assume op: "lease_v2_op_in_tx (V2Grant lid' ttl' ts' dl' q) (note_log_index_revision (revision_mode s) (backend s) r) = (oc, d)"
    and eq: "apply_lease_v2_op s (V2Grant lid' ttl' ts' dl' q) r a =
      (Inr (oc, \<lparr>replayed = False\<rparr>), s\<lparr>backend := put_applied d a\<rparr>)"
  have "granted_before (note_log_index_revision (revision_mode s) (backend s) r) q = Some (lid, rec)"
    using assms by (simp add: granted_before_def row_simps get_lease_v2_record_def)
  then show ?thesis
    using op unfolding eq by (auto simp: lease_v2_op_in_tx_def v2_grant_in_tx_def get_lease_v2_record_def row_simps)
qed

theorem lease_v2_lifecycle_witness:
  "\<exists>s rec'. get_lease_v2_record (lease_v2_runs s [(V2Revoke 7 50 0 [], 2, standalone 2), (V2KeepAlive 7 99, 3, standalone 3)]) 7
      = Some rec' \<and> l2_ttl rec' = 10 \<and> l2_granted_ts rec' = 5"
proof -
  have "granted_before (backend (fresh CommitTs)) [1] = None" "get_lease_v2_record (fresh CommitTs) 7 = None"
    by (simp_all add: granted_before_def request_lease_in_tx_def get_lease_v2_record_def lease_v2_record_in_tx_def
        new_with_revision_mode_def)
  then obtain s where "get_lease_v2_record s 7 = Some \<lparr>l2_ttl = 10, l2_granted_ts = 5, l2_deadline_wall_ms = 20,
      l2_revoked = False, l2_revoked_commit_ts = 0, l2_grant_request_id = [1]\<rparr>"
    using v2_grant_new [of "[1]" "fresh CommitTs" 7 10 5 20] by fastforce
  from lease_v2_lifecycle [OF this, of "[(V2Revoke 7 50 0 [], 2, standalone 2), (V2KeepAlive 7 99, 3, standalone 3)]"]
  show ?thesis by (intro exI [of _ s]) auto
qed

text \<open>C26: A grant happens once per request. After a request was granted, sending it again,
  under any lease id and whatever happened in between, answers with the lease of
  the first grant and changes no record.\<close>

theorem lease_grant_once:
  assumes "q \<noteq> []" "length q \<le> 65535" "granted_before (backend s) q = None" "get_lease_v2_record s lid = None"
    and "apply_lease_v2_op s (V2Grant lid ttl ts dl q) r a = (res, s1)" "s2 = lease_v2_runs s1 ops"
  shows "\<exists>s3. apply_lease_v2_op s2 (V2Grant lid' ttl' ts' dl' q) r' a' =
      (Inr (GrantApplied lid ts ttl True, \<lparr>replayed = False\<rparr>), s3) \<and>
    (\<forall>i. get_lease_v2_record s3 i = get_lease_v2_record s2 i)"
proof -
  have s1: "get_lease_v2_record s1 lid = Some \<lparr>l2_ttl = ttl, l2_granted_ts = ts, l2_deadline_wall_ms = dl,
      l2_revoked = False, l2_revoked_commit_ts = 0, l2_grant_request_id = q\<rparr>"
    "request_lease_in_tx (backend s1) q = Some lid"
    using v2_grant_new [OF assms(2-4), of ttl ts dl r a] assms(1,5) by auto
  obtain rec where "get_lease_v2_record s2 lid = Some rec" "l2_granted_ts rec = ts" "l2_ttl rec = ttl"
    using lease_v2_runs_advances [OF s1(1), of ops] assms(6) by (auto simp: lease_v2_advances_def)
  moreover have "request_lease_in_tx (backend s2) q = Some lid"
    unfolding assms(6) by (rule lease_v2_runs_request [OF s1(1) assms(1) s1(2)])
  ultimately show ?thesis using v2_grant_again [OF assms(1)] by metis
qed

theorem lease_grant_once_witness:
  "\<exists>s3. apply_lease_v2_op (snd (apply_lease_v2_op (fresh CommitTs) (V2Grant 7 10 5 20 [1]) 1 (standalone 1)))
      (V2Grant 8 99 6 30 [1]) 2 (standalone 2) = (Inr (GrantApplied 7 5 10 True, \<lparr>replayed = False\<rparr>), s3)"
proof -
  have g: "granted_before (backend (fresh CommitTs)) [1] = None" "get_lease_v2_record (fresh CommitTs) 7 = None"
    by (simp_all add: granted_before_def request_lease_in_tx_def get_lease_v2_record_def lease_v2_record_in_tx_def
        new_with_revision_mode_def)
  show ?thesis
    using lease_grant_once [OF _ _ g surjective_pairing refl, of 10 5 20 1 "standalone 1" "[]" 8 99 6 30 2 "standalone 2"]
    by (auto simp: lease_v2_runs_def)
qed

text \<open>C28: Renewal and expiry cannot both win. If the renewal is applied first, the expiry that
  was decided on the old deadline is void and the lease stays; if the expiry is
  applied first, the renewal is refused and the lease stays revoked.\<close>

theorem lease_expiry_race:
  assumes rec: "get_lease_v2_record s lid = Some rec" "\<not> l2_revoked rec"
    and dl: "sint (l2_deadline_wall_ms rec) \<le> sint expected" "expected \<noteq> 0" "sint expected < sint renewed"
    and first: "s1 = snd (apply_lease_v2_op s (V2KeepAlive lid renewed) r a)"
    and other: "t1 = snd (apply_lease_v2_op s (V2Revoke lid ts expected q) r a)"
  shows "\<exists>s2 t2. apply_lease_v2_op s1 (V2Revoke lid ts expected q) r' a' =
      (Inr (RevokeApplied 0, \<lparr>replayed = False\<rparr>), s2) \<and>
    get_lease_v2_record s2 lid = Some (rec\<lparr>l2_deadline_wall_ms := renewed\<rparr>) \<and>
    apply_lease_v2_op t1 (V2KeepAlive lid renewed) r' a' =
      (Inr (KeepAliveApplied False, \<lparr>replayed = False\<rparr>), t2) \<and>
    get_lease_v2_record t2 lid = Some (rec\<lparr>l2_revoked := True, l2_revoked_commit_ts := ts\<rparr>)"
proof -
  have valid: "LeaseV2Record_valid (rec\<lparr>l2_deadline_wall_ms := renewed\<rparr>)"
    "LeaseV2Record_valid (rec\<lparr>l2_revoked := True, l2_revoked_commit_ts := ts\<rparr>)"
    using lease_v2_in_tx_valid rec(1) by (auto simp: get_lease_v2_record_def LeaseV2Record_valid_def)
  show ?thesis
    using rec dl unfolding first other
    by (simp add: apply_lease_v2_op_def write_store_def backend_write_def Let_def get_lease_v2_record_def
        lease_v2_op_in_tx_def v2_keep_alive_in_tx_def v2_revoke_in_tx_def row_simps valid)
qed

theorem lease_expiry_race_witness:
  "\<exists>s rec s2. get_lease_v2_record s 7 = Some rec \<and> l2_deadline_wall_ms rec = 20 \<and>
    apply_lease_v2_op (snd (apply_lease_v2_op s (V2KeepAlive 7 99) 2 (standalone 2))) (V2Revoke 7 50 20 []) 3 (standalone 3) =
      (Inr (RevokeApplied 0, \<lparr>replayed = False\<rparr>), s2) \<and>
    get_lease_v2_record s2 7 = Some (rec\<lparr>l2_deadline_wall_ms := 99\<rparr>)"
proof -
  have "granted_before (backend (fresh CommitTs)) [1] = None" "get_lease_v2_record (fresh CommitTs) 7 = None"
    by (simp_all add: granted_before_def request_lease_in_tx_def get_lease_v2_record_def lease_v2_record_in_tx_def
        new_with_revision_mode_def)
  then obtain s where s: "get_lease_v2_record s 7 = Some \<lparr>l2_ttl = 10, l2_granted_ts = 5, l2_deadline_wall_ms = 20,
      l2_revoked = False, l2_revoked_commit_ts = 0, l2_grant_request_id = [1]\<rparr>" (is "_ = Some ?rec")
    using v2_grant_new [of "[1]" "fresh CommitTs" 7 10 5 20] by fastforce
  have "sint (20 :: i64) < sint (99 :: i64)" by simp
  then show ?thesis
    using lease_expiry_race [OF s _ _ _ _ refl refl, of 20 99 2 "standalone 2" 50 "[]" 3 "standalone 3"] s
    by (intro exI [of _ s], intro exI [of _ ?rec]) auto
qed

end
