(* ===== verification/Range_Move.thy ===== *)
theory Range_Move
  imports Mvcc_History Lease_Table Envelope
begin

text \<open>
  Moving a key range between regions: the paged export of the live rows, the
  import into the target with its checks and history bounds, the clearing of a
  partial import (\<open>coord-server/src/storage/mvcc.rs\<close>), and the page loop of
  \<open>coord-server/src/split_merge.rs\<close> that splits and merges are built on.
\<close>

section \<open>Export\<close>

record RangeSnapshotPage =
  pg_rows :: "VersionedKv list"
  pg_next_after :: "bytes option"
  pg_revision :: u64

fun export_loop ::
    "MvccStorage \<Rightarrow> bytes \<Rightarrow> bytes \<Rightarrow> nat \<Rightarrow> VersionedKv list \<Rightarrow> rows \<Rightarrow> (VersionedKv list \<times> bool) result" where
  "export_loop s start end0 limit acc [] = Inr (acc, False)"
| "export_loop s start end0 limit acc ((meta_key, meta_value) # rest) =
    (case strip_prefix KV_META_PREFIX meta_key of
       None \<Rightarrow> export_loop s start end0 limit acc rest
     | Some user_key \<Rightarrow>
         (if user_key < start then export_loop s start end0 limit acc rest
          else if end0 \<noteq> [] \<and> end0 \<le> user_key then Inr (acc, False)
          else case KvMetadata_from_bytes meta_value of
            None \<Rightarrow> Inl DataCorruption
          | Some meta \<Rightarrow>
              (if deleted meta then export_loop s start end0 limit acc rest
               else if 0 < limit \<and> limit \<le> length acc then Inr (acc, True)
               else case tx_get (backend s) T_kv (encode_kv_key user_key) of
                 None \<Rightarrow> Inl DataCorruption
               | Some raw \<Rightarrow>
                   bind_result (if raw = [] then Inr [] else decrypt_value s (encode_kv_key user_key) raw)
                     (\<lambda>value. export_loop s start end0 limit (acc @ [(user_key, value, meta)]) rest))))"

definition export_lower :: "bytes \<Rightarrow> bytes option \<Rightarrow> bytes" where
  "export_lower start after =
    (case after of
       Some a \<Rightarrow> (if start \<le> a then a @ [0] else start)
     | None \<Rightarrow> start)"

definition export_range_page ::
    "MvccStorage \<Rightarrow> bytes \<Rightarrow> bytes \<Rightarrow> bytes option \<Rightarrow> nat \<Rightarrow> u64 option \<Rightarrow> RangeSnapshotPage result" where
  "export_range_page s start end0 after limit expected_revision =
    (let lower = export_lower start after
     in if end0 \<noteq> [] \<and> end0 \<le> lower
        then Inr \<lparr>pg_rows = [], pg_next_after = None, pg_revision = current_revision s\<rparr>
        else
          let meta_start = encode_kv_meta_key lower;
              meta_end = (if end0 = [] then [] else encode_kv_meta_key end0);
              revision = current_revision_in_tx (backend s) (revision_mode s)
          in if (case expected_revision of Some e \<Rightarrow> revision \<noteq> e | None \<Rightarrow> False)
             then Inl FailedPrecondition
             else bind_result (export_loop s start end0 limit [] (tx_iter_range (backend s) T_kv_meta meta_start meta_end))
               (\<lambda>(rows, has_more).
                  Inr \<lparr>pg_rows = rows,
                       pg_next_after = (if has_more \<and> rows \<noteq> [] then Some (fst (List.last rows)) else None),
                       pg_revision = revision\<rparr>))"

section \<open>Import\<close>

definition reserved_key :: "bytes \<Rightarrow> bool" where
  "reserved_key key = prefix (ascii ''/_'') key"

fun check_import_rows :: "bytes \<Rightarrow> bytes \<Rightarrow> u64 \<Rightarrow> bytes list \<Rightarrow> VersionedKv list \<Rightarrow> unit result" where
  "check_import_rows start end0 watermark seen [] = Inr ()"
| "check_import_rows start end0 watermark seen ((key, value, meta) # rest) =
    (if key < start \<or> end0 \<noteq> [] \<and> end0 \<le> key then Inl InvalidArgument
     else if reserved_key key then Inl InvalidArgument
     else if key \<in> set seen then Inl InvalidArgument
     else if deleted meta then Inl InvalidArgument
     else if sint (mod_revision meta) \<le> 0 \<or> watermark < mod_revision meta then Inl InvalidArgument
     else if sint (create_revision meta) \<le> 0 \<or> sint (mod_revision meta) < sint (create_revision meta)
       then Inl InvalidArgument
     else if sint (version meta) \<le> 0 then Inl InvalidArgument
     else check_import_rows start end0 watermark (key # seen) rest)"

fun import_rows ::
    "MvccStorage \<Rightarrow> (nat \<Rightarrow> bytes) \<Rightarrow> nat \<Rightarrow> u64 \<Rightarrow> db \<Rightarrow> VersionedKv list \<Rightarrow> (u64 \<times> db) result" where
  "import_rows s nonces i imported d [] = Inr (imported, d)"
| "import_rows s nonces i imported d ((key, value, meta) # rest) =
    (let internal_key = encode_kv_key key;
         insert_row = bind_result (encrypt_value s (nonces i) internal_key value) (\<lambda>encrypted.
           import_rows s nonces (Suc i) (imported + 1)
             (put_metadata (tx_insert d T_kv internal_key encrypted) key meta) rest)
     in case kv_metadata_in_tx d key of
          None \<Rightarrow> insert_row
        | Some existing \<Rightarrow>
            (if sint (mod_revision meta) < sint (mod_revision existing)
             then import_rows s nonces (Suc i) imported d rest
             else if mod_revision existing = mod_revision meta then
               (case tx_get d T_kv internal_key of
                  None \<Rightarrow> Inl DataCorruption
                | Some raw \<Rightarrow>
                    bind_result (if raw = [] then Inr [] else decrypt_value s internal_key raw) (\<lambda>plaintext.
                      if plaintext \<noteq> value then Inl DataCorruption
                      else import_rows s nonces (Suc i) imported d rest))
             else insert_row))"

fun raise_floor :: "bytes \<Rightarrow> bytes \<Rightarrow> u64 \<Rightarrow> ImportHistoryFloor list \<Rightarrow> ImportHistoryFloor list" where
  "raise_floor start end0 watermark [] = [(start, end0, watermark)]"
| "raise_floor start end0 watermark ((s, e, w) # floors) =
    (if s = start \<and> e = end0 then (s, e, max w watermark) # floors
     else (s, e, w) # raise_floor start end0 watermark floors)"

definition seal_history :: "RevisionMode \<Rightarrow> db \<Rightarrow> u64 \<Rightarrow> u64 \<Rightarrow> db" where
  "seal_history mode d current_before watermark =
    (let target_revision = max current_before watermark;
         d = tx_insert d T_meta META_CURRENT_REVISION (u64_bytes target_revision);
         previous_compacted = (case Option.bind (tx_get d T_meta META_COMPACT_REVISION) decode_u64 of Some v \<Rightarrow> v | None \<Rightarrow> 0);
         compacted = min (max previous_compacted watermark) target_revision;
         d = tx_insert d T_meta META_COMPACT_REVISION (u64_bytes compacted);
         previous_cursor = read_u64_row d DECISION_APPLIED_TS
     in tx_insert d T_kv DECISION_APPLIED_TS (u64_bytes (max previous_cursor watermark)))"

definition note_floor ::
    "ImportHistoryFloor list postcard \<Rightarrow> db \<Rightarrow> bytes \<Rightarrow> bytes \<Rightarrow> u64 \<Rightarrow> db result" where
  "note_floor pc d start end0 watermark =
    (let floors = (case tx_get d T_kv IMPORT_HISTORY_FLOORS of
                     None \<Rightarrow> Inr []
                   | Some bs \<Rightarrow> (case take_from_bytes pc bs of Some (fs, rest) \<Rightarrow> Inr fs | None \<Rightarrow> Inl DataCorruption))
     in bind_result floors (\<lambda>fs.
          case to_allocvec pc (raise_floor start end0 watermark fs) of
            None \<Rightarrow> Inl Internal
          | Some encoded \<Rightarrow> Inr (tx_insert d T_kv IMPORT_HISTORY_FLOORS encoded)))"

definition import_tx ::
    "ImportHistoryFloor list postcard \<Rightarrow> MvccStorage \<Rightarrow> (nat \<Rightarrow> bytes) \<Rightarrow> bytes \<Rightarrow> bytes \<Rightarrow> VersionedKv list \<Rightarrow>
     u64 \<Rightarrow> bool \<Rightarrow> bool \<Rightarrow> AppliedLogId \<Rightarrow> db \<Rightarrow> (u64 \<times> db) result" where
  "import_tx pc s nonces start end0 rows watermark seal_prior_history done0 applied d =
    (let current_before = current_revision_in_tx d (revision_mode s)
     in bind_result (import_rows s nonces 0 0 d rows) (\<lambda>(imported, d).
          bind_result (if \<not> done0 then Inr d
                       else if seal_prior_history then Inr (seal_history (revision_mode s) d current_before watermark)
                       else note_floor pc d start end0 watermark)
            (\<lambda>d. Inr (imported, put_applied d applied))))"

definition apply_range_import ::
    "ImportHistoryFloor list postcard \<Rightarrow> MvccStorage \<Rightarrow> (nat \<Rightarrow> bytes) \<Rightarrow> bytes \<Rightarrow> bytes \<Rightarrow> VersionedKv list \<Rightarrow>
     u64 \<Rightarrow> bool \<Rightarrow> bool \<Rightarrow> AppliedLogId \<Rightarrow> u64 result \<times> MvccStorage" where
  "apply_range_import pc s nonces start end0 rows watermark seal_prior_history done0 applied =
    (if revision_mode s \<noteq> CommitTs then (Inl FailedPrecondition, s)
     else if watermark = 0 \<and> rows \<noteq> [] then (Inl InvalidArgument, s)
     else case check_import_rows start end0 watermark [] rows of
       Inl e \<Rightarrow> (Inl e, s)
     | Inr _ \<Rightarrow> write_store s (import_tx pc s nonces start end0 rows watermark seal_prior_history done0 applied))"

fun remove_pairs :: "db \<Rightarrow> (bytes \<times> bytes) list \<Rightarrow> db" where
  "remove_pairs d [] = d"
| "remove_pairs d ((internal_key, meta_key) # rest) =
    remove_pairs (tx_remove (tx_remove d T_kv internal_key) T_kv_meta meta_key) rest"

definition stale_pairs :: "db \<Rightarrow> bytes \<Rightarrow> bytes \<Rightarrow> (bytes \<times> bytes) list" where
  "stale_pairs d start end0 =
    List.map_filter (\<lambda>(internal_key, v).
        map_option (\<lambda>user_key. (internal_key, encode_kv_meta_key user_key)) (decode_kv_key internal_key))
      (tx_iter_range d T_kv (encode_kv_key start) (if end0 = [] then [] else encode_kv_key end0))"

definition clear_imported_range ::
    "MvccStorage \<Rightarrow> bytes \<Rightarrow> bytes \<Rightarrow> AppliedLogId \<Rightarrow> nat result \<times> MvccStorage" where
  "clear_imported_range s start end0 applied =
    (if revision_mode s \<noteq> CommitTs then (Inl FailedPrecondition, s)
     else write_store s (\<lambda>d.
       let stale = stale_pairs d start end0
       in Inr (length stale, put_applied (remove_pairs d stale) applied)))"

definition last_applied_decision_ts :: "MvccStorage \<Rightarrow> u64" where
  "last_applied_decision_ts s = read_u64_row (backend s) DECISION_APPLIED_TS"

section \<open>The page loop\<close>

text \<open>
  The migrator reads the source between the writes of other commands, so the
  source is a sequence of stores, one per access; \<open>pending\<close> answers for the
  decision log which decision follows a cursor. The target is the store the
  import commands are applied to, with the log positions \<open>appl\<close>. A wait is
  bounded by the number of its polls.
\<close>

definition decision_pending :: "(u64 \<Rightarrow> u64 option result) \<Rightarrow> u64 \<Rightarrow> u64 \<Rightarrow> bool result" where
  "decision_pending pending cursor pinned =
    bind_result (pending cursor) (\<lambda>n. Inr (case n of Some nxt \<Rightarrow> nxt \<le> pinned | None \<Rightarrow> False))"

definition require_no_pending_decision ::
    "(u64 \<Rightarrow> u64 option result) \<Rightarrow> u64 \<Rightarrow> u64 \<Rightarrow> unit result" where
  "require_no_pending_decision pending cursor pinned =
    bind_result (decision_pending pending cursor pinned) (\<lambda>p. if p then Inl FailedPrecondition else Inr ())"

fun wait_for_decision_barrier ::
    "(u64 \<Rightarrow> u64 option result) \<Rightarrow> nat \<Rightarrow> (nat \<Rightarrow> MvccStorage) \<Rightarrow> nat \<Rightarrow> u64 \<Rightarrow> unit result \<times> nat" where
  "wait_for_decision_barrier pending 0 source t pinned =
    (case decision_pending pending (last_applied_decision_ts (source t)) pinned of
       Inl e \<Rightarrow> (Inl e, Suc t)
     | Inr p \<Rightarrow> (if p then Inl FailedPrecondition else Inr (), Suc t))"
| "wait_for_decision_barrier pending (Suc polls) source t pinned =
    (case decision_pending pending (last_applied_decision_ts (source t)) pinned of
       Inl e \<Rightarrow> (Inl e, Suc t)
     | Inr p \<Rightarrow> (if p then wait_for_decision_barrier pending polls source (Suc t) pinned else (Inr (), Suc t)))"

record import_env =
  ie_pending :: "u64 \<Rightarrow> u64 option result"
  ie_page_size :: nat
  ie_pc :: "ImportHistoryFloor list postcard"
  ie_nonces :: "nat \<Rightarrow> nat \<Rightarrow> bytes"
  ie_appl :: "nat \<Rightarrow> AppliedLogId"

fun import_pages_loop ::
    "nat \<Rightarrow> import_env \<Rightarrow> (nat \<Rightarrow> MvccStorage) \<Rightarrow> nat \<Rightarrow> MvccStorage \<Rightarrow> bytes \<Rightarrow> bytes \<Rightarrow> bool \<Rightarrow> bytes option \<Rightarrow>
     u64 option \<Rightarrow> (u64 result \<times> MvccStorage) option" where
  "import_pages_loop 0 env source t target start end0 seal0 after watermark = None"
| "import_pages_loop (Suc fuel) env source t target start end0 seal0 after watermark =
    (case export_range_page (source t) start end0 after (ie_page_size env) watermark of
       Inl e \<Rightarrow> Some (Inl e, target)
     | Inr page \<Rightarrow>
         let pinned = (case watermark of Some w \<Rightarrow> w | None \<Rightarrow> pg_revision page);
             guard = (if seal0 \<and> after = None
                      then require_no_pending_decision (ie_pending env) (last_applied_decision_ts (source (Suc t))) pinned
                      else Inr ())
         in case guard of
              Inl e \<Rightarrow> Some (Inl e, target)
            | Inr _ \<Rightarrow>
                let done0 = (pg_next_after page = None)
                in case apply_range_import (ie_pc env) target (ie_nonces env t) start end0 (pg_rows page) pinned
                          seal0 done0 (ie_appl env t) of
                     (Inl e, target') \<Rightarrow> Some (Inl e, target')
                   | (Inr _, target') \<Rightarrow>
                       (if done0 then Some (Inr pinned, target')
                        else import_pages_loop fuel env source (Suc (Suc t)) target' start end0 seal0
                               (pg_next_after page) (Some pinned)))"

definition import_pages ::
    "nat \<Rightarrow> nat \<Rightarrow> import_env \<Rightarrow> (nat \<Rightarrow> MvccStorage) \<Rightarrow> MvccStorage \<Rightarrow> bytes \<Rightarrow> bytes \<Rightarrow> bool \<Rightarrow> u64 option \<Rightarrow>
     (u64 result \<times> MvccStorage) option" where
  "import_pages fuel polls env source target start end0 seal0 expected_revision =
    (case clear_imported_range target start end0 (ie_appl env 0) of
       (Inl e, target) \<Rightarrow> Some (Inl e, target)
     | (Inr _, target) \<Rightarrow>
         (case (if expected_revision = None
                then wait_for_decision_barrier (ie_pending env) polls source 1 (current_revision (source 0))
                else (Inr (), 0)) of
            (Inl e, t) \<Rightarrow> Some (Inl e, target)
          | (Inr _, t) \<Rightarrow> import_pages_loop fuel env source t target start end0 seal0 None expected_revision))"

section \<open>What a page holds\<close>

definition meta_clean :: "MvccStorage \<Rightarrow> bool" where
  "meta_clean s \<longleftrightarrow> (\<forall>k. tx_get (backend s) T_kv_meta (encode_kv_meta_key k) \<noteq> None \<longrightarrow>
     kv_metadata_in_tx (backend s) k \<noteq> None)"

definition in_part :: "bytes \<Rightarrow> bytes \<Rightarrow> bytes \<Rightarrow> bool" where
  "in_part start end0 k \<longleftrightarrow> start \<le> k \<and> (end0 = [] \<or> k < end0)"

definition row_of :: "MvccStorage \<Rightarrow> bytes \<Rightarrow> VersionedKv" where
  "row_of s k = (k, the (live s k), the (kv_metadata_in_tx (backend s) k))"

definition scanned_keys :: "rows \<Rightarrow> bytes list" where
  "scanned_keys rs = List.map_filter (\<lambda>r. strip_prefix KV_META_PREFIX (fst r)) rs"

lemma scanned_keys_Cons [simp]:
  "scanned_keys [] = []"
  "scanned_keys (r # rs) =
    (case strip_prefix KV_META_PREFIX (fst r) of Some k \<Rightarrow> k # scanned_keys rs | None \<Rightarrow> scanned_keys rs)"
  by (simp_all add: scanned_keys_def List.map_filter_simps split: option.split)

lemma scanned_keys_iff: "k \<in> set (scanned_keys rs) \<longleftrightarrow> (\<exists>v. (encode_kv_meta_key k, v) \<in> set rs)"
  by (force simp: scanned_keys_def set_map_filter strip_prefix_Some encode_kv_meta_key_def)

lemma scanned_keys_sorted:
  assumes "keys_sorted rs"
  shows "sorted_wrt (<) (scanned_keys rs)"
  using assms
proof (induction rs)
  case (Cons r rs)
  have less: "fst r < fst r'" if "r' \<in> set rs" for r' using Cons.prems that by (auto simp: keys_sorted_def)
  have "k < k'" if "strip_prefix KV_META_PREFIX (fst r) = Some k" "k' \<in> set (scanned_keys rs)" for k k'
    using that less by (force simp: scanned_keys_iff strip_prefix_Some encode_kv_meta_key_def)
  then show ?case using Cons by (auto simp: keys_sorted_def split: option.split)
qed (simp add: scanned_keys_def)

lemma export_loop_spec:
  assumes ok: "mvcc_ok s" and good: "meta_clean s \<or> (\<exists>x. export_loop s start end0 limit acc rs = Inr x)"
    and rows: "\<forall>r \<in> set rs. tx_get (backend s) T_kv_meta (fst r) = Some (snd r)"
    and keys: "\<forall>k \<in> set (scanned_keys rs). in_part start end0 k" and acc: "0 < limit \<longrightarrow> length acc \<le> limit"
  shows "export_loop s start end0 limit acc rs =
    (let out = acc @ map (row_of s) (filter (live_key (backend s)) (scanned_keys rs))
     in if limit = 0 \<or> length out \<le> limit then Inr (out, False) else Inr (take limit out, True))"
  using rows keys acc good
proof (induction rs arbitrary: acc)
  case (Cons r rs)
  obtain mk mv where r: "r = (mk, mv)" by fastforce
  have IH: "export_loop s start end0 limit acc' rs =
    (let out = acc' @ map (row_of s) (filter (live_key (backend s)) (scanned_keys rs))
     in if limit = 0 \<or> length out \<le> limit then Inr (out, False) else Inr (take limit out, True))"
    if "0 < limit \<longrightarrow> length acc' \<le> limit"
      and "export_loop s start end0 limit acc (r # rs) = export_loop s start end0 limit acc' rs" for acc'
    using Cons.IH [OF _ _ that(1)] Cons.prems(1,2,4) that(2) by (simp del: export_loop.simps split: option.splits)
  show ?case
  proof (cases "strip_prefix KV_META_PREFIX mk")
    case None
    then show ?thesis using IH [OF Cons.prems(3)] by (simp add: r)
  next
    case (Some k)
    then have mk: "mk = encode_kv_meta_key k" by (simp add: strip_prefix_Some encode_kv_meta_key_def)
    have row: "tx_get (backend s) T_kv_meta (encode_kv_meta_key k) = Some mv" using Cons.prems(1) by (simp add: r mk)
    have part: "\<not> k < start" "(end0 \<noteq> [] \<and> end0 \<le> k) = False"
      using Cons.prems(2) Some by (auto simp: r in_part_def not_less not_le)
    have "KvMetadata_from_bytes mv \<noteq> None"
    proof
      assume none: "KvMetadata_from_bytes mv = None"
      then have "\<not> meta_clean s" using row by (auto simp: meta_clean_def kv_metadata_in_tx_def)
      moreover have "export_loop s start end0 limit acc (r # rs) = Inl DataCorruption"
        using part none by (simp add: r Some)
      ultimately show False using Cons.prems(4) by simp
    qed
    then obtain m where m: "KvMetadata_from_bytes mv = Some m" "kv_metadata_in_tx (backend s) k = Some m"
      using row by (auto simp: kv_metadata_in_tx_def)
    show ?thesis
    proof (cases "deleted m")
      case True
      then have "\<not> live_key (backend s) k" by (simp add: live_key_def m)
      then show ?thesis using True IH [OF Cons.prems(3)] by (simp add: r Some part m)
    next
      case False
      then have lk: "live_key (backend s) k" by (simp add: live_key_def m)
      obtain e v where e: "tx_get (backend s) T_kv (encode_kv_key k) = Some e" "read_value s (encode_kv_key k) e = Inr v"
        using mvcc_okD(3,4) [OF ok, of k] m(2) by auto
      have v: "live s k = Some v" using e m(2) False by (auto simp: live_Some_iff [OF ok])
      have ro: "row_of s k = (k, v, m)" by (simp add: row_of_def v m)
      have rd: "(if e = [] then Inr [] else decrypt_value s (encode_kv_key k) e) = Inr v"
        using e(2) by (simp add: read_value_def)
      show ?thesis
      proof (cases "0 < limit \<and> limit \<le> length acc")
        case True
        then show ?thesis using Cons.prems(3) False lk by (auto simp: r Let_def Some part m)
      next
        case False
        then have "0 < limit \<longrightarrow> length (acc @ [(k, v, m)]) \<le> limit" by auto
        from IH [OF this] show ?thesis
          using False \<open>\<not> deleted m\<close> lk by (cases "limit = 0") (simp_all add: r Let_def Some part m e(1) rd ro)
      qed
    qed
  qed
qed (auto simp: Let_def)

lemma prefix_between_meta:
  assumes "in_range (encode_kv_meta_key a) (encode_kv_meta_key b) mk"
  shows "prefix KV_META_PREFIX mk"
  using assms prefix_between [of KV_META_PREFIX mk b] order.trans [OF le_append [of KV_META_PREFIX a], of mk]
  by (auto simp: in_range_def encode_kv_meta_key_def KV_META_PREFIX_def ascii_def)

text \<open>The live keys of a part, in order.\<close>

definition part_keys :: "MvccStorage \<Rightarrow> bytes \<Rightarrow> bytes \<Rightarrow> bytes list" where
  "part_keys s lower end0 = filter (live_key (backend s)) (scanned_keys
    (tx_iter_range (backend s) T_kv_meta (encode_kv_meta_key lower) (if end0 = [] then [] else encode_kv_meta_key end0)))"

lemma encode_meta_less [simp]: "encode_kv_meta_key a < encode_kv_meta_key b \<longleftrightarrow> a < b"
  "encode_kv_meta_key a \<le> encode_kv_meta_key b \<longleftrightarrow> a \<le> b" "encode_kv_meta_key a \<noteq> []"
  by (simp_all add: encode_kv_meta_key_def KV_META_PREFIX_def ascii_def)

lemma part_keys_spec:
  assumes ok: "mvcc_ok s"
  shows "sorted_wrt (<) (part_keys s lower end0)"
    "k \<in> set (part_keys s lower end0) \<longleftrightarrow> in_part lower end0 k \<and> live s k \<noteq> None"
proof -
  note db = mvcc_okD(1) [OF ok]
  let ?rs = "tx_iter_range (backend s) T_kv_meta (encode_kv_meta_key lower) (if end0 = [] then [] else encode_kv_meta_key end0)"
  have "keys_sorted ?rs" by (rule tx_iter_range_sorted [OF db])
  then show "sorted_wrt (<) (part_keys s lower end0)"
    by (simp add: part_keys_def sorted_wrt_filter scanned_keys_sorted)
  have "k \<in> set (scanned_keys ?rs) \<longleftrightarrow>
      in_part lower end0 k \<and> tx_get (backend s) T_kv_meta (encode_kv_meta_key k) \<noteq> None"
    by (auto simp: scanned_keys_iff tx_iter_range_iff [OF db] in_range_def in_part_def)
  moreover have "tx_get (backend s) T_kv_meta (encode_kv_meta_key k) \<noteq> None" if "live_key (backend s) k"
    using that by (auto simp: live_key_def kv_metadata_in_tx_def split: bind_splits)
  ultimately show "k \<in> set (part_keys s lower end0) \<longleftrightarrow> in_part lower end0 k \<and> live s k \<noteq> None"
    unfolding live_key_iff [OF ok] part_keys_def by auto
qed

lemma export_range_page_eq:
  assumes ok: "mvcc_ok s" and good: "meta_clean s \<or> (\<exists>p. export_range_page s start end0 after limit expected = Inr p)" and low: "start \<le> export_lower start after"
    and exp: "case expected of Some w \<Rightarrow> current_revision s = w | None \<Rightarrow> True"
  shows "export_range_page s start end0 after limit expected =
    (let keys = part_keys s (export_lower start after) end0;
         page = (if limit = 0 then keys else take limit keys)
     in Inr \<lparr>pg_rows = map (row_of s) page,
            pg_next_after = (if length page < length keys then Some (List.last page) else None),
            pg_revision = current_revision s\<rparr>)"
proof -
  let ?low = "export_lower start after"
  let ?rs = "tx_iter_range (backend s) T_kv_meta (encode_kv_meta_key ?low) (if end0 = [] then [] else encode_kv_meta_key end0)"
  note db = mvcc_okD(1) [OF ok]
  show ?thesis
  proof (cases "end0 \<noteq> [] \<and> end0 \<le> ?low")
    case True
    have "k \<notin> set (part_keys s ?low end0)" for k
      using True unfolding part_keys_spec(2) [OF ok] by (auto simp: in_part_def)
    then have "part_keys s ?low end0 = []" by (metis list.set_intros(1) neq_Nil_conv)
    then show ?thesis using True by (simp add: export_range_page_def Let_def)
  next
    case False
    have rows: "\<forall>r \<in> set ?rs. tx_get (backend s) T_kv_meta (fst r) = Some (snd r)"
      using tx_iter_range_iff [OF db] by (metis prod.collapse)
    have "in_part start end0 k" if "k \<in> set (scanned_keys ?rs)" for k
    proof -
      have "?low \<le> k" "end0 = [] \<or> k < end0"
        using that by (auto simp: scanned_keys_iff tx_iter_range_iff [OF db] in_range_def split: if_splits)
      then show ?thesis using low by (auto simp: in_part_def)
    qed
    moreover have "meta_clean s \<or> (\<exists>x. export_loop s start end0 limit [] ?rs = Inr x)"
      using good False exp by (auto simp: export_range_page_def Let_def current_revision_eq split: option.splits if_splits)
    ultimately have loop: "export_loop s start end0 limit [] ?rs =
      (let out = map (row_of s) (part_keys s ?low end0)
       in if limit = 0 \<or> length out \<le> limit then Inr (out, False) else Inr (take limit out, True))"
      using export_loop_spec [OF ok _ rows, of start end0 limit "[]"] by (simp add: part_keys_def)
    have "fst (List.last (map (row_of s) xs)) = List.last xs" if "xs \<noteq> []" for xs
      using that by (simp add: last_map row_of_def)
    then show ?thesis
      using False exp loop by (auto simp: export_range_page_def Let_def current_revision_eq take_map split: option.splits)
  qed
qed

section \<open>What an import does\<close>

definition row_wins :: "db \<Rightarrow> VersionedKv \<Rightarrow> bool" where
  "row_wins d r = (case r of (k, v, m) \<Rightarrow>
    (case kv_metadata_in_tx d k of None \<Rightarrow> True | Some e \<Rightarrow> sint (mod_revision e) < sint (mod_revision m)))"

definition merge_rows :: "VersionedKv list \<Rightarrow> (bytes \<Rightarrow> 'a option) \<Rightarrow> (bytes \<times> KvMetadata \<Rightarrow> 'a) \<Rightarrow> bytes \<Rightarrow> 'a option" where
  "merge_rows ws old f k = (case map_of ws k of Some x \<Rightarrow> Some (f x) | None \<Rightarrow> old k)"

text \<open>The rows \<open>ws\<close> replace theirs; everything else stays.\<close>

definition rows_merged :: "MvccStorage \<Rightarrow> db \<Rightarrow> db \<Rightarrow> VersionedKv list \<Rightarrow> bool" where
  "rows_merged s d d' ws \<longleftrightarrow>
    mvcc_ok (s\<lparr>backend := d'\<rparr>) \<and>
    live (s\<lparr>backend := d'\<rparr>) = merge_rows ws (live (s\<lparr>backend := d\<rparr>)) fst \<and>
    kv_metadata_in_tx d' = merge_rows ws (kv_metadata_in_tx d) snd \<and>
    (\<forall>t k. t \<noteq> T_kv \<and> t \<noteq> T_kv_meta \<longrightarrow> tx_get d' t k = tx_get d t k) \<and>
    (\<forall>k. \<not> prefix KV_PREFIX k \<longrightarrow> tx_get d' T_kv k = tx_get d T_kv k)"

lemma rows_mergedD:
  assumes "rows_merged s d d' ws"
  shows "mvcc_ok (s\<lparr>backend := d'\<rparr>)" "live (s\<lparr>backend := d'\<rparr>) k = merge_rows ws (live (s\<lparr>backend := d\<rparr>)) fst k"
    "kv_metadata_in_tx d' k = merge_rows ws (kv_metadata_in_tx d) snd k"
    "t \<noteq> T_kv \<Longrightarrow> t \<noteq> T_kv_meta \<Longrightarrow> tx_get d' t k = tx_get d t k"
    "\<not> prefix KV_PREFIX k \<Longrightarrow> tx_get d' T_kv k = tx_get d T_kv k"
  using assms by (auto simp: rows_merged_def)

lemma rows_merged_Nil: "mvcc_ok (s\<lparr>backend := d\<rparr>) \<Longrightarrow> rows_merged s d d []"
  by (simp add: rows_merged_def merge_rows_def fun_eq_iff)

lemma rows_merged_Cons:
  assumes "rows_merged s d d1 [(k, v, m)]" "rows_merged s d1 d2 ws" "k \<notin> fst ` set ws"
  shows "rows_merged s d d2 ((k, v, m) # ws)"
proof -
  have "map_of ws k = None" using assms(3) by (simp add: map_of_eq_None_iff)
  then show ?thesis
    using assms(1,2) by (auto simp: rows_merged_def merge_rows_def fun_eq_iff split: option.split)
qed

lemma rows_merged_insert:
  assumes ok: "mvcc_ok (s\<lparr>backend := d\<rparr>)" and b: "barrier_ok s nonce" and m: "\<not> deleted m"
    and e: "encrypt_value s nonce (encode_kv_key k) v = Inr e"
  shows "rows_merged s d (put_metadata (tx_insert d T_kv (encode_kv_key k) e) k m) [(k, v, m)]"
proof -
  let ?d = "put_metadata (tx_insert d T_kv (encode_kv_key k) e) k m"
  have kv: "tx_get ?d T_kv ik = (if ik = encode_kv_key k then Some e else tx_get d T_kv ik)" for ik
    by (simp add: table_simps)
  have meta: "kv_metadata_in_tx ?d k' = (if k' = k then Some m else kv_metadata_in_tx d k')" for k'
    by (simp add: row_simps)
  have ok': "mvcc_ok (s\<lparr>backend := ?d\<rparr>)"
    using ok read_encrypted [OF b e] by (auto simp: mvcc_ok_def kv meta)
  have "live (s\<lparr>backend := ?d\<rparr>) k' = (if k' = k then Some v else live (s\<lparr>backend := d\<rparr>) k')" for k'
  proof (cases "k' = k")
    case True
    then show ?thesis using m read_encrypted [OF b e] by (simp add: live_Some_iff [OF ok'] kv meta)
  next
    case False
    then have "get (s\<lparr>backend := ?d\<rparr>) k' = get (s\<lparr>backend := d\<rparr>) k'"
      by (intro get_cong_rows) (simp_all add: kv meta)
    then show ?thesis using False by (simp add: live_def)
  qed
  then show ?thesis
    using ok' by (auto simp: rows_merged_def merge_rows_def fun_eq_iff meta kv table_simps)
qed

lemma import_rows_merged:
  assumes "mvcc_ok (s\<lparr>backend := d\<rparr>)" "\<And>i. barrier_ok s (nonces i)" "distinct (map fst rows)"
    and "\<forall>(k, v, m) \<in> set rows. \<not> deleted m" "import_rows s nonces i n d rows = Inr (n', d')"
  shows "rows_merged s d d' (filter (row_wins d) rows) \<and> n' = n + of_nat (length (filter (row_wins d) rows))"
  using assms(1,3-)
proof (induction rows arbitrary: i n d)
  case Nil
  then show ?case by (simp add: rows_merged_Nil)
next
  case (Cons r rows)
  obtain k v m where r: "r = (k, v, m)" by (cases r)
  have new: "k \<notin> fst ` set rows" "distinct (map fst rows)" "\<not> deleted m" "\<forall>(k, v, m) \<in> set rows. \<not> deleted m"
    using Cons.prems(2,3) by (auto simp: r)
  show ?case
  proof (cases "row_wins d r")
    case True
    then obtain e where e: "encrypt_value s (nonces i) (encode_kv_key k) v = Inr e"
      and rest: "import_rows s nonces (Suc i) (n + 1) (put_metadata (tx_insert d T_kv (encode_kv_key k) e) k m) rows = Inr (n', d')"
      using Cons.prems(4) by (auto simp: r row_wins_def Let_def split: option.splits if_splits)
    let ?d = "put_metadata (tx_insert d T_kv (encode_kv_key k) e) k m"
    note one = rows_merged_insert [OF Cons.prems(1) assms(2) new(3) e]
    have "row_wins ?d x = row_wins d x" if "x \<in> set rows" for x
    proof -
      obtain k' v' m' where x: "x = (k', v', m')" by (cases x)
      then have "k' \<noteq> k" using that new(1) by force
      then show ?thesis by (simp add: x row_wins_def row_simps)
    qed
    then have same: "filter (row_wins ?d) rows = filter (row_wins d) rows" by (simp cong: filter_cong)
    have IH: "rows_merged s ?d d' (filter (row_wins d) rows) \<and> n' = n + 1 + of_nat (length (filter (row_wins d) rows))"
      using Cons.IH [OF rows_mergedD(1) [OF one] new(2,4) rest] by (simp add: same)
    have "k \<notin> fst ` set (filter (row_wins d) rows)" using new(1) by auto
    then show ?thesis
      using rows_merged_Cons [OF one] IH True by (simp add: r)
  next
    case False
    then obtain x where x: "kv_metadata_in_tx d k = Some x" "\<not> sint (mod_revision x) < sint (mod_revision m)"
      by (auto simp: r row_wins_def split: option.splits)
    have "import_rows s nonces (Suc i) n d rows = Inr (n', d')"
    proof (cases "sint (mod_revision m) < sint (mod_revision x)")
      case True
      then show ?thesis using Cons.prems(4) x(1) by (simp add: r Let_def)
    next
      case False
      then have "sint (mod_revision x) = sint (mod_revision m)" using x(2) by simp
      then have "mod_revision x = mod_revision m" by (rule signed_word_eqI)
      then show ?thesis using Cons.prems(4) x(1) by (auto simp: r Let_def split: option.splits if_splits)
    qed
    from Cons.IH [OF Cons.prems(1) new(2,4) this] show ?thesis using False by simp
  qed
qed

definition importable :: "bytes \<Rightarrow> bytes \<Rightarrow> u64 \<Rightarrow> VersionedKv \<Rightarrow> bool" where
  "importable start end0 watermark r = (case r of (k, v, m) \<Rightarrow>
    in_part start end0 k \<and> \<not> reserved_key k \<and> \<not> deleted m \<and>
    0 < sint (mod_revision m) \<and> mod_revision m \<le> watermark \<and>
    0 < sint (create_revision m) \<and> sint (create_revision m) \<le> sint (mod_revision m) \<and> 0 < sint (version m))"

lemma check_import_rows_iff:
  "check_import_rows start end0 w seen rows = Inr () \<longleftrightarrow>
    (\<forall>r \<in> set rows. importable start end0 w r) \<and> distinct (map fst rows) \<and> fst ` set rows \<inter> set seen = {}"
proof (induction rows arbitrary: seen)
  case (Cons r rows)
  obtain k v m where r: "r = (k, v, m)" by (cases r)
  show ?case
    by (simp add: r Cons.IH importable_def in_part_def) (auto simp: not_less not_le)
qed simp

lemma remove_pairs_rows:
  assumes "db_ok d"
  shows "db_ok (remove_pairs d ps)"
    "tx_get (remove_pairs d ps) T_kv ik = (if ik \<in> fst ` set ps then None else tx_get d T_kv ik)"
    "tx_get (remove_pairs d ps) T_kv_meta mk = (if mk \<in> snd ` set ps then None else tx_get d T_kv_meta mk)"
    "t \<noteq> T_kv \<Longrightarrow> t \<noteq> T_kv_meta \<Longrightarrow> tx_get (remove_pairs d ps) t k = tx_get d t k"
  using assms by (induction d ps rule: remove_pairs.induct) (auto simp: table_simps)

lemma encode_kv_key_order [simp]:
  "encode_kv_key a \<le> encode_kv_key b \<longleftrightarrow> a \<le> b" "encode_kv_key a < encode_kv_key b \<longleftrightarrow> a < b" "encode_kv_key a \<noteq> []"
  by (simp_all add: encode_kv_key_def KV_PREFIX_def ascii_def)

lemma stale_pairs_iff:
  assumes "db_ok d"
  shows "(ik, mk) \<in> set (stale_pairs d start end0) \<longleftrightarrow>
    (\<exists>k. ik = encode_kv_key k \<and> mk = encode_kv_meta_key k \<and> in_part start end0 k \<and> tx_get d T_kv ik \<noteq> None)"
proof -
  have "(ik, mk) \<in> set (stale_pairs d start end0) \<longleftrightarrow>
    (\<exists>v k. (ik, v) \<in> set (tx_iter_range d T_kv (encode_kv_key start) (if end0 = [] then [] else encode_kv_key end0)) \<and>
       ik = encode_kv_key k \<and> mk = encode_kv_meta_key k)"
    by (auto simp: stale_pairs_def set_map_filter decode_kv_key_def strip_prefix_Some encode_kv_key_def
        split: option.splits intro!: bexI [rotated])
  then show ?thesis by (auto simp: tx_iter_range_iff [OF assms] in_range_def in_part_def split: if_splits)
qed

text \<open>Clearing a part removes its keys and nothing else.\<close>

lemma clear_imported_range_spec:
  assumes ok: "mvcc_ok s" and mode: "revision_mode s = CommitTs"
    and run: "clear_imported_range s start end0 a = (res, s')"
  shows "mvcc_ok s'" "barrier s' = barrier s" "revision_mode s' = CommitTs"
    "live s' k = (if in_part start end0 k then None else live s k)"
    "kv_metadata_in_tx (backend s') k = (if in_part start end0 k then None else kv_metadata_in_tx (backend s) k)"
    "\<exists>n. res = Inr n"
proof -
  let ?ps = "stale_pairs (backend s) start end0" and ?d = "remove_pairs (backend s) (stale_pairs (backend s) start end0)"
  note db = mvcc_okD(1) [OF ok]
  have s': "s' = s\<lparr>backend := put_applied ?d a\<rparr>" "\<exists>n. res = Inr n"
    using run mode by (auto simp: clear_imported_range_def write_store_def backend_write_def Let_def)
  show "\<exists>n. res = Inr n" by (rule s'(2))
  show "barrier s' = barrier s" "revision_mode s' = CommitTs" using mode by (simp_all add: s')
  note rm = remove_pairs_rows [OF db, where ps = ?ps]
  have fst_ps: "encode_kv_key k \<in> fst ` set ?ps \<longleftrightarrow> in_part start end0 k \<and> tx_get (backend s) T_kv (encode_kv_key k) \<noteq> None" for k
    using stale_pairs_iff [OF db] by (force simp: image_iff)
  have snd_ps: "encode_kv_meta_key k \<in> snd ` set ?ps \<longleftrightarrow> in_part start end0 k \<and> tx_get (backend s) T_kv (encode_kv_key k) \<noteq> None" for k
    using stale_pairs_iff [OF db] by (force simp: image_iff)
  have kv: "tx_get (backend s') T_kv (encode_kv_key k) = (if in_part start end0 k then None else tx_get (backend s) T_kv (encode_kv_key k))" for k
    by (auto simp: s' table_simps rm fst_ps)
  have gone: "kv_metadata_in_tx (backend s) k = None" if "tx_get (backend s) T_kv (encode_kv_key k) = None" for k
    using mvcc_okD(4) [OF ok, of k] that by blast
  have meta: "kv_metadata_in_tx (backend s') k = (if in_part start end0 k then None else kv_metadata_in_tx (backend s) k)" for k
    using gone [of k] snd_ps [of k] rm(3) [of "encode_kv_meta_key k"]
    by (simp add: s' row_simps) (auto simp: kv_metadata_in_tx_def)
  show "kv_metadata_in_tx (backend s') k = (if in_part start end0 k then None else kv_metadata_in_tx (backend s) k)" by (rule meta)
  have rd: "read_value s' = read_value s"
    by (simp add: fun_eq_iff read_value_def decrypt_value_def s')
  show ok': "mvcc_ok s'"
    unfolding mvcc_ok_def
  proof (intro conjI allI impI)
    show "db_ok (backend s')" using rm(1) by (simp add: s')
    fix k
    show "kv_metadata_in_tx (backend s') k \<noteq> None" if "tx_get (backend s') T_kv (encode_kv_key k) = Some e" for e
      using that mvcc_okD(2) [OF ok, of k e] by (simp add: kv meta split: if_splits)
    show "\<exists>v. read_value s' (encode_kv_key k) e = Inr v" if "tx_get (backend s') T_kv (encode_kv_key k) = Some e" for e
      using that mvcc_okD(3) [OF ok, of k e] by (simp add: kv rd split: if_splits)
    show "tx_get (backend s') T_kv (encode_kv_key k) \<noteq> None" if "kv_metadata_in_tx (backend s') k \<noteq> None"
      using that mvcc_okD(4) [OF ok, of k] by (simp add: kv meta split: if_splits)
  qed
  show "live s' k = (if in_part start end0 k then None else live s k)"
  proof (cases "in_part start end0 k")
    case True
    then have "live s' k \<noteq> Some v" for v by (simp add: live_Some_iff [OF ok'] kv)
    then show ?thesis using True by (cases "live s' k") auto
  next
    case False
    then have "get s' k = get s k" by (intro get_cong_rows) (simp_all add: kv meta, simp add: s')
    then show ?thesis using False by (simp add: live_def)
  qed
qed

lemma import_tail_frame:
  assumes "(if \<not> done0 then Inr d else if seal0 then Inr (seal_history mode d c w) else note_floor pc d start end0 w) = Inr d'"
  shows "db_ok d \<Longrightarrow> db_ok d'" "tx_get d' T_kv (encode_kv_key k) = tx_get d T_kv (encode_kv_key k)"
    "kv_metadata_in_tx d' k = kv_metadata_in_tx d k"
proof -
  have "encode_kv_key k \<noteq> DECISION_APPLIED_TS" "encode_kv_key k \<noteq> IMPORT_HISTORY_FLOORS" for k
    by (simp_all add: encode_kv_key_def key_defs ascii_def)
  then show "db_ok d \<Longrightarrow> db_ok d'" "tx_get d' T_kv (encode_kv_key k) = tx_get d T_kv (encode_kv_key k)"
    "kv_metadata_in_tx d' k = kv_metadata_in_tx d k"
    using assms
    by (auto simp: seal_history_def note_floor_def Let_def table_simps row_simps split: if_splits option.splits)
qed

lemma apply_range_import_spec:
  assumes ok: "mvcc_ok s" and b: "\<And>i. barrier_ok s (nonces i)"
    and run: "apply_range_import pc s nonces start end0 rows w seal0 done0 a = (Inr n, s')"
  shows "\<forall>r \<in> set rows. importable start end0 w r" "distinct (map fst rows)"
    "mvcc_ok s'" "barrier s' = barrier s" "revision_mode s' = revision_mode s"
    "live s' = merge_rows (filter (row_wins (backend s)) rows) (live s) fst"
    "kv_metadata_in_tx (backend s') = merge_rows (filter (row_wins (backend s)) rows) (kv_metadata_in_tx (backend s)) snd"
    "n = of_nat (length (filter (row_wins (backend s)) rows))"
proof -
  have chk: "check_import_rows start end0 w [] rows = Inr ()"
    using run by (auto simp: apply_range_import_def split: if_splits sum.splits)
  then show imp: "\<forall>r \<in> set rows. importable start end0 w r" and dist: "distinct (map fst rows)"
    by (simp_all add: check_import_rows_iff)
  have "write_store s (import_tx pc s nonces start end0 rows w seal0 done0 a) = (Inr n, s')"
    using run chk by (auto simp: apply_range_import_def split: if_splits)
  then obtain d' where tx: "import_tx pc s nonces start end0 rows w seal0 done0 a (backend s) = Inr (n, d')"
    and s0: "s' = s\<lparr>backend := d'\<rparr>"
    by (auto simp: write_store_def backend_write_def split: sum.splits)
  obtain d1 d2 where rows: "import_rows s nonces 0 0 (backend s) rows = Inr (n, d1)"
    and tail: "(if \<not> done0 then Inr d1 else if seal0 then Inr (seal_history (revision_mode s) d1
        (current_revision_in_tx (backend s) (revision_mode s)) w) else note_floor pc d1 start end0 w) = Inr d2"
    and d': "d' = put_applied d2 a"
    using tx by (auto simp: import_tx_def Let_def simp del: if_split)
  note s' = s0 [unfolded d']
  have ok0: "mvcc_ok (s\<lparr>backend := backend s\<rparr>)" using ok by simp
  have alive: "\<forall>(k, v, m) \<in> set rows. \<not> deleted m" using imp by (auto simp: importable_def)
  have merged: "rows_merged s (backend s) d1 (filter (row_wins (backend s)) rows)"
    and n: "n = of_nat (length (filter (row_wins (backend s)) rows))"
    using import_rows_merged [OF ok0 b dist alive rows] by simp_all
  note md = rows_mergedD [OF merged] and fr = import_tail_frame [OF tail]
  have "db_ok (put_applied d2 a)" using fr(1) mvcc_okD(1) [OF md(1)] by simp
  note keep = mvcc_ok_frame [OF md(1) this]
  have "mvcc_ok (s\<lparr>backend := put_applied d2 a\<rparr>)" "live (s\<lparr>backend := put_applied d2 a\<rparr>) = live (s\<lparr>backend := d1\<rparr>)"
    using keep fr(2,3) by (simp_all add: table_simps row_simps)
  then show "mvcc_ok s'" "live s' = merge_rows (filter (row_wins (backend s)) rows) (live s) fst"
    using md(2) by (simp_all add: s' fun_eq_iff)
  show "kv_metadata_in_tx (backend s') = merge_rows (filter (row_wins (backend s)) rows) (kv_metadata_in_tx (backend s)) snd"
    using md(3) fr(3) by (simp add: s' row_simps fun_eq_iff)
  show "barrier s' = barrier s" "revision_mode s' = revision_mode s"
    "n = of_nat (length (filter (row_wins (backend s)) rows))" by (simp_all add: s' n)
qed

section \<open>The page loop moves a snapshot\<close>

lemma snoc0_le: "a @ [0] \<le> k \<longleftrightarrow> a < k" for a :: bytes
proof (induction a arbitrary: k)
  case Nil
  then show ?case by (cases k) (auto simp: word_gt_0)
next
  case (Cons x a)
  then show ?case by (cases k) auto
qed

lemma strict_sorted_unique:
  "sorted_wrt (<) xs \<Longrightarrow> sorted_wrt (<) ys \<Longrightarrow> set xs = set ys \<Longrightarrow> xs = ys" for xs :: "bytes list"
  by (simp add: strict_sorted_iff sorted_distinct_set_unique)

lemma sorted_le_last: "sorted xs \<Longrightarrow> x \<in> set xs \<Longrightarrow> x \<le> List.last xs"
  by (induction xs) auto

lemma sorted_take_last:
  fixes k :: bytes
  assumes "sorted_wrt (<) ks" "k \<in> set ks" "0 < n"
  shows "k \<le> List.last (take n ks) \<longleftrightarrow> k \<in> set (take n ks)"
proof -
  have ne: "take n ks \<noteq> []" using assms(2,3) by auto
  have ks: "ks = take n ks @ drop n ks" by simp
  have low: "x \<le> List.last (take n ks)" if "x \<in> set (take n ks)" for x
  proof -
    have "sorted_wrt (<) (take n ks)" using assms(1) by (rule sorted_wrt_take)
    then have "sorted (take n ks)" using strict_sorted_iff by blast
    then show ?thesis using that by (rule sorted_le_last)
  qed
  have high: "List.last (take n ks) < x" if "x \<in> set (drop n ks)" for x
    using assms(1) that ne by (subst (asm) ks) (simp only: sorted_wrt_append, meson last_in_set)
  have "k \<in> set (take n ks) \<or> k \<in> set (drop n ks)" using assms(2) by (metis append_take_drop_id set_append Un_iff)
  then show ?thesis using low high by (metis leD)
qed

text \<open>What the target holds when the keys below \<open>lower\<close> were moved from the snapshot \<open>S\<close>.\<close>

definition moved :: "MvccStorage \<Rightarrow> MvccStorage \<Rightarrow> MvccStorage \<Rightarrow> bytes \<Rightarrow> bytes \<Rightarrow> (bytes \<Rightarrow> bool) \<Rightarrow> bool" where
  "moved T0 S T start end0 todo \<longleftrightarrow>
    mvcc_ok T \<and> barrier T = barrier T0 \<and> revision_mode T = revision_mode T0 \<and>
    (\<forall>k. in_part start end0 k \<longrightarrow>
      (if todo k then kv_metadata_in_tx (backend T) k = None
       else live T k = live S k \<and> (live S k \<noteq> None \<longrightarrow> kv_metadata_in_tx (backend T) k = kv_metadata_in_tx (backend S) k))) \<and>
    (\<forall>k. \<not> in_part start end0 k \<longrightarrow>
      live T k = live T0 k \<and> kv_metadata_in_tx (backend T) k = kv_metadata_in_tx (backend T0) k)"

lemma live_no_meta: "mvcc_ok s \<Longrightarrow> kv_metadata_in_tx (backend s) k = None \<Longrightarrow> live s k = None"
  by (metis live_Some_iff not_None_eq option.distinct(1))

lemma map_of_row_of: "map_of (map (row_of S) ks) k = (if k \<in> set ks then Some (snd (row_of S k)) else None)"
  by (induction ks) (auto simp: row_of_def)

lemma moved_page:
  assumes mv: "moved T0 S T start end0 todo" and b: "\<And>i. barrier_ok T0 (nonces i)" and ok: "mvcc_ok S"
    and page: "\<And>k. k \<in> set page \<Longrightarrow> in_part start end0 k \<and> todo k \<and> live S k \<noteq> None"
    and todo': "\<And>k. in_part start end0 k \<Longrightarrow> todo' k \<longleftrightarrow> todo k \<and> k \<notin> rest"
    and rest: "\<And>k. in_part start end0 k \<Longrightarrow> todo k \<Longrightarrow> k \<in> rest \<Longrightarrow> k \<notin> set page \<Longrightarrow> live S k = None"
    and sub: "set page \<subseteq> rest"
    and run: "apply_range_import pc T nonces start end0 (map (row_of S) page) w seal0 done0 a = (Inr n, T')"
  shows "moved T0 S T' start end0 todo'"
proof -
  have T: "mvcc_ok T" "barrier T = barrier T0" "revision_mode T = revision_mode T0" using mv by (simp_all add: moved_def)
  have bT: "\<And>i. barrier_ok T (nonces i)" using b T(2) by (simp add: barrier_ok_def)
  note sp = apply_range_import_spec [OF T(1) bT run]
  have "row_wins (backend T) (row_of S k)" if "k \<in> set page" for k
    using mv page [OF that] by (auto simp: row_wins_def row_of_def moved_def split: option.split)
  then have all: "filter (row_wins (backend T)) (map (row_of S) page) = map (row_of S) page"
    by (auto intro!: filter_True)
  have live': "live T' k = (if k \<in> set page then live S k else live T k)" for k
    using page [of k] by (auto simp: sp(6) all merge_rows_def map_of_row_of row_of_def)
  have meta': "kv_metadata_in_tx (backend T') k =
      (if k \<in> set page then kv_metadata_in_tx (backend S) k else kv_metadata_in_tx (backend T) k)" for k
  proof -
    have "kv_metadata_in_tx (backend S) k \<noteq> None" if "k \<in> set page"
      using page [OF that] live_no_meta [OF ok, of k] by (cases "kv_metadata_in_tx (backend S) k") auto
    then show ?thesis by (auto simp: sp(7) all merge_rows_def map_of_row_of row_of_def)
  qed
  show ?thesis
    unfolding moved_def
  proof (intro conjI allI impI)
    fix k assume k: "in_part start end0 k"
    show "if todo' k then kv_metadata_in_tx (backend T') k = None
       else live T' k = live S k \<and> (live S k \<noteq> None \<longrightarrow> kv_metadata_in_tx (backend T') k = kv_metadata_in_tx (backend S) k)"
    proof (cases "k \<in> set page")
      case True
      then have "\<not> todo' k" using todo' [OF k] sub by auto
      then show ?thesis using True by (simp add: live' meta')
    next
      case False
      have old: "if todo k then kv_metadata_in_tx (backend T) k = None
         else live T k = live S k \<and> (live S k \<noteq> None \<longrightarrow> kv_metadata_in_tx (backend T) k = kv_metadata_in_tx (backend S) k)"
        using mv k by (simp add: moved_def)
      show ?thesis
      proof (cases "todo k \<and> k \<in> rest")
        case True
        then have "live S k = None" "\<not> todo' k" "kv_metadata_in_tx (backend T) k = None"
          using rest [OF k] False todo' [OF k] old by simp_all
        then show ?thesis using False live_no_meta [OF T(1), of k] by (simp add: live')
      next
        case not: False
        then have "todo' k \<longleftrightarrow> todo k" using todo' [OF k] by blast
        then show ?thesis using False old by (simp add: live' meta')
      qed
    qed
  qed (use sp(3-5) T mv page in \<open>auto simp: moved_def live' meta'\<close>)
qed

definition same_rows :: "MvccStorage \<Rightarrow> MvccStorage \<Rightarrow> bool" where
  "same_rows s s' \<longleftrightarrow> live s' = live s \<and>
    (\<forall>k. live s k \<noteq> None \<longrightarrow> kv_metadata_in_tx (backend s') k = kv_metadata_in_tx (backend s) k)"

lemma same_rows_page:
  assumes "same_rows S s" "mvcc_ok S" "mvcc_ok s"
  shows "part_keys s lower end0 = part_keys S lower end0"
    "k \<in> set (part_keys S lower end0) \<Longrightarrow> row_of s k = row_of S k"
proof -
  have "set (part_keys s lower end0) = set (part_keys S lower end0)"
    using assms(1) by (intro set_eqI) (simp only: part_keys_spec(2) [OF assms(2)] part_keys_spec(2) [OF assms(3)] same_rows_def)
  then show "part_keys s lower end0 = part_keys S lower end0"
    by (rule strict_sorted_unique [OF part_keys_spec(1) [OF assms(3)] part_keys_spec(1) [OF assms(2)]])
  show "row_of s k = row_of S k" if "k \<in> set (part_keys S lower end0)"
    using that assms(1) unfolding part_keys_spec(2) [OF assms(2)] by (simp add: row_of_def same_rows_def)
qed

text \<open>
  What the page loop relies on: the source is always well formed, and two reads at
  one revision see the same rows. The runs of a region's commands that give it are
  in \<open>Move_Source\<close>.
\<close>

definition source_ok :: "(nat \<Rightarrow> MvccStorage) \<Rightarrow> bool" where
  "source_ok source \<longleftrightarrow> (\<forall>t. mvcc_ok (source t)) \<and>
    (\<forall>t t'. current_revision (source t) = current_revision (source t') \<longrightarrow> same_rows (source t) (source t'))"

lemma export_pinned:
  assumes src: "source_ok source" and S: "S = source t0" "w = current_revision S"
    and low: "start \<le> export_lower start after"
    and run: "export_range_page (source t) start end0 after limit watermark = Inr page"
    and w: "watermark = Some w \<or> watermark = None \<and> t = t0"
  shows "\<exists>n. pg_rows page = map (row_of S) (take n (part_keys S (export_lower start after) end0)) \<and>
    (if n < length (part_keys S (export_lower start after) end0)
     then 0 < n \<and> pg_next_after page = Some (List.last (take n (part_keys S (export_lower start after) end0)))
     else pg_next_after page = None) \<and> (watermark = None \<longrightarrow> pg_revision page = w)"
proof -
  let ?low = "export_lower start after"
  have okt: "mvcc_ok (source t)" "mvcc_ok S" using src by (simp_all add: source_ok_def S)
  show ?thesis
  proof (cases "current_revision (source t) = w")
    case True
    then have same: "same_rows S (source t)" using src by (simp add: source_ok_def S)
    note pg = same_rows_page [OF same okt(2,1), where lower = ?low and ?end0.0 = end0]
    let ?ks = "part_keys S ?low end0" and ?n = "if limit = 0 then length (part_keys S ?low end0) else limit"
    have "case watermark of Some w \<Rightarrow> current_revision (source t) = w | None \<Rightarrow> True" using w True by (auto split: option.split)
    moreover have "meta_clean (source t) \<or> (\<exists>p. export_range_page (source t) start end0 after limit watermark = Inr p)"
      using run by blast
    ultimately have eq: "export_range_page (source t) start end0 after limit watermark =
      (let keys = part_keys (source t) ?low end0; page = (if limit = 0 then keys else take limit keys)
       in Inr \<lparr>pg_rows = map (row_of (source t)) page,
              pg_next_after = (if length page < length keys then Some (List.last page) else None),
              pg_revision = current_revision (source t)\<rparr>)"
      using export_range_page_eq [OF okt(1) _ low] by blast
    have rows: "map (row_of (source t)) (take m ?ks) = map (row_of S) (take m ?ks)" for m
      using pg(2) by (auto dest: in_set_takeD)
    have p: "page = \<lparr>pg_rows = map (row_of S) (take ?n ?ks),
        pg_next_after = (if length (take ?n ?ks) < length ?ks then Some (List.last (take ?n ?ks)) else None), pg_revision = w\<rparr>"
      using run True rows [of ?n] rows [of limit] rows [of "length ?ks"] unfolding eq pg(1) by (auto simp: Let_def split: if_splits)
    show ?thesis by (intro exI [of _ ?n]) (auto simp: p)
  next
    case False
    then have ws: "watermark = Some w" using w S by auto
    then have e: "end0 \<noteq> [] \<and> end0 \<le> ?low"
      using run False by (auto simp: export_range_page_def Let_def current_revision_eq split: if_splits)
    then have p: "page = \<lparr>pg_rows = [], pg_next_after = None, pg_revision = current_revision (source t)\<rparr>"
      using run by (simp add: export_range_page_def Let_def)
    have "k \<notin> set (part_keys S ?low end0)" for k
      using e unfolding part_keys_spec(2) [OF okt(2)] by (auto simp: in_part_def)
    then have "part_keys S ?low end0 = []" by (metis list.set_intros(1) neq_Nil_conv)
    then show ?thesis by (simp add: p ws)
  qed
qed

lemma import_pages_loop_moved:
  assumes src: "source_ok source" and S: "S = source t0" "w = current_revision S"
    and b: "\<And>t i. barrier_ok T0 (ie_nonces env t i)"
    and mv: "moved T0 S T start end0 (\<lambda>k. export_lower start after \<le> k)"
    and w: "watermark = Some w \<or> watermark = None \<and> t = t0" and low: "start \<le> export_lower start after"
    and run: "import_pages_loop fuel env source t T start end0 seal0 after watermark = Some (Inr w', T')"
  shows "w' = w \<and> moved T0 S T' start end0 (\<lambda>_. False) \<and>
    (\<forall>k. in_part start end0 k \<and> export_lower start after \<le> k \<and> live S k \<noteq> None \<longrightarrow> \<not> reserved_key k)"
  using mv w low run
proof (induction fuel arbitrary: t T after watermark)
  case (Suc fuel)
  let ?low = "export_lower start after"
  let ?ks = "part_keys S ?low end0"
  have ok: "mvcc_ok S" using src by (simp add: source_ok_def S)
  note pk = part_keys_spec [OF ok, where lower = ?low and ?end0.0 = end0]
  obtain page where page: "export_range_page (source t) start end0 after (ie_page_size env) watermark = Inr page"
    using Suc.prems(4) by (auto split: sum.splits)
  obtain n where n: "pg_rows page = map (row_of S) (take n ?ks)"
      "if n < length ?ks then 0 < n \<and> pg_next_after page = Some (List.last (take n ?ks)) else pg_next_after page = None"
      "watermark = None \<longrightarrow> pg_revision page = w"
    using export_pinned [OF src S Suc.prems(3) page Suc.prems(2)] by blast
  let ?done = "pg_next_after page = None"
  have pinned: "(case watermark of Some w \<Rightarrow> w | None \<Rightarrow> pg_revision page) = w" using Suc.prems(2) n(3) by (auto split: option.split)
  obtain x T1 where imp: "apply_range_import (ie_pc env) T (ie_nonces env t) start end0 (map (row_of S) (take n ?ks)) w
        seal0 ?done (ie_appl env t) = (Inr x, T1)"
    and rest: "if ?done then w' = w \<and> T' = T1 else
      import_pages_loop fuel env source (Suc (Suc t)) T1 start end0 seal0 (pg_next_after page) (Some w) = Some (Inr w', T')"
    using Suc.prems(4) page pinned n(1) by (auto simp: Let_def split: sum.splits prod.splits if_splits)
  have T: "mvcc_ok T" "\<And>i. barrier_ok T (ie_nonces env t i)"
    using Suc.prems(1) b by (simp_all add: moved_def barrier_ok_def)
  have fresh: "\<not> reserved_key k" if "k \<in> set (take n ?ks)" for k
    using apply_range_import_spec(1) [OF T imp] that by (auto simp: importable_def row_of_def)
  have inp: "in_part start end0 k \<and> ?low \<le> k \<and> live S k \<noteq> None" if "k \<in> set (take n ?ks)" for k
    using in_set_takeD [OF that] Suc.prems(3) unfolding pk(2) by (auto simp: in_part_def)
  have mem: "k \<in> set ?ks" if "in_part start end0 k" "?low \<le> k" "live S k \<noteq> None" for k
    using that unfolding pk(2) by (auto simp: in_part_def)
  show ?case
  proof (cases "n < length ?ks")
    case False
    then have all: "take n ?ks = ?ks" and dn: "?done" using n(2) by simp_all
    have "moved T0 S T1 start end0 (\<lambda>_. False)"
    proof (rule moved_page [OF Suc.prems(1) b ok inp _ _ _ imp, where rest = "{k. ?low \<le> k}"])
      show "live S k = None" if "in_part start end0 k" "?low \<le> k" "k \<notin> set (take n ?ks)" for k
        using that mem [of k] all by (cases "live S k") auto
      show "set (take n ?ks) \<subseteq> {k. ?low \<le> k}" using inp by auto
    qed auto
    then show ?thesis using rest dn mem fresh by (auto simp: all)
  next
    case True
    then have a: "0 < n" "pg_next_after page = Some (List.last (take n ?ks))" using n(2) by simp_all
    let ?a = "List.last (take n ?ks)"
    have ne: "take n ?ks \<noteq> []" using True a(1) by auto
    have "?a \<in> set (take n ?ks)" using ne by (rule last_in_set)
    then have "start \<le> ?a" "?low \<le> ?a" using inp by (auto simp: in_part_def)
    then have low': "export_lower start (Some ?a) = ?a @ [0]" by (simp add: export_lower_def)
    have next0: "export_lower start (Some ?a) \<le> k \<longleftrightarrow> ?a < k" for k by (simp add: low' snoc0_le)
    have le: "k \<le> ?a \<longleftrightarrow> k \<in> set (take n ?ks)" if "k \<in> set ?ks" for k
      by (rule sorted_take_last [OF pk(1) that a(1)])
    have "moved T0 S T1 start end0 (\<lambda>k. export_lower start (Some ?a) \<le> k)"
    proof (rule moved_page [OF Suc.prems(1) b ok inp _ _ _ imp, where rest = "{k. k \<le> ?a}"])
      show "set (take n ?ks) \<subseteq> {k. k \<le> ?a}" using le by (auto dest: in_set_takeD)
      show "live S k = None" if "in_part start end0 k" "?low \<le> k" "k \<in> {k. k \<le> ?a}" "k \<notin> set (take n ?ks)" for k
        using that mem [of k] le [of k] by (cases "live S k") auto
      show "export_lower start (Some ?a) \<le> k \<longleftrightarrow> ?low \<le> k \<and> k \<notin> {k. k \<le> ?a}" if "in_part start end0 k" for k
        using \<open>?low \<le> ?a\<close> by (auto simp: next0 not_le)
    qed
    moreover have "start \<le> export_lower start (Some ?a)"
      using \<open>start \<le> ?a\<close> by (simp add: low' snoc0_le order_le_less_trans le_append order_trans [OF _ le_append])
    ultimately have IH: "w' = w \<and> moved T0 S T' start end0 (\<lambda>_. False) \<and>
      (\<forall>k. in_part start end0 k \<and> export_lower start (Some ?a) \<le> k \<and> live S k \<noteq> None \<longrightarrow> \<not> reserved_key k)"
      using Suc.IH [of T1 "Some ?a" "Some w" "Suc (Suc t)"] rest a(2) by simp
    have "\<not> reserved_key k" if k: "in_part start end0 k" "?low \<le> k" "live S k \<noteq> None" for k
    proof (cases "k \<le> ?a")
      case True
      then show ?thesis using fresh le [OF mem [OF k]] by blast
    next
      case False
      then show ?thesis using IH k by (simp add: next0)
    qed
    then show ?thesis using IH by blast
  qed
qed simp

lemma import_pages_moved:
  assumes src: "source_ok source" and ok: "mvcc_ok T0" and mode: "revision_mode T0 = CommitTs"
    and b: "\<And>t i. barrier_ok T0 (ie_nonces env t i)"
    and pin: "expected = None \<or> (\<exists>t. expected = Some (current_revision (source t)))"
    and run: "import_pages fuel polls env source T0 start end0 seal0 expected = Some (Inr w, T')"
  shows "\<exists>t. w = current_revision (source t) \<and> moved T0 (source t) T' start end0 (\<lambda>_. False) \<and>
    (\<forall>k. in_part start end0 k \<and> live (source t) k \<noteq> None \<longrightarrow> \<not> reserved_key k)"
proof -
  obtain res T1 where clr: "clear_imported_range T0 start end0 (ie_appl env 0) = (res, T1)" by fastforce
  note cl = clear_imported_range_spec [OF ok mode clr]
  obtain t1 where loop: "import_pages_loop fuel env source t1 T1 start end0 seal0 None expected = Some (Inr w, T')"
    using run clr cl(6) by (auto simp: import_pages_def split: if_splits prod.splits sum.splits)
  obtain t where t: "expected = Some (current_revision (source t)) \<or> expected = None \<and> t1 = t"
    using pin by blast
  have mv: "moved T0 (source t) T1 start end0 (\<lambda>k. export_lower start None \<le> k)"
    using cl(1-3) mode unfolding moved_def by (auto simp: cl(4,5) export_lower_def, simp_all add: in_part_def)
  show ?thesis
    using import_pages_loop_moved [OF src refl refl b mv t _ loop] by (auto simp: export_lower_def in_part_def)
qed

section \<open>A move of a quiet source completes\<close>

lemma import_rows_succeeds:
  assumes "distinct (map fst rows)" "\<forall>r \<in> set rows. kv_metadata_in_tx d (fst r) = None"
    and "\<And>i k v. \<exists>e. encrypt_value s (nonces i) (encode_kv_key k) v = Inr e"
  shows "\<exists>n' d'. import_rows s nonces i n d rows = Inr (n', d')"
  using assms(1,2)
proof (induction rows arbitrary: i n d)
  case (Cons r rows)
  obtain k v m where r: "r = (k, v, m)" by (cases r)
  obtain e where e: "encrypt_value s (nonces i) (encode_kv_key k) v = Inr e" using assms(3) by blast
  let ?d = "put_metadata (tx_insert d T_kv (encode_kv_key k) e) k m"
  have "\<forall>r \<in> set rows. kv_metadata_in_tx ?d (fst r) = None"
    using Cons.prems by (auto simp: r row_simps)
  then have "\<exists>n' d'. import_rows s nonces (Suc i) (n + 1) ?d rows = Inr (n', d')"
    using Cons.IH Cons.prems(1) by (simp add: r)
  then show ?case using Cons.prems(2) e by (simp add: r Let_def)
qed simp

lemma import_page_succeeds:
  assumes mv: "moved T0 S T start end0 todo" and mode: "revision_mode T0 = CommitTs"
    and enc: "\<And>i k v. \<exists>e. encrypt_value T0 (nonces i) (encode_kv_key k) v = Inr e"
    and page: "\<And>k. k \<in> set page \<Longrightarrow> todo k \<and> importable start end0 w (row_of S k)" and dist: "distinct page"
  shows "\<exists>n T'. apply_range_import pc T nonces start end0 (map (row_of S) page) w True done0 a = (Inr n, T')"
proof -
  have T: "barrier T = barrier T0" "revision_mode T = CommitTs" using mv mode by (simp_all add: moved_def)
  have encT: "\<exists>e. encrypt_value T (nonces i) (encode_kv_key k) v = Inr e" for i k v
    using enc [of i k v] by (simp add: encrypt_value_def T(1))
  have fsts: "map fst (map (row_of S) page) = page" by (simp add: row_of_def comp_def)
  have w: "w \<noteq> 0" if ne: "page \<noteq> []"
  proof -
    obtain k where "k \<in> set page" using ne by (cases page) auto
    then have "importable start end0 w (row_of S k)" using page by blast
    then show ?thesis by (auto simp: importable_def row_of_def)
  qed
  have "kv_metadata_in_tx (backend T) k = None" if "k \<in> set page" for k
    using mv page [OF that] by (auto simp: moved_def importable_def row_of_def split: if_splits)
  then obtain n' d' where rows: "import_rows T nonces 0 0 (backend T) (map (row_of S) page) = Inr (n', d')"
    using import_rows_succeeds [of "map (row_of S) page" "backend T" T nonces 0 0] encT dist fsts
    by (auto simp: row_of_def)
  have chk: "check_import_rows start end0 w [] (map (row_of S) page) = Inr ()"
    using page dist fsts by (simp add: check_import_rows_iff)
  have "\<exists>d2. import_tx pc T nonces start end0 (map (row_of S) page) w True done0 a (backend T) = Inr (n', d2)"
    using rows by (cases done0) (simp_all add: import_tx_def Let_def)
  then obtain d2 where tx: "import_tx pc T nonces start end0 (map (row_of S) page) w True done0 a (backend T) = Inr (n', d2)" ..
  have w0: "(w = 0 \<and> map (row_of S) page \<noteq> []) = False" using w by (cases "page = []") simp_all
  have "apply_range_import pc T nonces start end0 (map (row_of S) page) w True done0 a =
      write_store T (import_tx pc T nonces start end0 (map (row_of S) page) w True done0 a)"
    unfolding apply_range_import_def w0 chk by (simp add: T(2))
  then show ?thesis by (simp add: write_store_def backend_write_def tx)
qed

lemma part_keys_drop:
  assumes ok: "mvcc_ok S" and n: "0 < n" "n < length (part_keys S lower end0)" and low: "start \<le> lower"
  shows "part_keys S (export_lower start (Some (List.last (take n (part_keys S lower end0))))) end0 = drop n (part_keys S lower end0)"
proof -
  let ?ks = "part_keys S lower end0"
  let ?a = "List.last (take n ?ks)"
  note pk = part_keys_spec [OF ok, where ?end0.0 = end0]
  have "?a \<in> set (take n ?ks)" using n by (intro last_in_set) auto
  then have a: "?a \<in> set ?ks" by (rule in_set_takeD)
  then have la: "lower \<le> ?a" unfolding pk(2) by (simp add: in_part_def)
  then have sa: "start \<le> ?a" using low by (rule order_trans [rotated])
  have dist: "distinct ?ks" using pk(1) strict_sorted_iff by blast
  have "set (part_keys S (?a @ [0]) end0) = set (drop n ?ks)"
  proof (rule set_eqI)
    fix k
    have "k \<in> set (part_keys S (?a @ [0]) end0) \<longleftrightarrow> k \<in> set ?ks \<and> ?a < k"
      using la unfolding pk(2) by (auto simp: in_part_def snoc0_le)
    also have "\<dots> \<longleftrightarrow> k \<in> set ?ks \<and> k \<notin> set (take n ?ks)"
      using sorted_take_last [OF pk(1) _ n(1), of k] by (auto simp: not_le [symmetric])
    also have "\<dots> \<longleftrightarrow> k \<in> set (drop n ?ks)"
      using set_take_disj_set_drop_if_distinct [OF dist, of n n] in_set_dropD [of k n ?ks]
        set_append [of "take n ?ks" "drop n ?ks"] by auto
    finally show "k \<in> set (part_keys S (?a @ [0]) end0) \<longleftrightarrow> k \<in> set (drop n ?ks)" .
  qed
  then have "part_keys S (?a @ [0]) end0 = drop n ?ks"
    by (rule strict_sorted_unique [OF pk(1) sorted_wrt_drop [OF pk(1)]])
  then show ?thesis using sa by (simp add: export_lower_def)
qed

lemma import_pages_loop_completes:
  assumes ok: "mvcc_ok S" and clean: "meta_clean S" and mode: "revision_mode T0 = CommitTs"
    and enc: "\<And>t i k v. \<exists>e. encrypt_value T0 (ie_nonces env t i) (encode_kv_key k) v = Inr e"
    and b: "\<And>t i. barrier_ok T0 (ie_nonces env t i)"
    and rows: "\<And>k. in_part start end0 k \<Longrightarrow> live S k \<noteq> None \<Longrightarrow> importable start end0 (current_revision S) (row_of S k)"
    and pend: "require_no_pending_decision (ie_pending env) (last_applied_decision_ts S) (current_revision S) = Inr ()"
    and mv: "moved T0 S T start end0 (\<lambda>k. export_lower start after \<le> k)"
    and w: "watermark = Some (current_revision S) \<or> watermark = None" and low: "start \<le> export_lower start after"
    and fuel: "length (part_keys S (export_lower start after) end0) < fuel"
  shows "\<exists>T'. import_pages_loop fuel env (\<lambda>_. S) t T start end0 True after watermark = Some (Inr (current_revision S), T')"
  using mv w low fuel
proof (induction fuel arbitrary: t T after watermark)
  case (Suc fuel)
  let ?low = "export_lower start after" and ?w = "current_revision S"
  let ?ks = "part_keys S ?low end0"
  let ?n = "if ie_page_size env = 0 then length ?ks else ie_page_size env"
  note pk = part_keys_spec [OF ok, where lower = ?low and ?end0.0 = end0]
  have exp: "case watermark of Some w \<Rightarrow> ?w = w | None \<Rightarrow> True" using Suc.prems(2) by (auto split: option.split)
  have page: "export_range_page S start end0 after (ie_page_size env) watermark =
      Inr \<lparr>pg_rows = map (row_of S) (take ?n ?ks),
           pg_next_after = (if ?n < length ?ks then Some (List.last (take ?n ?ks)) else None), pg_revision = ?w\<rparr>"
    unfolding export_range_page_eq [OF ok disjI1 [OF clean] Suc.prems(3) exp, of end0 "ie_page_size env"] by (auto simp: Let_def)
  have key: "in_part start end0 k \<and> ?low \<le> k \<and> live S k \<noteq> None" if "k \<in> set (take ?n ?ks)" for k
    using in_set_takeD [OF that] Suc.prems(3) unfolding pk(2) by (auto simp: in_part_def)
  have "distinct ?ks" using pk(1) strict_sorted_iff by blast
  then have dist: "distinct (take ?n ?ks)" by (rule distinct_take)
  have guard: "(if after = None then require_no_pending_decision (ie_pending env) (last_applied_decision_ts S) ?w else Inr ()) = Inr ()"
    using pend by simp
  have pre: "?low \<le> k \<and> importable start end0 ?w (row_of S k)" if "k \<in> set (take ?n ?ks)" for k
    using key [OF that] rows [of k] by simp
  from import_page_succeeds [where nonces = "ie_nonces env t" and page = "take ?n ?ks" and w = ?w and pc = "ie_pc env"
      and ?done0.0 = "\<not> ?n < length ?ks" and a = "ie_appl env t", OF Suc.prems(1) mode enc pre dist]
  obtain x T1 where imp: "apply_range_import (ie_pc env) T (ie_nonces env t) start end0 (map (row_of S) (take ?n ?ks)) ?w True
      (\<not> ?n < length ?ks) (ie_appl env t) = (Inr x, T1)" by blast
  show ?case
  proof (cases "?n < length ?ks")
    case False
    then show ?thesis using Suc.prems(2) page imp by (elim disjE) (simp_all add: Let_def guard)
  next
    case True
    then have n: "0 < ?n" by (auto split: if_splits)
    let ?a = "List.last (take ?n ?ks)"
    note drop = part_keys_drop [OF ok n True Suc.prems(3)]
    have fuel': "length (part_keys S (export_lower start (Some ?a)) end0) < fuel"
      using Suc.prems(4) n True unfolding drop by simp
    have "?a \<in> set (take ?n ?ks)" using n True by (intro last_in_set) auto
    then have sa: "start \<le> ?a" "?low \<le> ?a" using key by (auto simp: in_part_def)
    then have low': "start \<le> export_lower start (Some ?a)" and nxt: "export_lower start (Some ?a) \<le> k \<longleftrightarrow> ?a < k" for k
      by (simp_all add: export_lower_def snoc0_le order_trans [OF _ le_append])
    have "moved T0 S T1 start end0 (\<lambda>k. export_lower start (Some ?a) \<le> k)"
    proof (rule moved_page [OF Suc.prems(1) b ok key _ _ _ imp, where rest = "{k. k \<le> ?a}"])
      have le: "k \<le> ?a \<longleftrightarrow> k \<in> set (take ?n ?ks)" if "k \<in> set ?ks" for k
        by (rule sorted_take_last [OF pk(1) that n])
      show "set (take ?n ?ks) \<subseteq> {k. k \<le> ?a}"
      proof
        fix k assume "k \<in> set (take ?n ?ks)"
        then show "k \<in> {k. k \<le> ?a}" using le [OF in_set_takeD] by blast
      qed
      show "live S k = None" if "in_part start end0 k" "?low \<le> k" "k \<in> {k. k \<le> ?a}" "k \<notin> set (take ?n ?ks)" for k
      proof (rule ccontr)
        assume "live S k \<noteq> None"
        then have "k \<in> set ?ks" using that(1,2) unfolding pk(2) by (simp add: in_part_def)
        then show False using le that(3,4) by blast
      qed
      show "export_lower start (Some ?a) \<le> k \<longleftrightarrow> ?low \<le> k \<and> k \<notin> {k. k \<le> ?a}" if "in_part start end0 k" for k
        using sa(2) by (auto simp: nxt not_le)
    qed
    then obtain T' where "import_pages_loop fuel env (\<lambda>_. S) (Suc (Suc t)) T1 start end0 True (Some ?a) (Some ?w) = Some (Inr ?w, T')"
      using Suc.IH [of T1 "Some ?a" "Some ?w" "Suc (Suc t)"] low' fuel' by blast
    then show ?thesis using Suc.prems(2) True page imp by (elim disjE) (simp_all add: Let_def guard)
  qed
qed simp

lemma import_pages_completes:
  assumes ok: "mvcc_ok S" "meta_clean S" and T: "mvcc_ok T0" "revision_mode T0 = CommitTs"
    and enc: "\<And>t i k v. \<exists>e. encrypt_value T0 (ie_nonces env t i) (encode_kv_key k) v = Inr e"
    and b: "\<And>t i. barrier_ok T0 (ie_nonces env t i)"
    and rows: "\<And>k. in_part start end0 k \<Longrightarrow> live S k \<noteq> None \<Longrightarrow> importable start end0 (current_revision S) (row_of S k)"
    and pend: "require_no_pending_decision (ie_pending env) (last_applied_decision_ts S) (current_revision S) = Inr ()"
    and fuel: "length (part_keys S start end0) < fuel"
  shows "\<exists>T'. import_pages fuel polls env (\<lambda>_. S) T0 start end0 True None = Some (Inr (current_revision S), T')"
proof -
  obtain res T1 where clr: "clear_imported_range T0 start end0 (ie_appl env 0) = (res, T1)" by fastforce
  note cl = clear_imported_range_spec [OF T clr]
  have mv: "moved T0 S T1 start end0 (\<lambda>k. export_lower start None \<le> k)"
    using cl(1-3) T(2) unfolding moved_def by (auto simp: cl(4,5) export_lower_def, simp_all add: in_part_def)
  have "decision_pending (ie_pending env) (last_applied_decision_ts S) (current_revision S) = Inr False"
    using pend by (auto simp: require_no_pending_decision_def split: if_splits)
  then have wait: "wait_for_decision_barrier (ie_pending env) polls (\<lambda>_. S) 1 (current_revision S) = (Inr (), 2)"
    by (cases polls) simp_all
  obtain n where "res = Inr n" using cl(6) by blast
  then show ?thesis
    using import_pages_loop_completes [OF ok T(2) enc b rows pend mv, of None fuel 2] fuel wait clr
    by (simp add: import_pages_def export_lower_def)
qed

lemma one_row_source:
  "\<exists>s. mvcc_ok s \<and> meta_clean s \<and> current_revision s = 5 \<and> live s = [k \<mapsto> v] \<and>
     kv_metadata_in_tx (backend s) k = Some (new_key 5 0) \<and> last_applied_decision_ts s = 0"
proof -
  have pol: "policy_matches CommitTs PolicyCommitTs" by (simp add: policy_matches_def)
  obtain s where s: "put_at_key (fresh CommitTs) [] k v None 5 (standalone 1) PolicyCommitTs =
      (Inr \<lparr>replayed = False\<rparr>, s)"
    using put_at_key_succeeds [of "fresh CommitTs" 5 PolicyCommitTs "[]" k v v] pol by auto
  then obtain d where d: "put_tx (fresh CommitTs) [] k v None 5 (standalone 1) PolicyCommitTs empty_db =
      Inr (\<lparr>replayed = False\<rparr>, d)" "s = (fresh CommitTs)\<lparr>backend := d\<rparr>"
    using put_at_key_applied [OF s] by (auto simp: new_with_revision_mode_def)
  have b: "backend s = put_applied (put_event (put_metadata (tx_insert
      (tx_insert empty_db T_meta META_CURRENT_REVISION (u64_bytes 5)) T_kv (encode_kv_key k) v) k (new_key 5 0))
      \<lparr>ev_revision = 5, ev_changes = [\<lparr>ch_key = k, ch_value = Some v, ch_prev_value = None\<rparr>], ev_event_type = Put\<rparr>) (standalone 1)"
    using d by (auto simp: put_tx_def accept_revision_Inr [OF pol] Let_def kv_metadata_in_tx_def table_simps split: if_splits)
  have c: "committed (fresh CommitTs) s 5 [\<lparr>ch_key = k, ch_value = Some v, ch_prev_value = None\<rparr>]"
    using put_at_key_committed [OF mvcc_ok_new _ _ s] pol by simp
  have meta: "kv_metadata_in_tx (backend s) k' = (if k' = k then Some (new_key 5 0) else None)" for k'
    by (simp add: b row_simps) (simp add: kv_metadata_in_tx_def)
  have "meta_clean s"
    unfolding meta_clean_def meta by (simp add: b table_simps row_simps put_metadata_def)
  moreover have "encode_kv_key k \<noteq> DECISION_APPLIED_TS" by (simp add: encode_kv_key_def key_defs ascii_def)
  then have "last_applied_decision_ts s = 0"
    by (simp add: last_applied_decision_ts_def read_u64_row_def b table_simps)
  moreover have "live (fresh CommitTs) = Map.empty" by (simp add: fun_eq_iff live_def)
  ultimately show ?thesis
    using committedD(1-6) [OF c] meta by (intro exI [of _ s]) simp
qed

definition floor_codec :: "ImportHistoryFloor list postcard" where
  "floor_codec = \<lparr>to_allocvec = (\<lambda>_. None), take_from_bytes = (\<lambda>_. None)\<rparr>"

definition quiet_env :: "nat \<Rightarrow> import_env" where
  "quiet_env n = \<lparr>ie_pending = (\<lambda>_. Inr None), ie_page_size = n, ie_pc = floor_codec, ie_nonces = (\<lambda>_ _. []),
    ie_appl = (\<lambda>i. standalone (of_nat i))\<rparr>"

lemma quiet_move:
  assumes s: "mvcc_ok s" "meta_clean s" "current_revision s = 5" "live s = [k \<mapsto> v]"
    "kv_metadata_in_tx (backend s) k = Some (new_key 5 0)" "last_applied_decision_ts s = 0" and k: "\<not> reserved_key k"
  shows "\<exists>target'. import_pages 2 0 (quiet_env 1) (\<lambda>_. s) (fresh CommitTs) [] [] True None = Some (Inr 5, target')"
proof -
  have rows: "importable [] [] 5 (row_of s x)" if "live s x \<noteq> None" for x
    using that s k by (auto simp: importable_def row_of_def in_part_def new_key_def split: if_splits)
  have keys: "set (part_keys s [] []) = {k}"
    by (rule set_eqI) (simp add: part_keys_spec(2) [OF s(1)] s(4) in_part_def)
  have "sorted_wrt (<) (part_keys s [] [])" by (rule part_keys_spec(1) [OF s(1)])
  then have len: "part_keys s [] [] = [k]"
    by (rule strict_sorted_unique) (simp_all add: keys)
  have "\<exists>T'. import_pages 2 0 (quiet_env 1) (\<lambda>_. s) (fresh CommitTs) [] [] True None = Some (Inr (current_revision s), T')"
    by (rule import_pages_completes [OF s(1,2) mvcc_ok_new])
       (use rows s(3) len in \<open>simp_all add: quiet_env_def require_no_pending_decision_def decision_pending_def\<close>)
  then show ?thesis by (simp add: s(3))
qed

section \<open>Properties\<close>

text \<open>C29: The page loop of a split ends. With a source that does not change and has no
  undecodable metadata, a target that can encrypt, rows that all pass the import check
  (in particular no key under \<open>/_\<close>) and no decision pending at or below the source's
  revision, a loop over \<open>n\<close> live keys returns that revision within \<open>n + 1\<close> rounds,
  whatever the page size.\<close>

theorem range_move_completes:
  assumes "mvcc_ok S" "meta_clean S" "mvcc_ok target" "revision_mode target = CommitTs"
    and "\<And>t i k v. \<exists>e. encrypt_value target (ie_nonces env t i) (encode_kv_key k) v = Inr e"
    and "\<And>t i. barrier_ok target (ie_nonces env t i)"
    and "\<And>k. in_part start end0 k \<Longrightarrow> live S k \<noteq> None \<Longrightarrow> importable start end0 (current_revision S) (row_of S k)"
    and "require_no_pending_decision (ie_pending env) (last_applied_decision_ts S) (current_revision S) = Inr ()"
    and "length (part_keys S start end0) < fuel"
  shows "\<exists>target'. import_pages fuel polls env (\<lambda>_. S) target start end0 True None = Some (Inr (current_revision S), target')"
  using import_pages_completes [OF assms] .

theorem range_move_completes_witness:
  "\<exists>s target'. get s [1] = Inr (Some [10]) \<and>
    import_pages 2 0 (quiet_env 7) (\<lambda>_. s) (fresh CommitTs) [] [] True None = Some (Inr 5, target')"
proof -
  obtain s where s: "mvcc_ok s" "meta_clean s" "current_revision s = 5" "live s = [[1] \<mapsto> [10]]"
    "kv_metadata_in_tx (backend s) [1] = Some (new_key 5 0)" "last_applied_decision_ts s = 0"
    using one_row_source [of "[1]" "[10]"] by blast
  have rows: "importable [] [] 5 (row_of s x)" if "live s x \<noteq> None" for x
    using that s by (auto simp: importable_def row_of_def in_part_def new_key_def reserved_key_def ascii_def split: if_splits)
  have keys: "set (part_keys s [] []) = {[1]}"
    by (rule set_eqI) (simp add: part_keys_spec(2) [OF s(1)] s(4) in_part_def)
  have "sorted_wrt (<) (part_keys s [] [])" by (rule part_keys_spec(1) [OF s(1)])
  then have len: "part_keys s [] [] = [[1]]"
    by (rule strict_sorted_unique) (simp_all add: keys)
  have "\<exists>T'. import_pages 2 0 (quiet_env 7) (\<lambda>_. s) (fresh CommitTs) [] [] True None = Some (Inr (current_revision s), T')"
    by (rule range_move_completes [OF s(1,2) mvcc_ok_new])
       (use rows s(3) len in \<open>simp_all add: quiet_env_def require_no_pending_decision_def decision_pending_def\<close>)
  moreover have "get s [1] = Inr (Some [10])" by (simp add: get_live [OF s(1)] s(4))
  ultimately show ?thesis unfolding s(3) by blast
qed

end
