(* ===== verification/Sequencer.thy ===== *)
theory Sequencer
  imports Range_Move
begin

text \<open>
  The commit sequencer of the system region (\<open>coord-server/src/storage/mvcc.rs\<close>,
  commands in \<open>coord-server/src/raft/type_config.rs\<close>): optimistic validation of
  transactions against the write indexes, the decision log, and the rebuild of
  the indexes from that log. SHA-256 and the postcard codecs of the two stored
  records are the parameters of the record \<open>seq_env\<close>.
\<close>

section \<open>Commands, outcomes and stored records\<close>

datatype SequencerMutation =
    MPut bytes bytes "i64 option"
  | MDelete bytes
  | MDeleteRange bytes bytes

fun point_key :: "SequencerMutation \<Rightarrow> bytes option" where
  "point_key (MPut key value lease) = Some key"
| "point_key (MDelete key) = Some key"
| "point_key (MDeleteRange start end0) = None"

record SequencerTxn =
  st_txn_id :: bytes
  st_start_ts :: u64
  st_commit_ts :: u64
  st_request_id :: bytes
  st_read_set :: "bytes list"
  st_mutations :: "SequencerMutation list"

record SequencerReadRange =
  rr_start :: bytes
  rr_end :: bytes

record SequencerTxnWithRanges =
  tw_txn :: SequencerTxn
  tw_read_ranges :: "SequencerReadRange list"

record SequencerValidationLimits =
  max_read_set :: u32
  max_range :: u32

datatype SequencerInvalid = CommitTsNotAboveStart | MissingTxnId | ReadSetTooLarge | RangeScanExceeded

datatype SequencerOutcome =
    Committed u64
  | Conflict u64 bytes u64
  | Duplicate u64
  | OutOfOrder u64 u64
  | Invalid u64 SequencerInvalid

datatype SequencerOp =
    ValidateAndCommit "SequencerTxn list"
  | ValidateAndCommitWithRanges "SequencerTxnWithRanges list" SequencerValidationLimits

record SequencerDecision =
  sd_txn_id :: bytes
  sd_request_id :: bytes
  sd_start_ts :: u64
  sd_commit_ts :: u64
  sd_mutations :: "SequencerMutation list"

record SequencerIndexHit =
  ih_key :: bytes
  ih_commit_ts :: u64

record SequencerIntervalWrite =
  iw_start :: bytes
  iw_end :: bytes
  iw_commit_ts :: u64

datatype SequencerRangeQuery = Hit SequencerIndexHit | Clear | Exceeded nat

record seq_env =
  sha256 :: "bytes \<Rightarrow> bytes"
  decision_codec :: "SequencerDecision postcard"
  interval_codec :: "SequencerIntervalWrite postcard"

section \<open>Keys of the sequencer's rows\<close>

text \<open>The hashed message: the domain, then every part behind its length.\<close>

definition hash_message :: "bytes \<Rightarrow> bytes list \<Rightarrow> bytes" where
  "hash_message domain parts =
    domain @ concat (map (\<lambda>part. u64_bytes (of_nat (length part)) @ part) parts)"

definition sequencer_hash :: "seq_env \<Rightarrow> bytes \<Rightarrow> bytes list \<Rightarrow> bytes" where
  "sequencer_hash E domain parts = sha256 E (hash_message domain parts)"

definition txn_index_key :: "seq_env \<Rightarrow> bytes \<Rightarrow> bytes" where
  "txn_index_key E txn_id =
    prefixed_hash_key SEQUENCER_TXN_PREFIX (sequencer_hash E (ascii ''txn'') [txn_id])"

definition request_index_key :: "seq_env \<Rightarrow> bytes \<Rightarrow> bytes \<Rightarrow> bytes" where
  "request_index_key E txn_id request_id =
    prefixed_hash_key SEQUENCER_REQUEST_PREFIX (sequencer_hash E (ascii ''req'') [txn_id, request_id])"

definition key_index_key :: "seq_env \<Rightarrow> bytes \<Rightarrow> bytes" where
  "key_index_key E key =
    prefixed_hash_key SEQUENCER_KEY_INDEX_PREFIX (sequencer_hash E (ascii ''key'') [key])"

definition range_index_key :: "bytes \<Rightarrow> bytes" where
  "range_index_key key = prefixed_key SEQUENCER_RANGE_INDEX_PREFIX key"

definition interval_index_key :: "seq_env \<Rightarrow> bytes \<Rightarrow> bytes \<Rightarrow> bytes" where
  "interval_index_key E start end0 =
    prefixed_key SEQUENCER_INTERVAL_INDEX_PREFIX (sequencer_hash E (ascii ''interval'') [start, end0])"

definition get_u64_row :: "db \<Rightarrow> bytes \<Rightarrow> u64 option" where
  "get_u64_row d key = Option.bind (tx_get d T_kv key) decode_u64"

section \<open>Index queries\<close>

definition best_index_hit ::
    "SequencerIndexHit option \<Rightarrow> SequencerIndexHit option \<Rightarrow> SequencerIndexHit option" where
  "best_index_hit left right =
    (case left of
       None \<Rightarrow> right
     | Some l \<Rightarrow>
         (case right of
            None \<Rightarrow> Some l
          | Some r \<Rightarrow>
              (if ih_commit_ts l < ih_commit_ts r \<or>
                  ih_commit_ts r = ih_commit_ts l \<and> ih_key r < ih_key l
               then Some r else Some l)))"

definition usize_max :: nat where "usize_max = 2 ^ 64 - 1"

text \<open>One row more than the budget tells an exhausted budget from a full one; 0 is no limit.\<close>

definition fetch_limit :: "nat \<Rightarrow> nat" where
  "fetch_limit max_entries = (if max_entries = 0 then 0 else min (max_entries + 1) usize_max)"

fun decode_intervals :: "seq_env \<Rightarrow> rows \<Rightarrow> SequencerIntervalWrite list result" where
  "decode_intervals E [] = Inr []"
| "decode_intervals E ((key, value) # rs) =
    (case envelope_decode (interval_codec E) value of
       Inl e \<Rightarrow> Inl Internal
     | Inr entry \<Rightarrow> bind_result (decode_intervals E rs) (\<lambda>entries. Inr (entry # entries)))"

definition sequencer_interval_rows_in ::
    "seq_env \<Rightarrow> db \<Rightarrow> nat \<Rightarrow> SequencerIntervalWrite list option result" where
  "sequencer_interval_rows_in E d max_entries =
    (let rs = tx_iter_range_limited d T_kv SEQUENCER_INTERVAL_INDEX_PREFIX
                (prefix_upper_bound SEQUENCER_INTERVAL_INDEX_PREFIX) (fetch_limit max_entries)
     in if 0 < max_entries \<and> max_entries < length rs then Inr None
        else bind_result (decode_intervals E rs) (\<lambda>entries. Inr (Some entries)))"

fun sequencer_interval_point_hit ::
    "SequencerIndexHit option \<Rightarrow> SequencerIntervalWrite list \<Rightarrow> bytes \<Rightarrow> u64 \<Rightarrow> SequencerIndexHit option" where
  "sequencer_interval_point_hit best [] key start_ts = best"
| "sequencer_interval_point_hit best (entry # entries) key start_ts =
    (if iw_commit_ts entry \<le> start_ts then sequencer_interval_point_hit best entries key start_ts
     else if iw_start entry \<le> key \<and> key < iw_end entry then
       sequencer_interval_point_hit
         (best_index_hit best (Some \<lparr>ih_key = iw_start entry, ih_commit_ts = iw_commit_ts entry\<rparr>))
         entries key start_ts
     else sequencer_interval_point_hit best entries key start_ts)"

definition sequencer_interval_point_in ::
    "seq_env \<Rightarrow> db \<Rightarrow> bytes \<Rightarrow> u64 \<Rightarrow> nat \<Rightarrow> SequencerRangeQuery result" where
  "sequencer_interval_point_in E d key start_ts max_entries =
    bind_result (sequencer_interval_rows_in E d max_entries) (\<lambda>entries.
      case entries of
        None \<Rightarrow> Inr (Exceeded max_entries)
      | Some es \<Rightarrow>
          Inr (case sequencer_interval_point_hit None es key start_ts of Some h \<Rightarrow> Hit h | None \<Rightarrow> Clear))"

definition sequencer_point_query ::
    "seq_env \<Rightarrow> MvccStorage \<Rightarrow> bytes \<Rightarrow> u64 \<Rightarrow> SequencerIndexHit option result" where
  "sequencer_point_query E s key start_ts =
    (let point = (case get_u64_row (backend s) (key_index_key E key) of
                    Some ts \<Rightarrow> (if start_ts < ts then Some \<lparr>ih_key = key, ih_commit_ts = ts\<rparr> else None)
                  | None \<Rightarrow> None)
     in bind_result (sequencer_interval_point_in E (backend s) key start_ts 0) (\<lambda>q.
          case q of
            Hit h \<Rightarrow> Inr (best_index_hit point (Some h))
          | Clear \<Rightarrow> Inr (best_index_hit point None)
          | Exceeded n \<Rightarrow> Inl Internal))"

fun interval_range_loop ::
    "SequencerIndexHit option \<Rightarrow> SequencerIntervalWrite list \<Rightarrow> bytes \<Rightarrow> bytes \<Rightarrow> u64 \<Rightarrow>
     SequencerIndexHit option" where
  "interval_range_loop best [] start end0 start_ts = best"
| "interval_range_loop best (entry # entries) start end0 start_ts =
    (if iw_commit_ts entry \<le> start_ts then interval_range_loop best entries start end0 start_ts
     else if (end0 = [] \<or> iw_start entry < end0) \<and> (iw_end entry = [] \<or> start < iw_end entry) then
       interval_range_loop
         (best_index_hit best (Some \<lparr>ih_key = iw_start entry, ih_commit_ts = iw_commit_ts entry\<rparr>))
         entries start end0 start_ts
     else interval_range_loop best entries start end0 start_ts)"

definition sequencer_interval_range_in ::
    "seq_env \<Rightarrow> db \<Rightarrow> bytes \<Rightarrow> bytes \<Rightarrow> u64 \<Rightarrow> nat \<Rightarrow> SequencerRangeQuery result" where
  "sequencer_interval_range_in E d start end0 start_ts max_entries =
    bind_result (sequencer_interval_rows_in E d max_entries) (\<lambda>entries.
      case entries of
        None \<Rightarrow> Inr (Exceeded max_entries)
      | Some es \<Rightarrow>
          Inr (case interval_range_loop None es start end0 start_ts of Some h \<Rightarrow> Hit h | None \<Rightarrow> Clear))"

fun range_rows_loop :: "SequencerIndexHit option \<Rightarrow> rows \<Rightarrow> u64 \<Rightarrow> SequencerIndexHit option" where
  "range_rows_loop best [] start_ts = best"
| "range_rows_loop best ((index_key, value) # rs) start_ts =
    (case (strip_prefix SEQUENCER_RANGE_INDEX_PREFIX index_key, decode_u64 value) of
       (Some key, Some write_ts) \<Rightarrow>
         (if write_ts \<le> start_ts then range_rows_loop best rs start_ts
          else if (case best of None \<Rightarrow> True | Some hit \<Rightarrow> ih_commit_ts hit < write_ts) then
            range_rows_loop (Some \<lparr>ih_key = key, ih_commit_ts = write_ts\<rparr>) rs start_ts
          else range_rows_loop best rs start_ts)
     | _ \<Rightarrow> range_rows_loop best rs start_ts)"

definition sequencer_range_query_in ::
    "seq_env \<Rightarrow> db \<Rightarrow> bytes \<Rightarrow> bytes \<Rightarrow> u64 \<Rightarrow> nat \<Rightarrow> SequencerRangeQuery result" where
  "sequencer_range_query_in E d start end0 start_ts max_entries =
    (if end0 \<noteq> [] \<and> end0 \<le> start then Inr Clear
     else
       let scan_end = (if end0 = [] then prefix_upper_bound SEQUENCER_RANGE_INDEX_PREFIX
                       else range_index_key end0);
           rs = tx_iter_range_limited d T_kv (range_index_key start) scan_end (fetch_limit max_entries)
       in if 0 < max_entries \<and> max_entries < length rs then Inr (Exceeded max_entries)
          else
            case range_rows_loop None rs start_ts of
              Some hit \<Rightarrow> Inr (Hit hit)
            | None \<Rightarrow> sequencer_interval_range_in E d start end0 start_ts max_entries)"

definition sequencer_range_query ::
    "seq_env \<Rightarrow> MvccStorage \<Rightarrow> bytes \<Rightarrow> bytes \<Rightarrow> u64 \<Rightarrow> nat \<Rightarrow> SequencerRangeQuery result" where
  "sequencer_range_query E s start end0 start_ts max_entries =
    sequencer_range_query_in E (backend s) start end0 start_ts max_entries"

section \<open>Index writes\<close>

definition raise_index :: "db \<Rightarrow> bytes \<Rightarrow> u64 \<Rightarrow> db" where
  "raise_index d index_key commit_ts =
    (if read_u64_row d index_key < commit_ts then tx_insert d T_kv index_key (u64_bytes commit_ts) else d)"

definition raise_interval :: "seq_env \<Rightarrow> db \<Rightarrow> bytes \<Rightarrow> bytes \<Rightarrow> u64 \<Rightarrow> db result" where
  "raise_interval E d start end0 commit_ts =
    (let index_key = interval_index_key E start end0;
         prev = (case Option.bind (tx_get d T_kv index_key) (envelope_ok (interval_codec E)) of
                   Some w \<Rightarrow> w
                 | None \<Rightarrow> \<lparr>iw_start = [], iw_end = [], iw_commit_ts = 0\<rparr>)
     in if iw_commit_ts prev < commit_ts then
          bind_result
            (ok_or Internal (envelope_encode (interval_codec E)
               \<lparr>iw_start = start, iw_end = end0, iw_commit_ts = commit_ts\<rparr>))
            (\<lambda>bs. Inr (tx_insert d T_kv index_key bs))
        else Inr d)"

definition index_mutation :: "seq_env \<Rightarrow> u64 \<Rightarrow> SequencerMutation \<Rightarrow> db \<Rightarrow> db result" where
  "index_mutation E commit_ts m d =
    (case m of
       MDeleteRange start end0 \<Rightarrow> raise_interval E d start end0 commit_ts
     | _ \<Rightarrow>
       (case point_key m of
          None \<Rightarrow> Inr d
        | Some key \<Rightarrow>
            Inr (raise_index (raise_index d (key_index_key E key) commit_ts) (range_index_key key) commit_ts)))"

fun index_mutations :: "seq_env \<Rightarrow> u64 \<Rightarrow> SequencerMutation list \<Rightarrow> db \<Rightarrow> db result" where
  "index_mutations E commit_ts [] d = Inr d"
| "index_mutations E commit_ts (m # ms) d =
    bind_result (index_mutation E commit_ts m d) (index_mutations E commit_ts ms)"

definition sequencer_index_writes_in_tx ::
    "seq_env \<Rightarrow> SequencerDecision \<Rightarrow> db \<Rightarrow> (u64 \<times> db) result" where
  "sequencer_index_writes_in_tx E decision d =
    bind_result (index_mutations E (sd_commit_ts decision) (sd_mutations decision) d)
      (\<lambda>d. Inr (of_nat (length (sd_mutations decision)), d))"

section \<open>Validation\<close>

text \<open>The point reads; \<open>Some\<close> is the outcome that ends validation.\<close>

fun check_read_set ::
    "seq_env \<Rightarrow> db \<Rightarrow> SequencerTxn \<Rightarrow> SequencerIntervalWrite list \<Rightarrow> bytes list \<Rightarrow> SequencerOutcome option" where
  "check_read_set E d txn entries [] = None"
| "check_read_set E d txn entries (key # ks) =
    (case get_u64_row d (key_index_key E key) of
       Some write_ts \<Rightarrow>
         (if st_start_ts txn < write_ts then Some (Conflict (st_commit_ts txn) key write_ts)
          else case sequencer_interval_point_hit None entries key (st_start_ts txn) of
                 Some hit \<Rightarrow> Some (Conflict (st_commit_ts txn) key (ih_commit_ts hit))
               | None \<Rightarrow> check_read_set E d txn entries ks)
     | None \<Rightarrow>
         (case sequencer_interval_point_hit None entries key (st_start_ts txn) of
            Some hit \<Rightarrow> Some (Conflict (st_commit_ts txn) key (ih_commit_ts hit))
          | None \<Rightarrow> check_read_set E d txn entries ks))"

fun check_ranges ::
    "seq_env \<Rightarrow> db \<Rightarrow> SequencerTxn \<Rightarrow> nat \<Rightarrow> SequencerReadRange list \<Rightarrow> SequencerOutcome option result" where
  "check_ranges E d txn max_r [] = Inr None"
| "check_ranges E d txn max_r (rng # rs) =
    bind_result (sequencer_range_query_in E d (rr_start rng) (rr_end rng) (st_start_ts txn) max_r) (\<lambda>q.
      case q of
        Clear \<Rightarrow> check_ranges E d txn max_r rs
      | Hit hit \<Rightarrow> Inr (Some (Conflict (st_commit_ts txn) (ih_key hit) (ih_commit_ts hit)))
      | Exceeded n \<Rightarrow> Inr (Some (Invalid (st_commit_ts txn) RangeScanExceeded)))"

definition decision_of :: "SequencerTxn \<Rightarrow> SequencerDecision" where
  "decision_of txn =
    \<lparr>sd_txn_id = st_txn_id txn, sd_request_id = st_request_id txn, sd_start_ts = st_start_ts txn,
     sd_commit_ts = st_commit_ts txn, sd_mutations = st_mutations txn\<rparr>"

definition record_decision :: "seq_env \<Rightarrow> db \<Rightarrow> SequencerTxn \<Rightarrow> (SequencerOutcome \<times> db) result" where
  "record_decision E d txn =
    (let decision = decision_of txn; ts = st_commit_ts txn
     in bind_result (ok_or Internal (envelope_encode (decision_codec E) decision)) (\<lambda>bs.
          let d = tx_insert d T_kv (encode_sequencer_decision_key ts) bs;
              d = tx_insert d T_kv (txn_index_key E (st_txn_id txn)) (u64_bytes ts);
              d = (if st_request_id txn \<noteq> []
                   then tx_insert d T_kv (request_index_key E (st_txn_id txn) (st_request_id txn)) (u64_bytes ts)
                   else d)
          in bind_result (sequencer_index_writes_in_tx E decision d) (\<lambda>(n, d).
               let d = tx_insert d T_kv SEQUENCER_INDEX_LAST_TS (u64_bytes ts);
                   d = tx_insert d T_kv SEQUENCER_LAST_COMMIT_TS (u64_bytes ts)
               in Inr (Committed ts, d))))"

text \<open>The reads of a transaction against the indexes, in the order of the source.\<close>

definition check_reads ::
    "seq_env \<Rightarrow> db \<Rightarrow> SequencerTxn \<Rightarrow> SequencerReadRange list \<Rightarrow> nat \<Rightarrow> SequencerOutcome option result" where
  "check_reads E d txn read_ranges max_r =
    bind_result
      (if st_read_set txn = [] then Inr (Some []) else sequencer_interval_rows_in E d max_r)
      (\<lambda>entries.
        case entries of
          None \<Rightarrow> Inr (Some (Invalid (st_commit_ts txn) RangeScanExceeded))
        | Some es \<Rightarrow>
            (case check_read_set E d txn es (st_read_set txn) of
               Some outcome \<Rightarrow> Inr (Some outcome)
             | None \<Rightarrow> check_ranges E d txn max_r read_ranges))"

definition read_set_too_large ::
    "SequencerTxn \<Rightarrow> SequencerReadRange list \<Rightarrow> SequencerValidationLimits option \<Rightarrow> bool" where
  "read_set_too_large txn read_ranges limits =
    (case limits of
       None \<Rightarrow> False
     | Some l \<Rightarrow>
         0 < max_read_set l \<and>
         unat (max_read_set l) < min (length (st_read_set txn) + length read_ranges) usize_max)"

definition range_budget :: "SequencerValidationLimits option \<Rightarrow> nat" where
  "range_budget limits = (case limits of None \<Rightarrow> 0 | Some l \<Rightarrow> unat (max_range l))"

definition decided_before :: "seq_env \<Rightarrow> db \<Rightarrow> SequencerTxn \<Rightarrow> u64 option" where
  "decided_before E d txn =
    (case get_u64_row d (txn_index_key E (st_txn_id txn)) of
       Some existing \<Rightarrow> Some existing
     | None \<Rightarrow>
         (if st_request_id txn = [] then None
          else get_u64_row d (request_index_key E (st_txn_id txn) (st_request_id txn))))"

definition sequencer_validate_in_tx ::
    "seq_env \<Rightarrow> db \<Rightarrow> SequencerTxn \<Rightarrow> SequencerReadRange list \<Rightarrow> SequencerValidationLimits option \<Rightarrow>
     (SequencerOutcome \<times> db) result" where
  "sequencer_validate_in_tx E d txn read_ranges limits =
    (let ts = st_commit_ts txn; last_commit_ts = read_u64_row d SEQUENCER_LAST_COMMIT_TS
     in if st_txn_id txn = [] then Inr (Invalid ts MissingTxnId, d)
        else
          case decided_before E d txn of
            Some existing \<Rightarrow> Inr (Duplicate existing, d)
          | None \<Rightarrow>
              (if ts \<le> st_start_ts txn then Inr (Invalid ts CommitTsNotAboveStart, d)
               else if ts \<le> last_commit_ts then Inr (OutOfOrder ts last_commit_ts, d)
               else if read_set_too_large txn read_ranges limits then Inr (Invalid ts ReadSetTooLarge, d)
               else
                 bind_result (check_reads E d txn read_ranges (range_budget limits)) (\<lambda>verdict.
                   case verdict of
                     Some outcome \<Rightarrow> Inr (outcome, d)
                   | None \<Rightarrow> record_decision E d txn)))"

fun validate_all ::
    "seq_env \<Rightarrow> SequencerValidationLimits option \<Rightarrow> (SequencerTxn \<times> SequencerReadRange list) list \<Rightarrow> db \<Rightarrow>
     (SequencerOutcome list \<times> db) result" where
  "validate_all E limits [] d = Inr ([], d)"
| "validate_all E limits ((txn, ranges) # es) d =
    bind_result (sequencer_validate_in_tx E d txn ranges limits) (\<lambda>(outcome, d).
      bind_result (validate_all E limits es d) (\<lambda>(outcomes, d). Inr (outcome # outcomes, d)))"

fun op_entries :: "SequencerOp \<Rightarrow> (SequencerTxn \<times> SequencerReadRange list) list" where
  "op_entries (ValidateAndCommit txns) = map (\<lambda>t. (t, [])) txns"
| "op_entries (ValidateAndCommitWithRanges txns limits) = map (\<lambda>e. (tw_txn e, tw_read_ranges e)) txns"

fun op_limits :: "SequencerOp \<Rightarrow> SequencerValidationLimits option" where
  "op_limits (ValidateAndCommit txns) = None"
| "op_limits (ValidateAndCommitWithRanges txns limits) = Some limits"

definition apply_sequencer_op ::
    "seq_env \<Rightarrow> MvccStorage \<Rightarrow> SequencerOp \<Rightarrow> u64 \<Rightarrow> AppliedLogId \<Rightarrow> SequencerOutcome list result \<times> MvccStorage" where
  "apply_sequencer_op E s op revision applied =
    write_store s (\<lambda>d.
      let d = note_log_index_revision (revision_mode s) d revision
      in bind_result (validate_all E (op_limits op) (op_entries op) d) (\<lambda>(outcomes, d).
           Inr (outcomes, put_applied d applied)))"

section \<open>The decision log\<close>

definition get_sequencer_decision :: "seq_env \<Rightarrow> MvccStorage \<Rightarrow> u64 \<Rightarrow> SequencerDecision option" where
  "get_sequencer_decision E s commit_ts =
    Option.bind (tx_get (backend s) T_kv (encode_sequencer_decision_key commit_ts))
      (envelope_ok (decision_codec E))"

definition sequencer_last_commit_ts :: "MvccStorage \<Rightarrow> u64" where
  "sequencer_last_commit_ts s = read_u64_row (backend s) SEQUENCER_LAST_COMMIT_TS"

definition sequencer_index_last_ts :: "MvccStorage \<Rightarrow> u64" where
  "sequencer_index_last_ts s = read_u64_row (backend s) SEQUENCER_INDEX_LAST_TS"

definition sat_succ :: "u64 \<Rightarrow> u64" where
  "sat_succ w = (if w = - 1 then w else w + 1)"

definition decode_decision_row :: "seq_env \<Rightarrow> bytes \<Rightarrow> bytes \<Rightarrow> SequencerDecision result" where
  "decode_decision_row E key value =
    (case Option.bind (strip_prefix SEQUENCER_DECISION_PREFIX key) decode_u64 of
       None \<Rightarrow> Inl Internal
     | Some commit_ts \<Rightarrow>
         (case envelope_decode (decision_codec E) value of
            Inl e \<Rightarrow> Inl Internal
          | Inr decision \<Rightarrow>
              (if sd_commit_ts decision \<noteq> commit_ts then Inl Internal else Inr decision)))"

fun decode_decisions :: "seq_env \<Rightarrow> rows \<Rightarrow> SequencerDecision list result" where
  "decode_decisions E [] = Inr []"
| "decode_decisions E ((key, value) # rs) =
    bind_result (decode_decision_row E key value) (\<lambda>decision.
      bind_result (decode_decisions E rs) (\<lambda>decisions. Inr (decision # decisions)))"

definition decision_rows :: "db \<Rightarrow> u64 \<Rightarrow> nat \<Rightarrow> rows" where
  "decision_rows d after_ts limit =
    tx_iter_range_limited d T_kv (encode_sequencer_decision_key (sat_succ after_ts))
      (prefix_upper_bound SEQUENCER_DECISION_PREFIX) limit"

definition sequencer_decisions_after ::
    "seq_env \<Rightarrow> MvccStorage \<Rightarrow> u64 \<Rightarrow> nat \<Rightarrow> SequencerDecision list result" where
  "sequencer_decisions_after E s after_ts limit =
    decode_decisions E (decision_rows (backend s) after_ts (max limit 1))"

definition next_sequencer_decision_ts :: "seq_env \<Rightarrow> MvccStorage \<Rightarrow> u64 \<Rightarrow> u64 option result" where
  "next_sequencer_decision_ts E s after_ts =
    bind_result (sequencer_decisions_after E s after_ts 1) (\<lambda>ds.
      Inr (case ds of [] \<Rightarrow> None | decision # _ \<Rightarrow> Some (sd_commit_ts decision)))"

section \<open>Catching up the indexes\<close>

record SequencerIndexRebuild =
  ri_from_ts :: u64
  ri_to_ts :: u64
  ri_decisions :: u64
  ri_keys :: u64

text \<open>The rows of one batch: the number of mutations indexed and the last timestamp.\<close>

fun catch_up_rows :: "seq_env \<Rightarrow> rows \<Rightarrow> u64 \<Rightarrow> u64 \<Rightarrow> db \<Rightarrow> ((u64 \<times> u64) \<times> db) result" where
  "catch_up_rows E [] keys last_ts d = Inr ((keys, last_ts), d)"
| "catch_up_rows E ((key, value) # rs) keys last_ts d =
    bind_result (decode_decision_row E key value) (\<lambda>decision.
      bind_result (sequencer_index_writes_in_tx E decision d) (\<lambda>(n, d).
        catch_up_rows E rs (keys + n) (sd_commit_ts decision) d))"

definition catch_up_batch :: "seq_env \<Rightarrow> MvccStorage \<Rightarrow> rows \<Rightarrow> u64 \<Rightarrow> (u64 \<times> u64) result \<times> MvccStorage" where
  "catch_up_batch E s rs marker =
    write_store s (\<lambda>d.
      bind_result (catch_up_rows E rs 0 marker d) (\<lambda>((keys, last_ts), d).
        Inr ((keys, last_ts),
             if read_u64_row d SEQUENCER_INDEX_LAST_TS < last_ts
             then tx_insert d T_kv SEQUENCER_INDEX_LAST_TS (u64_bytes last_ts) else d)))"

text \<open>The loop over batches; \<open>None\<close> is a loop that the fuel did not let finish.\<close>

fun catch_up_loop ::
    "nat \<Rightarrow> seq_env \<Rightarrow> nat \<Rightarrow> u64 \<Rightarrow> u64 \<Rightarrow> SequencerIndexRebuild \<Rightarrow> MvccStorage \<Rightarrow>
     (SequencerIndexRebuild result \<times> MvccStorage) option" where
  "catch_up_loop 0 E batch last_commit_ts marker stats s = None"
| "catch_up_loop (Suc fuel) E batch last_commit_ts marker stats s =
    (if last_commit_ts \<le> marker then Some (Inr stats, s)
     else
       let rs = decision_rows (backend s) marker batch
       in if rs = [] then Some (Inr stats, s)
          else
            case catch_up_batch E s rs marker of
              (Inl e, s) \<Rightarrow> Some (Inl e, s)
            | (Inr (keys, last_ts), s) \<Rightarrow>
                (let stats = stats\<lparr>ri_decisions := ri_decisions stats + of_nat (length rs),
                                   ri_keys := ri_keys stats + keys, ri_to_ts := last_ts\<rparr>
                 in if length rs < batch then Some (Inr stats, s)
                    else catch_up_loop fuel E batch last_commit_ts last_ts stats s))"

definition catch_up_sequencer_index ::
    "nat \<Rightarrow> seq_env \<Rightarrow> MvccStorage \<Rightarrow> nat \<Rightarrow> (SequencerIndexRebuild result \<times> MvccStorage) option" where
  "catch_up_sequencer_index fuel E s batch =
    (let from_ts = sequencer_index_last_ts s
     in catch_up_loop fuel E (max batch 1) (sequencer_last_commit_ts s) from_ts
          \<lparr>ri_from_ts = from_ts, ri_to_ts = from_ts, ri_decisions = 0, ri_keys = 0\<rparr> s)"

fun remove_rows :: "db \<Rightarrow> rows \<Rightarrow> db" where
  "remove_rows d [] = d"
| "remove_rows d ((key, value) # rs) = remove_rows (tx_remove d T_kv key) rs"

definition clear_prefix :: "bytes \<Rightarrow> db \<Rightarrow> db" where
  "clear_prefix pfx d = remove_rows d (tx_iter_prefix d T_kv pfx)"

definition clear_indexes :: "db \<Rightarrow> db" where
  "clear_indexes d =
    tx_remove
      (fold clear_prefix
        [SEQUENCER_KEY_INDEX_PREFIX, SEQUENCER_RANGE_INDEX_PREFIX, SEQUENCER_INTERVAL_INDEX_PREFIX] d)
      T_kv SEQUENCER_INDEX_LAST_TS"

definition rebuild_sequencer_validation_index ::
    "nat \<Rightarrow> seq_env \<Rightarrow> MvccStorage \<Rightarrow> nat \<Rightarrow> (SequencerIndexRebuild result \<times> MvccStorage) option" where
  "rebuild_sequencer_validation_index fuel E s batch =
    catch_up_sequencer_index fuel E (s\<lparr>backend := clear_indexes (backend s)\<rparr>) batch"

end
