(* ===== verification/Sequencer_Occ.thy ===== *)
theory Sequencer_Occ
  imports Sequencer
begin

text \<open>
  Correctness of the commit sequencer: the transactions it commits are
  serializable in the order of their commit timestamps.
\<close>

section \<open>Rows of the sequencer\<close>

lemmas seq_key_defs =
  txn_index_key_def request_index_key_def key_index_key_def range_index_key_def interval_index_key_def
  encode_sequencer_decision_key_def prefixed_hash_key_def prefixed_key_def

text \<open>The rows of the three validation indexes.\<close>

definition index_row :: "bytes \<Rightarrow> bool" where
  "index_row k \<longleftrightarrow> prefix SEQUENCER_KEY_INDEX_PREFIX k \<or> prefix SEQUENCER_RANGE_INDEX_PREFIX k \<or>
     prefix SEQUENCER_INTERVAL_INDEX_PREFIX k"

lemma index_row_keys [simp]:
  "index_row (key_index_key E k)" "index_row (range_index_key k)" "index_row (interval_index_key E a b)"
  "\<not> index_row (txn_index_key E i)" "\<not> index_row (request_index_key E i r)"
  "\<not> index_row (encode_sequencer_decision_key ts)"
  "\<not> index_row SEQUENCER_LAST_COMMIT_TS" "\<not> index_row SEQUENCER_INDEX_LAST_TS"
  by (simp_all add: index_row_def seq_key_defs) (simp_all add: key_defs ascii_def)

lemma seq_keys_distinct [simp]:
  "key_index_key E k \<noteq> range_index_key k'" "range_index_key k' \<noteq> key_index_key E k"
  "key_index_key E k \<noteq> interval_index_key E' a b" "interval_index_key E' a b \<noteq> key_index_key E k"
  "range_index_key k \<noteq> interval_index_key E' a b" "interval_index_key E' a b \<noteq> range_index_key k"
  "txn_index_key E i \<noteq> request_index_key E' i' r" "request_index_key E' i' r \<noteq> txn_index_key E i"
  "txn_index_key E i \<noteq> encode_sequencer_decision_key ts" "encode_sequencer_decision_key ts \<noteq> txn_index_key E i"
  "request_index_key E i r \<noteq> encode_sequencer_decision_key ts"
  "encode_sequencer_decision_key ts \<noteq> request_index_key E i r"
  "txn_index_key E i \<noteq> SEQUENCER_LAST_COMMIT_TS" "SEQUENCER_LAST_COMMIT_TS \<noteq> txn_index_key E i"
  "txn_index_key E i \<noteq> SEQUENCER_INDEX_LAST_TS" "SEQUENCER_INDEX_LAST_TS \<noteq> txn_index_key E i"
  "request_index_key E i r \<noteq> SEQUENCER_LAST_COMMIT_TS" "SEQUENCER_LAST_COMMIT_TS \<noteq> request_index_key E i r"
  "request_index_key E i r \<noteq> SEQUENCER_INDEX_LAST_TS" "SEQUENCER_INDEX_LAST_TS \<noteq> request_index_key E i r"
  "encode_sequencer_decision_key ts \<noteq> SEQUENCER_LAST_COMMIT_TS"
  "SEQUENCER_LAST_COMMIT_TS \<noteq> encode_sequencer_decision_key ts"
  "encode_sequencer_decision_key ts \<noteq> SEQUENCER_INDEX_LAST_TS"
  "SEQUENCER_INDEX_LAST_TS \<noteq> encode_sequencer_decision_key ts"
  "SEQUENCER_INDEX_LAST_TS \<noteq> SEQUENCER_LAST_COMMIT_TS" "SEQUENCER_LAST_COMMIT_TS \<noteq> SEQUENCER_INDEX_LAST_TS"
  by (simp_all add: seq_key_defs key_defs ascii_def)

lemma range_index_key_inject [simp]: "range_index_key a = range_index_key b \<longleftrightarrow> a = b"
  by (simp add: seq_key_defs)

lemma read_u64_row_get: "read_u64_row d k = (case get_u64_row d k of Some v \<Rightarrow> v | None \<Rightarrow> 0)"
  by (simp add: read_u64_row_def get_u64_row_def)

text \<open>A prefix that does not end in 255 bounds its keys from above.\<close>

lemma prefix_upper_bound_snoc:
  assumes P: "P = p @ [c]" and c: "c \<noteq> 0xFF"
  shows "in_range (P @ q) (prefix_upper_bound P) k \<longleftrightarrow> prefix P k \<and> P @ q \<le> k"
proof -
  have ub: "prefix_upper_bound P = p @ [c + 1]" using c by (simp add: P prefix_upper_bound_def)
  have "prefix P k \<longleftrightarrow> k < p @ [c + 1]" if le: "P @ q \<le> k"
  proof
    assume "prefix P k"
    then show "k < p @ [c + 1]"
      using byte_less_Suc [OF c, of c] by (auto simp: P elim!: prefixE)
  next
    assume lt: "k < p @ [c + 1]"
    have "p \<le> k" using le order_trans [OF le_append [of p "[c] @ q"], of k] by (simp add: P)
    then have "prefix p k" using lt by (rule prefix_between)
    then obtain r where k: "k = p @ r" by (auto elim: prefixE)
    have "[c] @ q \<le> r" "r < [c + 1]" using le lt by (simp_all add: k P)
    then obtain x xs where r: "r = x # xs" "c \<le> x" "x < c + 1" by (cases r) auto
    then show "prefix P k" using byte_less_Suc [OF c, of x] by (simp add: k P)
  qed
  then show ?thesis by (auto simp: in_range_def ub)
qed

lemma sequencer_scans:
  "in_range SEQUENCER_INTERVAL_INDEX_PREFIX (prefix_upper_bound SEQUENCER_INTERVAL_INDEX_PREFIX) k \<longleftrightarrow>
     prefix SEQUENCER_INTERVAL_INDEX_PREFIX k"
  "in_range (range_index_key a) (prefix_upper_bound SEQUENCER_RANGE_INDEX_PREFIX) k \<longleftrightarrow>
     (\<exists>u. k = range_index_key u \<and> a \<le> u)"
  "in_range (encode_sequencer_decision_key ts) (prefix_upper_bound SEQUENCER_DECISION_PREFIX) k \<longleftrightarrow>
     prefix SEQUENCER_DECISION_PREFIX k \<and> encode_sequencer_decision_key ts \<le> k"
proof -
  have ends: "SEQUENCER_INTERVAL_INDEX_PREFIX = ascii ''/_sys/seq/iidx'' @ [47]"
    "SEQUENCER_RANGE_INDEX_PREFIX = ascii ''/_sys/seq/ridx'' @ [47]"
    "SEQUENCER_DECISION_PREFIX = ascii ''/_sys/seq/decision'' @ [47]"
    by (simp_all add: key_defs ascii_def)
  have c: "(47 :: byte) \<noteq> 0xFF" by simp
  note ub = prefix_upper_bound_snoc [OF ends(1) c] prefix_upper_bound_snoc [OF ends(2) c]
    prefix_upper_bound_snoc [OF ends(3) c]
  show "in_range SEQUENCER_INTERVAL_INDEX_PREFIX (prefix_upper_bound SEQUENCER_INTERVAL_INDEX_PREFIX) k \<longleftrightarrow>
     prefix SEQUENCER_INTERVAL_INDEX_PREFIX k"
    using ub(1) [of "[]" k] prefix_imp_le by auto
  show "in_range (range_index_key a) (prefix_upper_bound SEQUENCER_RANGE_INDEX_PREFIX) k \<longleftrightarrow>
     (\<exists>u. k = range_index_key u \<and> a \<le> u)"
    unfolding range_index_key_def prefixed_key_def ub(2) by (auto simp: prefix_def)
  show "in_range (encode_sequencer_decision_key ts) (prefix_upper_bound SEQUENCER_DECISION_PREFIX) k \<longleftrightarrow>
     prefix SEQUENCER_DECISION_PREFIX k \<and> encode_sequencer_decision_key ts \<le> k"
    unfolding encode_sequencer_decision_key_def ub(3) ..
qed

section \<open>What a clear answer of the index queries means\<close>

lemma best_index_hit_Some [simp]: "best_index_hit b (Some h) \<noteq> None"
  by (auto simp: best_index_hit_def split: option.splits)

lemma interval_point_hit_None:
  "sequencer_interval_point_hit best es key ts = None \<longleftrightarrow>
     best = None \<and> (\<forall>w \<in> set es. iw_start w \<le> key \<and> key < iw_end w \<longrightarrow> iw_commit_ts w \<le> ts)"
  by (induction best es key ts rule: sequencer_interval_point_hit.induct) auto

lemma interval_range_loop_None:
  "interval_range_loop best es a b ts = None \<longleftrightarrow>
     best = None \<and> (\<forall>w \<in> set es. ranges_intersect (iw_start w) (iw_end w) a b \<longrightarrow> iw_commit_ts w \<le> ts)"
  by (induction best es a b ts rule: interval_range_loop.induct) (auto simp: ranges_intersect_def)

lemma range_rows_loop_None:
  "range_rows_loop best rs ts = None \<longleftrightarrow>
     best = None \<and> (\<forall>k v u w. (k, v) \<in> set rs \<longrightarrow> k = range_index_key u \<longrightarrow> decode_u64 v = Some w \<longrightarrow> w \<le> ts)"
proof (induction rs arbitrary: best)
  case (Cons r rs)
  obtain k v where r: "r = (k, v)" by (cases r)
  show ?case
  proof (cases "\<exists>u w. strip_prefix SEQUENCER_RANGE_INDEX_PREFIX k = Some u \<and> decode_u64 v = Some w")
    case True
    then obtain u w where uw: "strip_prefix SEQUENCER_RANGE_INDEX_PREFIX k = Some u" "decode_u64 v = Some w" by blast
    then have k: "k = range_index_key u" by (simp add: strip_prefix_Some seq_key_defs)
    show ?thesis
      using Cons.IH uw by (cases "w \<le> ts"; cases best) (auto simp: k r)
  next
    case False
    then have "range_rows_loop best ((k, v) # rs) ts = range_rows_loop best rs ts"
      by (auto split: option.splits)
    moreover have "\<And>u w. k = range_index_key u \<Longrightarrow> decode_u64 v = Some w \<Longrightarrow> False"
      using False by (auto simp: strip_prefix_Some seq_key_defs)
    ultimately show ?thesis using Cons.IH [of best] by (auto simp: r)
  qed
qed simp

text \<open>A scan that stays within its budget has seen every row.\<close>

lemma fetch_complete:
  assumes "db_ok d" "n < usize_max"
    and "\<not> (0 < n \<and> n < length (tx_iter_range_limited d t a b (fetch_limit n)))"
  shows "tx_iter_range_limited d t a b (fetch_limit n) = tx_iter_range d t a b"
  using assms by (auto simp: tx_iter_range_limited_take fetch_limit_def min_def split: if_splits)

lemma decode_intervals_set:
  "decode_intervals E rs = Inr es \<Longrightarrow>
     (\<forall>k v. (k, v) \<in> set rs \<longrightarrow> (\<exists>w \<in> set es. envelope_ok (interval_codec E) v = Some w)) \<and>
     (\<forall>w \<in> set es. \<exists>k v. (k, v) \<in> set rs \<and> envelope_ok (interval_codec E) v = Some w)"
proof (induction E rs arbitrary: es rule: decode_intervals.induct)
  case (2 E k v rs)
  obtain w es' where w: "envelope_decode (interval_codec E) v = Inr w" "decode_intervals E rs = Inr es'" "es = w # es'"
    using 2(2) by (auto split: sum.splits)
  have "envelope_ok (interval_codec E) v = Some w" using w(1) by (simp add: envelope_ok_def)
  then show ?case using 2(1) [OF w(1) w(2)] unfolding w(3) by auto blast
qed simp

lemma interval_rows_all:
  assumes "db_ok d" "n < usize_max" "sequencer_interval_rows_in E d n = Inr (Some es)"
  shows "prefix SEQUENCER_INTERVAL_INDEX_PREFIX k \<Longrightarrow> tx_get d T_kv k = Some v \<Longrightarrow>
           \<exists>w \<in> set es. envelope_ok (interval_codec E) v = Some w"
    and "w \<in> set es \<Longrightarrow> \<exists>k v. prefix SEQUENCER_INTERVAL_INDEX_PREFIX k \<and> tx_get d T_kv k = Some v \<and>
           envelope_ok (interval_codec E) v = Some w"
proof -
  let ?rs = "tx_iter_range_limited d T_kv SEQUENCER_INTERVAL_INDEX_PREFIX
    (prefix_upper_bound SEQUENCER_INTERVAL_INDEX_PREFIX) (fetch_limit n)"
  have *: "\<not> (0 < n \<and> n < length ?rs)" "decode_intervals E ?rs = Inr es"
    using assms(3) by (auto simp: sequencer_interval_rows_in_def Let_def split: if_splits)
  note dec = decode_intervals_set [OF *(2)]
  have mem: "(k, v) \<in> set ?rs \<longleftrightarrow> prefix SEQUENCER_INTERVAL_INDEX_PREFIX k \<and> tx_get d T_kv k = Some v" for k v
    by (simp add: fetch_complete [OF assms(1,2) *(1)] tx_iter_range_iff [OF assms(1)] sequencer_scans)
  show "\<exists>w \<in> set es. envelope_ok (interval_codec E) v = Some w"
    if "prefix SEQUENCER_INTERVAL_INDEX_PREFIX k" "tx_get d T_kv k = Some v"
    using dec that by (simp add: mem)
  show "\<exists>k v. prefix SEQUENCER_INTERVAL_INDEX_PREFIX k \<and> tx_get d T_kv k = Some v \<and>
           envelope_ok (interval_codec E) v = Some w" if "w \<in> set es"
    using dec that by (simp add: mem)
qed

section \<open>The indexes as a function of the writes\<close>

lemma raise_index_rows [row_simps]:
  "t \<noteq> T_kv \<or> k' \<noteq> k \<Longrightarrow> tx_get (raise_index d k ts) t k' = tx_get d t k'"
  "db_ok d \<Longrightarrow> db_ok (raise_index d k ts)"
  by (auto simp: raise_index_def table_simps)

lemma read_raise_index [row_simps]:
  "read_u64_row (raise_index d k ts) k' = (if k' = k then max (read_u64_row d k) ts else read_u64_row d k')"
  by (auto simp: raise_index_def row_simps max_def) (simp add: read_u64_row_def table_simps)

lemma get_raise_index:
  "get_u64_row (raise_index d k ts) k' = Some w \<Longrightarrow> k' = k \<and> w = ts \<or> get_u64_row d k' = Some w"
  by (auto simp: raise_index_def get_u64_row_def table_simps decode_u64_def split: if_splits)

definition interval_row :: "seq_env \<Rightarrow> db \<Rightarrow> bytes \<Rightarrow> bytes \<Rightarrow> SequencerIntervalWrite option" where
  "interval_row E d a b = Option.bind (tx_get d T_kv (interval_index_key E a b)) (envelope_ok (interval_codec E))"

lemma raise_interval_cases:
  assumes "raise_interval E d a b ts = Inr d'"
  obtains "\<And>w. interval_row E d a b = Some w \<Longrightarrow> iw_commit_ts w < ts"
      and "\<exists>bs. envelope_encode (interval_codec E) \<lparr>iw_start = a, iw_end = b, iw_commit_ts = ts\<rparr> = Some bs \<and>
             d' = tx_insert d T_kv (interval_index_key E a b) bs"
    | "0 < ts \<longrightarrow> (\<exists>w. interval_row E d a b = Some w \<and> ts \<le> iw_commit_ts w)" and "d' = d"
proof (cases "iw_commit_ts (case interval_row E d a b of
      Some w \<Rightarrow> w | None \<Rightarrow> \<lparr>iw_start = [], iw_end = [], iw_commit_ts = 0\<rparr>) < ts")
  case True
  then show ?thesis
    using assms by (intro that(1)) (auto simp: raise_interval_def interval_row_def Let_def)
next
  case False
  then show ?thesis
    using assms by (intro that(2)) (auto simp: raise_interval_def interval_row_def Let_def split: option.splits)
qed

lemma index_mutation_cases:
  assumes "index_mutation E ts m d = Inr d'"
  obtains k where "point_key m = Some k"
      "d' = raise_index (raise_index d (key_index_key E k) ts) (range_index_key k) ts"
    | a b where "m = MDeleteRange a b" "raise_interval E d a b ts = Inr d'"
  using assms by (cases m) (auto simp: index_mutation_def)

text \<open>What the indexes hold once the writes \<open>P\<close>, pairs of a commit timestamp and a mutation, went in.\<close>

definition covers :: "seq_env \<Rightarrow> db \<Rightarrow> u64 \<Rightarrow> SequencerMutation \<Rightarrow> bool" where
  "covers E d ts m \<longleftrightarrow>
    (\<forall>k. point_key m = Some k \<longrightarrow>
       ts \<le> read_u64_row d (key_index_key E k) \<and> ts \<le> read_u64_row d (range_index_key k)) \<and>
    (\<forall>a b. m = MDeleteRange a b \<longrightarrow> (\<exists>w. interval_row E d a b = Some w \<and> ts \<le> iw_commit_ts w))"

definition indexed :: "seq_env \<Rightarrow> (u64 \<times> SequencerMutation) set \<Rightarrow> db \<Rightarrow> bool" where
  "indexed E P d \<longleftrightarrow>
    db_ok d \<and> (\<forall>(ts, m) \<in> P. covers E d ts m) \<and>
    (\<forall>k w. get_u64_row d (key_index_key E k) = Some w \<longrightarrow>
       (\<exists>m k'. (w, m) \<in> P \<and> point_key m = Some k' \<and> key_index_key E k' = key_index_key E k)) \<and>
    (\<forall>k w. get_u64_row d (range_index_key k) = Some w \<longrightarrow> (\<exists>m. (w, m) \<in> P \<and> point_key m = Some k)) \<and>
    (\<forall>k v. prefix SEQUENCER_INTERVAL_INDEX_PREFIX k \<longrightarrow> tx_get d T_kv k = Some v \<longrightarrow>
       (\<exists>w. envelope_ok (interval_codec E) v = Some w \<and> k = interval_index_key E (iw_start w) (iw_end w) \<and>
            (iw_commit_ts w, MDeleteRange (iw_start w) (iw_end w)) \<in> P))"

definition intervals_of :: "(u64 \<times> SequencerMutation) set \<Rightarrow> (bytes \<times> bytes) set" where
  "intervals_of P = {(a, b). \<exists>ts. (ts, MDeleteRange a b) \<in> P}"

definition intervals_apart :: "seq_env \<Rightarrow> (u64 \<times> SequencerMutation) set \<Rightarrow> bool" where
  "intervals_apart E P \<longleftrightarrow> inj_on (\<lambda>(a, b). interval_index_key E a b) (intervals_of P)"

lemma intervals_apartD:
  assumes "intervals_apart E P" "(ts, MDeleteRange a b) \<in> P" "(ts', MDeleteRange a' b') \<in> P"
    and "interval_index_key E a b = interval_index_key E a' b'"
  shows "a' = a \<and> b' = b"
  using inj_onD [OF assms(1) [unfolded intervals_apart_def], of "(a, b)" "(a', b')"] assms(2-)
  by (auto simp: intervals_of_def)

lemma intervals_apart_mono: "intervals_apart E P \<Longrightarrow> Q \<subseteq> P \<Longrightarrow> intervals_apart E Q"
  unfolding intervals_apart_def intervals_of_def by (erule inj_on_subset) blast

lemma indexedD:
  assumes "indexed E P d"
  shows "db_ok d" "(ts, m) \<in> P \<Longrightarrow> covers E d ts m"
    "get_u64_row d (key_index_key E k) = Some w \<Longrightarrow>
       \<exists>m k'. (w, m) \<in> P \<and> point_key m = Some k' \<and> key_index_key E k' = key_index_key E k"
    "get_u64_row d (range_index_key k) = Some w \<Longrightarrow> \<exists>m. (w, m) \<in> P \<and> point_key m = Some k"
    "prefix SEQUENCER_INTERVAL_INDEX_PREFIX q \<Longrightarrow> tx_get d T_kv q = Some v \<Longrightarrow>
       \<exists>w. envelope_ok (interval_codec E) v = Some w \<and> q = interval_index_key E (iw_start w) (iw_end w) \<and>
            (iw_commit_ts w, MDeleteRange (iw_start w) (iw_end w)) \<in> P"
  using assms unfolding indexed_def by blast+

lemma indexedI:
  assumes "db_ok d" "\<And>ts m. (ts, m) \<in> P \<Longrightarrow> covers E d ts m"
    "\<And>k w. get_u64_row d (key_index_key E k) = Some w \<Longrightarrow>
       \<exists>m k'. (w, m) \<in> P \<and> point_key m = Some k' \<and> key_index_key E k' = key_index_key E k"
    "\<And>k w. get_u64_row d (range_index_key k) = Some w \<Longrightarrow> \<exists>m. (w, m) \<in> P \<and> point_key m = Some k"
    "\<And>q v. prefix SEQUENCER_INTERVAL_INDEX_PREFIX q \<Longrightarrow> tx_get d T_kv q = Some v \<Longrightarrow>
       \<exists>w. envelope_ok (interval_codec E) v = Some w \<and> q = interval_index_key E (iw_start w) (iw_end w) \<and>
            (iw_commit_ts w, MDeleteRange (iw_start w) (iw_end w)) \<in> P"
  shows "indexed E P d"
  unfolding indexed_def using assms by blast

lemma indexed_insert:
  assumes "indexed E P d" "covers E d ts m"
  shows "indexed E (insert (ts, m) P) d"
proof (rule indexedI)
  note D = indexedD [OF assms(1)]
  show "db_ok d" by (rule D(1))
  show "covers E d t n" if "(t, n) \<in> insert (ts, m) P" for t n using that assms(2) D(2) by blast
qed (use indexedD(3-5) [OF assms(1)] in blast)+

text \<open>The row of an interval is the interval itself, as long as no two share a row.\<close>

lemma interval_row_named:
  assumes "indexed E P d" "intervals_apart E (insert (ts, MDeleteRange a b) P)" "interval_row E d a b = Some w"
  shows "iw_start w = a" "iw_end w = b" "(iw_commit_ts w, MDeleteRange a b) \<in> P"
proof -
  obtain v where v: "tx_get d T_kv (interval_index_key E a b) = Some v" "envelope_ok (interval_codec E) v = Some w"
    using assms(3) by (auto simp: interval_row_def bind_eq_Some_conv)
  have "prefix SEQUENCER_INTERVAL_INDEX_PREFIX (interval_index_key E a b)" by (simp add: seq_key_defs)
  then obtain w' where w': "envelope_ok (interval_codec E) v = Some w'"
      "interval_index_key E a b = interval_index_key E (iw_start w') (iw_end w')"
      "(iw_commit_ts w', MDeleteRange (iw_start w') (iw_end w')) \<in> P"
    using indexedD(5) [OF assms(1) _ v(1)] by blast
  have "iw_start w' = a \<and> iw_end w' = b"
    using intervals_apartD [OF assms(2) _ _ w'(2)] w'(3) by blast
  then show "iw_start w = a" "iw_end w = b" "(iw_commit_ts w, MDeleteRange a b) \<in> P" using v(2) w' by auto
qed

lemma indexed_point:
  assumes ix: "indexed E P d" and m: "point_key m = Some k"
  shows "indexed E (insert (ts, m) P)
           (raise_index (raise_index d (key_index_key E k) ts) (range_index_key k) ts)" (is "indexed E ?P ?d")
proof -
  note D = indexedD [OF ix]
  have old: "covers E ?d t n" if "covers E d t n" for t n
    using that by (auto simp: covers_def row_simps interval_row_def le_max_iff_disj)
  have new: "covers E ?d ts m" using m by (auto simp: covers_def row_simps)
  have "\<exists>m' k'. (w, m') \<in> ?P \<and> point_key m' = Some k' \<and> key_index_key E k' = key_index_key E q"
    if g: "get_u64_row ?d (key_index_key E q) = Some w" for q w
  proof (cases "key_index_key E q = key_index_key E k \<and> w = ts")
    case True
    then show ?thesis using m by (intro exI [of _ m], intro exI [of _ k]) simp
  next
    case False
    have "get_u64_row (raise_index d (key_index_key E k) ts) (key_index_key E q) = Some w"
      using get_raise_index [OF g] by auto
    then have "get_u64_row d (key_index_key E q) = Some w" using get_raise_index False by blast
    then show ?thesis using D(3) by blast
  qed
  moreover have "\<exists>m'. (w, m') \<in> ?P \<and> point_key m' = Some q"
    if g: "get_u64_row ?d (range_index_key q) = Some w" for q w
  proof (cases "q = k \<and> w = ts")
    case False
    have "get_u64_row (raise_index d (key_index_key E k) ts) (range_index_key q) = Some w"
      using get_raise_index [OF g] False by auto
    from get_raise_index [OF this] show ?thesis using D(4) [of q w] by auto
  qed (use m in blast)
  moreover have "\<exists>w. envelope_ok (interval_codec E) v = Some w \<and> q = interval_index_key E (iw_start w) (iw_end w) \<and>
            (iw_commit_ts w, MDeleteRange (iw_start w) (iw_end w)) \<in> ?P"
    if q: "prefix SEQUENCER_INTERVAL_INDEX_PREFIX q" "tx_get ?d T_kv q = Some v" for q v
  proof -
    obtain u where u: "q = SEQUENCER_INTERVAL_INDEX_PREFIX @ u" using q(1) by (auto elim: prefixE)
    have "q \<noteq> key_index_key E k" "q \<noteq> range_index_key k"
      by (simp_all add: u seq_key_defs) (simp_all add: key_defs ascii_def)
    then have "tx_get d T_kv q = Some v" using q(2) by (simp add: row_simps)
    then show ?thesis using D(5) [OF q(1)] by blast
  qed
  ultimately show ?thesis using D(1,2) old new by (auto simp: indexed_def row_simps)
qed

lemma indexed_interval:
  assumes ix: "indexed E P d" and ap: "intervals_apart E (insert (ts, MDeleteRange a b) P)"
    and pc: "postcard_ok (interval_codec E)" and ts: "0 < ts" and r: "raise_interval E d a b ts = Inr d'"
  shows "indexed E (insert (ts, MDeleteRange a b) P) d'"
  using r
proof (cases rule: raise_interval_cases)
  case 1
  let ?w = "\<lparr>iw_start = a, iw_end = b, iw_commit_ts = ts\<rparr>" and ?k = "interval_index_key E a b"
  obtain bs where bs: "envelope_encode (interval_codec E) ?w = Some bs" "d' = tx_insert d T_kv ?k bs"
    using 1(2) by blast
  note dec = envelope_decode_encode(2) [OF pc bs(1)] and D = indexedD [OF ix]
  have u64: "read_u64_row d' q = read_u64_row d q" "get_u64_row d' q = get_u64_row d q" if "q \<noteq> ?k" for q
    using that by (simp_all add: read_u64_row_def get_u64_row_def bs(2) table_simps)
  have row: "interval_row E d' x y = (if interval_index_key E x y = ?k then Some ?w else interval_row E d x y)" for x y
    by (simp add: interval_row_def bs(2) table_simps dec)
  have "covers E d' t n" if "(t, n) \<in> insert (ts, MDeleteRange a b) P" for t n
  proof (cases "(t, n) = (ts, MDeleteRange a b)")
    case False
    then have tn: "(t, n) \<in> P" using that by blast
    have "\<exists>w. interval_row E d' x y = Some w \<and> t \<le> iw_commit_ts w" if n: "n = MDeleteRange x y" for x y
    proof -
      obtain w where w: "interval_row E d x y = Some w" "t \<le> iw_commit_ts w"
        using D(2) [OF tn] n by (auto simp: covers_def)
      show ?thesis
      proof (cases "interval_index_key E x y = ?k")
        case True
        then have "x = a \<and> y = b" using intervals_apartD [OF ap] tn n by blast
        then show ?thesis using 1(1) [of w] w True by (auto simp: row)
      qed (simp add: row w)
    qed
    then show ?thesis using D(2) [OF tn] by (auto simp: covers_def u64)
  qed (auto simp: covers_def row)
  moreover have "\<exists>w. envelope_ok (interval_codec E) v = Some w \<and> q = interval_index_key E (iw_start w) (iw_end w) \<and>
            (iw_commit_ts w, MDeleteRange (iw_start w) (iw_end w)) \<in> insert (ts, MDeleteRange a b) P"
    if q: "prefix SEQUENCER_INTERVAL_INDEX_PREFIX q" "tx_get d' T_kv q = Some v" for q v
    using q D(5) [OF q(1)] dec by (cases "q = ?k") (auto simp: bs(2) table_simps)
  moreover have "\<exists>m k'. (w, m) \<in> insert (ts, MDeleteRange a b) P \<and> point_key m = Some k' \<and>
      key_index_key E k' = key_index_key E k" if "get_u64_row d' (key_index_key E k) = Some w" for k w
    using that D(3) [of k w] u64(2) [of "key_index_key E k"] by auto
  moreover have "\<exists>m. (w, m) \<in> insert (ts, MDeleteRange a b) P \<and> point_key m = Some k"
    if "get_u64_row d' (range_index_key k) = Some w" for k w
    using that D(4) [of k w] u64(2) [of "range_index_key k"] by auto
  moreover have "db_ok d'" using D(1) by (simp add: bs(2))
  ultimately show ?thesis by - (rule indexedI)
next
  case 2
  then obtain w where w: "interval_row E d a b = Some w" "ts \<le> iw_commit_ts w" using ts by blast
  then have "covers E d ts (MDeleteRange a b)" by (auto simp: covers_def)
  then show ?thesis using indexed_insert [OF ix] unfolding 2(2) by blast
qed

lemma indexed_mutation:
  assumes "indexed E P d" "intervals_apart E (insert (ts, m) P)" "postcard_ok (interval_codec E)" "0 < ts"
    "index_mutation E ts m d = Inr d'"
  shows "indexed E (insert (ts, m) P) d'"
  using assms(5)
proof (cases rule: index_mutation_cases)
  case (1 k)
  then show ?thesis using indexed_point [OF assms(1)] by simp
next
  case (2 a b)
  then show ?thesis using indexed_interval [OF assms(1)] assms(2-4) by simp
qed

lemma indexed_mutations:
  assumes "indexed E P d" "intervals_apart E (P \<union> {ts} \<times> set ms)" "postcard_ok (interval_codec E)" "0 < ts"
    "index_mutations E ts ms d = Inr d'"
  shows "indexed E (P \<union> {ts} \<times> set ms) d'"
  using assms
proof (induction ms arbitrary: P d)
  case (Cons m ms)
  obtain d1 where d1: "index_mutation E ts m d = Inr d1" "index_mutations E ts ms d1 = Inr d'"
    using Cons.prems(5) by auto
  have sets: "insert (ts, m) P \<union> {ts} \<times> set ms = P \<union> {ts} \<times> set (m # ms)" by auto
  have "indexed E (insert (ts, m) P) d1"
    by (rule indexed_mutation [OF Cons.prems(1) _ Cons.prems(3,4) d1(1)])
       (rule intervals_apart_mono [OF Cons.prems(2)], auto)
  from Cons.IH [OF this _ Cons.prems(3,4) d1(2)] show ?case using Cons.prems(2) by (simp only: sets)
qed simp

definition log_writes :: "SequencerTxn list \<Rightarrow> (u64 \<times> SequencerMutation) set" where
  "log_writes L = {(st_commit_ts t, m) | t m. t \<in> set L \<and> m \<in> set (st_mutations t)}"

fun index_all :: "seq_env \<Rightarrow> SequencerTxn list \<Rightarrow> db \<Rightarrow> db result" where
  "index_all E [] d = Inr d"
| "index_all E (t # L) d =
    bind_result (index_mutations E (st_commit_ts t) (st_mutations t) d) (index_all E L)"

lemma index_all_append: "index_all E (K @ L) d = bind_result (index_all E K d) (index_all E L)"
  by (induction K arbitrary: d) (auto simp: bind_result_def split: sum.splits)

lemma log_writes_simps [simp]:
  "log_writes [] = {}"
  "log_writes (L @ [t]) = log_writes L \<union> {st_commit_ts t} \<times> set (st_mutations t)"
  by (auto simp: log_writes_def)

lemma indexed_all:
  assumes "postcard_ok (interval_codec E)" "\<forall>t \<in> set L. 0 < st_commit_ts t"
    "intervals_apart E (log_writes L)" "index_all E L empty_db = Inr x"
  shows "indexed E (log_writes L) x"
  using assms(2-)
proof (induction L arbitrary: x rule: rev_induct)
  case Nil
  then show ?case by (auto simp: indexed_def get_u64_row_def)
next
  case (snoc t L)
  obtain y where y: "index_all E L empty_db = Inr y" "index_mutations E (st_commit_ts t) (st_mutations t) y = Inr x"
    using snoc.prems(3) by (auto simp: index_all_append)
  have "indexed E (log_writes L) y"
    using snoc.IH [OF _ _ y(1)] snoc.prems(1,2) intervals_apart_mono by (metis UnCI butlast_snoc in_set_butlastD log_writes_simps(2) subsetI)
  then show ?case
    using indexed_mutations [OF _ _ assms(1) _ y(2)] snoc.prems(1,2) by simp
qed

section \<open>The log of committed transactions\<close>

text \<open>The index writes read and change index rows only.\<close>

definition index_agrees :: "db \<Rightarrow> db \<Rightarrow> bool" where
  "index_agrees d x \<longleftrightarrow> (\<forall>k. index_row k \<longrightarrow> tx_get d T_kv k = tx_get x T_kv k)"

definition index_frame :: "db \<Rightarrow> db \<Rightarrow> bool" where
  "index_frame d d' \<longleftrightarrow>
    (db_ok d \<longrightarrow> db_ok d') \<and> (\<forall>t k. t \<noteq> T_kv \<or> \<not> index_row k \<longrightarrow> tx_get d' t k = tx_get d t k)"

lemma index_frame_trans: "index_frame d d1 \<Longrightarrow> index_frame d1 d2 \<Longrightarrow> index_frame d d2"
  by (simp add: index_frame_def)

lemma index_frame_u64:
  assumes "index_frame d d'" "\<not> index_row k"
  shows "read_u64_row d' k = read_u64_row d k" "get_u64_row d' k = get_u64_row d k"
  using assms by (simp_all add: index_frame_def read_u64_row_def get_u64_row_def)

lemma raise_index_agrees:
  assumes "index_agrees d x" "index_row k"
  shows "index_agrees (raise_index d k ts) (raise_index x k ts)" "index_frame d (raise_index d k ts)"
proof -
  have "read_u64_row d k = read_u64_row x k" using assms by (simp add: index_agrees_def read_u64_row_def)
  then show "index_agrees (raise_index d k ts) (raise_index x k ts)"
    using assms(1) by (simp add: raise_index_def index_agrees_def table_simps)
  show "index_frame d (raise_index d k ts)"
    using assms(2) by (auto simp: index_frame_def raise_index_def table_simps)
qed

lemma index_mutation_agrees:
  assumes "index_agrees d x" "index_mutation E ts m d = Inr d'"
  shows "index_frame d d' \<and> (\<exists>x'. index_mutation E ts m x = Inr x' \<and> index_agrees d' x')"
proof (cases "point_key m")
  case None
  then obtain a b where m: "m = MDeleteRange a b" by (cases m) auto
  have row: "tx_get d T_kv (interval_index_key E a b) = tx_get x T_kv (interval_index_key E a b)"
    using assms(1) by (simp add: index_agrees_def)
  show ?thesis
    using assms unfolding index_mutation_def raise_interval_def m
    by (auto simp: row Let_def index_agrees_def index_frame_def table_simps)
next
  case (Some k)
  then have "index_mutation E ts m y =
      Inr (raise_index (raise_index y (key_index_key E k) ts) (range_index_key k) ts)" for y
    by (cases m) (auto simp: index_mutation_def)
  then show ?thesis
    using assms raise_index_agrees index_row_keys(1,2) index_frame_trans by (metis Inr_inject)
qed

lemma index_mutations_agrees:
  assumes "index_agrees d x" "index_mutations E ts ms d = Inr d'"
  shows "index_frame d d' \<and> (\<exists>x'. index_mutations E ts ms x = Inr x' \<and> index_agrees d' x')"
  using assms
proof (induction ms arbitrary: d x)
  case Nil
  then show ?case by (simp add: index_frame_def)
next
  case (Cons m ms)
  obtain d1 where d1: "index_mutation E ts m d = Inr d1" "index_mutations E ts ms d1 = Inr d'"
    using Cons.prems(2) by auto
  obtain x1 where x1: "index_frame d d1" "index_mutation E ts m x = Inr x1" "index_agrees d1 x1"
    using index_mutation_agrees [OF Cons.prems(1) d1(1)] by blast
  then show ?case using Cons.IH [OF x1(3) d1(2)] index_frame_trans by auto
qed

definition logged :: "seq_env \<Rightarrow> db \<Rightarrow> SequencerTxn \<Rightarrow> bool" where
  "logged E d t \<longleftrightarrow>
    st_txn_id t \<noteq> [] \<and> st_start_ts t < st_commit_ts t \<and> get_u64_row d (txn_index_key E (st_txn_id t)) = Some (st_commit_ts t) \<and>
    (\<exists>bs. envelope_encode (decision_codec E) (decision_of t) = Some bs \<and>
          tx_get d T_kv (encode_sequencer_decision_key (st_commit_ts t)) = Some bs)"

definition last_ts_of :: "SequencerTxn list \<Rightarrow> u64 option" where
  "last_ts_of L = (if L = [] then None else Some (st_commit_ts (List.last L)))"

definition seq_inv :: "seq_env \<Rightarrow> SequencerTxn list \<Rightarrow> db \<Rightarrow> bool" where
  "seq_inv E L d \<longleftrightarrow>
    db_ok d \<and> (\<exists>x. index_all E L empty_db = Inr x \<and> index_agrees d x) \<and>
    sorted_wrt (\<lambda>t u. st_commit_ts t < st_commit_ts u) L \<and> (\<forall>t \<in> set L. logged E d t) \<and>
    (\<forall>k v. prefix SEQUENCER_DECISION_PREFIX k \<longrightarrow> tx_get d T_kv k = Some v \<longrightarrow>
       (\<exists>t \<in> set L. k = encode_sequencer_decision_key (st_commit_ts t))) \<and>
    get_u64_row d SEQUENCER_LAST_COMMIT_TS = last_ts_of L \<and>
    tx_get d T_kv SEQUENCER_INDEX_LAST_TS = map_option u64_bytes (last_ts_of L)"

lemma seq_invD:
  assumes "seq_inv E L d"
  shows "db_ok d" "\<exists>x. index_all E L empty_db = Inr x \<and> index_agrees d x"
    "sorted_wrt (\<lambda>t u. st_commit_ts t < st_commit_ts u) L" "t \<in> set L \<Longrightarrow> logged E d t"
    "get_u64_row d SEQUENCER_LAST_COMMIT_TS = last_ts_of L"
    "tx_get d T_kv SEQUENCER_INDEX_LAST_TS = map_option u64_bytes (last_ts_of L)"
    "prefix SEQUENCER_DECISION_PREFIX k \<Longrightarrow> tx_get d T_kv k = Some v \<Longrightarrow>
       \<exists>t \<in> set L. k = encode_sequencer_decision_key (st_commit_ts t)"
  using assms unfolding seq_inv_def by blast+

lemma seq_inv_last:
  assumes "seq_inv E L d" "t \<in> set L"
  shows "st_commit_ts t \<le> read_u64_row d SEQUENCER_LAST_COMMIT_TS"
proof -
  obtain K u where L: "L = K @ [u]" using assms(2) by (cases L rule: rev_cases) auto
  have "st_commit_ts t \<le> st_commit_ts u"
    using seq_invD(3) [OF assms(1)] assms(2) by (auto simp: L sorted_wrt_append order_le_less)
  then show ?thesis using seq_invD(5) [OF assms(1)] by (simp add: L read_u64_row_get last_ts_of_def)
qed

text \<open>Rows outside the sequencer's domain do not matter to it.\<close>

definition seq_same :: "db \<Rightarrow> db \<Rightarrow> bool" where
  "seq_same d d' \<longleftrightarrow> (db_ok d \<longrightarrow> db_ok d') \<and> (\<forall>k. prefix (ascii ''/_sys/seq/'') k \<longrightarrow> tx_get d' T_kv k = tx_get d T_kv k)"

lemma seq_row_keys:
  "index_row k \<Longrightarrow> prefix (ascii ''/_sys/seq/'') k"
  "prefix SEQUENCER_DECISION_PREFIX k \<Longrightarrow> prefix (ascii ''/_sys/seq/'') k"
  "prefix (ascii ''/_sys/seq/'') (encode_sequencer_decision_key ts)"
  "prefix (ascii ''/_sys/seq/'') (txn_index_key E i)" "prefix (ascii ''/_sys/seq/'') SEQUENCER_LAST_COMMIT_TS"
  "prefix (ascii ''/_sys/seq/'') SEQUENCER_INDEX_LAST_TS"
  "prefix (ascii ''/_sys/seq/'') (request_index_key E i r)"
  by (auto simp: index_row_def seq_key_defs) (auto simp: key_defs ascii_def prefix_def)

lemma seq_inv_same:
  assumes "seq_inv E L d" "seq_same d d'"
  shows "seq_inv E L d'"
proof -
  have row: "tx_get d' T_kv k = tx_get d T_kv k" if "prefix (ascii ''/_sys/seq/'') k" for k
    using assms(2) that by (simp add: seq_same_def)
  have "index_agrees d' x = index_agrees d x" for x by (auto simp: index_agrees_def row seq_row_keys)
  moreover have "logged E d' t = logged E d t" for t by (simp add: logged_def get_u64_row_def row seq_row_keys)
  ultimately show ?thesis
    using assms by (auto simp: seq_inv_def seq_same_def get_u64_row_def row seq_row_keys)
qed

lemma record_decision_rows:
  assumes "record_decision E d t = Inr (oc, d')"
  obtains bs d0 d1 where "oc = Committed (st_commit_ts t)"
    "envelope_encode (decision_codec E) (decision_of t) = Some bs"
    "index_mutations E (st_commit_ts t) (st_mutations t) d0 = Inr d1"
    "db_ok d \<Longrightarrow> db_ok d0" "index_agrees d0 d"
    "\<And>k. k \<notin> {encode_sequencer_decision_key (st_commit_ts t), txn_index_key E (st_txn_id t),
          request_index_key E (st_txn_id t) (st_request_id t)} \<Longrightarrow> tx_get d0 T_kv k = tx_get d T_kv k"
    "tx_get d0 T_kv (encode_sequencer_decision_key (st_commit_ts t)) = Some bs"
    "get_u64_row d0 (txn_index_key E (st_txn_id t)) = Some (st_commit_ts t)"
    "d' = tx_insert (tx_insert d1 T_kv SEQUENCER_INDEX_LAST_TS (u64_bytes (st_commit_ts t)))
            T_kv SEQUENCER_LAST_COMMIT_TS (u64_bytes (st_commit_ts t))"
proof -
  let ?ts = "st_commit_ts t"
  obtain bs where bs: "envelope_encode (decision_codec E) (decision_of t) = Some bs"
    using assms by (auto simp: record_decision_def Let_def)
  define d0 where "d0 = (let d = tx_insert d T_kv (encode_sequencer_decision_key ?ts) bs;
      d = tx_insert d T_kv (txn_index_key E (st_txn_id t)) (u64_bytes ?ts)
    in if st_request_id t \<noteq> []
       then tx_insert d T_kv (request_index_key E (st_txn_id t) (st_request_id t)) (u64_bytes ?ts) else d)"
  obtain d1 where d1: "index_mutations E ?ts (st_mutations t) d0 = Inr d1"
      "d' = tx_insert (tx_insert d1 T_kv SEQUENCER_INDEX_LAST_TS (u64_bytes ?ts))
            T_kv SEQUENCER_LAST_COMMIT_TS (u64_bytes ?ts)" "oc = Committed ?ts"
    using assms bs
    by (auto simp: record_decision_def d0_def Let_def sequencer_index_writes_in_tx_def decision_of_def)
  have "db_ok d \<Longrightarrow> db_ok d0" by (simp add: d0_def Let_def)
  moreover have "index_agrees d0 d"
    unfolding index_agrees_def d0_def Let_def by (auto simp: table_simps)
  moreover have "tx_get d0 T_kv k = tx_get d T_kv k"
    if "k \<notin> {encode_sequencer_decision_key ?ts, txn_index_key E (st_txn_id t),
          request_index_key E (st_txn_id t) (st_request_id t)}" for k
    using that by (simp add: d0_def Let_def table_simps)
  moreover have "tx_get d0 T_kv (encode_sequencer_decision_key ?ts) = Some bs"
    "get_u64_row d0 (txn_index_key E (st_txn_id t)) = Some ?ts"
    by (simp_all add: d0_def Let_def table_simps get_u64_row_def decode_u64_def)
  ultimately show ?thesis using that [OF d1(3) bs d1(1)] d1(2) by blast
qed

lemma decided_before_None:
  assumes "decided_before E d t = None"
  shows "get_u64_row d (txn_index_key E (st_txn_id t)) = None"
  using assms by (auto simp: decided_before_def split: option.splits)

lemma seq_inv_record:
  assumes inv: "seq_inv E L d" and new: "decided_before E d t = None" "st_start_ts t < st_commit_ts t" "st_txn_id t \<noteq> []"
    "read_u64_row d SEQUENCER_LAST_COMMIT_TS < st_commit_ts t" and rc: "record_decision E d t = Inr (oc, d')"
  shows "seq_inv E (L @ [t]) d'" "oc = Committed (st_commit_ts t)"
  using rc
proof (atomize (full), cases rule: record_decision_rows)
  case (1 bs d0 d1)
  let ?ts = "st_commit_ts t" and ?D = encode_sequencer_decision_key
  note I = seq_invD [OF inv] and fresh_id = decided_before_None [OF new(1)]
  obtain x where x: "index_all E L empty_db = Inr x" "index_agrees d x" using I(2) by blast
  have "index_agrees d0 x" using x(2) 1(5) by (simp add: index_agrees_def)
  from index_mutations_agrees [OF this 1(3)] obtain x' where
    x': "index_frame d0 d1" "index_mutations E ?ts (st_mutations t) x = Inr x'" "index_agrees d1 x'"
    by blast
  have kept: "tx_get d1 T_kv k = tx_get d0 T_kv k" if "\<not> index_row k" for k
    using x'(1) that by (simp add: index_frame_def)
  have rows: "tx_get d' T_kv k = tx_get d0 T_kv k"
    if "\<not> index_row k" "k \<noteq> SEQUENCER_LAST_COMMIT_TS" "k \<noteq> SEQUENCER_INDEX_LAST_TS" for k
    using that kept by (simp add: 1(9) table_simps)
  have ok: "db_ok d'" using 1(4) [OF I(1)] x'(1) by (simp add: 1(9) index_frame_def)
  have "index_agrees d' x'"
    using x'(3) unfolding index_agrees_def 1(9) by (auto simp: table_simps)
  then have index: "\<exists>x. index_all E (L @ [t]) empty_db = Inr x \<and> index_agrees d' x"
    using x x'(2) by (simp add: index_all_append)
  have later: "st_commit_ts u < ?ts" if "u \<in> set L" for u
    using seq_inv_last [OF inv that] new(4) by simp
  have "logged E d' u" if u: "u \<in> set L" for u
  proof -
    have "txn_index_key E (st_txn_id u) \<noteq> txn_index_key E (st_txn_id t)"
      using I(4) [OF u] fresh_id by (auto simp: logged_def)
    moreover have "st_commit_ts u \<noteq> ?ts" using later [OF u] by simp
    ultimately show ?thesis
      using I(4) [OF u] 1(6) by (simp add: logged_def get_u64_row_def rows)
  qed
  moreover have "logged E d' t"
    using new(2,3) 1(2,7,8) by (simp add: logged_def rows get_u64_row_def)
  moreover have "sorted_wrt (\<lambda>t u. st_commit_ts t < st_commit_ts u) (L @ [t])"
    using I(3) later by (simp add: sorted_wrt_append)
  moreover have "\<exists>u \<in> set (L @ [t]). k = ?D (st_commit_ts u)"
    if k: "prefix SEQUENCER_DECISION_PREFIX k" "tx_get d' T_kv k = Some v" for k v
  proof (cases "k = ?D ?ts")
    case False
    obtain q where q: "k = SEQUENCER_DECISION_PREFIX @ q" using k(1) by (auto elim: prefixE)
    have ne: "\<not> index_row k" "k \<noteq> SEQUENCER_LAST_COMMIT_TS" "k \<noteq> SEQUENCER_INDEX_LAST_TS"
      "k \<noteq> txn_index_key E (st_txn_id t)" "k \<noteq> request_index_key E (st_txn_id t) (st_request_id t)"
      by (simp_all add: q index_row_def seq_key_defs) (simp_all add: key_defs ascii_def)
    have "tx_get d T_kv k = Some v" using k(2) rows [OF ne(1-3)] 1(6) [of k] ne False by simp
    then show ?thesis using I(7) [OF k(1)] by auto
  qed auto
  moreover have "get_u64_row d' SEQUENCER_LAST_COMMIT_TS = last_ts_of (L @ [t])"
    "tx_get d' T_kv SEQUENCER_INDEX_LAST_TS = map_option u64_bytes (last_ts_of (L @ [t]))"
    by (simp_all add: 1(9) get_u64_row_def table_simps decode_u64_def last_ts_of_def)
  ultimately have "seq_inv E (L @ [t]) d'"
    using ok index unfolding seq_inv_def by auto
  then show "seq_inv E (L @ [t]) d' \<and> oc = Committed ?ts" using 1(1) by blast
qed

section \<open>A clear verdict\<close>

text \<open>What a mutation writes and what a transaction reads.\<close>

fun writes :: "SequencerMutation \<Rightarrow> bytes \<Rightarrow> bool" where
  "writes (MPut key value lease) k = (k = key)"
| "writes (MDelete key) k = (k = key)"
| "writes (MDeleteRange start end0) k = in_range start end0 k"

definition reads :: "SequencerTxn \<times> SequencerReadRange list \<Rightarrow> bytes \<Rightarrow> bool" where
  "reads e k \<longleftrightarrow>
    k \<in> set (st_read_set (fst e)) \<or> (\<exists>r \<in> set (snd e). in_range (rr_start r) (rr_end r) k)"

text \<open>The request validation refuses a range deletion without an upper end.\<close>

definition bounded_ranges :: "SequencerTxn \<Rightarrow> bool" where
  "bounded_ranges t \<longleftrightarrow> (\<forall>a. MDeleteRange a [] \<notin> set (st_mutations t))"

lemma check_read_set_None:
  assumes "check_read_set E d t es ks = None" "k \<in> set ks"
  shows "read_u64_row d (key_index_key E k) \<le> st_start_ts t"
    "w \<in> set es \<Longrightarrow> iw_start w \<le> k \<Longrightarrow> k < iw_end w \<Longrightarrow> iw_commit_ts w \<le> st_start_ts t"
  using assms
  by (induction E d t es ks rule: check_read_set.induct)
     (auto simp: read_u64_row_get interval_point_hit_None split: option.splits if_splits)

lemma check_ranges_None:
  "check_ranges E d t n rs = Inr None \<Longrightarrow> r \<in> set rs \<Longrightarrow>
     sequencer_range_query_in E d (rr_start r) (rr_end r) (st_start_ts t) n = Inr Clear"
proof (induction rs)
  case (Cons r' rs)
  obtain q where q: "sequencer_range_query_in E d (rr_start r') (rr_end r') (st_start_ts t) n = Inr q"
    using Cons.prems(1) by auto
  then have "q = Clear" "check_ranges E d t n rs = Inr None" using Cons.prems(1) by (cases q; simp)+
  then show ?case using Cons q by auto
qed simp

lemma range_query_Clear:
  assumes db: "db_ok d" and n: "n < usize_max" and k: "in_range a b k"
    and q: "sequencer_range_query_in E d a b ts n = Inr Clear"
  shows "read_u64_row d (range_index_key k) \<le> ts"
    "tx_get d T_kv q0 = Some v \<Longrightarrow> prefix SEQUENCER_INTERVAL_INDEX_PREFIX q0 \<Longrightarrow>
       envelope_ok (interval_codec E) v = Some w \<Longrightarrow> in_range (iw_start w) (iw_end w) k \<Longrightarrow> iw_commit_ts w \<le> ts"
proof -
  have ne: "\<not> (b \<noteq> [] \<and> b \<le> a)" using k by (auto simp: in_range_def)
  let ?e = "if b = [] then prefix_upper_bound SEQUENCER_RANGE_INDEX_PREFIX else range_index_key b"
  let ?rs = "tx_iter_range_limited d T_kv (range_index_key a) ?e (fetch_limit n)"
  have fit: "\<not> (0 < n \<and> n < length ?rs)" and cl: "range_rows_loop None ?rs ts = None"
    and iv: "sequencer_interval_range_in E d a b ts n = Inr Clear"
    using q ne by (auto simp: sequencer_range_query_in_def Let_def split: if_splits option.splits)
  have mem: "(range_index_key k, v) \<in> set ?rs \<longleftrightarrow> tx_get d T_kv (range_index_key k) = Some v" for v
    using k sequencer_scans(2) [of a "range_index_key k"]
    by (simp add: fetch_complete [OF db n fit] tx_iter_range_iff [OF db] in_range_def)
       (auto simp: range_index_key_def prefixed_key_def)
  show "read_u64_row d (range_index_key k) \<le> ts"
    using cl mem by (auto simp: range_rows_loop_None read_u64_row_def split: option.splits bind_splits)
  obtain es where es: "sequencer_interval_rows_in E d n = Inr (Some es)" "interval_range_loop None es a b ts = None"
    using iv by (auto simp: sequencer_interval_range_in_def split: option.splits)
  show "iw_commit_ts w \<le> ts" if "tx_get d T_kv q0 = Some v" "prefix SEQUENCER_INTERVAL_INDEX_PREFIX q0"
    "envelope_ok (interval_codec E) v = Some w" "in_range (iw_start w) (iw_end w) k"
  proof -
    have "w \<in> set es" using interval_rows_all(1) [OF db n es(1) that(2,1)] that(3) by auto
    moreover have "ranges_intersect (iw_start w) (iw_end w) a b"
      using k that(4) by (auto simp: ranges_intersect_def in_range_def)
    ultimately show ?thesis using es(2) by (simp add: interval_range_loop_None)
  qed
qed

text \<open>
  A transaction whose reads are clear at its start timestamp reads nothing that a
  transaction committed after that timestamp wrote.
\<close>

lemma reads_clear:
  assumes inv: "seq_inv E L d" and pc: "postcard_ok (interval_codec E)"
    and ap: "intervals_apart E (log_writes L)" and br: "\<forall>u \<in> set L. bounded_ranges u"
    and n: "n < usize_max" and ck: "check_reads E d t rs n = Inr None"
    and u: "u \<in> set L" "st_start_ts t < st_commit_ts u" "m \<in> set (st_mutations u)" and k: "reads (t, rs) k"
  shows "\<not> writes m k"
proof
  assume wr: "writes m k"
  note I = seq_invD [OF inv]
  obtain x where x: "index_all E L empty_db = Inr x" "index_agrees d x" using I(2) by blast
  have pos: "\<forall>t \<in> set L. 0 < st_commit_ts t" 
    using I(4) order_le_less_trans [OF word_zero_le] unfolding logged_def by blast
  have "(st_commit_ts u, m) \<in> log_writes L" using u by (auto simp: log_writes_def)
  then have cov: "covers E x (st_commit_ts u) m" using indexedD(2) [OF indexed_all [OF pc pos ap x(1)]] by blast
  have row: "tx_get d T_kv q = tx_get x T_kv q" if "index_row q" for q using x(2) that by (simp add: index_agrees_def)
  have u64: "read_u64_row d q = read_u64_row x q" if "index_row q" for q using row [OF that] by (simp add: read_u64_row_def)
  have iv: "interval_row E d a b = interval_row E x a b" for a b by (simp add: interval_row_def row)
  have point: "st_commit_ts u \<le> read_u64_row d (key_index_key E k)" "st_commit_ts u \<le> read_u64_row d (range_index_key k)"
    if "point_key m = Some k" using cov that by (simp_all add: covers_def u64)
  have intv: "\<exists>q v w. tx_get d T_kv q = Some v \<and> prefix SEQUENCER_INTERVAL_INDEX_PREFIX q \<and>
      envelope_ok (interval_codec E) v = Some w \<and> iw_start w = a \<and> iw_end w = b \<and> st_commit_ts u \<le> iw_commit_ts w"
    if m: "m = MDeleteRange a b" for a b
  proof -
    obtain w where w: "interval_row E x a b = Some w" "st_commit_ts u \<le> iw_commit_ts w"
      using cov m by (auto simp: covers_def)
    have "insert (st_commit_ts u, MDeleteRange a b) (log_writes L) = log_writes L"
      using \<open>(st_commit_ts u, m) \<in> log_writes L\<close> m by auto
    then have "iw_start w = a" "iw_end w = b"
      using interval_row_named [OF indexed_all [OF pc pos ap x(1)] _ w(1)] ap by metis+
    moreover have "prefix SEQUENCER_INTERVAL_INDEX_PREFIX (interval_index_key E a b)" by (simp add: seq_key_defs)
    moreover obtain v where "tx_get d T_kv (interval_index_key E a b) = Some v" "envelope_ok (interval_codec E) v = Some w"
      using w(1) [folded iv] by (auto simp: interval_row_def bind_eq_Some_conv)
    ultimately show ?thesis using w(2) by blast
  qed
  obtain es where es: "st_read_set t = [] \<and> es = [] \<or> sequencer_interval_rows_in E d n = Inr (Some es)"
      "check_read_set E d t es (st_read_set t) = None" "check_ranges E d t n rs = Inr None"
    using ck by (auto simp: check_reads_def split: if_splits option.splits)
  have in_end: "b \<noteq> []" if "m = MDeleteRange a b" for a b
    using br u that unfolding bounded_ranges_def by metis
  from k consider "k \<in> set (st_read_set t)" | r where "r \<in> set rs" "in_range (rr_start r) (rr_end r) k"
    by (auto simp: reads_def)
  then show False
  proof cases
    case 1
    then have rows: "sequencer_interval_rows_in E d n = Inr (Some es)" using es(1) by auto
    show False
    proof (cases "point_key m")
      case None
      then obtain a b where m: "m = MDeleteRange a b" by (cases m) auto
      obtain q v w where w: "tx_get d T_kv q = Some v" "prefix SEQUENCER_INTERVAL_INDEX_PREFIX q"
        "envelope_ok (interval_codec E) v = Some w" "iw_start w = a" "iw_end w = b" "st_commit_ts u \<le> iw_commit_ts w"
        using intv [OF m] by blast
      have "w \<in> set es" using interval_rows_all(1) [OF I(1) n rows w(2,1)] w(3) by auto
      then show False
        using check_read_set_None(2) [OF es(2) 1] wr in_end [OF m] w(4-) u(2) by (fastforce simp: m in_range_def)
    next
      case (Some k')
      then have "k' = k" using wr by (cases m) auto
      then show False using check_read_set_None(1) [OF es(2) 1] point(1) Some u(2) by fastforce
    qed
  next
    case 2
    note cl = range_query_Clear [OF I(1) n 2(2) check_ranges_None [OF es(3) 2(1)]]
    show False
    proof (cases "point_key m")
      case None
      then obtain a b where m: "m = MDeleteRange a b" by (cases m) auto
      then show False using intv [OF m] cl(2) wr u(2) by (fastforce simp: m)
    next
      case (Some k')
      then have "k' = k" using wr by (cases m) auto
      then show False using cl(1) point(2) Some u(2) by fastforce
    qed
  qed
qed

lemma validate_cases:
  assumes "sequencer_validate_in_tx E d t rs lim = Inr (oc, d')"
  obtains "d' = d" "\<And>ts. oc \<noteq> Committed ts"
  | "decided_before E d t = None" "st_start_ts t < st_commit_ts t" "st_txn_id t \<noteq> []"
    "read_u64_row d SEQUENCER_LAST_COMMIT_TS < st_commit_ts t"
    "check_reads E d t rs (range_budget lim) = Inr None" "record_decision E d t = Inr (oc, d')"
proof -
  have ns: "oc \<noteq> Committed ts" if ck: "check_reads E d t rs n = Inr (Some oc)" for ts n
  proof -
    have "check_read_set E d t es ks \<noteq> Some (Committed ts)" for es ks
      by (induction ks) (auto split: option.splits)
    moreover have "check_ranges E d t n qs \<noteq> Inr (Some (Committed ts))" for qs
    proof (induction qs)
      case (Cons q qs)
      show ?case
        using Cons by (cases "sequencer_range_query_in E d (rr_start q) (rr_end q) (st_start_ts t) n")
          (auto split: SequencerRangeQuery.splits)
    qed simp
    ultimately show ?thesis using ck by (auto simp: check_reads_def split: option.splits)
  qed
  show ?thesis
  proof (cases "check_reads E d t rs (range_budget lim)")
    case (Inl e)
    then show ?thesis
      using assms that by (auto simp: sequencer_validate_in_tx_def Let_def split: if_splits option.splits)
  next
    case (Inr v)
    then show ?thesis
      using assms that ns
      by (cases v) (auto simp: sequencer_validate_in_tx_def Let_def not_le split: if_splits option.splits)
  qed
qed

section \<open>Runs of the sequencer\<close>

type_synonym seq_entry = "SequencerTxn \<times> SequencerReadRange list"

text \<open>The entries of a command that it committed, in their order.\<close>

definition committed_entries :: "seq_entry list \<Rightarrow> SequencerOutcome list \<Rightarrow> seq_entry list" where
  "committed_entries es ocs = map fst (filter (\<lambda>(e, oc). \<exists>ts. oc = Committed ts) (zip es ocs))"

lemma committed_entries_simps [simp]:
  "committed_entries [] ocs = []"
  "committed_entries (e # es) (oc # ocs) =
     (case oc of Committed ts \<Rightarrow> e # committed_entries es ocs | _ \<Rightarrow> committed_entries es ocs)"
  by (auto simp: committed_entries_def split: SequencerOutcome.splits)

text \<open>The committed transactions of a sequence of commands; a failed command changes nothing.\<close>

fun sequencer_run ::
    "seq_env \<Rightarrow> (SequencerOp \<times> u64 \<times> AppliedLogId) list \<Rightarrow> MvccStorage \<Rightarrow> seq_entry list \<times> MvccStorage" where
  "sequencer_run E [] s = ([], s)"
| "sequencer_run E ((op, revision, applied) # cmds) s =
    (case apply_sequencer_op E s op revision applied of
       (Inl e, s') \<Rightarrow> sequencer_run E cmds s'
     | (Inr ocs, s') \<Rightarrow>
         (let (log, s'') = sequencer_run E cmds s'
          in (committed_entries (op_entries op) ocs @ log, s'')))"

text \<open>
  Every transaction of the log is later than those before it and reads nothing
  that one of them wrote after its snapshot.
\<close>

definition occ_ordered :: "seq_entry \<Rightarrow> seq_entry \<Rightarrow> bool" where
  "occ_ordered x y \<longleftrightarrow>
    st_commit_ts (fst x) < st_commit_ts (fst y) \<and>
    (st_start_ts (fst y) < st_commit_ts (fst x) \<longrightarrow>
       (\<forall>m \<in> set (st_mutations (fst x)). \<forall>k. reads y k \<longrightarrow> \<not> writes m k))"

definition occ_state :: "seq_env \<Rightarrow> seq_entry list \<Rightarrow> db \<Rightarrow> bool" where
  "occ_state E K d \<longleftrightarrow> seq_inv E (map fst K) d \<and> sorted_wrt occ_ordered K"

text \<open>What is assumed of a log: no two deleted intervals share a hash, no deletion is unbounded.\<close>

definition log_sound :: "seq_env \<Rightarrow> seq_entry list \<Rightarrow> bool" where
  "log_sound E K \<longleftrightarrow> intervals_apart E (log_writes (map fst K)) \<and> (\<forall>e \<in> set K. bounded_ranges (fst e))"

lemma log_sound_prefix: "log_sound E (K @ M) \<Longrightarrow> log_sound E K"
  unfolding log_sound_def by (auto simp: log_writes_def elim!: intervals_apart_mono)

lemma range_budget_less: "range_budget lim < usize_max"
proof (cases lim)
  case (Some l)
  have "unat (max_range l) < 2 ^ 32" using unsigned_less [of "max_range l"] by simp
  then show ?thesis by (simp add: Some range_budget_def usize_max_def)
qed (simp add: range_budget_def usize_max_def)

lemma validate_step:
  assumes st: "occ_state E K d" and pc: "postcard_ok (interval_codec E)" and snd: "log_sound E K"
    and v: "sequencer_validate_in_tx E d t rs lim = Inr (oc, d')"
  shows "occ_state E (K @ committed_entries [(t, rs)] [oc]) d'"
  using v
proof (cases rule: validate_cases)
  case 1
  then show ?thesis using st by (cases oc) auto
next
  case 2
  have inv: "seq_inv E (map fst K) d" using st by (simp add: occ_state_def)
  note R = seq_inv_record [OF inv 2(1-4,6)]
  have "occ_ordered e (t, rs)" if e: "e \<in> set K" for e
  proof -
    have "st_commit_ts (fst e) < st_commit_ts t"
      using seq_inv_last [OF inv, of "fst e"] e 2(4) by auto
    moreover have "\<not> writes m k" if "st_start_ts t < st_commit_ts (fst e)" "m \<in> set (st_mutations (fst e))"
      "reads (t, rs) k" for m k
      using reads_clear [OF inv pc _ _ range_budget_less 2(5) _ that] snd e by (auto simp: log_sound_def)
    ultimately show ?thesis by (simp add: occ_ordered_def)
  qed
  then show ?thesis using st R by (simp add: occ_state_def sorted_wrt_append)
qed

lemma validate_all_steps:
  assumes "occ_state E K d" "postcard_ok (interval_codec E)" "log_sound E (K @ committed_entries es ocs)"
    "validate_all E lim es d = Inr (ocs, d')"
  shows "occ_state E (K @ committed_entries es ocs) d'"
  using assms
proof (induction es arbitrary: K d ocs)
  case (Cons e es)
  obtain t rs where e: "e = (t, rs)" by (cases e)
  obtain oc d1 ocs' where s: "sequencer_validate_in_tx E d t rs lim = Inr (oc, d1)"
      "validate_all E lim es d1 = Inr (ocs', d')" "ocs = oc # ocs'"
    using Cons.prems(4) by (auto simp: e)
  have split: "K @ committed_entries (e # es) ocs =
      (K @ committed_entries [(t, rs)] [oc]) @ committed_entries es ocs'"
    by (cases oc) (simp_all add: s(3) e)
  have "occ_state E (K @ committed_entries [(t, rs)] [oc]) d1"
    by (rule validate_step [OF Cons.prems(1,2) log_sound_prefix [OF Cons.prems(3)] s(1)])
  from Cons.IH [OF this Cons.prems(2) _ s(2)] show ?case
    using Cons.prems(3) unfolding split by blast
qed simp

lemma seq_same_refl: "seq_same d d"
  by (simp add: seq_same_def)

lemma occ_state_same: "occ_state E K d \<Longrightarrow> seq_same d d' \<Longrightarrow> occ_state E K d'"
  by (auto simp: occ_state_def intro: seq_inv_same)

lemma apply_sequencer_op_steps:
  assumes "occ_state E K (backend s)" "postcard_ok (interval_codec E)"
    "log_sound E (K @ committed_entries (op_entries op) ocs)"
    "apply_sequencer_op E s op r a = (Inr ocs, s')"
  shows "occ_state E (K @ committed_entries (op_entries op) ocs) (backend s')"
proof -
  let ?d = "note_log_index_revision (revision_mode s) (backend s) r"
  obtain d1 where d1: "validate_all E (op_limits op) (op_entries op) ?d = Inr (ocs, d1)"
      "s' = s\<lparr>backend := put_applied d1 a\<rparr>"
    using assms(4) by (auto simp: apply_sequencer_op_def Let_def)
  have "seq_same (backend s) ?d" by (simp add: seq_same_def note_log_index_rows)
  then have "occ_state E K ?d" using assms(1) occ_state_same by blast
  from validate_all_steps [OF this assms(2,3) d1(1)] show ?thesis
    by (rule occ_state_same) (simp add: d1(2) seq_same_def table_simps)
qed

lemma sequencer_run_steps:
  assumes "occ_state E K (backend s)" "postcard_ok (interval_codec E)" "log_sound E (K @ M)"
    "sequencer_run E cmds s = (M, s')"
  shows "occ_state E (K @ M) (backend s')"
  using assms
proof (induction E cmds s arbitrary: K M rule: sequencer_run.induct)
  case (2 E op r a cmds s)
  obtain res s1 where res: "apply_sequencer_op E s op r a = (res, s1)" by fastforce
  show ?case
  proof (cases res)
    case (Inl e)
    then have "s1 = s" using res by (auto simp: apply_sequencer_op_def write_store_def backend_write_def split: sum.splits)
    then show ?thesis using 2(1) [OF res [symmetric] Inl] 2(3-) res Inl by simp
  next
    case (Inr ocs)
    obtain M' where M: "sequencer_run E cmds s1 = (M', s')" "M = committed_entries (op_entries op) ocs @ M'"
      using 2(6) by (auto simp: res Inr split: prod.splits)
    have snd: "log_sound E ((K @ committed_entries (op_entries op) ocs) @ M')" using 2(5) by (simp add: M(2))
    note st = apply_sequencer_op_steps [OF 2(3,4) log_sound_prefix [OF snd] res [unfolded Inr]]
    show ?thesis using 2(2) [OF res [symmetric] Inr st 2(4) snd M(1)] by (simp add: M(2))
  qed
qed simp

section \<open>Serial execution\<close>

fun mutation_effect :: "SequencerMutation \<Rightarrow> (bytes \<Rightarrow> bytes option) \<Rightarrow> bytes \<Rightarrow> bytes option" where
  "mutation_effect (MPut key value lease) st = st(key \<mapsto> value)"
| "mutation_effect (MDelete key) st = st(key := None)"
| "mutation_effect (MDeleteRange start end0) st = (\<lambda>k. if in_range start end0 k then None else st k)"

definition txn_effect :: "SequencerTxn \<Rightarrow> (bytes \<Rightarrow> bytes option) \<Rightarrow> bytes \<Rightarrow> bytes option" where
  "txn_effect t st = fold mutation_effect (st_mutations t) st"

text \<open>The keys after running the transactions of a log one after the other.\<close>

definition serial_state :: "seq_entry list \<Rightarrow> (bytes \<Rightarrow> bytes option) \<Rightarrow> bytes \<Rightarrow> bytes option" where
  "serial_state K st = fold (\<lambda>e. txn_effect (fst e)) K st"

lemma txn_effect_unwritten:
  assumes "\<forall>m \<in> set (st_mutations t). \<not> writes m k"
  shows "txn_effect t st k = st k"
proof -
  have "fold mutation_effect ms st k = st k" if "\<forall>m \<in> set ms. \<not> writes m k" for ms
    using that
  proof (induction ms arbitrary: st)
    case (Cons m ms)
    have "mutation_effect m st k = st k" using Cons.prems by (cases m) auto
    then show ?case using Cons by simp
  qed simp
  then show ?thesis using assms by (simp add: txn_effect_def)
qed

lemma serial_state_unwritten:
  "\<forall>e \<in> set K. \<forall>m \<in> set (st_mutations (fst e)). \<not> writes m k \<Longrightarrow> serial_state K st k = st k"
  by (induction K arbitrary: st) (simp_all add: serial_state_def txn_effect_unwritten)

lemma serial_state_append: "serial_state (K @ M) st = serial_state M (serial_state K st)"
  by (simp add: serial_state_def)

lemma sorted_takeWhile_filter:
  "sorted_wrt (\<lambda>x y. f x < f y) xs \<Longrightarrow> takeWhile (\<lambda>x. f x \<le> b) xs = filter (\<lambda>x. f x \<le> (b :: u64)) xs"
  by (induction xs) (auto simp: eq_commute [of "[]"] filter_empty_conv not_le dest: order.strict_trans)

lemma snapshot_is_serial:
  assumes K: "sorted_wrt occ_ordered K" "K = pre @ e # post" and ts: "st_start_ts (fst e) < st_commit_ts (fst e)"
    and k: "reads e k"
  shows "serial_state pre st k =
    serial_state (filter (\<lambda>x. st_commit_ts (fst x) \<le> st_start_ts (fst e)) K) st k"
proof -
  let ?f = "\<lambda>x :: seq_entry. st_commit_ts (fst x)" and ?b = "st_start_ts (fst e)"
  have ord: "sorted_wrt (\<lambda>x y. ?f x < ?f y) pre" "\<forall>x \<in> set pre. occ_ordered x e" "\<forall>y \<in> set post. ?f e < ?f y"
    using K by (auto simp: sorted_wrt_append occ_ordered_def elim!: sorted_wrt_mono_rel [rotated])
  have "filter (\<lambda>x. ?f x \<le> ?b) K = filter (\<lambda>x. ?f x \<le> ?b) pre"
    using ord(3) ts by (auto simp: K(2) filter_empty_conv not_le dest: order.strict_trans)
  also have "\<dots> = takeWhile (\<lambda>x. ?f x \<le> ?b) pre"
    using sorted_takeWhile_filter [OF ord(1)] by simp
  finally have snap: "filter (\<lambda>x. ?f x \<le> ?b) K = takeWhile (\<lambda>x. ?f x \<le> ?b) pre" .
  have late: "?b < ?f x" if x: "x \<in> set (dropWhile (\<lambda>x. ?f x \<le> ?b) pre)" for x
  proof (rule ccontr)
    assume "\<not> ?b < ?f x"
    moreover have "x \<in> set pre" using x by (rule set_dropWhileD)
    ultimately have "x \<in> set (takeWhile (\<lambda>x. ?f x \<le> ?b) pre)"
      by (simp add: sorted_takeWhile_filter [OF ord(1)])
    then have "?f x < ?f x"
      using ord(1) x sorted_wrt_append [of "\<lambda>x y. ?f x < ?f y" "takeWhile (\<lambda>x. ?f x \<le> ?b) pre"
          "dropWhile (\<lambda>x. ?f x \<le> ?b) pre"] by simp blast
    then show False by simp
  qed
  have "\<forall>x \<in> set (dropWhile (\<lambda>x. ?f x \<le> ?b) pre). \<forall>m \<in> set (st_mutations (fst x)). \<not> writes m k"
    using late ord(2) k set_dropWhileD unfolding occ_ordered_def by metis
  then have "serial_state (takeWhile (\<lambda>x. ?f x \<le> ?b) pre @ dropWhile (\<lambda>x. ?f x \<le> ?b) pre) st k =
      serial_state (takeWhile (\<lambda>x. ?f x \<le> ?b) pre) st k"
    unfolding serial_state_append by (rule serial_state_unwritten)
  then show ?thesis by (simp add: snap)
qed

section \<open>Hash collisions\<close>

text \<open>The length prefixes keep the parts apart: different intervals are different messages.\<close>

lemma hash_message_inj:
  assumes "length a < 2 ^ 64" "length a' < 2 ^ 64" "hash_message domain [a, b] = hash_message domain [a', b']"
  shows "a = a' \<and> b = b'"
proof -
  have "(of_nat (length a) :: u64) = of_nat (length a')"
    using assms(3) by (auto simp: hash_message_def)
  then have "unat (of_nat (length a) :: u64) = unat (of_nat (length a') :: u64)" by simp
  then have "length a = length a'" using assms(1,2) by (simp add: unat_of_nat take_bit_nat_eq_self)
  then show ?thesis using assms(3) by (auto simp: hash_message_def)
qed

text \<open>The messages hashed for the range deletions of a log.\<close>

definition interval_messages :: "seq_entry list \<Rightarrow> bytes set" where
  "interval_messages K =
    {hash_message (ascii ''interval'') [a, b] | a b e. e \<in> set K \<and> MDeleteRange a b \<in> set (st_mutations (fst e))}"

text \<open>
  Stated of a log: SHA-256 has no collision among those messages, the ends are in
  memory (lengths below \<open>2 ^ 64\<close>), and every range deletion has an upper end, as the
  request validation demands.
\<close>

definition log_ok :: "seq_env \<Rightarrow> seq_entry list \<Rightarrow> bool" where
  "log_ok E K \<longleftrightarrow>
    inj_on (sha256 E) (interval_messages K) \<and>
    (\<forall>e \<in> set K. \<forall>a b. MDeleteRange a b \<in> set (st_mutations (fst e)) \<longrightarrow>
       b \<noteq> [] \<and> length a < 2 ^ 64 \<and> length b < 2 ^ 64)"

lemma log_ok_sound:
  assumes "log_ok E K"
  shows "log_sound E K"
proof -
  have len: "b \<noteq> []" "length a < 2 ^ 64" and msg: "hash_message (ascii ''interval'') [a, b] \<in> interval_messages K"
    if i: "(a, b) \<in> intervals_of (log_writes (map fst K))" for a b
  proof -
    obtain e where e: "e \<in> set K" "MDeleteRange a b \<in> set (st_mutations (fst e))"
      using i by (auto simp: intervals_of_def log_writes_def)
    show "b \<noteq> []" "length a < 2 ^ 64" using assms e unfolding log_ok_def by blast+
    show "hash_message (ascii ''interval'') [a, b] \<in> interval_messages K"
      using e unfolding interval_messages_def by blast
  qed
  have "intervals_apart E (log_writes (map fst K))"
    unfolding intervals_apart_def
  proof (rule inj_onI, clarify)
    fix a b a' b'
    assume i: "(a, b) \<in> intervals_of (log_writes (map fst K))" "(a', b') \<in> intervals_of (log_writes (map fst K))"
      and eq: "interval_index_key E a b = interval_index_key E a' b'"
    have "hash_message (ascii ''interval'') [a, b] = hash_message (ascii ''interval'') [a', b']"
      using inj_onD [OF conjunct1 [OF assms [unfolded log_ok_def]] _ msg [OF i(1)] msg [OF i(2)]] eq
      by (simp add: interval_index_key_def prefixed_key_def sequencer_hash_def)
    then show "a = a' \<and> b = b'" using hash_message_inj len(2) i by blast
  qed
  moreover have "bounded_ranges (fst e)" if "e \<in> set K" for e
    using assms that unfolding log_ok_def bounded_ranges_def by blast
  ultimately show ?thesis by (simp add: log_sound_def)
qed

text \<open>A store on which no sequencer ran.\<close>

definition seq_clean :: "MvccStorage \<Rightarrow> bool" where
  "seq_clean s \<longleftrightarrow>
    db_ok (backend s) \<and> (\<forall>k. prefix (ascii ''/_sys/seq/'') k \<longrightarrow> tx_get (backend s) T_kv k = None)"

lemma seq_clean_occ: "seq_clean s \<Longrightarrow> occ_state E [] (backend s)"
  by (auto simp: seq_clean_def occ_state_def seq_inv_def index_agrees_def get_u64_row_def last_ts_of_def seq_row_keys)

lemma run_from_clean:
  assumes "seq_clean s" "postcard_ok (interval_codec E)" "log_ok E K" "sequencer_run E cmds s = (K, s')"
  shows "occ_state E K (backend s')"
  using sequencer_run_steps [OF seq_clean_occ [OF assms(1)] assms(2) _ assms(4)] log_ok_sound [OF assms(3)] by simp

text \<open>C3: Committed transactions are serializable. Whatever commands the sequencer of a
  fresh store processes, running the transactions it committed one after the
  other, in the order of the log, gives each of them on every key of its read set
  and of its read ranges the value it saw in its snapshot, which holds the
  transactions committed up to its start timestamp. Commit timestamps strictly
  increase along the log.\<close>

theorem sequencer_serializable:
  assumes "seq_clean s" "postcard_ok (interval_codec E)" "sequencer_run E cmds s = (K, s')" "log_ok E K"
  shows "sorted_wrt (\<lambda>x y. st_commit_ts (fst x) < st_commit_ts (fst y)) K \<and>
    (\<forall>pre e post k st. K = pre @ e # post \<longrightarrow> reads e k \<longrightarrow>
       serial_state pre st k =
         serial_state (filter (\<lambda>x. st_commit_ts (fst x) \<le> st_start_ts (fst e)) K) st k)"
proof -
  note st = run_from_clean [OF assms(1,2,4,3)]
  have K: "sorted_wrt occ_ordered K" "seq_inv E (map fst K) (backend s')" using st by (simp_all add: occ_state_def)
  have "st_start_ts (fst e) < st_commit_ts (fst e)" if "e \<in> set K" for e
    using seq_invD(4) [OF K(2), of "fst e"] that by (simp add: logged_def)
  then show ?thesis
    using snapshot_is_serial [OF K(1)] K(1)
    by (auto simp: occ_ordered_def elim: sorted_wrt_mono_rel [rotated])
qed

definition sample_writer :: SequencerTxn where
  "sample_writer = \<lparr>st_txn_id = [1], st_start_ts = 1, st_commit_ts = 5, st_request_id = [9], st_read_set = [],
     st_mutations = [MPut [7] [70] None]\<rparr>"

definition sample_reader :: "u64 \<Rightarrow> u64 \<Rightarrow> byte \<Rightarrow> SequencerTxn" where
  "sample_reader start_ts commit_ts i = \<lparr>st_txn_id = [i], st_start_ts = start_ts, st_commit_ts = commit_ts,
     st_request_id = [], st_read_set = [[7]], st_mutations = [MDelete [8]]\<rparr>"

definition sample_env :: seq_env where
  "sample_env = \<lparr>sha256 = (\<lambda>m. m),
     decision_codec = table_codec [decision_of sample_writer, decision_of (sample_reader 5 9 2)],
     interval_codec = table_codec []\<rparr>"

definition sample_cmds :: "(SequencerOp \<times> u64 \<times> AppliedLogId) list" where
  "sample_cmds =
    [(ValidateAndCommit [sample_writer, sample_reader 4 8 3], 1, standalone 1),
     (ValidateAndCommitWithRanges [\<lparr>tw_txn = sample_reader 5 9 2, tw_read_ranges = []\<rparr>]
        \<lparr>max_read_set = 10, max_range = 10\<rparr>, 2, standalone 2)]"

lemma interval_rows_none:
  assumes "db_ok d" "\<And>k. prefix SEQUENCER_INTERVAL_INDEX_PREFIX k \<Longrightarrow> tx_get d T_kv k = None"
  shows "sequencer_interval_rows_in E d n = Inr (Some [])"
proof -
  have "tx_iter_range d T_kv SEQUENCER_INTERVAL_INDEX_PREFIX (prefix_upper_bound SEQUENCER_INTERVAL_INDEX_PREFIX) = []"
    using assms(2) tx_iter_range_iff [OF assms(1)] sequencer_scans(1) by (metis list.set_intros(1) not_None_eq surj_pair neq_Nil_conv)
  then show ?thesis by (simp add: sequencer_interval_rows_in_def tx_iter_range_limited_take [OF assms(1)])
qed

lemma not_interval_row:
  "\<not> prefix SEQUENCER_INTERVAL_INDEX_PREFIX (key_index_key E k)" "\<not> prefix SEQUENCER_INTERVAL_INDEX_PREFIX (range_index_key k)"
  "\<not> prefix SEQUENCER_INTERVAL_INDEX_PREFIX (txn_index_key E i)" "\<not> prefix SEQUENCER_INTERVAL_INDEX_PREFIX (request_index_key E i r)"
  "\<not> prefix SEQUENCER_INTERVAL_INDEX_PREFIX (encode_sequencer_decision_key ts)"
  "\<not> prefix SEQUENCER_INTERVAL_INDEX_PREFIX SEQUENCER_LAST_COMMIT_TS"
  "\<not> prefix SEQUENCER_INTERVAL_INDEX_PREFIX SEQUENCER_INDEX_LAST_TS"
  by (simp_all add: seq_key_defs) (simp_all add: key_defs ascii_def)

lemma index_key_neq: "index_row k \<Longrightarrow> \<not> index_row k' \<Longrightarrow> k \<noteq> k'" "index_row k \<Longrightarrow> \<not> index_row k' \<Longrightarrow> k' \<noteq> k"
  by auto

lemmas sample_keys_neq = index_key_neq [OF index_row_keys(1) index_row_keys(4)]
  index_key_neq [OF index_row_keys(1) index_row_keys(5)] index_key_neq [OF index_row_keys(1) index_row_keys(6)]
  index_key_neq [OF index_row_keys(1) index_row_keys(7)] index_key_neq [OF index_row_keys(1) index_row_keys(8)]
  index_key_neq [OF index_row_keys(2) index_row_keys(4)]
  index_key_neq [OF index_row_keys(2) index_row_keys(5)] index_key_neq [OF index_row_keys(2) index_row_keys(6)]
  index_key_neq [OF index_row_keys(2) index_row_keys(7)] index_key_neq [OF index_row_keys(2) index_row_keys(8)]

lemma sample_keys:
  "txn_index_key sample_env [i] = txn_index_key sample_env [j] \<longleftrightarrow> i = j"
  "key_index_key sample_env [i] = key_index_key sample_env [j] \<longleftrightarrow> i = j"
  by (simp_all add: seq_key_defs sample_env_def sequencer_hash_def hash_message_def)

lemma sample_encode:
  "envelope_encode (decision_codec sample_env) (decision_of sample_writer) = Some (MAGIC @ [VERSION_V2, 0])"
  "envelope_encode (decision_codec sample_env) (decision_of (sample_reader 5 9 2)) = Some (MAGIC @ [VERSION_V2, 1])"
  by (simp_all add: envelope_encode_def sample_env_def table_codec_def decision_of_def sample_writer_def sample_reader_def)

lemmas run_defs =
  apply_sequencer_op_def write_store_def backend_write_def note_log_index_revision_def
  sequencer_validate_in_tx_def decided_before_def read_set_too_large_def range_budget_def usize_max_def
  check_reads_def record_decision_def sequencer_index_writes_in_tx_def index_mutation_def
  raise_index_def get_u64_row_def read_u64_row_def decode_u64_def

lemma sample_txns [simp]:
  "st_txn_id sample_writer = [1]" "st_start_ts sample_writer = 1" "st_commit_ts sample_writer = 5"
  "st_request_id sample_writer = [9]" "st_read_set sample_writer = []" "st_mutations sample_writer = [MPut [7] [70] None]"
  "st_txn_id (sample_reader a b i) = [i]" "st_start_ts (sample_reader a b i) = a" "st_commit_ts (sample_reader a b i) = b"
  "st_request_id (sample_reader a b i) = []" "st_read_set (sample_reader a b i) = [[7]]"
  "st_mutations (sample_reader a b i) = [MDelete [8]]"
  "sd_commit_ts (decision_of t) = st_commit_ts t" "sd_mutations (decision_of t) = st_mutations t"
  by (simp_all add: sample_writer_def sample_reader_def decision_of_def)

lemma numeral_le_one: "\<not> (5 :: u64) \<le> 1"
  by (simp add: word_le_nat_alt)

text \<open>The rows that a committed transaction leaves, here and in the examples below.\<close>

definition sample_db :: "db \<Rightarrow> db" where
  "sample_db d =
    tx_insert (tx_insert (tx_insert (tx_insert (tx_insert (tx_insert (tx_insert d
      T_kv (encode_sequencer_decision_key 5) (MAGIC @ [VERSION_V2, 0]))
      T_kv (txn_index_key sample_env [1]) (u64_bytes 5))
      T_kv (request_index_key sample_env [1] [9]) (u64_bytes 5))
      T_kv (key_index_key sample_env [7]) (u64_bytes 5))
      T_kv (range_index_key [7]) (u64_bytes 5))
      T_kv SEQUENCER_INDEX_LAST_TS (u64_bytes 5))
      T_kv SEQUENCER_LAST_COMMIT_TS (u64_bytes 5)"

lemmas sample_simps = run_defs Let_def numeral_le_one table_simps sample_encode sample_keys
      interval_rows_none not_interval_row sample_keys_neq sample_keys_neq [symmetric]

definition seq_free :: "db \<Rightarrow> bool" where
  "seq_free d \<longleftrightarrow> db_ok d \<and> (\<forall>k. prefix (ascii ''/_sys/seq/'') k \<longrightarrow> tx_get d T_kv k = None)"

lemma sample_db_intervals:
  assumes "seq_free d" "seq_same (sample_db d) d2"
  shows "sequencer_interval_rows_in E d2 n = Inr (Some [])"
proof -
  have "tx_get d2 T_kv k = None" if k: "prefix SEQUENCER_INTERVAL_INDEX_PREFIX k" for k
  proof -
    have p: "prefix (ascii ''/_sys/seq/'') k" using k by (intro seq_row_keys(1)) (simp add: index_row_def)
    then have "tx_get d T_kv k = None" using assms by (simp add: seq_free_def)
    then have "tx_get (sample_db d) T_kv k = None" using k not_interval_row by (auto simp: sample_db_def table_simps)
    then show ?thesis using assms(2) p by (simp add: seq_same_def)
  qed
  moreover have "db_ok d2" using assms by (simp add: sample_db_def seq_free_def seq_same_def)
  ultimately show ?thesis by (simp add: interval_rows_none)
qed

lemma sample_steps:
  assumes d: "seq_free d" and d2: "seq_same (sample_db d) d2"
  shows "sequencer_validate_in_tx sample_env d sample_writer [] None = Inr (Committed 5, sample_db d)"
    "sequencer_validate_in_tx sample_env d2 (sample_reader 4 8 3) [] None = Inr (Conflict 8 [7] 5, d2)"
    "\<exists>d'. sequencer_validate_in_tx sample_env d2 (sample_reader 5 9 2) []
       (Some \<lparr>max_read_set = 10, max_range = 10\<rparr>) = Inr (Committed 9, d')"
proof -
  have rows: "tx_get d T_kv k = None" if "prefix (ascii ''/_sys/seq/'') k" for k using d that by (simp add: seq_free_def)
  show "sequencer_validate_in_tx sample_env d sample_writer [] None = Inr (Committed 5, sample_db d)"
    by (simp add: sample_db_def sample_simps rows seq_row_keys)
  have "prefix (ascii ''/_sys/seq/'') (key_index_key sample_env [7])" by (simp add: seq_row_keys)
  then have gets: "get_u64_row d2 (key_index_key sample_env [7]) = Some 5"
    "get_u64_row d2 (txn_index_key sample_env [3]) = None" "get_u64_row d2 (txn_index_key sample_env [2]) = None"
    "read_u64_row d2 SEQUENCER_LAST_COMMIT_TS = 5"
    using d2 unfolding seq_same_def sample_db_def by (simp_all add: sample_simps rows seq_row_keys)
  note iv = sample_db_intervals [OF d d2]
  have ck: "check_reads sample_env d2 (sample_reader 4 8 3) [] n = Inr (Some (Conflict 8 [7] 5))"
    "check_reads sample_env d2 (sample_reader 5 9 2) [] n = Inr None" for n
    by (simp_all add: check_reads_def iv gets)
  show "sequencer_validate_in_tx sample_env d2 (sample_reader 4 8 3) [] None = Inr (Conflict 8 [7] 5, d2)"
    by (simp add: sequencer_validate_in_tx_def decided_before_def read_set_too_large_def Let_def gets ck)
  have "\<exists>d'. record_decision sample_env d2 (sample_reader 5 9 2) = Inr (Committed 9, d')"
    by (simp add: record_decision_def sample_encode Let_def sequencer_index_writes_in_tx_def index_mutation_def)
  then show "\<exists>d'. sequencer_validate_in_tx sample_env d2 (sample_reader 5 9 2) []
       (Some \<lparr>max_read_set = 10, max_range = 10\<rparr>) = Inr (Committed 9, d')"
    by (simp add: sequencer_validate_in_tx_def decided_before_def read_set_too_large_def usize_max_def Let_def gets ck)
qed

lemma sample_run:
  "\<exists>s'. sequencer_run sample_env sample_cmds (fresh LogIndex) =
      ([(sample_writer, []), (sample_reader 5 9 2, [])], s')"
proof -
  let ?n = "\<lambda>d r. note_log_index_revision LogIndex d r"
  let ?d = "?n empty_db 1"
  let ?d2 = "?n (put_applied (sample_db ?d) (standalone 1)) 2"
  have f: "seq_free ?d" by (simp add: seq_free_def note_log_index_rows)
  have same: "seq_same (sample_db ?d) ?d2" by (simp add: seq_same_def note_log_index_rows table_simps)
  obtain d' where d': "sequencer_validate_in_tx sample_env ?d2
      (sample_reader 5 9 2) [] (Some \<lparr>max_read_set = 10, max_range = 10\<rparr>) = Inr (Committed 9, d')"
    using sample_steps(3) [OF f same] by blast
  show ?thesis
    by (simp add: sample_cmds_def apply_sequencer_op_def write_store_def backend_write_def Let_def
        new_with_revision_mode_def sample_steps(1,2) [OF f seq_same_refl] d')
qed

lemma sample_ok:
  "seq_clean (fresh LogIndex)" "postcard_ok (interval_codec sample_env)"
  "log_ok sample_env [(sample_writer, []), (sample_reader 5 9 2, [])]"
  by (simp_all add: seq_clean_def new_with_revision_mode_def sample_env_def table_codec_ok log_ok_def)

theorem sequencer_serializable_witness:
  "\<exists>s'. sequencer_run sample_env sample_cmds (fresh LogIndex) =
      ([(sample_writer, []), (sample_reader 5 9 2, [])], s') \<and>
    serial_state [(sample_writer, [])] Map.empty [7] =
      serial_state (filter (\<lambda>x. st_commit_ts (fst x) \<le> 5) [(sample_writer, []), (sample_reader 5 9 2, [])])
        Map.empty [7]"
proof -
  obtain s' where run: "sequencer_run sample_env sample_cmds (fresh LogIndex) =
      ([(sample_writer, []), (sample_reader 5 9 2, [])], s')"
    using sample_run by blast
  have "reads (sample_reader 5 9 2, []) [7]" by (simp add: reads_def)
  note snap = conjunct2 [OF sequencer_serializable [OF sample_ok(1,2) run sample_ok(3)], rule_format, OF _ this,
      of "[(sample_writer, [])]" "[]" Map.empty]
  have "serial_state [(sample_writer, [])] Map.empty [7] =
      serial_state (filter (\<lambda>x. st_commit_ts (fst x) \<le> st_start_ts (fst (sample_reader 5 9 2, [])))
        [(sample_writer, []), (sample_reader 5 9 2, [])]) Map.empty [7]"
    using snap by simp
  then show ?thesis using run by simp
qed

end
