(* ===== verification/Sequencer_Log.thy ===== *)
theory Sequencer_Log
  imports Sequencer_Occ
begin

text \<open>
  The decision log of the sequencer: what its readers get, that a retried
  transaction is answered with its first decision, and that the validation
  indexes rebuilt from the log are the indexes they replace.
\<close>

section \<open>Reading the log\<close>

definition decision_row :: "db \<Rightarrow> SequencerTxn \<Rightarrow> bytes \<times> bytes" where
  "decision_row d t = (encode_sequencer_decision_key (st_commit_ts t),
     the (tx_get d T_kv (encode_sequencer_decision_key (st_commit_ts t))))"

lemma logged_row:
  assumes "logged E d t"
  obtains bs where "envelope_encode (decision_codec E) (decision_of t) = Some bs"
    "tx_get d T_kv (encode_sequencer_decision_key (st_commit_ts t)) = Some bs"
    "decision_row d t = (encode_sequencer_decision_key (st_commit_ts t), bs)"
  using assms by (auto simp: logged_def decision_row_def)

text \<open>What the log needs for the facts of this section, also while an index is rebuilt.\<close>

definition log_rows :: "seq_env \<Rightarrow> SequencerTxn list \<Rightarrow> db \<Rightarrow> bool" where
  "log_rows E L d \<longleftrightarrow>
    db_ok d \<and> sorted_wrt (\<lambda>t u. st_commit_ts t < st_commit_ts u) L \<and>
    (\<forall>t \<in> set L. \<exists>bs. envelope_encode (decision_codec E) (decision_of t) = Some bs \<and>
       tx_get d T_kv (encode_sequencer_decision_key (st_commit_ts t)) = Some bs) \<and>
    (\<forall>k v. prefix SEQUENCER_DECISION_PREFIX k \<longrightarrow> tx_get d T_kv k = Some v \<longrightarrow>
       (\<exists>t \<in> set L. k = encode_sequencer_decision_key (st_commit_ts t)))"

lemma seq_inv_log_rows: "seq_inv E L d \<Longrightarrow> log_rows E L d"
  unfolding seq_inv_def log_rows_def logged_def by blast

lemma decision_scan:
  assumes L: "log_rows E L d"
  shows "tx_iter_range d T_kv (encode_sequencer_decision_key a) (prefix_upper_bound SEQUENCER_DECISION_PREFIX) =
    map (decision_row d) (filter (\<lambda>t. a \<le> st_commit_ts t) L)" (is "?scan = ?rows")
proof (rule keys_sorted_ext)
  have db: "db_ok d" using L by (simp add: log_rows_def)
  show "keys_sorted ?scan" using db by simp
  have "sorted_wrt (\<lambda>t u. st_commit_ts t < st_commit_ts u) (filter (\<lambda>t. a \<le> st_commit_ts t) L)"
    using L by (simp add: log_rows_def sorted_wrt_filter)
  then show ks: "keys_sorted ?rows"
    by (simp add: keys_sorted_def sorted_wrt_map decision_row_def)
  have "(k, v) \<in> set ?scan \<longleftrightarrow> (k, v) \<in> set ?rows" for k v
  proof -
    have "(k, v) \<in> set ?scan \<longleftrightarrow> prefix SEQUENCER_DECISION_PREFIX k \<and> encode_sequencer_decision_key a \<le> k \<and>
        tx_get d T_kv k = Some v"
      by (simp add: tx_iter_range_iff [OF db] sequencer_scans(3))
    also have "\<dots> \<longleftrightarrow> (\<exists>t \<in> set L. a \<le> st_commit_ts t \<and> k = encode_sequencer_decision_key (st_commit_ts t) \<and>
        tx_get d T_kv k = Some v)"
      using L unfolding log_rows_def by (metis decision_key.encode_le decision_key.encode_prefix)
    also have "\<dots> \<longleftrightarrow> (k, v) \<in> set ?rows"
      using L unfolding log_rows_def decision_row_def by auto force+
    finally show ?thesis .
  qed
  then show "map_of ?scan = map_of ?rows"
    using map_of_in_sorted [OF ks] map_of_in_sorted [of ?scan] db
    by (intro ext, metis (no_types, lifting) not_None_eq tx_iter_range_sorted)
qed

lemma decode_decision_rows:
  assumes pc: "postcard_ok (decision_codec E)"
    and ts: "\<forall>t \<in> set M. \<exists>bs. envelope_encode (decision_codec E) (decision_of t) = Some bs \<and>
       tx_get d T_kv (encode_sequencer_decision_key (st_commit_ts t)) = Some bs"
  shows "t \<in> set M \<Longrightarrow> decode_decision_row E (fst (decision_row d t)) (snd (decision_row d t)) = Inr (decision_of t)"
    "decode_decisions E (map (decision_row d) M) = Inr (map decision_of M)"
proof -
  show row: "decode_decision_row E (fst (decision_row d t)) (snd (decision_row d t)) = Inr (decision_of t)"
    if t: "t \<in> set M" for t
  proof -
    obtain bs where bs: "envelope_encode (decision_codec E) (decision_of t) = Some bs"
        "tx_get d T_kv (encode_sequencer_decision_key (st_commit_ts t)) = Some bs"
      using ts t by blast
    have "decision_row d t = (encode_sequencer_decision_key (st_commit_ts t), bs)"
      by (simp add: decision_row_def bs(2))
    then show ?thesis
      using envelope_decode_encode(1) [OF pc bs(1)]
      by (simp add: decode_decision_row_def encode_sequencer_decision_key_def decode_u64_def decision_of_def)
  qed
  show "decode_decisions E (map (decision_row d) M) = Inr (map decision_of M)"
    using row
  proof (induction M)
    case (Cons t M)
    have "decode_decision_row E (fst (decision_row d t)) (snd (decision_row d t)) = Inr (decision_of t)"
      using Cons.prems by simp
    moreover have "decode_decisions E (map (decision_row d) M) = Inr (map decision_of M)"
      using Cons.IH Cons.prems by simp
    ultimately show ?case by (cases "decision_row d t") simp
  qed simp
qed

lemma sat_succ_le: "a \<noteq> - 1 \<Longrightarrow> sat_succ a \<le> t \<longleftrightarrow> a < t"
proof -
  assume "a \<noteq> - 1"
  moreover have "unat a < 2 ^ 64" using unat_u64_less [of a] by simp
  moreover have "unat (- 1 :: u64) = 2 ^ 64 - 1" by (simp add: unsigned_minus_1_eq_mask mask_eq_exp_minus_1)
  ultimately have "unat a + 1 < 2 ^ 64" using word_unat_eq_iff [of a "- 1"] by simp
  then have "unat (a + 1) = unat a + 1" by (simp add: unat_word_ariths)
  then show ?thesis using \<open>a \<noteq> - 1\<close> by (simp add: sat_succ_def word_le_nat_alt word_less_nat_alt Suc_le_eq)
qed

lemma decision_rows_take:
  assumes "log_rows E L d" "after_ts \<noteq> - 1" "0 < n"
  shows "decision_rows d after_ts n = map (decision_row d) (take n (filter (\<lambda>t. after_ts < st_commit_ts t) L))"
proof -
  have "db_ok d" using assms(1) by (simp add: log_rows_def)
  then show ?thesis
    using assms(2,3)
    by (simp add: decision_rows_def tx_iter_range_limited_take decision_scan [OF assms(1)] sat_succ_le take_map)
qed

lemma decisions_after_rows:
  assumes L: "log_rows E L (backend s)" and pc: "postcard_ok (decision_codec E)" and "after_ts \<noteq> - 1"
  shows "sequencer_decisions_after E s after_ts n =
    Inr (take (max n 1) (map decision_of (filter (\<lambda>t. after_ts < st_commit_ts t) L)))"
proof -
  let ?M = "take (max n 1) (filter (\<lambda>t. after_ts < st_commit_ts t) L)"
  have "set ?M \<subseteq> set L" using set_take_subset filter_is_subset by (rule subset_trans)
  then have "\<forall>t \<in> set ?M. \<exists>bs. envelope_encode (decision_codec E) (decision_of t) = Some bs \<and>
      tx_get (backend s) T_kv (encode_sequencer_decision_key (st_commit_ts t)) = Some bs"
    using L unfolding log_rows_def by blast
  from decode_decision_rows(2) [OF pc this] show ?thesis
    by (simp add: sequencer_decisions_after_def decision_rows_take [OF L assms(3)] take_map)
qed

text \<open>The decision log is complete and in order: a reader that asks for the decisions after a
  timestamp gets exactly those that the sequencer committed later, in the order of
  their timestamps, cut at the limit; the next decision after a cursor is the
  first of them.\<close>

theorem decisions_after_exact:
  assumes "seq_clean s" "postcard_ok (interval_codec E)" "sequencer_run E cmds s = (K, s')" "log_ok E K"
    and "postcard_ok (decision_codec E)" "after_ts \<noteq> - 1"
  shows "sequencer_decisions_after E s' after_ts limit =
      Inr (take (max limit 1) (map (\<lambda>e. decision_of (fst e)) (filter (\<lambda>e. after_ts < st_commit_ts (fst e)) K))) \<and>
    next_sequencer_decision_ts E s' after_ts =
      Inr (case filter (\<lambda>e. after_ts < st_commit_ts (fst e)) K of
             [] \<Rightarrow> None | e # _ \<Rightarrow> Some (st_commit_ts (fst e)))"
proof -
  have "seq_inv E (map fst K) (backend s')"
    using run_from_clean [OF assms(1,2,4,3)] by (simp add: occ_state_def)
  note L = seq_inv_log_rows [OF this]
  have all: "sequencer_decisions_after E s' after_ts n =
      Inr (take (max n 1) (map (\<lambda>e. decision_of (fst e)) (filter (\<lambda>e. after_ts < st_commit_ts (fst e)) K)))" for n
    by (simp add: decisions_after_rows [OF L assms(5,6)] filter_map o_def)
  show ?thesis
    unfolding next_sequencer_decision_ts_def all
    by (cases "filter (\<lambda>e. after_ts < st_commit_ts (fst e)) K") (simp_all add: decision_of_def)
qed

theorem decisions_after_exact_witness:
  "\<exists>s'. sequencer_run sample_env sample_cmds (fresh LogIndex) =
      ([(sample_writer, []), (sample_reader 5 9 2, [])], s') \<and>
    sequencer_decisions_after sample_env s' 5 10 = Inr [decision_of (sample_reader 5 9 2)] \<and>
    next_sequencer_decision_ts sample_env s' 0 = Inr (Some 5)"
proof -
  obtain s' where run: "sequencer_run sample_env sample_cmds (fresh LogIndex) =
      ([(sample_writer, []), (sample_reader 5 9 2, [])], s')"
    using sample_run by blast
  have "postcard_ok (decision_codec sample_env)" by (simp add: sample_env_def table_codec_ok)
  note ex = decisions_after_exact [OF sample_ok(1,2) run sample_ok(3) this]
  show ?thesis using run ex [of 5 10] ex [of 0] by auto
qed

section \<open>Retries\<close>

text \<open>C15: A transaction is decided once. After a run of the sequencer the committed transactions
  have different, non-empty identifiers, and presenting one of them again, with
  whatever timestamps, reads and writes, is answered with its first commit
  timestamp and changes nothing but the applied log position.\<close>

theorem sequencer_retry:
  assumes "seq_clean s" "postcard_ok (interval_codec E)" "sequencer_run E cmds s = (K, s')" "log_ok E K"
    and "e \<in> set K" "st_txn_id t = st_txn_id (fst e)"
  shows "distinct (map (\<lambda>e. st_txn_id (fst e)) K) \<and>
    apply_sequencer_op E s' (ValidateAndCommit [t]) r a =
      (Inr [Duplicate (st_commit_ts (fst e))],
       s'\<lparr>backend := put_applied (note_log_index_revision (revision_mode s') (backend s') r) a\<rparr>)"
proof -
  have inv: "seq_inv E (map fst K) (backend s')"
    using run_from_clean [OF assms(1,2,4,3)] by (simp add: occ_state_def)
  have ids: "st_txn_id (fst x) \<noteq> []"
    "get_u64_row (backend s') (txn_index_key E (st_txn_id (fst x))) = Some (st_commit_ts (fst x))" if "x \<in> set K" for x
    using seq_invD(4) [OF inv, of "fst x"] that by (simp_all add: logged_def)
  have "sorted_wrt (\<lambda>x y. st_commit_ts (fst x) < st_commit_ts (fst y)) K"
    using seq_invD(3) [OF inv] by (simp add: sorted_wrt_map)
  moreover have "st_txn_id (fst x) \<noteq> st_txn_id (fst y)"
    if "x \<in> set K" "y \<in> set K" "st_commit_ts (fst x) < st_commit_ts (fst y)" for x y
    using ids(2) [OF that(1)] ids(2) [OF that(2)] that(3) by auto
  ultimately have "sorted_wrt (\<lambda>x y. st_txn_id (fst x) \<noteq> st_txn_id (fst y)) K"
    by (rule sorted_wrt_mono_rel [rotated])
  then have "distinct (map (\<lambda>e. st_txn_id (fst e)) K)" by (induction K) auto
  moreover have "get_u64_row (note_log_index_revision (revision_mode s') (backend s') r) k = get_u64_row (backend s') k" for k
    by (simp add: get_u64_row_def note_log_index_rows)
  then have "sequencer_validate_in_tx E (note_log_index_revision (revision_mode s') (backend s') r) t [] None =
      Inr (Duplicate (st_commit_ts (fst e)), note_log_index_revision (revision_mode s') (backend s') r)"
    using ids [OF assms(5)] assms(6) by (simp add: sequencer_validate_in_tx_def decided_before_def)
  ultimately show ?thesis
    by (simp add: apply_sequencer_op_def write_store_def backend_write_def Let_def)
qed

theorem sequencer_retry_witness:
  "\<exists>s'. sequencer_run sample_env sample_cmds (fresh LogIndex) =
      ([(sample_writer, []), (sample_reader 5 9 2, [])], s') \<and>
    fst (apply_sequencer_op sample_env s' (ValidateAndCommit [sample_writer\<lparr>st_commit_ts := 77\<rparr>]) 3 (standalone 3)) =
      Inr [Duplicate 5]"
proof -
  obtain s' where run: "sequencer_run sample_env sample_cmds (fresh LogIndex) =
      ([(sample_writer, []), (sample_reader 5 9 2, [])], s')"
    using sample_run by blast
  show ?thesis
    using run sequencer_retry [OF sample_ok(1,2) run sample_ok(3), of "(sample_writer, [])"
        "sample_writer\<lparr>st_commit_ts := 77\<rparr>" 3 "standalone 3"] by auto
qed

section \<open>Rebuilding the indexes\<close>

lemma remove_rows_get:
  "db_ok d \<Longrightarrow> db_ok (remove_rows d rs)"
  "db_ok d \<Longrightarrow> tx_get (remove_rows d rs) t k = (if t = T_kv \<and> k \<in> fst ` set rs then None else tx_get d t k)"
  by (induction d rs rule: remove_rows.induct) (auto simp: table_simps)

lemma clear_prefix_get:
  assumes "db_ok d"
  shows "db_ok (clear_prefix p d)"
    "tx_get (clear_prefix p d) t k = (if t = T_kv \<and> prefix p k then None else tx_get d t k)"
proof -
  show "db_ok (clear_prefix p d)" using assms by (simp add: clear_prefix_def remove_rows_get(1))
  have "k \<in> fst ` set (tx_iter_prefix d T_kv p) \<longleftrightarrow> prefix p k \<and> tx_get d T_kv k \<noteq> None"
    by (simp add: image_iff Bex_def split_paired_Ex tx_iter_prefix_iff [OF assms])
  then show "tx_get (clear_prefix p d) t k = (if t = T_kv \<and> prefix p k then None else tx_get d t k)"
    using assms by (auto simp: clear_prefix_def remove_rows_get(2))
qed

lemma clear_indexes_get:
  assumes "db_ok d"
  shows "db_ok (clear_indexes d)"
    "tx_get (clear_indexes d) t k =
       (if t = T_kv \<and> (index_row k \<or> k = SEQUENCER_INDEX_LAST_TS) then None else tx_get d t k)"
  using assms by (auto simp: clear_indexes_def clear_prefix_get table_simps index_row_def)

lemma index_all_agrees:
  assumes "index_agrees d x" "index_all E L d = Inr d'"
  shows "index_frame d d' \<and> (\<exists>x'. index_all E L x = Inr x' \<and> index_agrees d' x')"
  using assms
proof (induction L arbitrary: d x)
  case Nil
  then show ?case by (simp add: index_frame_def)
next
  case (Cons t L)
  obtain d1 where d1: "index_mutations E (st_commit_ts t) (st_mutations t) d = Inr d1" "index_all E L d1 = Inr d'"
    using Cons.prems(2) by auto
  obtain x1 where x1: "index_frame d d1" "index_mutations E (st_commit_ts t) (st_mutations t) x = Inr x1" "index_agrees d1 x1"
    using index_mutations_agrees [OF Cons.prems(1) d1(1)] by blast
  then show ?case using Cons.IH [OF x1(3) d1(2)] index_frame_trans by auto
qed

lemma index_agrees_sym: "index_agrees d x \<Longrightarrow> index_agrees x d"
  by (simp add: index_agrees_def)

text \<open>A store \<open>d\<close> with its indexes rebuilt as far as the decisions \<open>L1\<close>.\<close>

definition reindexed :: "seq_env \<Rightarrow> db \<Rightarrow> SequencerTxn list \<Rightarrow> db \<Rightarrow> bool" where
  "reindexed E d L1 X \<longleftrightarrow>
    db_ok X \<and>
    (\<forall>t k. t \<noteq> T_kv \<or> \<not> index_row k \<and> k \<noteq> SEQUENCER_INDEX_LAST_TS \<longrightarrow> tx_get X t k = tx_get d t k) \<and>
    (\<exists>x. index_all E L1 empty_db = Inr x \<and> index_agrees X x) \<and>
    tx_get X T_kv SEQUENCER_INDEX_LAST_TS = map_option u64_bytes (last_ts_of L1)"

lemma reindexed_clear: "db_ok d \<Longrightarrow> reindexed E d [] (clear_indexes d)"
  by (auto simp: reindexed_def clear_indexes_get index_agrees_def last_ts_of_def)

lemma reindexed_all:
  assumes inv: "seq_inv E L d" and r: "reindexed E d L X"
  shows "X = d"
proof (rule db_ext)
  show "db_ok X" "db_ok d" using inv r by (simp_all add: seq_inv_def reindexed_def)
  obtain x where x: "index_all E L empty_db = Inr x" "index_agrees d x" "index_agrees X x"
    using inv r by (auto simp: seq_inv_def reindexed_def)
  show "tx_get X t k = tx_get d t k" for t k
    using x r seq_invD(6) [OF inv]
    by (cases "t = T_kv"; cases "index_row k"; cases "k = SEQUENCER_INDEX_LAST_TS")
       (auto simp: reindexed_def index_agrees_def)
qed

lemma catch_up_rows_index:
  assumes "\<And>t. t \<in> set M \<Longrightarrow> decode_decision_row E (fst (decision_row d t)) (snd (decision_row d t)) = Inr (decision_of t)"
    and "index_all E M X = Inr X'"
  shows "\<exists>n. catch_up_rows E (map (decision_row d) M) keys ts X =
    Inr ((n, if M = [] then ts else st_commit_ts (List.last M)), X')"
  using assms
proof (induction M arbitrary: keys ts X)
  case (Cons t M)
  obtain X1 where X1: "index_mutations E (st_commit_ts t) (st_mutations t) X = Inr X1" "index_all E M X1 = Inr X'"
    using Cons.prems(2) by auto
  obtain n where n: "catch_up_rows E (map (decision_row d) M) (keys + of_nat (length (st_mutations t))) (st_commit_ts t) X1 =
      Inr ((n, if M = [] then st_commit_ts t else st_commit_ts (List.last M)), X')"
    using Cons.IH [OF Cons.prems(1) X1(2)] by force
  have row: "decode_decision_row E (fst (decision_row d t)) (snd (decision_row d t)) = Inr (decision_of t)"
    by (rule Cons.prems(1)) simp
  have dec: "sd_commit_ts (decision_of t) = st_commit_ts t" "sd_mutations (decision_of t) = st_mutations t"
    by (simp_all add: decision_of_def)
  show ?case
    using n row by (cases "decision_row d t") (auto simp: sequencer_index_writes_in_tx_def dec X1(1))
qed simp

lemma reindexed_log_rows:
  assumes "log_rows E L d" "reindexed E d L1 X"
  shows "log_rows E L X" "decision_row X t = decision_row d t"
proof -
  have row: "tx_get X T_kv k = tx_get d T_kv k" if p: "prefix SEQUENCER_DECISION_PREFIX k" for k
  proof -
    obtain u where "k = SEQUENCER_DECISION_PREFIX @ u" using p by (auto elim: prefixE)
    then have "\<not> index_row k" "k \<noteq> SEQUENCER_INDEX_LAST_TS"
      by (simp_all add: index_row_def) (simp_all add: key_defs ascii_def)
    then show ?thesis using assms(2) by (simp add: reindexed_def)
  qed
  then show "log_rows E L X" using assms unfolding log_rows_def reindexed_def by auto
  show "decision_row X t = decision_row d t" by (simp add: decision_row_def row)
qed

lemma filter_after_last:
  assumes "sorted_wrt (\<lambda>t u. st_commit_ts t < st_commit_ts u) (L1 @ L2)" "\<forall>t \<in> set L2. 0 < st_commit_ts t"
  shows "filter (\<lambda>t. (case last_ts_of L1 of None \<Rightarrow> 0 | Some m \<Rightarrow> m) < st_commit_ts t) (L1 @ L2) = L2"
proof (cases L1 rule: rev_cases)
  case Nil
  then show ?thesis using assms by (simp add: last_ts_of_def)
next
  case (snoc K u)
  have "filter (\<lambda>t. st_commit_ts u < st_commit_ts t) L2 = L2" "filter (\<lambda>t. st_commit_ts u < st_commit_ts t) K = []"
    using assms by (auto simp: snoc sorted_wrt_append filter_empty_conv less_asym)
  then show ?thesis by (simp add: snoc last_ts_of_def)
qed

lemma catch_up_batch_step:
  assumes L: "log_rows E L d" and pc: "postcard_ok (decision_codec E)" and r: "reindexed E d L1 (backend s)"
    and M: "M \<noteq> []" "set M \<subseteq> set L" and x: "index_all E (L1 @ M) empty_db = Inr x"
    and up: "\<forall>t \<in> set L1. st_commit_ts t < st_commit_ts (List.last M)" "0 < st_commit_ts (List.last M)"
  shows "\<exists>n X'. catch_up_batch E s (map (decision_row (backend s)) M) marker =
      (Inr (n, st_commit_ts (List.last M)), s\<lparr>backend := X'\<rparr>) \<and> reindexed E d (L1 @ M) X'"
proof -
  let ?X = "backend s" and ?ts = "st_commit_ts (List.last M)"
  obtain x1 where x1: "index_all E L1 empty_db = Inr x1" "index_agrees ?X x1" "index_all E M x1 = Inr x"
    using r x by (auto simp: reindexed_def index_all_append)
  obtain X1 where X1: "index_all E M ?X = Inr X1" "index_agrees x X1"
    using index_all_agrees [OF index_agrees_sym [OF x1(2)] x1(3)] by blast
  have fr: "index_frame ?X X1" using index_all_agrees [OF x1(2) X1(1)] by blast
  have "\<forall>t \<in> set M. \<exists>bs. envelope_encode (decision_codec E) (decision_of t) = Some bs \<and>
       tx_get ?X T_kv (encode_sequencer_decision_key (st_commit_ts t)) = Some bs"
    using reindexed_log_rows(1) [OF L r] M(2) unfolding log_rows_def by blast
  note dec = decode_decision_rows(1) [OF pc this]
  obtain n where n: "catch_up_rows E (map (decision_row ?X) M) 0 marker ?X = Inr ((n, ?ts), X1)"
    using catch_up_rows_index [OF dec X1(1), of 0 marker] M(1) by auto
  have "read_u64_row X1 SEQUENCER_INDEX_LAST_TS = (case last_ts_of L1 of None \<Rightarrow> 0 | Some m \<Rightarrow> m)"
    unfolding index_frame_u64(1) [OF fr index_row_keys(8)] using r
    by (cases "last_ts_of L1") (simp_all add: reindexed_def read_u64_row_def decode_u64_def)
  then have less: "read_u64_row X1 SEQUENCER_INDEX_LAST_TS < ?ts"
    using up by (cases L1 rule: rev_cases) (simp_all add: last_ts_of_def)
  let ?X' = "tx_insert X1 T_kv SEQUENCER_INDEX_LAST_TS (u64_bytes ?ts)"
  have "catch_up_batch E s (map (decision_row ?X) M) marker = (Inr (n, ?ts), s\<lparr>backend := ?X'\<rparr>)"
    by (simp add: catch_up_batch_def n less)
  moreover have "reindexed E d (L1 @ M) ?X'"
    unfolding reindexed_def
  proof (intro conjI allI impI)
    show "db_ok ?X'" using r fr by (simp add: reindexed_def index_frame_def)
    show "\<exists>x. index_all E (L1 @ M) empty_db = Inr x \<and> index_agrees ?X' x"
      using x X1(2) unfolding index_agrees_def by (intro exI [of _ x]) (auto simp: table_simps)
    show "tx_get ?X' T_kv SEQUENCER_INDEX_LAST_TS = map_option u64_bytes (last_ts_of (L1 @ M))"
      using M(1) by (simp add: table_simps last_ts_of_def)
    show "tx_get ?X' t k = tx_get d t k" if "t \<noteq> T_kv \<or> \<not> index_row k \<and> k \<noteq> SEQUENCER_INDEX_LAST_TS" for t k
      using that r fr by (auto simp: table_simps reindexed_def index_frame_def)
  qed
  ultimately show ?thesis by blast
qed

abbreviation ts_or_zero :: "u64 option \<Rightarrow> u64" where
  "ts_or_zero x \<equiv> (case x of None \<Rightarrow> 0 | Some v \<Rightarrow> v)"

text \<open>Every round indexes at least one decision, so one round more than decisions is enough.\<close>

lemma catch_up_loop_exact:
  assumes inv: "seq_inv E L d" and pc: "postcard_ok (decision_codec E)" and n: "0 < n"
    and r: "reindexed E d L1 (backend s)" and L: "L = L1 @ L2" and fuel: "length L2 < fuel"
  shows "\<exists>stats'. catch_up_loop fuel E n (ts_or_zero (last_ts_of L)) (ts_or_zero (last_ts_of L1)) stats s =
      Some (Inr stats', s\<lparr>backend := d\<rparr>) \<and> ri_from_ts stats' = ri_from_ts stats \<and>
      ri_decisions stats' = ri_decisions stats + of_nat (length L2) \<and>
      ri_to_ts stats' = (if L2 = [] then ri_to_ts stats else ts_or_zero (last_ts_of L))"
  using r L fuel
proof (induction fuel arbitrary: s L1 L2 stats)
  case (Suc fuel)
  note r = Suc.prems(1) and L = Suc.prems(2)
  have rows: "log_rows E L d" by (rule seq_inv_log_rows [OF inv])
  have pos: "0 < st_commit_ts t" if "t \<in> set L" for t
    using seq_invD(4) [OF inv that] order_le_less_trans [OF word_zero_le] unfolding logged_def by blast
  show ?case
  proof (cases "L2 = []")
    case True
    then have "backend s = d" using reindexed_all [OF inv] r L by simp
    then show ?thesis using True L by simp
  next
    case False
    let ?m = "ts_or_zero (last_ts_of L1)" and ?lc = "ts_or_zero (last_ts_of L)" and ?M = "take n L2"
    have srt: "sorted_wrt (\<lambda>t u. st_commit_ts t < st_commit_ts u) (L1 @ L2)" using seq_invD(3) [OF inv] L by simp
    have M: "?M \<noteq> []" "set ?M \<subseteq> set L" "List.last ?M \<in> set L2"
      using False n L by (auto dest: in_set_takeD simp: in_set_takeD [OF last_in_set])
    have up: "\<forall>t \<in> set L1. st_commit_ts t < st_commit_ts (List.last ?M)" using srt M(3) by (simp add: sorted_wrt_append)
    have lc: "?lc = st_commit_ts (List.last L2)" using False L by (simp add: last_ts_of_def)
    have less: "?m < ?lc"
      using srt False pos [of "List.last L2"] L
      by (cases L1 rule: rev_cases) (auto simp: lc last_ts_of_def sorted_wrt_append)
    have filt: "filter (\<lambda>t. ?m < st_commit_ts t) L = L2"
      using filter_after_last [OF srt] pos L by simp
    have "?m \<noteq> - 1" using less word_order.extremum_strict by fastforce
    then have dr: "decision_rows (backend s) ?m n = map (decision_row (backend s)) ?M"
      using decision_rows_take [OF reindexed_log_rows(1) [OF rows r] _ n] by (simp add: filt)
    obtain x where "index_all E ((L1 @ ?M) @ drop n L2) empty_db = Inr x" using seq_invD(2) [OF inv] L by auto
    then obtain x' where x': "index_all E (L1 @ ?M) empty_db = Inr x'"
      unfolding index_all_append [of E "L1 @ ?M"] by auto
    have "List.last ?M \<in> set L" using M(3) L by simp
    note batch = catch_up_batch_step [OF rows pc r M(1,2) x' up pos [OF this], of ?m]
    obtain k X' where step: "catch_up_batch E s (map (decision_row (backend s)) ?M) ?m =
        (Inr (k, st_commit_ts (List.last ?M)), s\<lparr>backend := X'\<rparr>)" "reindexed E d (L1 @ ?M) X'"
      using batch by blast
    let ?st = "stats\<lparr>ri_decisions := ri_decisions stats + of_nat (length ?M), ri_keys := ri_keys stats + k,
      ri_to_ts := st_commit_ts (List.last ?M)\<rparr>"
    have nl: "\<not> ?lc \<le> ?m" using less by simp
    have ne: "map (decision_row (backend s)) ?M \<noteq> []" using M(1) by simp
    have round: "catch_up_loop (Suc fuel) E n ?lc ?m stats s =
        (if length ?M < n then Some (Inr ?st, s\<lparr>backend := X'\<rparr>)
         else catch_up_loop fuel E n ?lc (st_commit_ts (List.last ?M)) ?st (s\<lparr>backend := X'\<rparr>))"
      unfolding catch_up_loop.simps(2) Let_def dr if_not_P [OF nl] if_not_P [OF ne] step(1)
      by (simp only: prod.case sum.case length_map)
    have last: "last_ts_of (L1 @ ?M) = Some (st_commit_ts (List.last ?M))" using M(1) by (simp add: last_ts_of_def)
    show ?thesis
    proof (cases "length ?M < n")
      case True
      then have "?M = L2" by simp
      then have "X' = d" using reindexed_all [OF inv] step(2) L by simp
      then show ?thesis unfolding round if_P [OF True] using \<open>?M = L2\<close> False by (simp add: lc)
    next
      case more: False
      have "length (drop n L2) < fuel" using Suc.prems(3) n False by (cases L2) auto
      moreover have "L = (L1 @ ?M) @ drop n L2" using L by simp
      moreover have "reindexed E d (L1 @ ?M) (backend (s\<lparr>backend := X'\<rparr>))" using step(2) by simp
      ultimately obtain stats' where st: "catch_up_loop fuel E n ?lc (ts_or_zero (last_ts_of (L1 @ ?M))) ?st (s\<lparr>backend := X'\<rparr>) =
          Some (Inr stats', s\<lparr>backend := d\<rparr>)" "ri_from_ts stats' = ri_from_ts stats"
          "ri_decisions stats' = ri_decisions stats + of_nat (length ?M) + of_nat (length (drop n L2))"
          "ri_to_ts stats' = (if drop n L2 = [] then st_commit_ts (List.last ?M) else ?lc)"
        using Suc.IH [of "L1 @ ?M" "s\<lparr>backend := X'\<rparr>" "drop n L2" ?st] by auto
      have "length ?M + length (drop n L2) = length L2" by simp
      then have "(of_nat (length ?M) :: u64) + of_nat (length (drop n L2)) = of_nat (length L2)"
        by (metis of_nat_add)
      then show ?thesis unfolding round if_not_P [OF more] using False st by (simp add: last lc add.assoc)
    qed
  qed
qed simp

text \<open>C9: Rebuilding the validation indexes from the decision log, in batches of any size, ends
  and gives back the very store it started from: the derived rows are a function of
  the log. It reports all decisions, from timestamp 0 to the last one.\<close>

theorem sequencer_rebuild_exact:
  assumes "seq_clean s" "postcard_ok (interval_codec E)" "sequencer_run E cmds s = (K, s')" "log_ok E K"
    and "postcard_ok (decision_codec E)" "length K < fuel"
  shows "\<exists>stats. rebuild_sequencer_validation_index fuel E s' batch = Some (Inr stats, s') \<and>
    ri_from_ts stats = 0 \<and> ri_to_ts stats = sequencer_last_commit_ts s' \<and>
    ri_decisions stats = of_nat (length K)"
proof -
  let ?L = "map fst K" and ?s = "s'\<lparr>backend := clear_indexes (backend s')\<rparr>"
  have inv: "seq_inv E ?L (backend s')"
    using run_from_clean [OF assms(1,2,4,3)] by (simp add: occ_state_def)
  have r: "reindexed E (backend s') [] (backend ?s)" using seq_invD(1) [OF inv] by (simp add: reindexed_clear)
  have lc: "sequencer_last_commit_ts s' = ts_or_zero (last_ts_of ?L)"
    using seq_invD(5) [OF inv] by (simp add: sequencer_last_commit_ts_def read_u64_row_get)
  have c: "sequencer_last_commit_ts ?s = sequencer_last_commit_ts s'" "sequencer_index_last_ts ?s = 0"
    using clear_indexes_get(2) [OF seq_invD(1) [OF inv]]
    by (simp_all add: sequencer_last_commit_ts_def sequencer_index_last_ts_def read_u64_row_def)
  have z: "ts_or_zero (last_ts_of []) = 0" by (simp add: last_ts_of_def)
  have n: "0 < max batch 1" by simp
  show ?thesis
    using catch_up_loop_exact [OF inv assms(5) n r, of ?L fuel
        "\<lparr>ri_from_ts = 0, ri_to_ts = 0, ri_decisions = 0, ri_keys = 0\<rparr>"] assms(6)
    unfolding rebuild_sequencer_validation_index_def catch_up_sequencer_index_def Let_def c lc z
    by (auto simp: last_ts_of_def)
qed

theorem sequencer_rebuild_exact_witness:
  "\<exists>s' stats. sequencer_run sample_env sample_cmds (fresh LogIndex) =
      ([(sample_writer, []), (sample_reader 5 9 2, [])], s') \<and>
    rebuild_sequencer_validation_index 3 sample_env s' 1 = Some (Inr stats, s') \<and> ri_decisions stats = 2"
proof -
  obtain s' where run: "sequencer_run sample_env sample_cmds (fresh LogIndex) =
      ([(sample_writer, []), (sample_reader 5 9 2, [])], s')"
    using sample_run by blast
  have "postcard_ok (decision_codec sample_env)" by (simp add: sample_env_def table_codec_ok)
  from sequencer_rebuild_exact [OF sample_ok(1,2) run sample_ok(3) this, of 3 1] show ?thesis using run by auto
qed

end
