(* ===== verification/Commit_Log.thy ===== *)
theory Commit_Log
  imports Sequencer_Log "HOL-Library.AList"
begin

text \<open>
  Commit records (\<open>coord-server/src/storage/commit_log.rs\<close>): the frame that holds
  one record, idempotent appends, reads by timestamp, the append command of a
  shard group and the trimming of a region's outbox
  (\<open>coord-server/src/storage/mvcc.rs\<close>). The zstd and postcard crates are the
  parameters of the record \<open>log_env\<close>.
\<close>

section \<open>Records and frames\<close>

record CommitPrevValue =
  cp_value :: bytes
  cp_create_revision :: i64
  cp_mod_revision :: i64
  cp_version :: i64
  cp_lease_id :: i64

record CommitChange =
  cc_key :: bytes
  cc_value :: "bytes option"
  cc_prev :: "CommitPrevValue option"

record CommitRecord =
  cr_shard_id :: u64
  cr_commit_ts :: u64
  cr_txn_id :: bytes
  cr_start_ts :: u64
  cr_region_id :: u64
  cr_txn_bytes :: u32
  cr_changes :: "CommitChange list"

record log_env =
  record_codec :: "CommitRecord postcard"
  zstd_compress :: "bytes \<Rightarrow> bytes option"
  zstd_decompress :: "bytes \<Rightarrow> nat \<Rightarrow> bytes option"

definition COMMIT_LOG_MAGIC :: bytes where "COMMIT_LOG_MAGIC = 1 # ascii ''CLR''"
definition COMMIT_LOG_FORMAT_VERSION :: u8 where "COMMIT_LOG_FORMAT_VERSION = 1"
definition COMMIT_LOG_CODEC_ZSTD :: u8 where "COMMIT_LOG_CODEC_ZSTD = 1"
definition COMMIT_LOG_STAGING_SHARD_ID :: u64 where "COMMIT_LOG_STAGING_SHARD_ID = 1"
definition COMMIT_LOG_MAX_FRAME_BYTES :: nat where "COMMIT_LOG_MAX_FRAME_BYTES = 64 * 1024 * 1024"
definition COMMIT_LOG_PREFIX :: bytes where "COMMIT_LOG_PREFIX = ascii ''/_sys/commit_log/''"
definition COMMIT_LOG_HEADER_LEN :: nat where "COMMIT_LOG_HEADER_LEN = 14"
definition COMMIT_LOG_UNCOMPRESSED_OFFSET :: nat where "COMMIT_LOG_UNCOMPRESSED_OFFSET = 6"
definition COMMIT_LOG_COMPRESSED_OFFSET :: nat where "COMMIT_LOG_COMPRESSED_OFFSET = 10"
definition COMMIT_LOG_CURSOR_KEY :: bytes where "COMMIT_LOG_CURSOR_KEY = ascii ''/_sys/commit_log/cursor''"
definition COMMIT_LOG_COUNT_KEY :: bytes where "COMMIT_LOG_COUNT_KEY = ascii ''/_sys/commit_log/count''"
definition COMMIT_LOG_SHIPPED_PREFIX :: bytes where "COMMIT_LOG_SHIPPED_PREFIX = ascii ''/_sys/commit_log/shipped/''"
definition META_COMMIT_LOG_TRIMMED_BEFORE :: bytes where
  "META_COMMIT_LOG_TRIMMED_BEFORE = ascii ''/_meta/commit_log_trimmed_before''"

lemmas log_key_defs = COMMIT_LOG_PREFIX_def COMMIT_LOG_CURSOR_KEY_def COMMIT_LOG_COUNT_KEY_def
  COMMIT_LOG_SHIPPED_PREFIX_def META_COMMIT_LOG_TRIMMED_BEFORE_def

text \<open>The plain size of a write set; the sums of lengths stay below the word size.\<close>

fun mutation_write_bytes :: "SequencerMutation \<Rightarrow> nat" where
  "mutation_write_bytes (MPut key value lease) = length key + length value + 16"
| "mutation_write_bytes (MDelete key) = length key + 8"
| "mutation_write_bytes (MDeleteRange start end0) =
    min (min (length start + length end0) usize_max + 32) usize_max"

definition txn_write_bytes :: "SequencerMutation list \<Rightarrow> nat" where
  "txn_write_bytes mutations = sum_list (map mutation_write_bytes mutations)"

definition CommitRecord_encode :: "log_env \<Rightarrow> CommitRecord \<Rightarrow> u64 \<Rightarrow> bytes result" where
  "CommitRecord_encode Z rc max_txn_bytes =
    (if cr_shard_id rc = 0 then Inl InvalidArgument
     else if cr_commit_ts rc = 0 then Inl InvalidArgument
     else if cr_txn_id rc = [] then Inl InvalidArgument
     else if max_txn_bytes < ucast (cr_txn_bytes rc) then Inl InvalidArgument
     else
       bind_result (ok_or Storage (to_allocvec (record_codec Z) rc)) (\<lambda>payload.
         if COMMIT_LOG_MAX_FRAME_BYTES < length payload then Inl Storage
         else
           bind_result (ok_or Storage (zstd_compress Z payload)) (\<lambda>compressed.
             Inr (COMMIT_LOG_MAGIC @ [COMMIT_LOG_FORMAT_VERSION, COMMIT_LOG_CODEC_ZSTD] @
                  u32_bytes (of_nat (length payload)) @ u32_bytes (of_nat (length compressed)) @ compressed))))"

definition read_u32 :: "bytes \<Rightarrow> nat \<Rightarrow> u32" where
  "read_u32 bs offset = u32_of (subslice offset (offset + 4) bs)"

definition CommitRecord_decode :: "log_env \<Rightarrow> bytes \<Rightarrow> CommitRecord result" where
  "CommitRecord_decode Z bs =
    (if length bs < COMMIT_LOG_HEADER_LEN then Inl Storage
     else if take (length COMMIT_LOG_MAGIC) bs \<noteq> COMMIT_LOG_MAGIC then Inl Storage
     else if bs ! length COMMIT_LOG_MAGIC \<noteq> COMMIT_LOG_FORMAT_VERSION then Inl Storage
     else if bs ! (length COMMIT_LOG_MAGIC + 1) \<noteq> COMMIT_LOG_CODEC_ZSTD then Inl Storage
     else
       let uncompressed_len = unat (read_u32 bs COMMIT_LOG_UNCOMPRESSED_OFFSET);
           compressed_len = unat (read_u32 bs COMMIT_LOG_COMPRESSED_OFFSET)
       in if COMMIT_LOG_MAX_FRAME_BYTES < uncompressed_len then Inl Storage
          else if length bs \<noteq> COMMIT_LOG_HEADER_LEN + compressed_len then Inl Storage
          else
            bind_result (ok_or Storage (zstd_decompress Z (drop COMMIT_LOG_HEADER_LEN bs) uncompressed_len)) (\<lambda>payload.
              if length payload \<noteq> uncompressed_len then Inl Storage
              else
                case take_from_bytes (record_codec Z) payload of
                  None \<Rightarrow> Inl Storage
                | Some (rc, remainder) \<Rightarrow> (if remainder \<noteq> [] then Inl Storage else Inr rc)))"

section \<open>Rows\<close>

definition shipped_key :: "u64 \<Rightarrow> bytes" where
  "shipped_key region_id = COMMIT_LOG_SHIPPED_PREFIX @ u64_bytes region_id"

definition commit_log_shard_prefix :: "u64 \<Rightarrow> bytes" where
  "commit_log_shard_prefix shard_id = COMMIT_LOG_PREFIX @ u64_bytes shard_id"

definition encode_commit_log_key :: "u64 \<Rightarrow> u64 \<Rightarrow> u64 \<Rightarrow> bytes" where
  "encode_commit_log_key shard_id commit_ts region_id =
    COMMIT_LOG_PREFIX @ u64_bytes shard_id @ u64_bytes commit_ts @ u64_bytes region_id"

definition commit_log_key_ts :: "bytes \<Rightarrow> u64 option" where
  "commit_log_key_ts key =
    (let start = length COMMIT_LOG_PREFIX + 8
     in map_option u64_of (get_slice start (start + 8) key))"

datatype CommitLogAppend = Inserted | DuplicateRecord

definition append_commit_record_in_tx ::
    "log_env \<Rightarrow> db \<Rightarrow> CommitRecord \<Rightarrow> u64 \<Rightarrow> (CommitLogAppend \<times> db) result" where
  "append_commit_record_in_tx Z d rc max_txn_bytes =
    (let key = encode_commit_log_key (cr_shard_id rc) (cr_commit_ts rc) (cr_region_id rc)
     in bind_result (CommitRecord_encode Z rc max_txn_bytes) (\<lambda>encoded.
          case tx_get d T_commit_log key of
            Some bs \<Rightarrow>
              (case CommitRecord_decode Z bs of
                 Inl e \<Rightarrow> Inl Storage
               | Inr existing \<Rightarrow> (if existing = rc then Inr (DuplicateRecord, d) else Inl Storage))
          | None \<Rightarrow> Inr (Inserted, tx_insert d T_commit_log key encoded)))"

definition append_commit_record ::
    "log_env \<Rightarrow> MvccStorage \<Rightarrow> CommitRecord \<Rightarrow> u64 \<Rightarrow> CommitLogAppend result \<times> MvccStorage" where
  "append_commit_record Z s rc max_txn_bytes =
    write_store s (\<lambda>d. append_commit_record_in_tx Z d rc max_txn_bytes)"

text \<open>A bad row fails the whole read.\<close>

fun decode_commit_log_rows :: "log_env \<Rightarrow> rows \<Rightarrow> CommitRecord list result" where
  "decode_commit_log_rows Z [] = Inr []"
| "decode_commit_log_rows Z ((key, value) # rs) =
    (case CommitRecord_decode Z value of
       Inl e \<Rightarrow> Inl Storage
     | Inr rc \<Rightarrow> bind_result (decode_commit_log_rows Z rs) (\<lambda>rcs. Inr (rc # rcs)))"

definition commit_records_at :: "log_env \<Rightarrow> MvccStorage \<Rightarrow> u64 \<Rightarrow> u64 \<Rightarrow> CommitRecord list result" where
  "commit_records_at Z s shard_id commit_ts =
    (let key = encode_commit_log_key shard_id commit_ts 0
     in decode_commit_log_rows Z (tx_iter_prefix (backend s) T_commit_log (take (length key - 8) key)))"

definition commit_records_after ::
    "log_env \<Rightarrow> MvccStorage \<Rightarrow> u64 \<Rightarrow> u64 \<Rightarrow> nat \<Rightarrow> CommitRecord list result" where
  "commit_records_after Z s shard_id after_ts limit =
    decode_commit_log_rows Z
      (tx_iter_range_limited (backend s) T_commit_log (encode_commit_log_key shard_id (sat_succ after_ts) 0)
        (prefix_upper_bound (commit_log_shard_prefix shard_id)) limit)"

section \<open>Appending to a shard group\<close>

record CommitLogAppendResult =
  ar_inserted :: u64
  ar_duplicates :: u64
  ar_rejected :: u64
  ar_cursor_ts :: u64

fun append_records ::
    "log_env \<Rightarrow> u64 \<Rightarrow> u64 \<Rightarrow> u64 \<Rightarrow> u64 \<Rightarrow> CommitRecord list \<Rightarrow> CommitLogAppendResult \<Rightarrow>
     (u64 \<times> u64) list \<Rightarrow> db \<Rightarrow> CommitLogAppendResult \<times> (u64 \<times> u64) list \<times> db" where
  "append_records Z shard_id start_ts end_ts max_txn_bytes [] res shipped d = (res, shipped, d)"
| "append_records Z shard_id start_ts end_ts max_txn_bytes (rc # rcs) res shipped d =
    (if cr_shard_id rc \<noteq> shard_id \<or> cr_commit_ts rc < start_ts \<or> end_ts \<noteq> 0 \<and> end_ts \<le> cr_commit_ts rc then
       append_records Z shard_id start_ts end_ts max_txn_bytes rcs (res\<lparr>ar_rejected := ar_rejected res + 1\<rparr>) shipped d
     else
       case append_commit_record_in_tx Z d rc max_txn_bytes of
         Inl e \<Rightarrow>
           append_records Z shard_id start_ts end_ts max_txn_bytes rcs
             (res\<lparr>ar_rejected := ar_rejected res + 1\<rparr>) shipped d
       | Inr (outcome, d) \<Rightarrow>
           (let res = (case outcome of
                         Inserted \<Rightarrow> res\<lparr>ar_inserted := ar_inserted res + 1\<rparr>
                       | DuplicateRecord \<Rightarrow> res\<lparr>ar_duplicates := ar_duplicates res + 1\<rparr>)
            in append_records Z shard_id start_ts end_ts max_txn_bytes rcs
                 (res\<lparr>ar_cursor_ts := max (ar_cursor_ts res) (cr_commit_ts rc)\<rparr>)
                 (AList.update (cr_region_id rc)
                    (case map_of shipped (cr_region_id rc) of
                       Some ts \<Rightarrow> max ts (cr_commit_ts rc) | None \<Rightarrow> cr_commit_ts rc) shipped) d))"

definition ship_region :: "u64 \<times> u64 \<Rightarrow> db \<Rightarrow> db" where
  "ship_region e d =
    (if read_u64_row d (shipped_key (fst e)) < snd e
     then tx_insert d T_kv (shipped_key (fst e)) (u64_bytes (snd e)) else d)"

definition apply_commit_log_append ::
    "log_env \<Rightarrow> MvccStorage \<Rightarrow> u64 \<Rightarrow> u64 \<Rightarrow> u64 \<Rightarrow> CommitRecord list \<Rightarrow> u64 \<Rightarrow> u64 \<Rightarrow> AppliedLogId \<Rightarrow>
     CommitLogAppendResult result \<times> MvccStorage" where
  "apply_commit_log_append Z s shard_id start_ts end_ts records max_txn_bytes revision applied =
    write_store s (\<lambda>d.
      let d = note_log_index_revision (revision_mode s) d revision;
          previous_cursor = read_u64_row d COMMIT_LOG_CURSOR_KEY;
          previous_count = read_u64_row d COMMIT_LOG_COUNT_KEY;
          (res, shipped, d) = append_records Z shard_id start_ts end_ts max_txn_bytes records
            \<lparr>ar_inserted = 0, ar_duplicates = 0, ar_rejected = 0, ar_cursor_ts = previous_cursor\<rparr> [] d;
          d = (if 0 < ar_inserted res
               then tx_insert d T_kv COMMIT_LOG_COUNT_KEY (u64_bytes (previous_count + ar_inserted res)) else d);
          d = (if previous_cursor < ar_cursor_ts res
               then tx_insert d T_kv COMMIT_LOG_CURSOR_KEY (u64_bytes (ar_cursor_ts res)) else d);
          d = fold ship_region (sort_key fst shipped) d
      in Inr (res, put_applied d applied))"

definition commit_log_cursor :: "MvccStorage \<Rightarrow> u64" where
  "commit_log_cursor s = read_u64_row (backend s) COMMIT_LOG_CURSOR_KEY"

definition commit_log_record_count :: "MvccStorage \<Rightarrow> u64" where
  "commit_log_record_count s = read_u64_row (backend s) COMMIT_LOG_COUNT_KEY"

definition commit_log_shipped_through :: "MvccStorage \<Rightarrow> u64 \<Rightarrow> u64" where
  "commit_log_shipped_through s region_id = read_u64_row (backend s) (shipped_key region_id)"

section \<open>Trimming the outbox\<close>

record CommitLogTrimResult =
  tr_trimmed_before :: u64
  tr_removed :: u64

definition commit_log_trimmed_before_in_tx :: "db \<Rightarrow> u64" where
  "commit_log_trimmed_before_in_tx d =
    (case Option.bind (tx_get d T_meta META_COMMIT_LOG_TRIMMED_BEFORE) decode_u64 of Some v \<Rightarrow> v | None \<Rightarrow> 0)"

definition commit_log_trimmed_before :: "MvccStorage \<Rightarrow> u64" where
  "commit_log_trimmed_before s = commit_log_trimmed_before_in_tx (backend s)"

definition remove_log_rows :: "rows \<Rightarrow> db \<Rightarrow> db" where
  "remove_log_rows rs d = fold (\<lambda>r d. tx_remove d T_commit_log (fst r)) rs d"

definition trim_rows :: "db \<Rightarrow> u64 \<Rightarrow> nat \<Rightarrow> rows" where
  "trim_rows d target limit =
    tx_iter_range_limited d T_commit_log (commit_log_shard_prefix COMMIT_LOG_STAGING_SHARD_ID)
      (encode_commit_log_key COMMIT_LOG_STAGING_SHARD_ID target 0) (limit + 1)"

definition trim_tx :: "db \<Rightarrow> u64 \<Rightarrow> nat \<Rightarrow> (CommitLogTrimResult \<times> db) result" where
  "trim_tx d through_ts max_rows =
    (let previous = commit_log_trimmed_before_in_tx d;
         target = max through_ts previous
     in if target \<le> previous then Inr (\<lparr>tr_trimmed_before = previous, tr_removed = 0\<rparr>, d)
        else
          let limit = max max_rows 1;
              rs = trim_rows d target limit;
              remove = min (length rs) limit;
              d = remove_log_rows (take remove rs) d
          in bind_result
               (if remove < length rs then ok_or Storage (commit_log_key_ts (fst (rs ! remove))) else Inr target)
               (\<lambda>mark.
                 let trimmed_before = max mark previous
                 in Inr (\<lparr>tr_trimmed_before = trimmed_before, tr_removed = of_nat remove\<rparr>,
                         if previous < trimmed_before
                         then tx_insert d T_meta META_COMMIT_LOG_TRIMMED_BEFORE (u64_bytes trimmed_before) else d)))"

definition trim_commit_log_outbox ::
    "MvccStorage \<Rightarrow> u64 \<Rightarrow> nat \<Rightarrow> AppliedLogId \<Rightarrow> CommitLogTrimResult result \<times> MvccStorage" where
  "trim_commit_log_outbox s through_ts max_rows applied =
    write_store s (\<lambda>d.
      if applied_contains d applied then
        Inr (\<lparr>tr_trimmed_before = commit_log_trimmed_before_in_tx d, tr_removed = 0\<rparr>, d)
      else
        bind_result (trim_tx d through_ts max_rows) (\<lambda>(res, d).
          Inr (res, note_log_index_revision (revision_mode s) (put_applied d applied) (ali_index applied))))"

section \<open>Frames\<close>

text \<open>
  Documented behaviour of zstd: decompression with the original size as capacity
  gives the input back, and a compressed frame of at most 64 MiB stays below 4 GiB.
\<close>

definition zstd_ok :: "log_env \<Rightarrow> bool" where
  "zstd_ok Z \<longleftrightarrow>
    (\<forall>p c. zstd_compress Z p = Some c \<longrightarrow> length p \<le> COMMIT_LOG_MAX_FRAME_BYTES \<longrightarrow>
       length c < 2 ^ 32 \<and> zstd_decompress Z c (length p) = Some p)"

lemma magic_length [simp]: "length COMMIT_LOG_MAGIC = 4"
  by (simp add: COMMIT_LOG_MAGIC_def)

lemma frame_offsets [simp]:
  "COMMIT_LOG_HEADER_LEN = 14" "COMMIT_LOG_UNCOMPRESSED_OFFSET = 6" "COMMIT_LOG_COMPRESSED_OFFSET = 10"
  by (simp_all add: COMMIT_LOG_HEADER_LEN_def COMMIT_LOG_UNCOMPRESSED_OFFSET_def COMMIT_LOG_COMPRESSED_OFFSET_def)

lemma decode_frame:
  "CommitRecord_decode Z (COMMIT_LOG_MAGIC @ [COMMIT_LOG_FORMAT_VERSION, COMMIT_LOG_CODEC_ZSTD] @
      u32_bytes n @ u32_bytes m @ c) =
    (if COMMIT_LOG_MAX_FRAME_BYTES < unat n then Inl Storage
     else if length c \<noteq> unat m then Inl Storage
     else
       bind_result (ok_or Storage (zstd_decompress Z c (unat n))) (\<lambda>payload.
         if length payload \<noteq> unat n then Inl Storage
         else
           case take_from_bytes (record_codec Z) payload of
             None \<Rightarrow> Inl Storage
           | Some (rc, remainder) \<Rightarrow> (if remainder \<noteq> [] then Inl Storage else Inr rc)))"
proof -
  let ?b = "COMMIT_LOG_MAGIC @ [COMMIT_LOG_FORMAT_VERSION, COMMIT_LOG_CODEC_ZSTD] @ u32_bytes n @ u32_bytes m @ c"
  have "read_u32 ?b 6 = n" "read_u32 ?b 10 = m" "drop 14 ?b = c"
    by (simp_all add: read_u32_def subslice_def)
  then show ?thesis by (simp add: CommitRecord_decode_def Let_def nth_append)
qed

lemma encode_frame:
  assumes "CommitRecord_encode Z rc mx = Inr bs"
  obtains p c where "to_allocvec (record_codec Z) rc = Some p" "zstd_compress Z p = Some c"
    "length p \<le> COMMIT_LOG_MAX_FRAME_BYTES"
    "bs = COMMIT_LOG_MAGIC @ [COMMIT_LOG_FORMAT_VERSION, COMMIT_LOG_CODEC_ZSTD] @
       u32_bytes (of_nat (length p)) @ u32_bytes (of_nat (length c)) @ c"
  using assms by (auto simp: CommitRecord_encode_def split: if_splits)

lemma max_frame_u32: "n \<le> COMMIT_LOG_MAX_FRAME_BYTES \<Longrightarrow> unat (of_nat n :: u32) = n"
  by (rule unat_of_nat_u32) (simp add: COMMIT_LOG_MAX_FRAME_BYTES_def)

lemma CommitRecord_round_trip:
  assumes "postcard_ok (record_codec Z)" "zstd_ok Z" "CommitRecord_encode Z rc mx = Inr bs"
  shows "CommitRecord_decode Z bs = Inr rc"
  using assms(3)
proof (cases rule: encode_frame)
  case (1 p c)
  have c: "length c < 2 ^ 32" "zstd_decompress Z c (length p) = Some p"
    using assms(2) 1(2,3) by (auto simp: zstd_ok_def)
  show ?thesis
    using postcard_okD [OF assms(1) 1(1), of "[]"] 1(3) c
    by (simp only: 1(4) decode_frame) (simp add: max_frame_u32 unat_of_nat_u32)
qed

text \<open>C16: A commit record survives its frame: what was encoded is decoded, and a frame that
  lost bytes or got bytes appended is refused.\<close>

theorem commit_frame_exact:
  assumes "postcard_ok (record_codec Z)" "zstd_ok Z" "CommitRecord_encode Z rc mx = Inr bs"
  shows "CommitRecord_decode Z bs = Inr rc \<and>
    (extra \<noteq> [] \<longrightarrow> CommitRecord_decode Z (bs @ extra) = Inl Storage) \<and>
    (n < length bs \<longrightarrow> CommitRecord_decode Z (take n bs) = Inl Storage)"
proof -
  have "CommitRecord_decode Z (bs @ extra) = Inl Storage" if "extra \<noteq> []"
    using assms(3)
  proof (cases rule: encode_frame)
    case (1 p c)
    have "length c < 2 ^ 32" using assms(2) 1(2,3) by (auto simp: zstd_ok_def)
    then show ?thesis
      using that decode_frame [of Z "of_nat (length p)" "of_nat (length c)" "c @ extra"]
      by (simp add: 1(4) unat_of_nat_u32)
  qed
  moreover have "CommitRecord_decode Z (take n bs) = Inl Storage" if "n < length bs"
    using assms(3)
  proof (cases rule: encode_frame)
    case (1 p c)
    have c: "length c < 2 ^ 32" using assms(2) 1(2,3) by (auto simp: zstd_ok_def)
    show ?thesis
    proof (cases "n < 14")
      case True
      then have "length (take n bs) < COMMIT_LOG_HEADER_LEN" by simp
      then show ?thesis unfolding CommitRecord_decode_def by (rule if_P)
    next
      case False
      then have "take n bs = COMMIT_LOG_MAGIC @ [COMMIT_LOG_FORMAT_VERSION, COMMIT_LOG_CODEC_ZSTD] @
          u32_bytes (of_nat (length p)) @ u32_bytes (of_nat (length c)) @ take (n - 14) c"
        by (simp add: 1(4) take_Cons')
      moreover have "n - 14 < length c" using that False by (simp add: 1(4))
      ultimately show ?thesis using c by (simp only: decode_frame) (simp add: unat_of_nat_u32)
    qed
  qed
  ultimately show ?thesis using CommitRecord_round_trip [OF assms] by blast
qed

definition sample_record :: "u64 \<Rightarrow> CommitRecord" where
  "sample_record ts = \<lparr>cr_shard_id = 1, cr_commit_ts = ts, cr_txn_id = [1], cr_start_ts = 3, cr_region_id = 7,
     cr_txn_bytes = 20, cr_changes = [\<lparr>cc_key = [7], cc_value = Some [70], cc_prev = None\<rparr>]\<rparr>"

definition sample_log_env :: log_env where
  "sample_log_env = \<lparr>record_codec = table_codec [sample_record 5, sample_record 9],
     zstd_compress = (\<lambda>p. if length p < 2 ^ 32 then Some p else None),
     zstd_decompress = (\<lambda>c n. if length c \<le> n then Some c else None)\<rparr>"

lemma sample_log_env_ok: "postcard_ok (record_codec sample_log_env)" "zstd_ok sample_log_env"
  by (auto simp: sample_log_env_def table_codec_ok zstd_ok_def split: if_splits)

lemma sample_record_encode:
  "CommitRecord_encode sample_log_env (sample_record 5) 100 =
    Inr (COMMIT_LOG_MAGIC @ [1, 1] @ u32_bytes 1 @ u32_bytes 1 @ [0])"
  by (simp add: CommitRecord_encode_def sample_log_env_def sample_record_def table_codec_def COMMIT_LOG_MAX_FRAME_BYTES_def
      COMMIT_LOG_FORMAT_VERSION_def COMMIT_LOG_CODEC_ZSTD_def)

theorem commit_frame_exact_witness:
  "CommitRecord_decode sample_log_env (COMMIT_LOG_MAGIC @ [1, 1] @ u32_bytes 1 @ u32_bytes 1 @ [0]) = Inr (sample_record 5)"
  using commit_frame_exact [OF sample_log_env_ok sample_record_encode] by blast

section \<open>The records of a store\<close>

type_synonym record_key = "u64 \<times> u64 \<times> u64"

definition record_key_of :: "CommitRecord \<Rightarrow> record_key" where
  "record_key_of rc = (cr_shard_id rc, cr_commit_ts rc, cr_region_id rc)"

fun row_key :: "record_key \<Rightarrow> bytes" where
  "row_key (shard, ts, region) = encode_commit_log_key shard ts region"

lemma encode_commit_log_key_less:
  "encode_commit_log_key a b c < encode_commit_log_key a' b' c' \<longleftrightarrow>
    a < a' \<or> a = a' \<and> (b < b' \<or> b = b' \<and> c < c')"
  by (simp add: encode_commit_log_key_def append_less_same_length)

lemma encode_commit_log_key_inject [simp]:
  "encode_commit_log_key a b c = encode_commit_log_key a' b' c' \<longleftrightarrow> a = a' \<and> b = b' \<and> c = c'"
  by (auto simp: encode_commit_log_key_def)

text \<open>Every row is the frame of the record its key names.\<close>

definition log_rows_ok :: "log_env \<Rightarrow> db \<Rightarrow> bool" where
  "log_rows_ok Z d \<longleftrightarrow> db_ok d \<and>
    (\<forall>k v. tx_get d T_commit_log k = Some v \<longrightarrow>
       (\<exists>rc. CommitRecord_decode Z v = Inr rc \<and> k = row_key (record_key_of rc)))"

definition records :: "log_env \<Rightarrow> db \<Rightarrow> record_key \<Rightarrow> CommitRecord option" where
  "records Z d key =
    (case tx_get d T_commit_log (row_key key) of
       None \<Rightarrow> None
     | Some v \<Rightarrow> (case CommitRecord_decode Z v of Inr rc \<Rightarrow> Some rc | Inl e \<Rightarrow> None))"

lemma row_key_inject [simp]: "row_key x = row_key y \<longleftrightarrow> x = y"
  by (cases x; cases y) simp

lemma records_key: "log_rows_ok Z d \<Longrightarrow> records Z d key = Some rc \<Longrightarrow> record_key_of rc = key"
  unfolding log_rows_ok_def records_def by (fastforce split: option.splits sum.splits)

lemma records_None: "log_rows_ok Z d \<Longrightarrow> records Z d key = None \<longleftrightarrow> tx_get d T_commit_log (row_key key) = None"
  unfolding log_rows_ok_def records_def by (fastforce split: option.splits sum.splits)

text \<open>The first record under a key stays; one that does not fit a frame is not stored.\<close>

definition keep_first :: "log_env \<Rightarrow> u64 \<Rightarrow> CommitRecord \<Rightarrow> (record_key \<Rightarrow> CommitRecord option) \<Rightarrow> record_key \<Rightarrow> CommitRecord option" where
  "keep_first Z mx rc m =
    (if m (record_key_of rc) = None \<and> (\<exists>bs. CommitRecord_encode Z rc mx = Inr bs) then m(record_key_of rc \<mapsto> rc) else m)"

lemma append_in_tx_records:
  assumes ok: "log_rows_ok Z d" and pc: "postcard_ok (record_codec Z)" "zstd_ok Z"
  shows "append_commit_record_in_tx Z d rc mx = Inr (oc, d') \<Longrightarrow>
      log_rows_ok Z d' \<and> records Z d' = keep_first Z mx rc (records Z d) \<and> records Z d' (record_key_of rc) = Some rc \<and>
      (oc = Inserted \<longleftrightarrow> records Z d (record_key_of rc) = None) \<and>
      (\<forall>t k. t \<noteq> T_commit_log \<longrightarrow> tx_get d' t k = tx_get d t k)"
    and "append_commit_record_in_tx Z d rc mx = Inl e \<Longrightarrow> keep_first Z mx rc (records Z d) = records Z d"
proof -
  let ?k = "encode_commit_log_key (cr_shard_id rc) (cr_commit_ts rc) (cr_region_id rc)"
  have k: "row_key (record_key_of rc) = ?k" by (simp add: record_key_of_def)
  show "log_rows_ok Z d' \<and> records Z d' = keep_first Z mx rc (records Z d) \<and> records Z d' (record_key_of rc) = Some rc \<and>
      (oc = Inserted \<longleftrightarrow> records Z d (record_key_of rc) = None) \<and>
      (\<forall>t k. t \<noteq> T_commit_log \<longrightarrow> tx_get d' t k = tx_get d t k)"
    if ap: "append_commit_record_in_tx Z d rc mx = Inr (oc, d')"
  proof -
    obtain bs where bs: "CommitRecord_encode Z rc mx = Inr bs"
      using ap by (auto simp: append_commit_record_in_tx_def Let_def)
    note dec = CommitRecord_round_trip [OF pc bs]
    show ?thesis
    proof (cases "tx_get d T_commit_log ?k")
      case None
      then have d': "d' = tx_insert d T_commit_log ?k bs" "oc = Inserted"
        using ap bs by (auto simp: append_commit_record_in_tx_def Let_def)
      have old: "records Z d (record_key_of rc) = None" using None by (simp add: records_def k)
      have g: "tx_get d' T_commit_log (row_key key) =
          (if key = record_key_of rc then Some bs else tx_get d T_commit_log (row_key key))" for key
        unfolding d'(1) k [symmetric] by (simp add: tx_get_insert del: row_key.simps)
      have "records Z d' key = (if key = record_key_of rc then Some rc else records Z d key)" for key
        unfolding records_def g by (simp add: dec)
      then have "records Z d' key = keep_first Z mx rc (records Z d) key" for key
        using bs old by (simp add: keep_first_def)
      moreover have "log_rows_ok Z d'"
        using ok dec k unfolding log_rows_ok_def d'(1) by (auto simp: table_simps split: if_splits)
      ultimately show ?thesis using old bs d' by (simp add: fun_eq_iff keep_first_def table_simps)
    next
      case (Some v)
      then have e: "CommitRecord_decode Z v = Inr rc" "d' = d" "oc = DuplicateRecord"
        using ap bs by (auto simp: append_commit_record_in_tx_def Let_def split: sum.splits if_splits)
      then have "records Z d (record_key_of rc) = Some rc" using Some by (simp add: records_def k)
      then show ?thesis using ok e by (simp add: keep_first_def)
    qed
  qed
  show "keep_first Z mx rc (records Z d) = records Z d" if "append_commit_record_in_tx Z d rc mx = Inl e"
    using that ok records_None [OF ok, of "record_key_of rc"]
    by (auto simp: append_commit_record_in_tx_def Let_def keep_first_def k split: option.splits)
qed

section \<open>The append command\<close>

definition in_shard :: "u64 \<Rightarrow> u64 \<Rightarrow> u64 \<Rightarrow> CommitRecord \<Rightarrow> bool" where
  "in_shard shard_id start_ts end_ts rc \<longleftrightarrow>
    cr_shard_id rc = shard_id \<and> start_ts \<le> cr_commit_ts rc \<and> (end_ts = 0 \<or> cr_commit_ts rc < end_ts)"

lemma append_records_spec:
  assumes "log_rows_ok Z d" "postcard_ok (record_codec Z)" "zstd_ok Z"
    "append_records Z sh st en mx rcs res shipped d = (res', shipped', d')"
  shows "log_rows_ok Z d' \<and>
    records Z d' = fold (keep_first Z mx) (filter (in_shard sh st en) rcs) (records Z d) \<and>
    (\<forall>t k. t \<noteq> T_commit_log \<longrightarrow> tx_get d' t k = tx_get d t k) \<and>
    ar_inserted res' + ar_duplicates res' + ar_rejected res' =
      ar_inserted res + ar_duplicates res + ar_rejected res + of_nat (length rcs) \<and>
    ar_cursor_ts res \<le> ar_cursor_ts res'"
  using assms
proof (induction rcs arbitrary: res shipped d)
  case (Cons rc rcs)
  note ok = Cons.prems(1-3)
  show ?case
  proof (cases "in_shard sh st en rc")
    case False
    then have "append_records Z sh st en mx rcs (res\<lparr>ar_rejected := ar_rejected res + 1\<rparr>) shipped d = (res', shipped', d')"
      using Cons.prems(4) by (auto simp: in_shard_def not_le not_less split: if_splits)
    from Cons.IH [OF ok this] show ?thesis using False by (simp add: algebra_simps)
  next
    case True
    then have step: "append_records Z sh st en mx (rc # rcs) res shipped d =
        (case append_commit_record_in_tx Z d rc mx of
         Inl e \<Rightarrow> append_records Z sh st en mx rcs (res\<lparr>ar_rejected := ar_rejected res + 1\<rparr>) shipped d
       | Inr (outcome, d) \<Rightarrow>
           (let res = (case outcome of
                         Inserted \<Rightarrow> res\<lparr>ar_inserted := ar_inserted res + 1\<rparr>
                       | DuplicateRecord \<Rightarrow> res\<lparr>ar_duplicates := ar_duplicates res + 1\<rparr>)
            in append_records Z sh st en mx rcs
                 (res\<lparr>ar_cursor_ts := max (ar_cursor_ts res) (cr_commit_ts rc)\<rparr>)
                 (AList.update (cr_region_id rc)
                    (case map_of shipped (cr_region_id rc) of
                       Some ts \<Rightarrow> max ts (cr_commit_ts rc) | None \<Rightarrow> cr_commit_ts rc) shipped) d))"
      by (auto simp: in_shard_def not_le not_less)
    show ?thesis
    proof (cases "append_commit_record_in_tx Z d rc mx")
      case (Inl e)
      note rest = Cons.prems(4) [unfolded step Inl sum.case]
      show ?thesis
        using Cons.IH [OF ok rest] append_in_tx_records(2) [OF ok Inl] True by (simp add: algebra_simps)
    next
      case (Inr r)
      obtain oc d1 where r: "r = (oc, d1)" by (cases r)
      note ap = append_in_tx_records(1) [OF ok Inr [unfolded r]]
      note rest = Cons.prems(4) [unfolded step Inr r sum.case prod.case Let_def]
      note IH = Cons.IH [OF conjunct1 [OF ap] ok(2,3) rest]
      show ?thesis using IH ap True by (cases oc) (auto simp: algebra_simps)
    qed
  qed
qed simp

lemma shipped_key_rows [simp]:
  "shipped_key r \<noteq> COMMIT_LOG_CURSOR_KEY" "COMMIT_LOG_CURSOR_KEY \<noteq> shipped_key r"
  "shipped_key r \<noteq> COMMIT_LOG_COUNT_KEY" "COMMIT_LOG_COUNT_KEY \<noteq> shipped_key r"
  "COMMIT_LOG_COUNT_KEY \<noteq> COMMIT_LOG_CURSOR_KEY" "COMMIT_LOG_CURSOR_KEY \<noteq> COMMIT_LOG_COUNT_KEY"
  by (simp_all add: shipped_key_def log_key_defs ascii_def)

lemma ship_regions_frame:
  "(t \<noteq> T_kv \<or> (\<forall>r. k \<noteq> shipped_key r) \<longrightarrow> tx_get (fold ship_region es d) t k = tx_get d t k) \<and>
   (db_ok d \<longrightarrow> db_ok (fold ship_region es d))"
  by (induction es arbitrary: d) (auto simp: ship_region_def table_simps)

lemma records_cong:
  assumes "db_ok d'" "\<And>k. tx_get d' T_commit_log k = tx_get d T_commit_log k" "log_rows_ok Z d"
  shows "records Z d' = records Z d" "log_rows_ok Z d'"
  using assms by (simp_all add: records_def log_rows_ok_def fun_eq_iff)

lemma read_u64_row_cong: "tx_get d T_kv k = tx_get d' T_kv k \<Longrightarrow> read_u64_row d k = read_u64_row d' k"
  by (simp add: read_u64_row_def)

lemma apply_append_spec:
  assumes ok: "log_rows_ok Z (backend s)" "postcard_ok (record_codec Z)" "zstd_ok Z"
    and ap: "apply_commit_log_append Z s sh st en rcs mx r a = (Inr res, s')"
  shows "log_rows_ok Z (backend s')"
    "records Z (backend s') = fold (keep_first Z mx) (filter (in_shard sh st en) rcs) (records Z (backend s))"
    "ar_inserted res + ar_duplicates res + ar_rejected res = of_nat (length rcs)"
    "commit_log_cursor s \<le> commit_log_cursor s'" "commit_log_cursor s' = ar_cursor_ts res"
proof -
  let ?d = "note_log_index_revision (revision_mode s) (backend s) r"
  let ?res0 = "\<lparr>ar_inserted = 0, ar_duplicates = 0, ar_rejected = 0,
    ar_cursor_ts = read_u64_row ?d COMMIT_LOG_CURSOR_KEY\<rparr> :: CommitLogAppendResult"
  obtain res1 shipped d1 where run: "append_records Z sh st en mx rcs ?res0 [] ?d = (res1, shipped, d1)"
    by (cases "append_records Z sh st en mx rcs ?res0 [] ?d")
  let ?d2 = "if 0 < ar_inserted res1 then tx_insert d1 T_kv COMMIT_LOG_COUNT_KEY
      (u64_bytes (read_u64_row ?d COMMIT_LOG_COUNT_KEY + ar_inserted res1)) else d1"
  let ?d3 = "if read_u64_row ?d COMMIT_LOG_CURSOR_KEY < ar_cursor_ts res1
      then tx_insert ?d2 T_kv COMMIT_LOG_CURSOR_KEY (u64_bytes (ar_cursor_ts res1)) else ?d2"
  have s': "res = res1" "backend s' = put_applied (fold ship_region (sort_key fst shipped) ?d3) a"
    using ap by (auto simp: apply_commit_log_append_def Let_def run)
  have "db_ok ?d" using ok(1) by (simp add: log_rows_ok_def note_log_index_rows)
  then have ok0: "log_rows_ok Z ?d" "records Z ?d = records Z (backend s)"
    using records_cong [OF _ _ ok(1), of ?d] by (simp_all add: note_log_index_rows)
  note ar = append_records_spec [OF ok0(1) ok(2,3) run]
  have "db_ok ?d3" using ar by (simp add: log_rows_ok_def)
  then have db: "db_ok (backend s')" using ship_regions_frame by (auto simp: s'(2))
  have fr: "tx_get (backend s') t k = tx_get ?d3 t k"
    if "t \<noteq> T_meta" "t \<noteq> T_kv \<or> (\<forall>r. k \<noteq> shipped_key r)" for t k
    using that ship_regions_frame [of t k] by (auto simp: s'(2) table_simps)
  have log: "tx_get (backend s') T_commit_log k = tx_get d1 T_commit_log k" for k
    by (simp add: fr table_simps)
  show "log_rows_ok Z (backend s')"
    "records Z (backend s') = fold (keep_first Z mx) (filter (in_shard sh st en) rcs) (records Z (backend s))"
    using records_cong [OF db log] ar ok0(2) by auto
  show "ar_inserted res + ar_duplicates res + ar_rejected res = of_nat (length rcs)" using ar by (simp add: s'(1))
  have c0: "read_u64_row ?d COMMIT_LOG_CURSOR_KEY = commit_log_cursor s"
    by (simp add: commit_log_cursor_def read_u64_row_def note_log_index_rows)
  have "read_u64_row d1 COMMIT_LOG_CURSOR_KEY = commit_log_cursor s"
    using ar c0 by (simp add: read_u64_row_def)
  then have "read_u64_row ?d3 COMMIT_LOG_CURSOR_KEY = max (commit_log_cursor s) (ar_cursor_ts res1)"
    unfolding c0 by (auto simp: read_u64_row_def table_simps decode_u64_def max_def)
  moreover have "commit_log_cursor s' = read_u64_row ?d3 COMMIT_LOG_CURSOR_KEY"
    unfolding commit_log_cursor_def by (rule read_u64_row_cong, rule fr) simp_all
  moreover have "commit_log_cursor s \<le> ar_cursor_ts res1" using ar c0 by simp
  ultimately show "commit_log_cursor s \<le> commit_log_cursor s'" "commit_log_cursor s' = ar_cursor_ts res"
    by (simp_all add: s'(1))
qed

lemma keep_first_mono: "m k = Some rc \<Longrightarrow> fold (keep_first Z mx) qs m k = Some rc"
proof (induction qs arbitrary: m)
  case (Cons q qs)
  have "keep_first Z mx q m k = Some rc" using Cons.prems by (auto simp: keep_first_def)
  then show ?case using Cons.IH by simp
qed simp

lemma keep_first_done:
  assumes "\<forall>rc \<in> set qs. m (record_key_of rc) \<noteq> None \<or> (\<forall>bs. CommitRecord_encode Z rc mx \<noteq> Inr bs)"
  shows "fold (keep_first Z mx) qs m = m"
  using assms by (induction qs) (auto simp: keep_first_def)

lemma keep_first_present:
  assumes "rc \<in> set rcs" "CommitRecord_encode Z rc mx = Inr bs"
  shows "fold (keep_first Z mx) rcs m (record_key_of rc) \<noteq> None"
proof -
  obtain as cs where rcs: "rcs = as @ rc # cs" using assms(1) by (auto simp: in_set_conv_decomp)
  let ?m = "fold (keep_first Z mx) as m"
  have "keep_first Z mx rc ?m (record_key_of rc) \<noteq> None" using assms(2) by (auto simp: keep_first_def)
  then obtain x where "keep_first Z mx rc ?m (record_key_of rc) = Some x" by blast
  from keep_first_mono [of "keep_first Z mx rc ?m", OF this, of Z mx cs] show ?thesis by (simp add: rcs)
qed

lemma keep_first_replay: "fold (keep_first Z mx) rcs (fold (keep_first Z mx) rcs m) = fold (keep_first Z mx) rcs m"
  by (rule keep_first_done) (use keep_first_present in blast)

section \<open>Reads\<close>

lemma decode_rows_all:
  assumes "\<And>k v. (k, v) \<in> set rs \<Longrightarrow> \<exists>rc. CommitRecord_decode Z v = Inr rc \<and> k = row_key (record_key_of rc)"
  shows "\<exists>rcs. decode_commit_log_rows Z rs = Inr rcs \<and> map (\<lambda>rc. row_key (record_key_of rc)) rcs = map fst rs \<and>
    map (\<lambda>v. CommitRecord_decode Z v) (map snd rs) = map Inr rcs"
  using assms
proof (induction rs)
  case (Cons r rs)
  obtain k v where r: "r = (k, v)" by (cases r)
  obtain rc where rc: "CommitRecord_decode Z v = Inr rc" "k = row_key (record_key_of rc)"
    using Cons.prems [of k v] r by auto
  obtain rcs where "decode_commit_log_rows Z rs = Inr rcs" "map (\<lambda>rc. row_key (record_key_of rc)) rcs = map fst rs"
      "map (\<lambda>v. CommitRecord_decode Z v) (map snd rs) = map Inr rcs"
    using Cons.IH Cons.prems by auto
  then show ?case using rc by (auto simp: r)
qed simp

lemma read_rows:
  assumes ok: "log_rows_ok Z d" and rs: "keys_sorted rs" "\<And>k v. (k, v) \<in> set rs \<longleftrightarrow> P k \<and> tx_get d T_commit_log k = Some v"
  shows "\<exists>rcs. decode_commit_log_rows Z rs = Inr rcs \<and>
    sorted_wrt (\<lambda>x y. row_key (record_key_of x) < row_key (record_key_of y)) rcs \<and>
    (\<forall>rc. rc \<in> set rcs \<longleftrightarrow> P (row_key (record_key_of rc)) \<and> records Z d (record_key_of rc) = Some rc)"
proof -
  have "\<exists>rc. CommitRecord_decode Z v = Inr rc \<and> k = row_key (record_key_of rc)" if "(k, v) \<in> set rs" for k v
    using ok that rs(2) by (simp add: log_rows_ok_def)
  from decode_rows_all [OF this] obtain rcs where rcs: "decode_commit_log_rows Z rs = Inr rcs"
    "map (\<lambda>rc. row_key (record_key_of rc)) rcs = map fst rs" "map (\<lambda>v. CommitRecord_decode Z v) (map snd rs) = map Inr rcs"
    by blast
  have srt: "sorted_wrt (\<lambda>x y. row_key (record_key_of x) < row_key (record_key_of y)) rcs"
    using rs(1) by (simp add: keys_sorted_def rcs(2) [symmetric] sorted_wrt_map)
  have "rc \<in> set rcs \<longleftrightarrow> (\<exists>v. (row_key (record_key_of rc), v) \<in> set rs \<and> CommitRecord_decode Z v = Inr rc)" for rc
  proof
    assume "rc \<in> set rcs"
    then obtain i where i: "i < length rcs" "rcs ! i = rc" by (auto simp: in_set_conv_nth)
    have len: "length rs = length rcs" using rcs(2) by (metis length_map)
    have "fst (rs ! i) = row_key (record_key_of rc)" using i len rcs(2) by (metis nth_map)
    moreover have "CommitRecord_decode Z (snd (rs ! i)) = Inr rc"
      using i len arg_cong [OF rcs(3), of "\<lambda>xs. xs ! i"] by simp
    moreover have "rs ! i \<in> set rs" using i len by simp
    ultimately show "\<exists>v. (row_key (record_key_of rc), v) \<in> set rs \<and> CommitRecord_decode Z v = Inr rc"
      by (metis prod.collapse)
  next
    assume "\<exists>v. (row_key (record_key_of rc), v) \<in> set rs \<and> CommitRecord_decode Z v = Inr rc"
    then obtain v where v: "v \<in> set (map snd rs)" "CommitRecord_decode Z v = Inr rc" by force
    then have "Inr rc \<in> set (map (\<lambda>v. CommitRecord_decode Z v) (map snd rs))" by force
    then show "rc \<in> set rcs" unfolding rcs(3) by auto
  qed
  then have "rc \<in> set rcs \<longleftrightarrow> P (row_key (record_key_of rc)) \<and> records Z d (record_key_of rc) = Some rc" for rc
    unfolding rs(2) records_def by (auto split: option.splits sum.splits)
  then show ?thesis using rcs(1) srt by blast
qed

lemma commit_records_at_exact:
  assumes ok: "log_rows_ok Z (backend s)"
  shows "\<exists>rcs. commit_records_at Z s shard ts = Inr rcs \<and>
    sorted_wrt (\<lambda>x y. cr_region_id x < cr_region_id y) rcs \<and>
    (\<forall>rc. rc \<in> set rcs \<longleftrightarrow> cr_shard_id rc = shard \<and> cr_commit_ts rc = ts \<and>
       records Z (backend s) (record_key_of rc) = Some rc)"
proof -
  have db: "db_ok (backend s)" using ok by (simp add: log_rows_ok_def)
  let ?p = "COMMIT_LOG_PREFIX @ u64_bytes shard @ u64_bytes ts"
  have p: "take (length (encode_commit_log_key shard ts 0) - 8) (encode_commit_log_key shard ts 0) = ?p"
    by (simp add: encode_commit_log_key_def)
  have pre: "prefix ?p (row_key (record_key_of rc)) \<longleftrightarrow> cr_shard_id rc = shard \<and> cr_commit_ts rc = ts" for rc
    by (auto simp: record_key_of_def encode_commit_log_key_def prefix_def)
  obtain rcs where rcs: "commit_records_at Z s shard ts = Inr rcs"
      "sorted_wrt (\<lambda>x y. row_key (record_key_of x) < row_key (record_key_of y)) rcs"
      "\<forall>rc. rc \<in> set rcs \<longleftrightarrow> prefix ?p (row_key (record_key_of rc)) \<and> records Z (backend s) (record_key_of rc) = Some rc"
    using read_rows [OF ok, of "tx_iter_prefix (backend s) T_commit_log ?p" "prefix ?p"] db
    by (auto simp: commit_records_at_def p Let_def tx_iter_prefix_iff)
  have "sorted_wrt (\<lambda>x y. cr_region_id x < cr_region_id y) rcs"
    using rcs(2) by (rule sorted_wrt_mono_rel [rotated])
      (use rcs(3) pre in \<open>auto simp: record_key_of_def encode_commit_log_key_less\<close>)
  then show ?thesis using rcs(1,3) pre by blast
qed

text \<open>C11: Appending a batch to a shard stores, under each (shard, timestamp, region), the first
  record that lies in the shard and fits a frame, and changes no other record; every
  record of the batch is counted once; appending the batch again changes no record;
  and reading a timestamp returns exactly its records, in the order of the regions.\<close>

theorem commit_log_append_exact:
  assumes "log_rows_ok Z (backend s)" "postcard_ok (record_codec Z)" "zstd_ok Z"
    and "apply_commit_log_append Z s shard start_ts end_ts rcs mx r a = (Inr res, s')"
    and "apply_commit_log_append Z s' shard start_ts end_ts rcs mx r' a' = (Inr res', s'')"
  shows "records Z (backend s') = fold (keep_first Z mx) (filter (in_shard shard start_ts end_ts) rcs) (records Z (backend s)) \<and>
    ar_inserted res + ar_duplicates res + ar_rejected res = of_nat (length rcs) \<and>
    commit_log_cursor s \<le> commit_log_cursor s' \<and>
    records Z (backend s'') = records Z (backend s') \<and>
    (\<exists>out. commit_records_at Z s' shard ts = Inr out \<and> sorted_wrt (\<lambda>x y. cr_region_id x < cr_region_id y) out \<and>
       (\<forall>rc. rc \<in> set out \<longleftrightarrow> cr_shard_id rc = shard \<and> cr_commit_ts rc = ts \<and>
          records Z (backend s') (record_key_of rc) = Some rc))"
proof -
  note a = apply_append_spec [OF assms(1-4)]
  note b = apply_append_spec [OF a(1) assms(2,3,5)]
  show ?thesis using a b(2) commit_records_at_exact [OF a(1)] by (simp add: keep_first_replay)
qed

lemma log_rows_ok_fresh: "log_rows_ok Z (backend (fresh mode))"
  by (simp add: log_rows_ok_def new_with_revision_mode_def)

lemma apply_append_total:
  "\<exists>res s'. apply_commit_log_append Z s shard start_ts end_ts rcs mx r a = (Inr res, s')"
  by (auto simp: apply_commit_log_append_def write_store_def backend_write_def Let_def split: prod.splits)

lemma sorted_wrt_singleton: "sorted_wrt P xs \<Longrightarrow> set xs = {x} \<Longrightarrow> \<not> P x x \<Longrightarrow> xs = [x]"
  by (cases xs; cases "tl xs") auto

theorem commit_log_append_exact_witness:
  "\<exists>res s'. apply_commit_log_append sample_log_env (fresh LogIndex) 1 1 0 [sample_record 5] 100 1 (standalone 1) =
      (Inr res, s') \<and> ar_inserted res + ar_duplicates res + ar_rejected res = 1 \<and>
    commit_records_at sample_log_env s' 1 5 = Inr [sample_record 5]"
proof -
  obtain res s' where s': "apply_commit_log_append sample_log_env (fresh LogIndex) 1 1 0 [sample_record 5] 100 1 (standalone 1) = (Inr res, s')"
    using apply_append_total by blast
  obtain res' s'' where s'': "apply_commit_log_append sample_log_env s' 1 1 0 [sample_record 5] 100 2 (standalone 2) = (Inr res', s'')"
    using apply_append_total by blast
  note ex = commit_log_append_exact [OF log_rows_ok_fresh sample_log_env_ok s' s'', of 5]
  have "records sample_log_env (backend (fresh LogIndex)) = (\<lambda>_. None)"
    by (simp add: fun_eq_iff records_def new_with_revision_mode_def)
  then have rec: "records sample_log_env (backend s') = [(1, 5, 7) \<mapsto> sample_record 5]"
    using ex sample_record_encode by (auto simp: keep_first_def in_shard_def sample_record_def record_key_of_def)
  have key: "record_key_of (sample_record 5) = (1, 5, 7)" "cr_shard_id (sample_record 5) = 1" "cr_commit_ts (sample_record 5) = 5"
    by (simp_all add: sample_record_def record_key_of_def)
  obtain out where out: "commit_records_at sample_log_env s' 1 5 = Inr out" "sorted_wrt (\<lambda>x y. cr_region_id x < cr_region_id y) out"
      "\<forall>rc. rc \<in> set out \<longleftrightarrow> cr_shard_id rc = 1 \<and> cr_commit_ts rc = 5 \<and> records sample_log_env (backend s') (record_key_of rc) = Some rc"
    using ex by blast
  have "set out = {sample_record 5}" using out(3) key by (auto simp: rec split: if_splits)
  with out(2) have "out = [sample_record 5]" by (rule sorted_wrt_singleton) simp
  then show ?thesis using s' ex out(1) by auto
qed

end
