(* ===== verification/Commit_Trim.thy ===== *)
theory Commit_Trim
  imports Commit_Log
begin

text \<open>
  Trimming a region's outbox (\<open>coord-server/src/storage/mvcc.rs\<close>): what
  \<open>trim_commit_log_outbox\<close> removes, what it keeps and the mark it leaves.
\<close>

section \<open>Trimming\<close>

lemma remove_log_rows_get:
  "db_ok d \<Longrightarrow> db_ok (remove_log_rows rs d) \<and>
     tx_get (remove_log_rows rs d) t k = (if t = T_commit_log \<and> k \<in> fst ` set rs then None else tx_get d t k)"
  by (induction rs arbitrary: d) (auto simp: remove_log_rows_def table_simps)

lemma in_staging:
  "in_range (commit_log_shard_prefix COMMIT_LOG_STAGING_SHARD_ID) (encode_commit_log_key COMMIT_LOG_STAGING_SHARD_ID target 0)
     (encode_commit_log_key shard ts region) \<longleftrightarrow> shard = COMMIT_LOG_STAGING_SHARD_ID \<and> ts < target"
proof -
  have "commit_log_shard_prefix COMMIT_LOG_STAGING_SHARD_ID \<le> encode_commit_log_key shard ts region \<longleftrightarrow> 1 \<le> shard"
    using append_less_same_length [of "u64_bytes shard" "u64_bytes 1" "u64_bytes ts @ u64_bytes region" "[]"]
    by (auto simp: commit_log_shard_prefix_def encode_commit_log_key_def COMMIT_LOG_STAGING_SHARD_ID_def not_less [symmetric])
  moreover have "encode_commit_log_key COMMIT_LOG_STAGING_SHARD_ID target 0 \<noteq> []"
    by (simp add: encode_commit_log_key_def log_key_defs ascii_def)
  ultimately show ?thesis
    by (auto simp: in_range_def encode_commit_log_key_less COMMIT_LOG_STAGING_SHARD_ID_def)
qed

lemma commit_log_key_ts_key: "commit_log_key_ts (encode_commit_log_key shard ts region) = Some ts"
  by (simp add: commit_log_key_ts_def encode_commit_log_key_def Let_def get_slice_def subslice_def)

lemma trimmed_before_rows:
  "commit_log_trimmed_before_in_tx (put_applied d a) = commit_log_trimmed_before_in_tx d"
  "commit_log_trimmed_before_in_tx (note_log_index_revision mode d r) = commit_log_trimmed_before_in_tx d"
  "commit_log_trimmed_before_in_tx (tx_insert d T_meta META_COMMIT_LOG_TRIMMED_BEFORE (u64_bytes v)) = v"
  "db_ok d \<Longrightarrow> commit_log_trimmed_before_in_tx (remove_log_rows rs d) = commit_log_trimmed_before_in_tx d"
  by (simp_all add: commit_log_trimmed_before_in_tx_def table_simps note_log_index_revision_def remove_log_rows_get
      decode_u64_def log_key_defs META_LAST_APPLIED_def META_CURRENT_REVISION_def ascii_def)

lemma sorted_take_split:
  assumes "keys_sorted rs" "n < length rs" "(k, v) \<in> set rs"
  shows "k < fst (rs ! n) \<Longrightarrow> (k, v) \<in> set (take n rs)" "(k, v) \<in> set (take n rs) \<Longrightarrow> k < fst (rs ! n)"
proof -
  obtain i where i: "i < length rs" "rs ! i = (k, v)" using assms(3) by (auto simp: in_set_conv_nth)
  have less: "fst (rs ! i) < fst (rs ! j)" if "i < j" "j < length rs" for i j
    using assms(1) that by (auto simp: keys_sorted_def sorted_wrt_iff_nth_less)
  show "(k, v) \<in> set (take n rs)" if "k < fst (rs ! n)"
  proof -
    have "i < n" using that i less [of n i] by (cases i n rule: linorder_cases) auto
    then show ?thesis using i by (auto simp: in_set_conv_nth)
  qed
  show "k < fst (rs ! n)" if kv: "(k, v) \<in> set (take n rs)"
  proof -
    obtain j where "j < n" "rs ! j = (k, v)" using kv by (auto simp: in_set_conv_nth)
    then show ?thesis using less [of j n] assms(2) by simp
  qed
qed

text \<open>The staging rows below a timestamp, and the mark a trim of \<open>m\<close> of them leaves.\<close>

definition staging_below :: "db \<Rightarrow> u64 \<Rightarrow> rows" where
  "staging_below d target = tx_iter_range d T_commit_log
      (commit_log_shard_prefix COMMIT_LOG_STAGING_SHARD_ID) (encode_commit_log_key COMMIT_LOG_STAGING_SHARD_ID target 0)"

definition trim_mark :: "db \<Rightarrow> u64 \<Rightarrow> nat \<Rightarrow> u64" where
  "trim_mark d target m =
    (if m < length (staging_below d target) then the (commit_log_key_ts (fst (staging_below d target ! m))) else target)"

lemma staging_rows:
  assumes ok: "log_rows_ok Z d"
  shows "row_key (shard, ts, region) \<in> fst ` set (staging_below d target) \<longleftrightarrow>
      shard = COMMIT_LOG_STAGING_SHARD_ID \<and> ts < target \<and> records Z d (shard, ts, region) \<noteq> None"
proof -
  have db: "db_ok d" using ok by (simp add: log_rows_ok_def)
  show ?thesis
    using records_None [OF ok, of "(shard, ts, region)"]
    by (simp add: image_iff Bex_def split_paired_Ex staging_below_def tx_iter_range_iff [OF db] in_staging)
qed

lemma staging_row:
  assumes ok: "log_rows_ok Z d" and row: "(k, v) \<in> set (staging_below d target)"
  shows "\<exists>ts region. k = row_key (COMMIT_LOG_STAGING_SHARD_ID, ts, region) \<and> ts < target \<and>
      records Z d (COMMIT_LOG_STAGING_SHARD_ID, ts, region) \<noteq> None"
proof -
  have "tx_get d T_commit_log k = Some v"
    using row ok by (simp add: staging_below_def tx_iter_range_iff log_rows_ok_def)
  then obtain rc where rc: "k = row_key (record_key_of rc)" using ok unfolding log_rows_ok_def by blast
  obtain sh ts region where key: "record_key_of rc = (sh, ts, region)" by (cases "record_key_of rc")
  have "row_key (sh, ts, region) \<in> fst ` set (staging_below d target)" using row rc key by force
  then show ?thesis using rc key staging_rows [OF ok] by auto
qed

text \<open>
  A store between two trims: its rows are records and no staging record is left
  below the mark of the last trim.
\<close>

definition trim_clean :: "log_env \<Rightarrow> db \<Rightarrow> bool" where
  "trim_clean Z d \<longleftrightarrow> log_rows_ok Z d \<and>
    (\<forall>ts region. ts < commit_log_trimmed_before_in_tx d \<longrightarrow>
       records Z d (COMMIT_LOG_STAGING_SHARD_ID, ts, region) = None)"

lemma mark_row:
  assumes tc: "trim_clean Z d" and m: "m < length (staging_below d target)"
  obtains ts region where "fst (staging_below d target ! m) = row_key (COMMIT_LOG_STAGING_SHARD_ID, ts, region)"
    "ts < target" "commit_log_trimmed_before_in_tx d \<le> ts" "trim_mark d target m = ts"
    "commit_log_key_ts (fst (staging_below d target ! m)) = Some ts"
proof -
  have "(fst (staging_below d target ! m), snd (staging_below d target ! m)) \<in> set (staging_below d target)" using m by simp
  from staging_row [OF _ this, of Z] tc obtain ts region
    where k: "fst (staging_below d target ! m) = row_key (COMMIT_LOG_STAGING_SHARD_ID, ts, region)"
      "ts < target" "records Z d (COMMIT_LOG_STAGING_SHARD_ID, ts, region) \<noteq> None" unfolding trim_clean_def by blast
  have "\<not> ts < commit_log_trimmed_before_in_tx d" using tc k(3) unfolding trim_clean_def by (metis (lifting))
  then show thesis using that k m by (simp add: commit_log_key_ts_key trim_mark_def)
qed

lemma mark_key:
  assumes "trim_clean Z d" "m < length (staging_below d target)"
  shows "ok_or e (commit_log_key_ts (fst (staging_below d target ! m))) = Inr (trim_mark d target m)"
  by (rule mark_row [OF assms]) simp

lemma trim_mark_bounds:
  assumes "trim_clean Z d" "commit_log_trimmed_before_in_tx d < target"
  shows "commit_log_trimmed_before_in_tx d \<le> trim_mark d target m" "trim_mark d target m \<le> target"
  using assms(2) by (cases "m < length (staging_below d target)";
    (elim mark_row [OF assms(1)])?; simp add: trim_mark_def)+

lemma trim_tx_eq:
  assumes tc: "trim_clean Z d" and new: "commit_log_trimmed_before_in_tx d < target"
  shows "trim_tx d target n =
    (let m = max n 1; d1 = remove_log_rows (take m (staging_below d target)) d; mark = trim_mark d target m
     in Inr (\<lparr>tr_trimmed_before = mark, tr_removed = of_nat (min (length (staging_below d target)) m)\<rparr>,
          if commit_log_trimmed_before_in_tx d < mark
          then tx_insert d1 T_meta META_COMMIT_LOG_TRIMMED_BEFORE (u64_bytes mark) else d1))"
proof -
  let ?m = "max n 1" and ?rs = "staging_below d target"
  have trim: "trim_rows d target ?m = take (?m + 1) ?rs"
    using tc by (simp add: trim_rows_def staging_below_def tx_iter_range_limited_take trim_clean_def log_rows_ok_def)
  have target: "max target (commit_log_trimmed_before_in_tx d) = target" "\<not> target \<le> commit_log_trimmed_before_in_tx d"
    using new by auto
  have len: "take (min (length (take (?m + 1) ?rs)) ?m) (take (?m + 1) ?rs) = take ?m ?rs"
    "min (length (take (?m + 1) ?rs)) ?m = min (length ?rs) ?m"
    "min (length ?rs) ?m < length (take (?m + 1) ?rs) \<longleftrightarrow> ?m < length ?rs"
    by (auto simp: min_def)
  have mk: "(if ?m < length ?rs then ok_or Storage (commit_log_key_ts (fst (take (?m + 1) ?rs ! min (length ?rs) ?m)))
      else Inr target) = Inr (trim_mark d target ?m)"
  proof (cases "?m < length ?rs")
    case True
    then have "take (?m + 1) ?rs ! min (length ?rs) ?m = ?rs ! ?m" by (simp add: min_absorb2)
    then show ?thesis unfolding if_P [OF True] by (simp only: mark_key [OF tc True])
  next
    case False
    show ?thesis unfolding trim_mark_def if_not_P [OF False] ..
  qed
  show ?thesis
    unfolding trim_tx_def Let_def target(1) if_not_P [OF target(2)] trim len(1) unfolding len(2,3) mk
    by (simp add: max_absorb1 [OF trim_mark_bounds(1) [OF tc new]])
qed

lemma trim_gone:
  assumes tc: "trim_clean Z d" and row: "row_key (shard, ts, region) \<in> fst ` set (take m (staging_below d target))"
  shows "shard = COMMIT_LOG_STAGING_SHARD_ID \<and> ts \<le> trim_mark d target m \<and> ts < target"
proof -
  have ok: "log_rows_ok Z d" using tc by (simp add: trim_clean_def)
  have srt: "keys_sorted (staging_below d target)" using ok by (simp add: staging_below_def log_rows_ok_def)
  obtain v where v: "(row_key (shard, ts, region), v) \<in> set (take m (staging_below d target))" using row by auto
  then have in_rs: "(row_key (shard, ts, region), v) \<in> set (staging_below d target)" by (rule in_set_takeD)
  then have "row_key (shard, ts, region) \<in> fst ` set (staging_below d target)" by force
  then have sh: "shard = COMMIT_LOG_STAGING_SHARD_ID" "ts < target" using staging_rows [OF ok] by blast+
  have "ts \<le> trim_mark d target m"
  proof (cases "m < length (staging_below d target)")
    case True
    then show ?thesis
    proof (rule mark_row [OF tc])
      fix ts' region'
      assume k: "fst (staging_below d target ! m) = row_key (COMMIT_LOG_STAGING_SHARD_ID, ts', region')"
        "trim_mark d target m = ts'"
      show ?thesis
        using sorted_take_split(2) [OF srt True in_rs v] by (auto simp: k sh encode_commit_log_key_less)
    qed
  qed (use sh in \<open>auto simp: trim_mark_def\<close>)
  then show ?thesis using sh by blast
qed

lemma trim_below:
  assumes tc: "trim_clean Z d" and new: "commit_log_trimmed_before_in_tx d < target"
    and ts: "ts < trim_mark d target m" "records Z d (COMMIT_LOG_STAGING_SHARD_ID, ts, region) \<noteq> None"
  shows "row_key (COMMIT_LOG_STAGING_SHARD_ID, ts, region) \<in> fst ` set (take m (staging_below d target))"
proof -
  have ok: "log_rows_ok Z d" using tc by (simp add: trim_clean_def)
  have srt: "keys_sorted (staging_below d target)" using ok by (simp add: staging_below_def log_rows_ok_def)
  have "row_key (COMMIT_LOG_STAGING_SHARD_ID, ts, region) \<in> fst ` set (staging_below d target)"
    using staging_rows [OF ok] ts trim_mark_bounds(2) [OF tc new, of m] by force
  then obtain v where v: "(row_key (COMMIT_LOG_STAGING_SHARD_ID, ts, region), v) \<in> set (staging_below d target)" by auto
  show ?thesis
  proof (cases "m < length (staging_below d target)")
    case True
    then show ?thesis
    proof (rule mark_row [OF tc])
      fix ts' region'
      assume k: "fst (staging_below d target ! m) = row_key (COMMIT_LOG_STAGING_SHARD_ID, ts', region')"
        "trim_mark d target m = ts'"
      have "(row_key (COMMIT_LOG_STAGING_SHARD_ID, ts, region), v) \<in> set (take m (staging_below d target))"
        by (rule sorted_take_split(1) [OF srt True v]) (use k ts(1) in \<open>simp add: encode_commit_log_key_less\<close>)
      then show ?thesis by force
    qed
  qed (use v in force)
qed

lemma trim_tx_spec:
  assumes tc: "trim_clean Z d" and new: "commit_log_trimmed_before_in_tx d < target"
    and t: "trim_tx d target n = Inr (res, d')"
  shows "trim_clean Z d'" "commit_log_trimmed_before_in_tx d' = tr_trimmed_before res"
    "commit_log_trimmed_before_in_tx d \<le> tr_trimmed_before res" "tr_trimmed_before res \<le> target"
    "tr_trimmed_before res = target \<or> tr_removed res = of_nat (max n 1)"
    "shard \<noteq> COMMIT_LOG_STAGING_SHARD_ID \<or> tr_trimmed_before res < ts \<or> target \<le> ts \<Longrightarrow>
       records Z d' (shard, ts, region) = records Z d (shard, ts, region)"
proof -
  let ?m = "max n 1" and ?P = "commit_log_trimmed_before_in_tx d"
  let ?gone = "fst ` set (take ?m (staging_below d target))"
  let ?d1 = "remove_log_rows (take ?m (staging_below d target)) d"
  have ok: "log_rows_ok Z d" and db: "db_ok d" using tc by (simp_all add: trim_clean_def log_rows_ok_def)
  note mark = trim_mark_bounds [OF tc new, of ?m]
  have res: "tr_trimmed_before res = trim_mark d target ?m"
    "tr_removed res = of_nat (min (length (staging_below d target)) ?m)"
    "d' = (if ?P < trim_mark d target ?m
       then tx_insert ?d1 T_meta META_COMMIT_LOG_TRIMMED_BEFORE (u64_bytes (trim_mark d target ?m)) else ?d1)"
    using t unfolding trim_tx_eq [OF tc new] Let_def by auto
  have db': "db_ok d'" using remove_log_rows_get [OF db] by (auto simp: res(3))
  have log: "tx_get d' T_commit_log k = (if k \<in> ?gone then None else tx_get d T_commit_log k)" for k
    using remove_log_rows_get [OF db] by (simp add: res(3) table_simps)
  have ok': "log_rows_ok Z d'" using ok db' by (auto simp: log_rows_ok_def log)
  have recs: "records Z d' key = (if row_key key \<in> ?gone then None else records Z d key)" for key
    by (simp add: records_def log)
  show b: "commit_log_trimmed_before_in_tx d' = tr_trimmed_before res"
    using mark by (auto simp: res trimmed_before_rows db)
  show "?P \<le> tr_trimmed_before res" "tr_trimmed_before res \<le> target" using mark by (simp_all add: res)
  show "trim_clean Z d'"
    using ok' trim_below [OF tc new, of _ ?m] unfolding trim_clean_def b res(1) recs by (metis (lifting))
  show "tr_trimmed_before res = target \<or> tr_removed res = of_nat (max n 1)"
    by (simp add: res trim_mark_def)
  show "records Z d' (shard, ts, region) = records Z d (shard, ts, region)"
    if "shard \<noteq> COMMIT_LOG_STAGING_SHARD_ID \<or> tr_trimmed_before res < ts \<or> target \<le> ts"
  proof -
    have "row_key (shard, ts, region) \<notin> ?gone" using that trim_gone [OF tc] by (fastforce simp: res(1))
    then show ?thesis by (simp only: recs if_False)
  qed
qed

lemma trim_clean_rows:
  "records Z (note_log_index_revision mode (put_applied d a) r) = records Z d"
  "trim_clean Z d \<Longrightarrow> trim_clean Z (note_log_index_revision mode (put_applied d a) r)"
proof -
  have row: "tx_get (note_log_index_revision mode (put_applied d a) r) T_commit_log k = tx_get d T_commit_log k" for k
    by (simp add: note_log_index_rows table_simps)
  show recs: "records Z (note_log_index_revision mode (put_applied d a) r) = records Z d"
    by (simp add: fun_eq_iff records_def row)
  show "trim_clean Z (note_log_index_revision mode (put_applied d a) r)" if "trim_clean Z d"
    using that by (simp add: trim_clean_def recs trimmed_before_rows log_rows_ok_def row note_log_index_rows)
qed


lemma trim_clean_fresh: "trim_clean Z (backend (fresh mode))"
  by (simp add: trim_clean_def log_rows_ok_def new_with_revision_mode_def records_def)

definition sample_outbox :: MvccStorage where
  "sample_outbox = (fresh LogIndex)\<lparr>backend := tx_insert (backend (fresh LogIndex)) T_commit_log
     (encode_commit_log_key 1 5 7) (COMMIT_LOG_MAGIC @ [1, 1] @ u32_bytes 1 @ u32_bytes 1 @ [0])\<rparr>"

lemma sample_outbox_ok:
  "trim_clean sample_log_env (backend sample_outbox)" "commit_log_trimmed_before sample_outbox = 0"
  "\<not> applied_contains (backend sample_outbox) (standalone 1)"
  "records sample_log_env (backend sample_outbox) (1, 5, 7) = Some (sample_record 5)"
proof -
  have dec: "CommitRecord_decode sample_log_env (COMMIT_LOG_MAGIC @ [1, 1] @ u32_bytes 1 @ u32_bytes 1 @ [0]) = Inr (sample_record 5)"
    by (rule CommitRecord_round_trip [OF sample_log_env_ok sample_record_encode])
  have key: "record_key_of (sample_record 5) = (1, 5, 7)" by (simp add: record_key_of_def sample_record_def)
  have ok: "log_rows_ok sample_log_env (backend sample_outbox)"
    using dec key by (simp add: log_rows_ok_def sample_outbox_def new_with_revision_mode_def table_simps)
  show mark: "commit_log_trimmed_before sample_outbox = 0"
    by (simp add: commit_log_trimmed_before_def commit_log_trimmed_before_in_tx_def sample_outbox_def
        new_with_revision_mode_def table_simps)
  show "trim_clean sample_log_env (backend sample_outbox)"
    using ok mark by (simp add: trim_clean_def commit_log_trimmed_before_def)
  show "\<not> applied_contains (backend sample_outbox) (standalone 1)"
    by (simp add: applied_contains_def applied_in_tx_def sample_outbox_def new_with_revision_mode_def table_simps)
  show "records sample_log_env (backend sample_outbox) (1, 5, 7) = Some (sample_record 5)"
    using dec by (simp add: records_def sample_outbox_def table_simps)
qed


end
