(* ===== verification/Region_Table.thy ===== *)
theory Region_Table
  imports Registers Envelope "HOL-Library.Multiset"
begin

text \<open>
  The region table of region 0 (\<open>coord-server/src/storage/region_table.rs\<close>): the
  authoritative list of regions, which tiles the key space. Its types come from
  \<open>coord-core/src/types.rs\<close>, the reserved object space from
  \<open>coord-server/src/storage/object_store.rs\<close>, and the command that changes the stored
  table from \<open>coord-server/src/storage/mvcc.rs\<close>. The postcard crate that writes the
  table is the parameter \<open>pc\<close>.
\<close>

section \<open>Regions\<close>

record RegionEpoch =
  re_conf_ver :: u64
  re_version :: u64

definition RegionEpoch_initial :: RegionEpoch where
  "RegionEpoch_initial = \<lparr>re_conf_ver = 1, re_version = 1\<rparr>"

definition is_client_stale :: "RegionEpoch \<Rightarrow> RegionEpoch \<Rightarrow> bool" where
  "is_client_stale e client \<longleftrightarrow> re_conf_ver client < re_conf_ver e \<or> re_version client < re_version e"

datatype PeerRole = Voter | Learner

record Peer =
  pe_node_id :: u64
  pe_raft_addr :: string
  pe_role :: PeerRole

record RegionMeta =
  rm_region_id :: u64
  rm_start_key :: bytes
  rm_end_key :: bytes
  rm_epoch :: RegionEpoch
  rm_peers :: "Peer list"
  rm_approximate_size :: u64
  rm_approximate_keys :: u64

definition contains_key :: "RegionMeta \<Rightarrow> bytes \<Rightarrow> bool" where
  "contains_key meta key \<longleftrightarrow> rm_start_key meta \<le> key \<and> (rm_end_key meta = [] \<or> key < rm_end_key meta)"

definition voter_peers :: "RegionMeta \<Rightarrow> Peer list" where
  "voter_peers meta = filter (\<lambda>p. pe_role p = Voter) (rm_peers meta)"

section \<open>The object space\<close>

definition OBJECT_PREFIX :: bytes where "OBJECT_PREFIX = ascii ''/obj/''"

definition OBJECT_SPACE_END :: bytes where "OBJECT_SPACE_END = ascii ''/obj0''"

definition key_in_object_space :: "bytes \<Rightarrow> bool" where
  "key_in_object_space key \<longleftrightarrow> prefix OBJECT_PREFIX key"

definition range_touches_object_space :: "bytes \<Rightarrow> bytes \<Rightarrow> bool" where
  "range_touches_object_space start end0 =
    (if end0 = [] \<or> end0 = start then key_in_object_space start
     else
       let below_start = (end0 \<le> OBJECT_PREFIX);
           above_end = (OBJECT_SPACE_END \<le> start)
       in \<not> below_start \<and> \<not> above_end)"

definition is_object_region :: "RegionMeta \<Rightarrow> bool" where
  "is_object_region meta \<longleftrightarrow> rm_start_key meta = OBJECT_PREFIX \<and> rm_end_key meta = OBJECT_SPACE_END"

section \<open>The table\<close>

datatype RegionChange =
    RegionAdd RegionMeta
  | RegionUpdate RegionMeta
  | RegionRemove u64 RegionEpoch

record RegionTable =
  rt_version :: u64
  rt_regions :: "RegionMeta list"

definition RegionTable_default :: RegionTable where
  "RegionTable_default = \<lparr>rt_version = 0, rt_regions = []\<rparr>"

fun validate_loop :: "u64 list \<Rightarrow> bool \<Rightarrow> RegionMeta list \<Rightarrow> unit result" where
  "validate_loop seen at_head [] = Inr ()"
| "validate_loop seen at_head (meta # rest) =
    (if rm_region_id meta = 0 then Inl Storage
     else if rm_region_id meta \<in> set seen then Inl Storage
     else if re_conf_ver (rm_epoch meta) = 0 \<or> re_version (rm_epoch meta) = 0 then Inl Storage
     else if rm_end_key meta \<noteq> [] \<and> rm_end_key meta \<le> rm_start_key meta then Inl Storage
     else if at_head \<and> rm_start_key meta \<noteq> [] then Inl Storage
     else
       case rest of
         [] \<Rightarrow> (if rm_end_key meta \<noteq> [] then Inl Storage else validate_loop (rm_region_id meta # seen) False rest)
       | nxt # rs \<Rightarrow>
           (if rm_end_key meta = [] then Inl Storage
            else if rm_end_key meta \<noteq> rm_start_key nxt then Inl Storage
            else validate_loop (rm_region_id meta # seen) False rest))"

definition RegionTable_validate :: "RegionTable \<Rightarrow> unit result" where
  "RegionTable_validate table =
    (if rt_version table = 0 then (if rt_regions table \<noteq> [] then Inl Storage else Inr ())
     else
       case rt_regions table of
         [] \<Rightarrow> Inl Storage
       | head # rs \<Rightarrow>
           (if rm_start_key head \<noteq> [] then Inl Storage else validate_loop [] True (rt_regions table)))"

definition RegionTable_encode :: "RegionTable postcard \<Rightarrow> RegionTable \<Rightarrow> bytes result" where
  "RegionTable_encode pc table = ok_or Storage (to_allocvec pc table)"

definition RegionTable_decode :: "RegionTable postcard \<Rightarrow> bytes \<Rightarrow> RegionTable result" where
  "RegionTable_decode pc bs =
    (case take_from_bytes pc bs of
       None \<Rightarrow> Inl Storage
     | Some (table, remainder) \<Rightarrow>
         (if remainder \<noteq> [] then Inl Storage
          else bind_result (RegionTable_validate table) (\<lambda>_. Inr table)))"

definition has_object_region :: "RegionTable \<Rightarrow> bool" where
  "has_object_region table \<longleftrightarrow> (\<exists>meta \<in> set (rt_regions table). is_object_region meta)"

definition RegionTable_get :: "RegionTable \<Rightarrow> u64 \<Rightarrow> RegionMeta option" where
  "RegionTable_get table region_id = find (\<lambda>meta. rm_region_id meta = region_id) (rt_regions table)"

text \<open>The index of the first element a test does not hold for; the slice is partitioned by it.\<close>

definition partition_point :: "('a \<Rightarrow> bool) \<Rightarrow> 'a list \<Rightarrow> nat" where
  "partition_point p xs = length (takeWhile p xs)"

definition route :: "RegionTable \<Rightarrow> bytes \<Rightarrow> RegionMeta option" where
  "route table key =
    (case partition_point (\<lambda>meta. rm_start_key meta \<le> key) (rt_regions table) of
       0 \<Rightarrow> None
     | Suc i \<Rightarrow>
         (if i < length (rt_regions table) \<and> contains_key (rt_regions table ! i) key
          then Some (rt_regions table ! i) else None))"

definition RegionTable_init :: "RegionTable \<Rightarrow> RegionMeta list \<Rightarrow> (bool \<times> RegionTable) result" where
  "RegionTable_init table regions =
    (if rt_version table \<noteq> 0 then Inr (False, table)
     else
       let nxt = \<lparr>rt_version = 1, rt_regions = sort_key rm_start_key regions\<rparr>
       in bind_result (RegionTable_validate nxt) (\<lambda>_. Inr (True, nxt)))"

definition check_update_epoch :: "RegionMeta \<Rightarrow> RegionMeta \<Rightarrow> unit result" where
  "check_update_epoch old new =
    (if rm_region_id new \<noteq> rm_region_id old then Inl InvalidArgument
     else if re_conf_ver (rm_epoch new) < re_conf_ver (rm_epoch old) \<or> re_version (rm_epoch new) < re_version (rm_epoch old)
     then Inl InvalidArgument
     else if rm_epoch new = rm_epoch old then Inl InvalidArgument
     else if (rm_start_key new \<noteq> rm_start_key old \<or> rm_end_key new \<noteq> rm_end_key old) \<and>
             re_version (rm_epoch new) \<le> re_version (rm_epoch old) then Inl InvalidArgument
     else if rm_peers new \<noteq> rm_peers old \<and> re_conf_ver (rm_epoch new) \<le> re_conf_ver (rm_epoch old)
     then Inl InvalidArgument
     else Inr ())"

text \<open>Replaces, or drops, the first region with an id.\<close>

fun replace_region :: "RegionMeta \<Rightarrow> RegionMeta list \<Rightarrow> RegionMeta list result" where
  "replace_region meta [] = Inl InvalidArgument"
| "replace_region meta (m # rs) =
    (if rm_region_id m = rm_region_id meta then bind_result (check_update_epoch m meta) (\<lambda>_. Inr (meta # rs))
     else bind_result (replace_region meta rs) (\<lambda>rs. Inr (m # rs)))"

fun remove_region :: "u64 \<Rightarrow> RegionEpoch \<Rightarrow> RegionMeta list \<Rightarrow> RegionMeta list result" where
  "remove_region region_id expected_epoch [] = Inl InvalidArgument"
| "remove_region region_id expected_epoch (m # rs) =
    (if rm_region_id m = region_id then (if rm_epoch m \<noteq> expected_epoch then Inl InvalidArgument else Inr rs)
     else bind_result (remove_region region_id expected_epoch rs) (\<lambda>rs. Inr (m # rs)))"

fun apply_one :: "RegionTable \<Rightarrow> RegionChange \<Rightarrow> RegionTable result" where
  "apply_one table (RegionAdd meta) =
    (case RegionTable_get table (rm_region_id meta) of
       Some existing \<Rightarrow> (if existing = meta then Inr table else Inl InvalidArgument)
     | None \<Rightarrow>
         (if rm_end_key meta \<le> rm_start_key meta \<and> rm_end_key meta \<noteq> [] then Inl InvalidArgument
          else Inr (table\<lparr>rt_regions := rt_regions table @ [meta]\<rparr>)))"
| "apply_one table (RegionUpdate meta) =
    bind_result (replace_region meta (rt_regions table)) (\<lambda>rs. Inr (table\<lparr>rt_regions := rs\<rparr>))"
| "apply_one table (RegionRemove region_id expected_epoch) =
    bind_result (remove_region region_id expected_epoch (rt_regions table)) (\<lambda>rs. Inr (table\<lparr>rt_regions := rs\<rparr>))"

fun apply_each :: "RegionTable \<Rightarrow> RegionChange list \<Rightarrow> RegionTable result" where
  "apply_each table [] = Inr table"
| "apply_each table (change # changes) = bind_result (apply_one table change) (\<lambda>table. apply_each table changes)"

definition RegionTable_apply :: "RegionTable \<Rightarrow> RegionChange list \<Rightarrow> (bool \<times> RegionTable) result" where
  "RegionTable_apply table changes =
    (if changes = [] then Inr (False, table)
     else
       bind_result (apply_each table changes) (\<lambda>nxt.
         let nxt = nxt\<lparr>rt_regions := sort_key rm_start_key (rt_regions nxt)\<rparr>
         in bind_result (RegionTable_validate nxt) (\<lambda>_.
              Inr (True, nxt\<lparr>rt_version := rt_version table + 1\<rparr>))))"

section \<open>Plans\<close>

datatype SplitMergeKind = KindSplit | KindMerge

record SplitMergePlan =
  sp_kind :: SplitMergeKind
  sp_source_region :: u64
  sp_target_region :: "u64 option"
  sp_changes :: "RegionChange list"
  sp_expected_table_version :: u64

definition split_child :: "RegionMeta \<Rightarrow> bytes \<Rightarrow> u64 \<Rightarrow> RegionMeta" where
  "split_child parent split_key new_region_id =
    \<lparr>rm_region_id = new_region_id, rm_start_key = split_key, rm_end_key = rm_end_key parent,
     rm_epoch = \<lparr>re_conf_ver = re_conf_ver (rm_epoch parent), re_version = re_version (rm_epoch parent) + 1\<rparr>,
     rm_peers = rm_peers parent, rm_approximate_size = 0, rm_approximate_keys = 0\<rparr>"

definition split_parent :: "RegionMeta \<Rightarrow> bytes \<Rightarrow> RegionMeta" where
  "split_parent parent split_key =
    parent\<lparr>rm_end_key := split_key,
           rm_epoch := (rm_epoch parent)\<lparr>re_version := re_version (rm_epoch parent) + 1\<rparr>\<rparr>"

definition plan_split :: "RegionTable \<Rightarrow> u64 \<Rightarrow> bytes \<Rightarrow> u64 \<Rightarrow> SplitMergePlan result" where
  "plan_split table region_id split_key new_region_id =
    (if rt_version table = 0 then Inl InvalidArgument
     else
       bind_result (ok_or InvalidArgument (RegionTable_get table region_id)) (\<lambda>parent.
         if new_region_id = 0 \<or> new_region_id = region_id \<or> RegionTable_get table new_region_id \<noteq> None
         then Inl InvalidArgument
         else if split_key \<le> rm_start_key parent then Inl InvalidArgument
         else if rm_end_key parent \<noteq> [] \<and> rm_end_key parent \<le> split_key then Inl InvalidArgument
         else if key_in_object_space split_key then Inl InvalidArgument
         else
           Inr \<lparr>sp_kind = KindSplit, sp_source_region = region_id, sp_target_region = Some new_region_id,
                sp_changes = [RegionUpdate (split_parent parent split_key),
                              RegionAdd (split_child parent split_key new_region_id)],
                sp_expected_table_version = rt_version table\<rparr>))"

definition merged_region :: "RegionMeta \<Rightarrow> RegionMeta \<Rightarrow> RegionMeta" where
  "merged_region l r =
    l\<lparr>rm_end_key := rm_end_key r,
      rm_epoch := (rm_epoch l)\<lparr>re_version := max (re_version (rm_epoch l)) (re_version (rm_epoch r)) + 1\<rparr>\<rparr>"

definition plan_merge :: "RegionTable \<Rightarrow> u64 \<Rightarrow> u64 \<Rightarrow> SplitMergePlan result" where
  "plan_merge table left right =
    (if rt_version table = 0 then Inl InvalidArgument
     else if left = right then Inl InvalidArgument
     else
       bind_result (ok_or InvalidArgument (RegionTable_get table left)) (\<lambda>left_meta.
         bind_result (ok_or InvalidArgument (RegionTable_get table right)) (\<lambda>right_meta.
           if rm_end_key left_meta = [] \<or> rm_end_key left_meta \<noteq> rm_start_key right_meta then Inl InvalidArgument
           else if is_object_region left_meta \<or> is_object_region right_meta then Inl InvalidArgument
           else
             Inr \<lparr>sp_kind = KindMerge, sp_source_region = left, sp_target_region = None,
                  sp_changes = [RegionUpdate (merged_region left_meta right_meta),
                                RegionRemove right (rm_epoch right_meta)],
                  sp_expected_table_version = rt_version table\<rparr>)))"

text \<open>Carving the object region out of the seeds.\<close>

definition covers_object_space :: "RegionMeta \<Rightarrow> bool" where
  "covers_object_space m \<longleftrightarrow>
    rm_start_key m \<le> OBJECT_PREFIX \<and> (rm_end_key m = [] \<or> OBJECT_SPACE_END \<le> rm_end_key m)"

definition carve_parent :: "RegionMeta \<Rightarrow> u64 \<Rightarrow> RegionMeta list" where
  "carve_parent parent first_new_id =
    (if rm_start_key parent < OBJECT_PREFIX then [parent\<lparr>rm_end_key := OBJECT_PREFIX\<rparr>] else []) @
    [\<lparr>rm_region_id = first_new_id, rm_start_key = OBJECT_PREFIX, rm_end_key = OBJECT_SPACE_END,
      rm_epoch = rm_epoch parent, rm_peers = rm_peers parent, rm_approximate_size = 0, rm_approximate_keys = 0\<rparr>] @
    (if rm_end_key parent \<noteq> OBJECT_SPACE_END
     then [\<lparr>rm_region_id = first_new_id + 1, rm_start_key = OBJECT_SPACE_END, rm_end_key = rm_end_key parent,
            rm_epoch = rm_epoch parent, rm_peers = rm_peers parent, rm_approximate_size = 0, rm_approximate_keys = 0\<rparr>]
     else [])"

fun carve_list :: "u64 \<Rightarrow> RegionMeta list \<Rightarrow> RegionMeta list option" where
  "carve_list first_new_id [] = None"
| "carve_list first_new_id (m # rs) =
    (if covers_object_space m then Some (carve_parent m first_new_id @ rs)
     else map_option ((#) m) (carve_list first_new_id rs))"

definition carve_object_region :: "RegionMeta list \<Rightarrow> u64 \<Rightarrow> (u64 \<times> RegionMeta list) result" where
  "carve_object_region regions first_new_id =
    (if first_new_id = 0 then Inl InvalidArgument
     else
       case find is_object_region regions of
         Some existing \<Rightarrow> Inr (rm_region_id existing, regions)
       | None \<Rightarrow>
           (if \<exists>m \<in> set regions. first_new_id \<le> rm_region_id m then Inl InvalidArgument
            else bind_result (ok_or InvalidArgument (carve_list first_new_id regions)) (\<lambda>carved.
                   Inr (first_new_id, sort_key rm_start_key carved))))"

section \<open>The stored table\<close>

datatype RegionMetaOp = RegionInit "RegionMeta list" | RegionApply "RegionChange list"

datatype RegionMetaOutcome = RegionApplied u64 | RegionRejected error

definition REGION_TABLE_KEY :: bytes where "REGION_TABLE_KEY = ascii ''/_sys/pd/regions''"

definition region_table_in_tx :: "RegionTable postcard \<Rightarrow> db \<Rightarrow> RegionTable result" where
  "region_table_in_tx pc d =
    (case tx_get d T_kv REGION_TABLE_KEY of
       Some bs \<Rightarrow> RegionTable_decode pc bs
     | None \<Rightarrow> Inr RegionTable_default)"

definition region_table :: "RegionTable postcard \<Rightarrow> MvccStorage \<Rightarrow> RegionTable result" where
  "region_table pc s = region_table_in_tx pc (backend s)"

fun region_op :: "RegionTable \<Rightarrow> RegionMetaOp \<Rightarrow> (bool \<times> RegionTable) result" where
  "region_op table (RegionInit regions) = RegionTable_init table regions"
| "region_op table (RegionApply changes) = RegionTable_apply table changes"

definition apply_region_meta_op ::
    "RegionTable postcard \<Rightarrow> MvccStorage \<Rightarrow> RegionMetaOp \<Rightarrow> AppliedLogId \<Rightarrow> RegionMetaOutcome result \<times> MvccStorage" where
  "apply_region_meta_op pc s op applied =
    write_store s (\<lambda>d.
      bind_result (region_table_in_tx pc d) (\<lambda>table.
        bind_result
          (case region_op table op of
             Inr (changed, table) \<Rightarrow>
               bind_result
                 (if changed
                  then bind_result (RegionTable_encode pc table) (\<lambda>bs. Inr (tx_insert d T_kv REGION_TABLE_KEY bs))
                  else Inr d)
                 (\<lambda>d. Inr (RegionApplied (rt_version table), d))
           | Inl err \<Rightarrow> Inr (RegionRejected err, d))
          (\<lambda>(outcome, d). Inr (outcome, put_applied d applied))))"

section \<open>Tilings\<close>

text \<open>
  Regions one after the other from a key to a key; \<open>None\<close> is the end of the key
  space.
\<close>

definition next_key :: "RegionMeta \<Rightarrow> bytes option" where
  "next_key m = (if rm_end_key m = [] then None else Some (rm_end_key m))"

fun tiles :: "bytes option \<Rightarrow> RegionMeta list \<Rightarrow> bytes option \<Rightarrow> bool" where
  "tiles a [] b \<longleftrightarrow> a = b"
| "tiles a (m # rs) b \<longleftrightarrow>
    a = Some (rm_start_key m) \<and> (rm_end_key m = [] \<or> rm_start_key m < rm_end_key m) \<and> tiles (next_key m) rs b"

definition regions_ok :: "RegionMeta list \<Rightarrow> bool" where
  "regions_ok rs \<longleftrightarrow> tiles (Some []) rs None \<and> distinct (map rm_region_id rs) \<and>
    (\<forall>m \<in> set rs. rm_region_id m \<noteq> 0 \<and> re_conf_ver (rm_epoch m) \<noteq> 0 \<and> re_version (rm_epoch m) \<noteq> 0)"

lemma tiles_append: "tiles a (xs @ ys) b \<longleftrightarrow> (\<exists>c. tiles a xs c \<and> tiles c ys b)"
  by (induction xs arbitrary: a) auto

lemma tiles_mid: "tiles a (xs @ m # ys) b \<longleftrightarrow>
    tiles a xs (Some (rm_start_key m)) \<and> (rm_end_key m = [] \<or> rm_start_key m < rm_end_key m) \<and> tiles (next_key m) ys b"
  by (auto simp: tiles_append)

lemma tiles_None [simp]: "tiles None rs None \<longleftrightarrow> rs = []"
  by (cases rs) auto

lemma validate_loop_iff:
  "validate_loop seen at_head rs = Inr () \<longleftrightarrow>
    (rs \<noteq> [] \<longrightarrow> tiles (Some (rm_start_key (hd rs))) rs None \<and> (at_head \<longrightarrow> rm_start_key (hd rs) = [])) \<and>
    distinct (map rm_region_id rs) \<and> rm_region_id ` set rs \<inter> set seen = {} \<and>
    (\<forall>m \<in> set rs. rm_region_id m \<noteq> 0 \<and> re_conf_ver (rm_epoch m) \<noteq> 0 \<and> re_version (rm_epoch m) \<noteq> 0)"
proof (induction rs arbitrary: seen at_head)
  case (Cons m rs)
  show ?case
  proof (cases rs)
    case Nil
    then show ?thesis by (auto simp: next_key_def not_le)
  next
    case (Cons n ns)
    note IH = Cons.IH [of "rm_region_id m # seen" False, unfolded Cons]
    show ?thesis
      unfolding Cons validate_loop.simps(2) [of _ _ m] list.case
      by (auto simp: IH next_key_def not_le simp del: validate_loop.simps)
  qed
qed simp

lemma validate_iff:
  "RegionTable_validate table = Inr () \<longleftrightarrow>
    (if rt_version table = 0 then rt_regions table = [] else regions_ok (rt_regions table))"
proof (cases "rt_regions table")
  case (Cons m rs)
  then show ?thesis
    by (auto simp: RegionTable_validate_def validate_loop_iff regions_ok_def simp del: validate_loop.simps)
qed (simp add: RegionTable_validate_def regions_ok_def)

lemma tiles_starts:
  "tiles a rs b \<Longrightarrow> sorted_wrt (<) (map rm_start_key rs) \<and> (\<forall>m \<in> set rs. \<exists>k. a = Some k \<and> k \<le> rm_start_key m)"
proof (induction rs arbitrary: a)
  case (Cons m rs)
  then have IH: "sorted_wrt (<) (map rm_start_key rs)"
      "\<forall>x \<in> set rs. \<exists>k. next_key m = Some k \<and> k \<le> rm_start_key x" by auto
  have "rm_start_key m < rm_start_key x" if "x \<in> set rs" for x
    using IH(2) that Cons.prems by (fastforce simp: next_key_def split: if_splits)
  then show ?case using IH(1) Cons.prems by (auto simp: less_imp_le)
qed simp

lemma tiles_sort:
  assumes "tiles a rs b" "mset rs' = mset rs"
  shows "sort_key rm_start_key rs' = rs"
proof -
  have srt: "sorted_wrt (<) (map rm_start_key rs)" using tiles_starts [OF assms(1)] by blast
  then have "distinct (map rm_start_key rs)" "sorted (map rm_start_key rs)"
    by (simp_all add: strict_sorted_iff)
  moreover have "set rs' = set rs" using assms(2) by (rule mset_eq_setD)
  ultimately show ?thesis using assms(2) by (intro sort_key_inj_key_eq) (simp_all add: distinct_map)
qed

text \<open>Where a key falls in a tiling.\<close>

lemma tiles_locate:
  assumes "tiles (Some a) rs None" "a \<le> key"
  shows "\<exists>xs m ys. rs = xs @ m # ys \<and> contains_key m key \<and> (\<forall>x \<in> set xs. rm_start_key x \<le> key \<and> \<not> contains_key x key) \<and>
    (\<forall>y \<in> set ys. key < rm_start_key y)"
  using assms
proof (induction rs arbitrary: a)
  case (Cons m rs)
  show ?case
  proof (cases "contains_key m key")
    case True
    have "key < rm_start_key y" if "y \<in> set rs" for y
      using tiles_starts [of "next_key m" rs None] Cons.prems(1) that True
      by (fastforce simp: contains_key_def next_key_def split: if_splits)
    then show ?thesis using True by (intro exI [of _ "[]"]) auto
  next
    case False
    then have e: "rm_end_key m \<noteq> []" "rm_end_key m \<le> key"
      using Cons.prems by (auto simp: contains_key_def not_less)
    obtain xs n ys where "rs = xs @ n # ys" "contains_key n key"
        "\<forall>x \<in> set xs. rm_start_key x \<le> key \<and> \<not> contains_key x key" "\<forall>y \<in> set ys. key < rm_start_key y"
      using Cons.IH [of "rm_end_key m"] Cons.prems(1) e by (auto simp: next_key_def)
    then show ?thesis using False Cons.prems by (intro exI [of _ "m # xs"]) auto
  qed
qed simp

lemma regions_locate:
  assumes "regions_ok (rt_regions table)"
  obtains xs m ys where "rt_regions table = xs @ m # ys" "contains_key m key" "route table key = Some m"
    "\<forall>x \<in> set (xs @ ys). \<not> contains_key x key"
proof -
  have "tiles (Some []) (rt_regions table) None" using assms by (simp add: regions_ok_def)
  from tiles_locate [OF this, of key] obtain xs m ys where
    l: "rt_regions table = xs @ m # ys" "contains_key m key"
      "\<forall>x \<in> set xs. rm_start_key x \<le> key \<and> \<not> contains_key x key" "\<forall>y \<in> set ys. key < rm_start_key y" by auto
  have "takeWhile (\<lambda>x. rm_start_key x \<le> key) (xs @ m # ys) = xs @ [m]"
    using l(2-4) by (cases ys) (auto simp: contains_key_def takeWhile_append not_le)
  then have "route table key = Some m"
    using l(2) by (simp add: route_def l(1) partition_point_def nth_append)
  moreover have "\<forall>x \<in> set (xs @ ys). \<not> contains_key x key" using l(3,4) by (auto simp: contains_key_def not_le)
  ultimately show thesis using that l(1,2) by blast
qed

lemma route_iff:
  assumes "regions_ok (rt_regions table)"
  shows "route table key = Some m \<longleftrightarrow> m \<in> set (rt_regions table) \<and> contains_key m key"
  by (rule regions_locate [OF assms, of key]) auto

section \<open>Splits and merges\<close>

lemma get_split:
  assumes "RegionTable_get table i = Some p"
  obtains xs ys where "rt_regions table = xs @ p # ys" "rm_region_id p = i" "\<forall>x \<in> set xs. rm_region_id x \<noteq> i"
proof -
  have "find (\<lambda>m. rm_region_id m = i) rs = Some p \<Longrightarrow>
      \<exists>xs ys. rs = xs @ p # ys \<and> rm_region_id p = i \<and> (\<forall>x \<in> set xs. rm_region_id x \<noteq> i)" for rs
  proof (induction rs)
    case (Cons m rs)
    show ?case
    proof (cases "rm_region_id m = i")
      case True
      then show ?thesis using Cons.prems by - (rule exI [of _ "[]"], rule exI [of _ rs], auto)
    next
      case False
      then obtain xs ys where "rs = xs @ p # ys" "rm_region_id p = i" "\<forall>x \<in> set xs. rm_region_id x \<noteq> i"
        using Cons by auto
      then show ?thesis using False by - (rule exI [of _ "m # xs"], rule exI [of _ ys], auto)
    qed
  qed simp
  then show thesis using that assms unfolding RegionTable_get_def by blast
qed

lemma get_None: "RegionTable_get table i = None \<longleftrightarrow> i \<notin> rm_region_id ` set (rt_regions table)"
  by (auto simp: RegionTable_get_def find_None_iff)

lemma replace_region_mid:
  "\<forall>x \<in> set xs. rm_region_id x \<noteq> rm_region_id meta \<Longrightarrow> rm_region_id m = rm_region_id meta \<Longrightarrow>
    replace_region meta (xs @ m # ys) = bind_result (check_update_epoch m meta) (\<lambda>_. Inr (xs @ meta # ys))"
  by (induction xs) (auto split: sum.split simp: bind_result_def)

lemma remove_region_mid:
  "\<forall>x \<in> set xs. rm_region_id x \<noteq> i \<Longrightarrow> rm_region_id m = i \<Longrightarrow> rm_epoch m = e \<Longrightarrow>
    remove_region i e (xs @ m # ys) = Inr (xs @ ys)"
  by (induction xs) auto

lemma u64_less_succ: "(v :: u64) \<noteq> - 1 \<Longrightarrow> v < v + 1"
proof -
  assume "v \<noteq> - 1"
  then have "unat v \<noteq> 2 ^ 64 - 1"
    by (simp add: word_unat_eq_iff unsigned_minus_1_eq_mask mask_eq_exp_minus_1)
  then have "unat (v + 1) = unat v + 1"
    using unat_u64_less [of v] by (simp add: unat_word_ariths)
  then show ?thesis by (simp add: word_less_nat_alt)
qed

lemma apply_tiled:
  assumes "apply_each table changes = Inr nxt" "changes \<noteq> []" "rt_version nxt = rt_version table" "rt_version table \<noteq> 0"
    and "mset (rt_regions nxt) = mset rs" "regions_ok rs"
  shows "RegionTable_apply table changes = Inr (True, \<lparr>rt_version = rt_version table + 1, rt_regions = rs\<rparr>)"
proof -
  have "sort_key rm_start_key (rt_regions nxt) = rs"
    using assms(5,6) by (auto simp: regions_ok_def intro: tiles_sort)
  then show ?thesis
    using assms by (simp add: RegionTable_apply_def validate_iff Let_def)
qed

lemma split_applies:
  assumes ok: "regions_ok (rt_regions table)" and v: "rt_version table \<noteq> 0"
    and plan: "plan_split table i k n = Inr plan" and p: "RegionTable_get table i = Some p"
    and nowrap: "re_version (rm_epoch p) \<noteq> - 1"
  obtains xs ys where "rt_regions table = xs @ p # ys"
    "RegionTable_apply table (sp_changes plan) =
      Inr (True, \<lparr>rt_version = rt_version table + 1, rt_regions = xs @ split_parent p k # split_child p k n # ys\<rparr>)"
    "regions_ok (xs @ split_parent p k # split_child p k n # ys)"
    "rm_start_key p < k" "rm_end_key p = [] \<or> k < rm_end_key p"
proof -
  obtain xs ys where l: "rt_regions table = xs @ p # ys" "rm_region_id p = i" "\<forall>x \<in> set xs. rm_region_id x \<noteq> i"
    using p by (rule get_split)
  have n: "n \<noteq> 0" "n \<noteq> i" "n \<notin> rm_region_id ` set (rt_regions table)"
    and k: "rm_start_key p < k" "rm_end_key p = [] \<or> k < rm_end_key p"
    and ch: "sp_changes plan = [RegionUpdate (split_parent p k), RegionAdd (split_child p k n)]"
    using plan p v unfolding plan_split_def by (auto simp: get_None [symmetric] not_le split: if_splits)
  let ?p = "split_parent p k" and ?c = "split_child p k n"
  have lt: "re_version (rm_epoch p) < re_version (rm_epoch p) + 1" using u64_less_succ [OF nowrap] .
  have e: "check_update_epoch p ?p = Inr ()"
    using lt by (auto simp: check_update_epoch_def split_parent_def not_less dest: arg_cong [of _ _ re_version])
  have one: "apply_one table (RegionUpdate ?p) = Inr (table\<lparr>rt_regions := xs @ ?p # ys\<rparr>)"
    using l e by (simp add: l(1) replace_region_mid split_parent_def)
  have get: "RegionTable_get (table\<lparr>rt_regions := xs @ ?p # ys\<rparr>) n = None"
    using n l by (auto simp: get_None split_parent_def)
  have two: "apply_one (table\<lparr>rt_regions := xs @ ?p # ys\<rparr>) (RegionAdd ?c) = Inr (table\<lparr>rt_regions := xs @ ?p # ys @ [?c]\<rparr>)"
    using get k by (auto simp: split_child_def not_le)
  have til: "tiles (Some []) (xs @ ?p # ?c # ys) None"
    using ok k by (auto simp: regions_ok_def l(1) tiles_mid split_parent_def split_child_def next_key_def)
  have rok: "regions_ok (xs @ ?p # ?c # ys)"
    using ok til n lt l(1) unfolding regions_ok_def l(1)
    by (auto simp: split_parent_def split_child_def)
  have "RegionTable_apply table (sp_changes plan) =
      Inr (True, \<lparr>rt_version = rt_version table + 1, rt_regions = xs @ ?p # ?c # ys\<rparr>)"
    by (rule apply_tiled [OF _ _ _ v _ rok, where nxt = "table\<lparr>rt_regions := xs @ ?p # ys @ [?c]\<rparr>"])
       (simp_all add: ch one two del: apply_one.simps)
  then show thesis using that l(1) rok k by blast
qed

lemma tiles_next:
  assumes "tiles (Some []) (xs @ l # ys) None" "rm_end_key l \<noteq> []"
    "r \<in> set (xs @ l # ys)" "rm_start_key r = rm_end_key l"
  obtains zs where "ys = r # zs"
proof -
  have "tiles (Some (rm_end_key l)) ys None" using assms(1,2) by (simp add: tiles_mid next_key_def)
  then obtain m zs where m: "ys = m # zs" "rm_start_key m = rm_end_key l" by (cases ys) auto
  have "distinct (map rm_start_key (xs @ l # ys))"
    using tiles_starts [OF assms(1)] by (simp add: strict_sorted_iff)
  then have inj: "inj_on rm_start_key (set (xs @ l # ys))" by (simp only: distinct_map)
  have "m = r" by (rule inj_onD [OF inj _ _ assms(3)]) (simp_all add: m assms(4))
  then show thesis using that m(1) by blast
qed

lemma merge_applies:
  assumes ok: "regions_ok (rt_regions table)" and v: "rt_version table \<noteq> 0"
    and plan: "plan_merge table i j = Inr plan"
    and l: "RegionTable_get table i = Some l" and r: "RegionTable_get table j = Some r"
    and nowrap: "max (re_version (rm_epoch l)) (re_version (rm_epoch r)) \<noteq> - 1"
  obtains xs ys where "rt_regions table = xs @ l # r # ys"
    "RegionTable_apply table (sp_changes plan) =
      Inr (True, \<lparr>rt_version = rt_version table + 1, rt_regions = xs @ merged_region l r # ys\<rparr>)"
    "regions_ok (xs @ merged_region l r # ys)" "rm_end_key l = rm_start_key r" "rm_end_key l \<noteq> []"
proof -
  have adj: "i \<noteq> j" "rm_end_key l \<noteq> []" "rm_end_key l = rm_start_key r"
    and ch: "sp_changes plan = [RegionUpdate (merged_region l r), RegionRemove j (rm_epoch r)]"
    using plan l r v unfolding plan_merge_def by (auto split: if_splits)
  obtain xs zs where lx: "rt_regions table = xs @ l # zs" "rm_region_id l = i" "\<forall>x \<in> set xs. rm_region_id x \<noteq> i"
    using l by (rule get_split)
  have rj: "rm_region_id r = j" "r \<in> set (rt_regions table)" using r by (auto elim: get_split)
  obtain ys where zs: "zs = r # ys"
    by (rule tiles_next [of xs l zs r]) (use ok adj rj lx in \<open>auto simp: regions_ok_def\<close>)
  let ?m = "merged_region l r" and ?mx = "max (re_version (rm_epoch l)) (re_version (rm_epoch r))"
  have lt: "re_version (rm_epoch l) < ?mx + 1"
    using u64_less_succ [OF nowrap] by (rule order_le_less_trans [rotated]) simp
  have e: "check_update_epoch l ?m = Inr ()"
    using lt by (auto simp: check_update_epoch_def merged_region_def not_less dest: arg_cong [of _ _ re_version])
  have one: "apply_one table (RegionUpdate ?m) = Inr (table\<lparr>rt_regions := xs @ ?m # r # ys\<rparr>)"
    using lx e by (simp add: lx(1) zs replace_region_mid merged_region_def)
  have ids: "\<forall>x \<in> set (xs @ [?m]). rm_region_id x \<noteq> j"
    using ok adj(1) rj(1) lx(2)
    by (auto simp: regions_ok_def lx(1) zs merged_region_def) (metis image_eqI)
  have two: "apply_one (table\<lparr>rt_regions := xs @ ?m # r # ys\<rparr>) (RegionRemove j (rm_epoch r)) =
      Inr (table\<lparr>rt_regions := xs @ ?m # ys\<rparr>)"
    using remove_region_mid [OF ids rj(1) refl, of ys] by simp
  have til: "tiles (Some []) (xs @ ?m # ys) None"
    using ok adj by (auto simp: regions_ok_def lx(1) zs tiles_mid merged_region_def next_key_def split: if_splits)
  have "?mx + 1 \<noteq> 0" using lt by auto
  then have rok: "regions_ok (xs @ ?m # ys)"
    using ok til unfolding regions_ok_def lx(1) zs by (auto simp: merged_region_def)
  have "RegionTable_apply table (sp_changes plan) =
      Inr (True, \<lparr>rt_version = rt_version table + 1, rt_regions = xs @ ?m # ys\<rparr>)"
    by (rule apply_tiled [OF _ _ _ v _ rok, where nxt = "table\<lparr>rt_regions := xs @ ?m # ys\<rparr>"])
       (simp_all add: ch one two del: apply_one.simps)
  then show thesis using that lx(1) zs rok adj by blast
qed

lemma route_other:
  assumes "regions_ok (rt_regions table)" "regions_ok (rt_regions table')"
    and "rt_regions table = xs @ old @ ys" "rt_regions table' = xs @ new @ ys"
    and "\<forall>m \<in> set old. \<not> contains_key m key"
  shows "route table' key = route table key"
proof -
  obtain m where m: "route table key = Some m" using regions_locate [OF assms(1)] by metis
  then have "m \<in> set (rt_regions table)" "contains_key m key" using route_iff [OF assms(1)] by auto
  then have "route table' key = Some m" using assms(3-5) by (auto simp: route_iff [OF assms(2)])
  then show ?thesis using m by simp
qed

text \<open>C30: Applying a split plan to the table it was made for takes effect: the table tiles the
  key space again, the keys of the parent from the split key on are routed to the
  new region, its other keys to the shrunk parent and every other key as before.\<close>

theorem region_split_exact:
  assumes "regions_ok (rt_regions table)" "rt_version table \<noteq> 0" "plan_split table i k n = Inr plan"
    and "RegionTable_get table i = Some parent" "re_version (rm_epoch parent) \<noteq> - 1"
  shows "\<exists>table'. RegionTable_apply table (sp_changes plan) = Inr (True, table') \<and>
    regions_ok (rt_regions table') \<and> rt_version table' = rt_version table + 1 \<and>
    (\<forall>key. route table' key =
       (if contains_key parent key then Some (if k \<le> key then split_child parent k n else split_parent parent k)
        else route table key))"
proof -
  obtain xs ys where l: "rt_regions table = xs @ parent # ys"
    "RegionTable_apply table (sp_changes plan) =
      Inr (True, \<lparr>rt_version = rt_version table + 1, rt_regions = xs @ split_parent parent k # split_child parent k n # ys\<rparr>)"
    "regions_ok (xs @ split_parent parent k # split_child parent k n # ys)"
    "rm_start_key parent < k" "rm_end_key parent = [] \<or> k < rm_end_key parent"
    using split_applies [OF assms] by metis
  let ?t = "\<lparr>rt_version = rt_version table + 1, rt_regions = xs @ split_parent parent k # split_child parent k n # ys\<rparr>"
  have "route ?t key = Some (if k \<le> key then split_child parent k n else split_parent parent k)"
    if "contains_key parent key" for key
    using that l(3-5) by (auto simp: route_iff contains_key_def split_parent_def split_child_def not_le)
  moreover have "route ?t key = route table key" if "\<not> contains_key parent key" for key
    by (rule route_other [OF assms(1), of ?t xs "[parent]" ys "[split_parent parent k, split_child parent k n]"])
       (use that l in simp_all)
  ultimately show ?thesis using l(2,3) by auto
qed

definition sample_region :: "u64 \<Rightarrow> bytes \<Rightarrow> bytes \<Rightarrow> RegionMeta" where
  "sample_region i a b = \<lparr>rm_region_id = i, rm_start_key = a, rm_end_key = b, rm_epoch = RegionEpoch_initial,
     rm_peers = [], rm_approximate_size = 0, rm_approximate_keys = 0\<rparr>"

definition sample_table :: RegionTable where
  "sample_table = \<lparr>rt_version = 1, rt_regions = [sample_region 1 [] [5], sample_region 2 [5] []]\<rparr>"

lemma sample_table_ok: "regions_ok (rt_regions sample_table)" "rt_version sample_table = 1"
  by (simp_all add: sample_table_def regions_ok_def sample_region_def RegionEpoch_initial_def next_key_def)

lemma sample_table_get:
  "RegionTable_get sample_table 1 = Some (sample_region 1 [] [5])"
  "RegionTable_get sample_table 2 = Some (sample_region 2 [5] [])" "RegionTable_get sample_table 3 = None"
  by (simp_all add: sample_table_def RegionTable_get_def sample_region_def)

theorem region_split_exact_witness:
  "\<exists>plan table'. plan_split sample_table 1 [3] 3 = Inr plan \<and> RegionTable_apply sample_table (sp_changes plan) = Inr (True, table') \<and>
    route table' [4] = Some (split_child (sample_region 1 [] [5]) [3] 3)"
proof -
  obtain plan where plan: "plan_split sample_table 1 [3] 3 = Inr plan"
    by (simp add: plan_split_def sample_table_get sample_table_ok(2))
       (simp add: sample_region_def key_in_object_space_def OBJECT_PREFIX_def ascii_def)
  have "re_version (rm_epoch (sample_region 1 [] [5])) \<noteq> - 1" "contains_key (sample_region 1 [] [5]) [4]"
    by (simp_all add: sample_region_def RegionEpoch_initial_def contains_key_def)
  with region_split_exact [OF sample_table_ok(1) _ plan sample_table_get(1)] show ?thesis
    using plan by (auto simp: sample_table_ok(2))
qed

text \<open>C31: Applying a merge plan to the table it was made for takes effect: the table tiles the
  key space again, the keys of both regions are routed to the merged region and
  every other key as before; the epoch of the merged region is above both.\<close>

theorem region_merge_exact:
  assumes "regions_ok (rt_regions table)" "rt_version table \<noteq> 0" "plan_merge table i j = Inr plan"
    and "RegionTable_get table i = Some l" "RegionTable_get table j = Some r"
    and "max (re_version (rm_epoch l)) (re_version (rm_epoch r)) \<noteq> - 1"
  shows "\<exists>table'. RegionTable_apply table (sp_changes plan) = Inr (True, table') \<and>
    regions_ok (rt_regions table') \<and> rt_version table' = rt_version table + 1 \<and>
    re_version (rm_epoch l) < re_version (rm_epoch (merged_region l r)) \<and>
    re_version (rm_epoch r) < re_version (rm_epoch (merged_region l r)) \<and>
    (\<forall>key. route table' key =
       (if contains_key l key \<or> contains_key r key then Some (merged_region l r) else route table key))"
proof -
  obtain xs ys where x: "rt_regions table = xs @ l # r # ys"
    "RegionTable_apply table (sp_changes plan) =
      Inr (True, \<lparr>rt_version = rt_version table + 1, rt_regions = xs @ merged_region l r # ys\<rparr>)"
    "regions_ok (xs @ merged_region l r # ys)" "rm_end_key l = rm_start_key r" "rm_end_key l \<noteq> []"
    using merge_applies [OF assms] by metis
  let ?t = "\<lparr>rt_version = rt_version table + 1, rt_regions = xs @ merged_region l r # ys\<rparr>"
  have ends: "rm_start_key l < rm_end_key l" "rm_end_key r = [] \<or> rm_start_key r < rm_end_key r"
    using assms(1) x(4,5) by (auto simp: regions_ok_def x(1) tiles_mid)
  have both: "contains_key l key \<or> contains_key r key \<longleftrightarrow> contains_key (merged_region l r) key" for key
    using ends x(4) by (auto simp: contains_key_def merged_region_def)
  have "re_version (rm_epoch x) < re_version (rm_epoch (merged_region l r))" if "x = l \<or> x = r" for x
    using that u64_less_succ [OF assms(6)] by (auto simp: merged_region_def elim: order_le_less_trans [rotated])
  moreover have "route ?t key = Some (merged_region l r)" if "contains_key l key \<or> contains_key r key" for key
    using that x(3) by (simp add: route_iff both)
  moreover have "route ?t key = route table key" if "\<not> (contains_key l key \<or> contains_key r key)" for key
    by (rule route_other [OF assms(1), of ?t xs "[l, r]" ys "[merged_region l r]"]) (use that x in simp_all)
  ultimately show ?thesis using x(2,3) by (intro exI [of _ ?t]) simp
qed

theorem region_merge_exact_witness:
  "\<exists>plan table'. plan_merge sample_table 1 2 = Inr plan \<and> RegionTable_apply sample_table (sp_changes plan) = Inr (True, table') \<and>
    route table' [7] = Some (merged_region (sample_region 1 [] [5]) (sample_region 2 [5] []))"
proof -
  obtain plan where plan: "plan_merge sample_table 1 2 = Inr plan"
    by (simp add: plan_merge_def sample_table_get sample_table_ok(2))
       (simp add: sample_region_def is_object_region_def OBJECT_PREFIX_def OBJECT_SPACE_END_def ascii_def)
  have "max (re_version (rm_epoch (sample_region 1 [] [5]))) (re_version (rm_epoch (sample_region 2 [5] []))) \<noteq> - 1"
    "contains_key (sample_region 2 [5] []) [7]"
    by (simp_all add: sample_region_def RegionEpoch_initial_def contains_key_def)
  with region_merge_exact [OF sample_table_ok(1) _ plan sample_table_get(1,2)] show ?thesis
    using plan by (auto simp: sample_table_ok(2))
qed

section \<open>The object region\<close>

lemma object_space_iff: "key_in_object_space key \<longleftrightarrow> OBJECT_PREFIX \<le> key \<and> key < OBJECT_SPACE_END"
proof -
  have "prefix_successor OBJECT_PREFIX = Some OBJECT_SPACE_END"
    by (simp add: OBJECT_PREFIX_def OBJECT_SPACE_END_def ascii_def)
  from prefix_successor_Some_imp [OF this, of key] show ?thesis by (simp add: key_in_object_space_def)
qed

lemma object_space_bounds: "OBJECT_PREFIX < OBJECT_SPACE_END" "OBJECT_SPACE_END \<noteq> []" "OBJECT_PREFIX \<noteq> []"
  by (simp_all add: OBJECT_PREFIX_def OBJECT_SPACE_END_def ascii_def)

lemma carve_list_split:
  "carve_list n rs = Some carved \<Longrightarrow>
    \<exists>xs p ys. rs = xs @ p # ys \<and> covers_object_space p \<and> carved = xs @ carve_parent p n @ ys"
proof (induction rs arbitrary: carved)
  case (Cons m rs)
  show ?case
  proof (cases "covers_object_space m")
    case True
    then show ?thesis using Cons.prems by - (rule exI [of _ "[]"], rule exI [of _ m], rule exI [of _ rs], auto)
  next
    case False
    then obtain xs p ys where "rs = xs @ p # ys" "covers_object_space p" "carved = m # xs @ carve_parent p n @ ys"
      using Cons by fastforce
    then show ?thesis by - (rule exI [of _ "m # xs"], rule exI [of _ p], rule exI [of _ ys], auto)
  qed
qed simp

lemma carve_parent_tiles:
  assumes "covers_object_space p"
  shows "tiles (Some (rm_start_key p)) (carve_parent p n) (next_key p)"
  using assms object_space_bounds
  by (auto simp: carve_parent_def covers_object_space_def next_key_def not_less)

lemma carve_parent_ids:
  "set (map rm_region_id (carve_parent p n)) \<subseteq> {rm_region_id p, n, n + 1}"
  "n \<noteq> rm_region_id p \<Longrightarrow> n + 1 \<noteq> rm_region_id p \<Longrightarrow> distinct (map rm_region_id (carve_parent p n))"
  "m \<in> set (carve_parent p n) \<Longrightarrow> rm_epoch m = rm_epoch p"
  by (auto simp: carve_parent_def split: if_splits)

lemma carved_ok:
  assumes ok: "regions_ok regions" and below: "\<forall>m \<in> set regions. rm_region_id m < n" and n: "n \<noteq> - 1"
    and c: "carve_list n regions = Some carved"
  shows "regions_ok carved \<and> (\<exists>m \<in> set carved. is_object_region m \<and> rm_region_id m = n)"
proof -
  obtain xs p ys where l: "regions = xs @ p # ys" "covers_object_space p" "carved = xs @ carve_parent p n @ ys"
    using carve_list_split [OF c] by blast
  have lt: "n < n + 1" by (rule u64_less_succ [OF n])
  have til: "tiles (Some []) carved None"
    using ok carve_parent_tiles [OF l(2)] by (auto simp: regions_ok_def l tiles_mid tiles_append)
  have new: "rm_region_id m < n" if "m \<in> set xs \<or> m = p \<or> m \<in> set ys" for m using that below by (auto simp: l(1))
  have fresh: "rm_region_id m \<notin> {n, n + 1}" if "m \<in> set xs \<or> m = p \<or> m \<in> set ys" for m
    using new [OF that] lt by auto
  have dist: "distinct (map rm_region_id carved)"
    using ok carve_parent_ids(1,2) [where p = p and n = n] fresh fresh [of p] unfolding l regions_ok_def
    by (fastforce simp: image_iff)
  have np: "n \<noteq> 0" "n + 1 \<noteq> 0" using new [of p] lt by auto
  have "rm_region_id m \<noteq> 0 \<and> re_conf_ver (rm_epoch m) \<noteq> 0 \<and> re_version (rm_epoch m) \<noteq> 0" if "m \<in> set carved" for m
    using that ok np carve_parent_ids(1,3) [where p = p and n = n] unfolding l regions_ok_def by fastforce
  moreover have "\<exists>m \<in> set carved. is_object_region m \<and> rm_region_id m = n"
    by (auto simp: l carve_parent_def is_object_region_def)
  ultimately show ?thesis using til dist by (auto simp: regions_ok_def)
qed

text \<open>C32: Carving the object region out of seeds that tile the key space gives seeds that tile
  it again, with one region that holds exactly the keys of the object space.\<close>

theorem object_region_carved:
  assumes "regions_ok regions" "carve_object_region regions n = Inr (i, carved)" "n \<noteq> - 1"
  shows "regions_ok carved \<and>
    (\<exists>m. rm_region_id m = i \<and> (\<forall>key. route \<lparr>rt_version = 1, rt_regions = carved\<rparr> key = Some m \<longleftrightarrow> key_in_object_space key))"
proof -
  have "regions_ok carved \<and> (\<exists>m \<in> set carved. is_object_region m \<and> rm_region_id m = i)"
  proof (cases "find is_object_region regions")
    case (Some e)
    then have "carved = regions" "i = rm_region_id e" using assms(2) by (auto simp: carve_object_region_def split: if_splits)
    then show ?thesis using assms(1) Some by (auto simp: find_Some_iff)
  next
    case None
    then obtain c where c: "carve_list n regions = Some c" "\<forall>m \<in> set regions. rm_region_id m < n" "i = n"
        "carved = sort_key rm_start_key c"
      using assms(2) by (auto simp: carve_object_region_def not_le split: if_splits)
    note ok = carved_ok [OF assms(1) c(2) assms(3) c(1)]
    then have "carved = c" using c(4) by (auto simp: regions_ok_def intro: tiles_sort)
    then show ?thesis using ok c(3) by simp
  qed
  then obtain m where m: "regions_ok carved" "m \<in> set carved" "is_object_region m" "rm_region_id m = i" by blast
  have "contains_key m key \<longleftrightarrow> key_in_object_space key" for key
    using m(3) object_space_bounds by (auto simp: contains_key_def is_object_region_def object_space_iff)
  then show ?thesis using m by (intro conjI exI [of _ m]) (simp_all add: route_iff)
qed

theorem object_region_carved_witness:
  "\<exists>i carved. carve_object_region [sample_region 1 [] []] 2 = Inr (i, carved) \<and>
    (\<exists>m. rm_region_id m = i \<and> (\<forall>key. route \<lparr>rt_version = 1, rt_regions = carved\<rparr> key = Some m \<longleftrightarrow> key_in_object_space key))"
proof -
  have ok: "regions_ok [sample_region 1 [] []]"
    by (simp add: regions_ok_def sample_region_def RegionEpoch_initial_def next_key_def)
  obtain carved where c: "carve_object_region [sample_region 1 [] []] 2 = Inr (2, carved)"
    by (simp add: carve_object_region_def sample_region_def is_object_region_def covers_object_space_def
        OBJECT_SPACE_END_def ascii_def word_le_nat_alt)
  have "(2 :: u64) \<noteq> - 1" by simp
  with object_region_carved [OF ok c] c show ?thesis by blast
qed

section \<open>The stored table\<close>

lemma init_ok:
  "RegionTable_init table regions = Inr (c, table') \<Longrightarrow> RegionTable_validate table = Inr () \<Longrightarrow>
    (c \<longrightarrow> rt_version table = 0 \<and> rt_version table' = 1 \<and> regions_ok (rt_regions table')) \<and> (\<not> c \<longrightarrow> table' = table)"
  by (auto simp: RegionTable_init_def Let_def validate_iff split: if_splits)

lemma apply_each_version: "apply_each table changes = Inr nxt \<Longrightarrow> rt_version nxt = rt_version table"
proof (induction changes arbitrary: table)
  case (Cons c cs)
  then obtain t where "apply_one table c = Inr t" "apply_each t cs = Inr nxt" by auto
  moreover have "rt_version t = rt_version table" using \<open>apply_one table c = Inr t\<close>
    by (cases c) (auto split: option.splits if_splits)
  ultimately show ?case using Cons.IH by simp
qed simp

lemma apply_ok:
  assumes "RegionTable_apply table changes = Inr (c, table')" "rt_version table \<noteq> 0"
  shows "(c \<longrightarrow> rt_version table' = rt_version table + 1 \<and> regions_ok (rt_regions table')) \<and> (\<not> c \<longrightarrow> table' = table)"
proof (cases "changes = []")
  case False
  then obtain nxt where nxt: "apply_each table changes = Inr nxt"
      "RegionTable_validate (nxt\<lparr>rt_regions := sort_key rm_start_key (rt_regions nxt)\<rparr>) = Inr ()"
      "c" "table' = nxt\<lparr>rt_regions := sort_key rm_start_key (rt_regions nxt), rt_version := rt_version table + 1\<rparr>"
    using assms(1) by (auto simp: RegionTable_apply_def Let_def)
  have "rt_version nxt \<noteq> 0" using apply_each_version [OF nxt(1)] assms(2) by simp
  then show ?thesis using nxt(2-4) by (simp add: validate_iff)
qed (use assms(1) in \<open>simp add: RegionTable_apply_def\<close>)

lemma table_round_trip:
  assumes "postcard_ok pc" "to_allocvec pc table = Some bs"
  shows "RegionTable_decode pc bs = bind_result (RegionTable_validate table) (\<lambda>_. Inr table)"
  using postcard_okD [OF assms, of "[]"] by (simp add: RegionTable_decode_def)

lemma REGION_TABLE_KEY_put_applied [simp]:
  "region_table_in_tx pc (put_applied d a) = region_table_in_tx pc d"
  by (simp add: region_table_in_tx_def table_simps)

lemma region_op_step:
  assumes pc: "postcard_ok pc" and t: "region_table pc s = Inr table" and v: "rt_version table \<noteq> 0"
    and mx: "rt_version table \<noteq> - 1" and op: "apply_region_meta_op pc s op a = (res, s')"
  shows "\<exists>table'. region_table pc s' = Inr table' \<and>
    (table' = table \<or> rt_version table' = rt_version table + 1 \<and> regions_ok (rt_regions table'))"
proof (cases res)
  case (Inl e)
  then have "s' = s" using op by (simp add: apply_region_meta_op_def)
  then show ?thesis using t by simp
next
  case (Inr out)
  obtain d where d: "backend s' = put_applied d a" and step:
    "(case region_op table op of
        Inr (changed, table) \<Rightarrow>
          bind_result
            (if changed
             then bind_result (RegionTable_encode pc table) (\<lambda>bs. Inr (tx_insert (backend s) T_kv REGION_TABLE_KEY bs))
             else Inr (backend s))
            (\<lambda>d. Inr (RegionApplied (rt_version table), d))
      | Inl err \<Rightarrow> Inr (RegionRejected err, backend s)) = Inr (out, d)"
    using op t Inr by (auto simp: apply_region_meta_op_def region_table_def)
  show ?thesis
  proof (cases "region_op table op")
    case (Inl err)
    then show ?thesis using d step t by (simp add: region_table_def)
  next
    case (Inr r)
    obtain c table' where r: "r = (c, table')" by (cases r)
    have val: "RegionTable_validate table = Inr ()"
      using t by (auto simp: region_table_def region_table_in_tx_def RegionTable_default_def RegionTable_validate_def
          RegionTable_decode_def split: option.splits if_splits prod.splits)
    have new: "(c \<longrightarrow> rt_version table' = rt_version table + 1 \<and> regions_ok (rt_regions table')) \<and> (\<not> c \<longrightarrow> table' = table)"
      using Inr r v val by (cases op) (auto dest: init_ok apply_ok)
    show ?thesis
    proof (cases c)
      case True
      obtain bs where bs: "to_allocvec pc table' = Some bs" "d = tx_insert (backend s) T_kv REGION_TABLE_KEY bs"
        using step Inr r True by (auto simp: RegionTable_encode_def)
      have "rt_version table' \<noteq> 0" using new True u64_less_succ [OF mx] by auto
      then have "RegionTable_validate table' = Inr ()" using new True by (simp add: validate_iff)
      then have "region_table pc s' = Inr table'"
        using table_round_trip [OF pc bs(1)] by (simp add: region_table_def d bs(2) region_table_in_tx_def table_simps)
      then show ?thesis using new True by blast
    next
      case False
      then show ?thesis using new step Inr r d t by (simp add: region_table_def)
    qed
  qed
qed

fun run_region_ops :: "RegionTable postcard \<Rightarrow> MvccStorage \<Rightarrow> (RegionMetaOp \<times> AppliedLogId) list \<Rightarrow> MvccStorage" where
  "run_region_ops pc s [] = s"
| "run_region_ops pc s ((op, a) # ops) = run_region_ops pc (snd (apply_region_meta_op pc s op a)) ops"

lemma run_region_ops_ok:
  assumes "postcard_ok pc" "region_table pc s = Inr table" "rt_version table \<noteq> 0" "regions_ok (rt_regions table)"
    and "unat (rt_version table) + length ops < 2 ^ 64"
  shows "\<exists>table'. region_table pc (run_region_ops pc s ops) = Inr table' \<and> rt_version table \<le> rt_version table' \<and>
    regions_ok (rt_regions table')"
  using assms(2-)
proof (induction ops arbitrary: s table)
  case (Cons oa ops)
  obtain op a where oa: "oa = (op, a)" by (cases oa)
  obtain res s1 where s1: "apply_region_meta_op pc s op a = (res, s1)" by (cases "apply_region_meta_op pc s op a")
  have mx: "rt_version table \<noteq> - 1"
    using Cons.prems(4) by (auto simp: unsigned_minus_1_eq_mask mask_eq_exp_minus_1)
  obtain t1 where t1: "region_table pc s1 = Inr t1"
      "t1 = table \<or> rt_version t1 = rt_version table + 1 \<and> regions_ok (rt_regions t1)"
    using region_op_step [OF assms(1) Cons.prems(1,2) mx s1] by blast
  have lt: "rt_version table < rt_version table + 1" by (rule u64_less_succ [OF mx])
  have suc: "unat (rt_version table + 1) = unat (rt_version table) + 1"
    using Cons.prems(4) by (simp add: unat_word_ariths)
  have "rt_version t1 \<noteq> 0" "rt_version table \<le> rt_version t1" "regions_ok (rt_regions t1)"
      "unat (rt_version t1) + length ops < 2 ^ 64"
    using t1(2) Cons.prems(2-4) lt suc by auto
  then obtain t2 where "region_table pc (run_region_ops pc s1 ops) = Inr t2" "rt_version t1 \<le> rt_version t2"
      "regions_ok (rt_regions t2)"
    using Cons.IH [OF t1(1)] by blast
  then show ?case using \<open>rt_version table \<le> rt_version t1\<close> by (auto simp: oa s1)
qed auto

lemma region_table_regions:
  "region_table pc s = Inr table \<Longrightarrow> rt_version table \<noteq> 0 \<Longrightarrow> regions_ok (rt_regions table)"
  by (auto simp: region_table_def region_table_in_tx_def RegionTable_default_def RegionTable_decode_def validate_iff
      split: option.splits if_splits prod.splits)

text \<open>C6: Once the region table is initialised, any commands leave a table that can be read back,
  whose version never goes back and in which every key belongs to exactly one
  region, the one the lookup returns.\<close>

theorem region_table_tiles:
  assumes "postcard_ok pc" "region_table pc s = Inr table" "rt_version table \<noteq> 0"
    and "unat (rt_version table) + length ops < 2 ^ 64"
  shows "\<exists>table'. region_table pc (run_region_ops pc s ops) = Inr table' \<and> rt_version table \<le> rt_version table' \<and>
    (\<forall>key. \<exists>m. route table' key = Some m \<and>
       (\<forall>m'. m' \<in> set (rt_regions table') \<and> contains_key m' key \<longleftrightarrow> m' = m))"
proof -
  have "regions_ok (rt_regions table)" using assms(2,3) by (rule region_table_regions)
  from run_region_ops_ok [OF assms(1-3) this assms(4)] obtain t where
    t: "region_table pc (run_region_ops pc s ops) = Inr t" "rt_version table \<le> rt_version t" "regions_ok (rt_regions t)"
    by blast
  have "\<exists>m. route t key = Some m \<and> (\<forall>m'. m' \<in> set (rt_regions t) \<and> contains_key m' key \<longleftrightarrow> m' = m)" for key
    by (rule regions_locate [OF t(3), of key]) auto
  then show ?thesis using t by blast
qed

definition sample_table_codec :: "RegionTable postcard" where
  "sample_table_codec = table_codec [sample_table, \<lparr>rt_version = 1, rt_regions = []\<rparr>]"

lemma sample_table_codec_ok: "postcard_ok sample_table_codec"
  by (simp add: sample_table_codec_def table_codec_ok)

lemma sample_region_table:
  "region_table sample_table_codec ((fresh LogIndex)\<lparr>backend := tx_insert (backend (fresh LogIndex)) T_kv REGION_TABLE_KEY [0]\<rparr>) =
    Inr sample_table"
proof -
  have "to_allocvec sample_table_codec sample_table = Some [0]"
    by (simp add: sample_table_codec_def table_codec_def)
  then show ?thesis
    using table_round_trip [OF sample_table_codec_ok] sample_table_ok
    by (simp add: region_table_def region_table_in_tx_def table_simps validate_iff)
qed

theorem region_table_tiles_witness:
  "\<exists>s. region_table sample_table_codec s = Inr sample_table \<and>
    (\<exists>table'. region_table sample_table_codec (run_region_ops sample_table_codec s [(RegionApply [RegionRemove 2 RegionEpoch_initial], standalone 1)]) =
        Inr table' \<and> (\<exists>m. route table' [7] = Some m))"
proof -
  have "rt_version sample_table \<noteq> 0" "unat (rt_version sample_table) + length [(RegionApply [RegionRemove 2 RegionEpoch_initial], standalone 1)] < 2 ^ 64"
    by (simp_all add: sample_table_ok(2))
  from region_table_tiles [OF sample_table_codec_ok sample_region_table this] show ?thesis using sample_region_table by blast
qed

text \<open>C33: A batch that adds a region and removes it again is accepted on a table that was never
  initialised, because the batch is checked under the old version: it leaves an
  initialised table without regions, which no reader and no later command accepts.\<close>

theorem region_table_poisoned:
  assumes "postcard_ok pc" "tx_get (backend s) T_kv REGION_TABLE_KEY = None"
    and "rm_end_key m = [] \<or> rm_start_key m < rm_end_key m"
    and "to_allocvec pc \<lparr>rt_version = 1, rt_regions = []\<rparr> = Some bs"
  shows "\<exists>s'. apply_region_meta_op pc s (RegionApply [RegionAdd m, RegionRemove (rm_region_id m) (rm_epoch m)]) a =
      (Inr (RegionApplied 1), s') \<and>
    region_table pc s' = Inl Storage \<and> (\<forall>op b. apply_region_meta_op pc s' op b = (Inl Storage, s'))"
proof -
  let ?op = "[RegionAdd m, RegionRemove (rm_region_id m) (rm_epoch m)]"
  let ?s = "s\<lparr>backend := put_applied (tx_insert (backend s) T_kv REGION_TABLE_KEY bs) a\<rparr>"
  have ap: "RegionTable_apply RegionTable_default ?op = Inr (True, \<lparr>rt_version = 1, rt_regions = []\<rparr>)"
    using assms(3) by (auto simp: RegionTable_apply_def RegionTable_default_def RegionTable_get_def
        RegionTable_validate_def Let_def)
  have op: "apply_region_meta_op pc s (RegionApply ?op) a = (Inr (RegionApplied 1), ?s)"
    using assms(2,4) ap by (simp add: apply_region_meta_op_def region_table_in_tx_def RegionTable_encode_def)
  have bad: "region_table_in_tx pc (backend ?s) = Inl Storage"
    using table_round_trip [OF assms(1,4)]
    by (simp add: region_table_in_tx_def table_simps RegionTable_validate_def)
  have "apply_region_meta_op pc ?s op b = (Inl Storage, ?s)" for op b
    using bad by (simp add: apply_region_meta_op_def)
  then show ?thesis using op bad by (auto simp: region_table_def)
qed

theorem region_table_poisoned_witness:
  "\<exists>s'. apply_region_meta_op sample_table_codec (fresh LogIndex)
      (RegionApply [RegionAdd (sample_region 1 [] []), RegionRemove 1 RegionEpoch_initial]) (standalone 1) =
      (Inr (RegionApplied 1), s') \<and> region_table sample_table_codec s' = Inl Storage"
proof -
  have none: "tx_get (backend (fresh LogIndex)) T_kv REGION_TABLE_KEY = None" by (simp add: new_with_revision_mode_def)
  have enc: "to_allocvec sample_table_codec \<lparr>rt_version = 1, rt_regions = []\<rparr> = Some [1]"
    by (simp add: sample_table_codec_def table_codec_def sample_table_def)
  have "rm_end_key (sample_region 1 [] []) = [] \<or> rm_start_key (sample_region 1 [] []) < rm_end_key (sample_region 1 [] [])"
    by (simp add: sample_region_def)
  from region_table_poisoned [OF sample_table_codec_ok none this enc, of "standalone 1"]
  show ?thesis by (auto simp: sample_region_def)
qed

end
