(* ===== verification/Decision_Apply.thy ===== *)
theory Decision_Apply
  imports Commit_Log Region_Table
begin

text \<open>
  Applying the decision log to a region: the slice of a decision that falls into
  the region and the loop that ships the slices
  (\<open>coord-server/src/kvt/decision_apply.rs\<close>), and the command that applies a batch
  of them to the region's store in one transaction
  (\<open>coord-server/src/storage/mvcc.rs\<close>).
\<close>

section \<open>Applying a batch\<close>

record CommitDecisionApply =
  da_commit_ts :: u64
  da_mutations :: "SequencerMutation list"

record CommitDecisionApplyLog =
  dl_shard_id :: u64
  dl_region_id :: u64
  dl_commit_ts :: u64
  dl_txn_id :: bytes
  dl_start_ts :: u64
  dl_mutations :: "SequencerMutation list"

datatype DecisionView = Plain CommitDecisionApply | Logged CommitDecisionApplyLog

fun view_commit_ts :: "DecisionView \<Rightarrow> u64" where
  "view_commit_ts (Plain decision) = da_commit_ts decision"
| "view_commit_ts (Logged decision) = dl_commit_ts decision"

fun view_mutations :: "DecisionView \<Rightarrow> SequencerMutation list" where
  "view_mutations (Plain decision) = da_mutations decision"
| "view_mutations (Logged decision) = dl_mutations decision"

fun view_logged :: "DecisionView \<Rightarrow> CommitDecisionApplyLog option" where
  "view_logged (Plain decision) = None"
| "view_logged (Logged decision) = Some decision"

definition prev_of :: "KvMetadata \<Rightarrow> bytes \<Rightarrow> CommitPrevValue" where
  "prev_of meta value = \<lparr>cp_value = value, cp_create_revision = create_revision meta,
     cp_mod_revision = mod_revision meta, cp_version = version meta, cp_lease_id = lease_id meta\<rparr>"

definition commit_prev_value :: "db \<Rightarrow> bytes \<Rightarrow> KvMetadata \<Rightarrow> CommitPrevValue option" where
  "commit_prev_value d internal_key meta =
    (if deleted meta then None else map_option (prev_of meta) (tx_get d T_kv internal_key))"

record CommitDecisionApplyResult =
  dr_through_ts :: u64
  dr_decisions :: u64

fun change_matches :: "KeyValueChange \<times> SequencerMutation \<Rightarrow> bool" where
  "change_matches (change, MPut key value lease) \<longleftrightarrow> ch_key change = key \<and> ch_value change = Some value"
| "change_matches (change, MDelete key) \<longleftrightarrow> ch_key change = key \<and> ch_value change = None"
| "change_matches (change, MDeleteRange start end0) \<longleftrightarrow> False"

fun is_range_mutation :: "SequencerMutation \<Rightarrow> bool" where
  "is_range_mutation (MDeleteRange start end0) = True"
| "is_range_mutation _ = False"

definition event_matches_mutations :: "ChangeEvent \<Rightarrow> SequencerMutation list \<Rightarrow> bool" where
  "event_matches_mutations event mutations =
    (if list_ex is_range_mutation mutations then False
     else length (ev_changes event) = length mutations \<and> list_all change_matches (zip (ev_changes event) mutations))"

text \<open>The rows a range delete visits; deleting only touches their metadata.\<close>

fun delete_range_rows ::
    "bool \<Rightarrow> u64 \<Rightarrow> bytes \<Rightarrow> rows \<Rightarrow> KeyValueChange list \<Rightarrow> CommitChange list \<Rightarrow> db \<Rightarrow>
     KeyValueChange list \<times> CommitChange list \<times> db" where
  "delete_range_rows with_log commit_ts end0 [] changes record_changes d = (changes, record_changes, d)"
| "delete_range_rows with_log commit_ts end0 ((internal_key, value) # rs) changes record_changes d =
    (case decode_kv_key internal_key of
       None \<Rightarrow> delete_range_rows with_log commit_ts end0 rs changes record_changes d
     | Some user_key \<Rightarrow>
         (if end0 \<noteq> [] \<and> end0 \<le> user_key then (changes, record_changes, d)
          else
            case kv_metadata_in_tx d user_key of
              None \<Rightarrow> delete_range_rows with_log commit_ts end0 rs changes record_changes d
            | Some meta \<Rightarrow>
                (if deleted meta then delete_range_rows with_log commit_ts end0 rs changes record_changes d
                 else
                   delete_range_rows with_log commit_ts end0 rs (changes @ [tombstone_change user_key])
                     (if with_log
                      then record_changes @ [\<lparr>cc_key = user_key, cc_value = None, cc_prev = Some (prev_of meta value)\<rparr>]
                      else record_changes)
                     (put_metadata d user_key (mark_deleted meta commit_ts)))))"

fun apply_mutation ::
    "MvccStorage \<Rightarrow> bytes \<Rightarrow> bool \<Rightarrow> u64 \<Rightarrow> SequencerMutation \<Rightarrow> db \<Rightarrow>
     ((KeyValueChange list \<times> CommitChange list) \<times> db) result" where
  "apply_mutation s nonce with_log commit_ts (MPut key value lease) d =
    (let internal_key = encode_kv_key key;
         lid = (case lease of Some l \<Rightarrow> l | None \<Rightarrow> 0);
         existing_meta = kv_metadata_in_tx d key;
         prev = (case existing_meta of
                   Some meta \<Rightarrow> (if with_log then commit_prev_value d internal_key meta else None)
                 | None \<Rightarrow> None);
         meta = (case existing_meta of Some meta \<Rightarrow> update_meta meta commit_ts lid | None \<Rightarrow> new_key commit_ts lid)
     in bind_result (encrypt_value s nonce internal_key value) (\<lambda>encrypted.
          Inr (([\<lparr>ch_key = key, ch_value = Some value, ch_prev_value = None\<rparr>],
                if with_log then [\<lparr>cc_key = key, cc_value = Some encrypted, cc_prev = prev\<rparr>] else []),
               put_metadata (tx_insert d T_kv internal_key encrypted) key meta)))"
| "apply_mutation s nonce with_log commit_ts (MDelete key) d =
    (let internal_key = encode_kv_key key;
         existing_meta = kv_metadata_in_tx d key;
         prev = (case existing_meta of
                   Some meta \<Rightarrow> (if with_log then commit_prev_value d internal_key meta else None)
                 | None \<Rightarrow> None);
         d = (case existing_meta of
                Some meta \<Rightarrow> (if \<not> deleted meta then put_metadata d key (mark_deleted meta commit_ts) else d)
              | None \<Rightarrow> d)
     in Inr (([tombstone_change key],
              if with_log then [\<lparr>cc_key = key, cc_value = None, cc_prev = prev\<rparr>] else []), d))"
| "apply_mutation s nonce with_log commit_ts (MDeleteRange start end0) d =
    (let internal_start = encode_kv_key start;
         internal_end = (if end0 = [] then prefix_upper_bound KV_PREFIX else encode_kv_key end0)
     in case delete_range_rows with_log commit_ts end0 (tx_iter_range d T_kv internal_start internal_end) [] [] d of
          (changes, record_changes, d) \<Rightarrow> Inr ((changes, record_changes), d))"

fun apply_mutations ::
    "MvccStorage \<Rightarrow> (nat \<Rightarrow> bytes) \<Rightarrow> nat \<Rightarrow> bool \<Rightarrow> u64 \<Rightarrow> SequencerMutation list \<Rightarrow> db \<Rightarrow>
     ((KeyValueChange list \<times> CommitChange list) \<times> db) result" where
  "apply_mutations s nonces i with_log commit_ts [] d = Inr (([], []), d)"
| "apply_mutations s nonces i with_log commit_ts (m # ms) d =
    bind_result (apply_mutation s (nonces i) with_log commit_ts m d) (\<lambda>((changes, record_changes), d).
      bind_result (apply_mutations s nonces (Suc i) with_log commit_ts ms d) (\<lambda>((changes', record_changes'), d).
        Inr ((changes @ changes', record_changes @ record_changes'), d)))"

definition record_of :: "CommitDecisionApplyLog \<Rightarrow> u64 \<Rightarrow> CommitChange list \<Rightarrow> CommitRecord" where
  "record_of log commit_ts record_changes =
    \<lparr>cr_shard_id = dl_shard_id log, cr_commit_ts = commit_ts, cr_txn_id = dl_txn_id log,
     cr_start_ts = dl_start_ts log, cr_region_id = dl_region_id log,
     cr_txn_bytes = (let n = txn_write_bytes (dl_mutations log) in if n < 2 ^ 32 then of_nat n else - 1),
     cr_changes = record_changes\<rparr>"

text \<open>A failed record write is reported and skipped.\<close>

definition append_decision_record :: "log_env \<Rightarrow> db \<Rightarrow> CommitDecisionApplyLog option \<Rightarrow> u64 \<Rightarrow> CommitChange list \<Rightarrow> u64 \<Rightarrow> db" where
  "append_decision_record Z d meta_log commit_ts record_changes max_txn_bytes =
    (case meta_log of
       None \<Rightarrow> d
     | Some log \<Rightarrow>
         (if record_changes = [] then d
          else case append_commit_record_in_tx Z d (record_of log commit_ts record_changes) max_txn_bytes of
                 Inr (_, d) \<Rightarrow> d
               | Inl e \<Rightarrow> d))"

definition apply_decision ::
    "log_env \<Rightarrow> MvccStorage \<Rightarrow> (nat \<Rightarrow> bytes) \<Rightarrow> u64 \<Rightarrow> DecisionView \<Rightarrow> db \<Rightarrow> db result" where
  "apply_decision Z s nonces max_txn_bytes view d =
    bind_result (apply_mutations s nonces 0 (view_logged view \<noteq> None) (view_commit_ts view) (view_mutations view) d)
      (\<lambda>((changes, record_changes), d).
        let d = (if changes \<noteq> []
                 then put_event d \<lparr>ev_revision = view_commit_ts view, ev_changes = changes, ev_event_type = Txn\<rparr> else d)
        in Inr (append_decision_record Z d (view_logged view) (view_commit_ts view) record_changes max_txn_bytes))"

record apply_state =
  as_current :: u64
  as_through :: u64
  as_count :: u64
  as_previous :: "u64 option"

definition passed :: "apply_state \<Rightarrow> u64 \<Rightarrow> apply_state" where
  "passed st commit_ts = st\<lparr>as_through := commit_ts, as_count := as_count st + 1\<rparr>"

fun apply_views ::
    "log_env \<Rightarrow> MvccStorage \<Rightarrow> (nat \<Rightarrow> nat \<Rightarrow> bytes) \<Rightarrow> nat \<Rightarrow> u64 \<Rightarrow> DecisionView list \<Rightarrow> apply_state \<Rightarrow> db \<Rightarrow>
     (apply_state \<times> db) result" where
  "apply_views Z s nonces n max_txn_bytes [] st d = Inr (st, d)"
| "apply_views Z s nonces n max_txn_bytes (view # views) st d =
    (let commit_ts = view_commit_ts view
     in if commit_ts \<le> as_through st then apply_views Z s nonces (Suc n) max_txn_bytes views st d
        else if (case as_previous st of Some ts \<Rightarrow> commit_ts \<le> ts | None \<Rightarrow> False) then Inr (st, d)
        else
          let st = st\<lparr>as_previous := Some commit_ts\<rparr>
          in case tx_get d T_changelog (encode_changelog_key commit_ts) of
               Some bs \<Rightarrow>
                 bind_result (ChangeEvent_from_bytes bs) (\<lambda>event.
                   if event_matches_mutations event (view_mutations view)
                   then apply_views Z s nonces (Suc n) max_txn_bytes views (passed st commit_ts) d
                   else Inr (st, d))
             | None \<Rightarrow>
                 (if commit_ts \<le> as_current st then
                    if view_mutations view = []
                    then apply_views Z s nonces (Suc n) max_txn_bytes views (passed st commit_ts) d
                    else Inr (st, d)
                  else
                    bind_result (apply_decision Z s (nonces n) max_txn_bytes view d) (\<lambda>d.
                      apply_views Z s nonces (Suc n) max_txn_bytes views
                        ((passed st commit_ts)\<lparr>as_current := commit_ts\<rparr>) d)))"

definition finish_apply :: "MvccStorage \<Rightarrow> u64 \<Rightarrow> apply_state \<Rightarrow> u64 \<Rightarrow> AppliedLogId \<Rightarrow> db \<Rightarrow> db" where
  "finish_apply s cursor st revision applied d =
    (let d = (if cursor < as_through st then tx_insert d T_kv DECISION_APPLIED_TS (u64_bytes (as_through st)) else d);
         effective = max (as_current st) (as_through st);
         d = (if current_revision_in_tx d (revision_mode s) < effective
              then tx_insert d T_meta META_CURRENT_REVISION (u64_bytes effective) else d)
     in note_log_index_revision (revision_mode s) (put_applied d applied) revision)"

definition apply_commit_decisions_core ::
    "log_env \<Rightarrow> MvccStorage \<Rightarrow> (nat \<Rightarrow> nat \<Rightarrow> bytes) \<Rightarrow> DecisionView list \<Rightarrow> u64 \<Rightarrow> AppliedLogId \<Rightarrow> u64 \<Rightarrow>
     CommitDecisionApplyResult result \<times> MvccStorage" where
  "apply_commit_decisions_core Z s nonces views revision applied max_txn_bytes =
    (let cursor = last_applied_decision_ts s
     in write_store s (\<lambda>d.
          bind_result
            (apply_views Z s nonces 0 max_txn_bytes views
               \<lparr>as_current = current_revision_in_tx d (revision_mode s), as_through = cursor, as_count = 0,
                as_previous = None\<rparr> d)
            (\<lambda>(st, d).
              Inr (\<lparr>dr_through_ts = as_through st, dr_decisions = as_count st\<rparr>,
                   finish_apply s cursor st revision applied d))))"

definition apply_commit_decisions ::
    "log_env \<Rightarrow> MvccStorage \<Rightarrow> (nat \<Rightarrow> nat \<Rightarrow> bytes) \<Rightarrow> CommitDecisionApply list \<Rightarrow> u64 \<Rightarrow> AppliedLogId \<Rightarrow>
     CommitDecisionApplyResult result \<times> MvccStorage" where
  "apply_commit_decisions Z s nonces decisions revision applied =
    apply_commit_decisions_core Z s nonces (map Plain decisions) revision applied 0"

definition apply_commit_decisions_with_log ::
    "log_env \<Rightarrow> MvccStorage \<Rightarrow> (nat \<Rightarrow> nat \<Rightarrow> bytes) \<Rightarrow> CommitDecisionApplyLog list \<Rightarrow> u64 \<Rightarrow> AppliedLogId \<Rightarrow> u64 \<Rightarrow>
     CommitDecisionApplyResult result \<times> MvccStorage" where
  "apply_commit_decisions_with_log Z s nonces decisions revision applied max_txn_bytes =
    apply_commit_decisions_core Z s nonces (map Logged decisions) revision applied max_txn_bytes"

section \<open>The slice of a region\<close>

definition key_in_region :: "RegionMeta \<Rightarrow> bytes \<Rightarrow> bool" where
  "key_in_region meta key \<longleftrightarrow> rm_start_key meta \<le> key \<and> (rm_end_key meta = [] \<or> key < rm_end_key meta)"

fun mutation_bytes :: "SequencerMutation \<Rightarrow> nat" where
  "mutation_bytes (MPut key value lease) = length key + length value + 24"
| "mutation_bytes (MDelete key) = length key + 16"
| "mutation_bytes (MDeleteRange start end0) = length start + length end0 + 32"

definition clip_range :: "RegionMeta \<Rightarrow> bytes \<Rightarrow> bytes \<Rightarrow> (bytes \<times> bytes) option" where
  "clip_range meta start end0 =
    (let clip_start = max start (rm_start_key meta);
         clip_end = (if end0 = [] then rm_end_key meta
                     else if rm_end_key meta = [] then end0
                     else min end0 (rm_end_key meta))
     in if clip_end = [] \<or> clip_start < clip_end then Some (clip_start, clip_end) else None)"

fun clip_mutation :: "RegionMeta \<Rightarrow> SequencerMutation \<Rightarrow> SequencerMutation option" where
  "clip_mutation meta (MDeleteRange start end0) =
    map_option (\<lambda>(start, end0). MDeleteRange start end0) (clip_range meta start end0)"
| "clip_mutation meta mutation =
    (case point_key mutation of
       Some key \<Rightarrow> (if key_in_region meta key then Some mutation else None)
     | None \<Rightarrow> None)"

definition clipped :: "RegionMeta \<Rightarrow> SequencerDecision \<Rightarrow> CommitDecisionApplyLog" where
  "clipped meta decision =
    \<lparr>dl_shard_id = COMMIT_LOG_STAGING_SHARD_ID, dl_region_id = rm_region_id meta,
     dl_commit_ts = sd_commit_ts decision, dl_txn_id = sd_txn_id decision, dl_start_ts = sd_start_ts decision,
     dl_mutations = List.map_filter (clip_mutation meta) (sd_mutations decision)\<rparr>"

text \<open>Sizes are natural numbers here: their sums stay below the word size.\<close>

fun batch_loop :: "RegionMeta \<Rightarrow> nat \<Rightarrow> SequencerDecision list \<Rightarrow> CommitDecisionApplyLog list \<Rightarrow> nat \<Rightarrow> CommitDecisionApplyLog list" where
  "batch_loop meta max_bytes [] payload bs = payload"
| "batch_loop meta max_bytes (decision # decisions) payload bs =
    (let entry = clipped meta decision;
         size = 24 + sum_list (map mutation_bytes (dl_mutations entry))
     in if payload \<noteq> [] \<and> max max_bytes 1 < bs + size then payload
        else batch_loop meta max_bytes decisions (payload @ [entry]) (bs + size))"

definition build_apply_batch ::
    "SequencerDecision list \<Rightarrow> RegionMeta \<Rightarrow> nat \<Rightarrow> nat \<Rightarrow> CommitDecisionApplyLog list" where
  "build_apply_batch decisions meta batch max_bytes = batch_loop meta max_bytes (take batch decisions) [] 0"

section \<open>Shipping the log to a region\<close>

text \<open>
  The loop over one region this node leads. A proposal goes through the region's
  Raft group: \<open>raft i\<close> is the log position of the \<open>i\<close>th proposal, or \<open>None\<close> when the
  write fails; a committed proposal is applied to the region's store and answers
  with the result of the command. \<open>fuel\<close> bounds the rounds.
\<close>

record apply_env =
  ae_raft :: "nat \<Rightarrow> (u64 \<times> AppliedLogId) option"
  ae_nonces :: "nat \<Rightarrow> nat \<Rightarrow> nat \<Rightarrow> bytes"
  ae_max_txn_bytes :: u64

datatype region_report = RegionDone | RegionFailed | ScanFailed error | OutOfFuel

fun region_loop ::
    "nat \<Rightarrow> seq_env \<Rightarrow> log_env \<Rightarrow> apply_env \<Rightarrow> MvccStorage \<Rightarrow> RegionMeta \<Rightarrow> nat \<Rightarrow> nat \<Rightarrow> MvccStorage \<Rightarrow> u64 \<Rightarrow>
     region_report \<times> u64 \<times> MvccStorage" where
  "region_loop 0 E Z A system meta batch i s applied_total = (OutOfFuel, applied_total, s)"
| "region_loop (Suc fuel) E Z A system meta batch i s applied_total =
    (let cursor = last_applied_decision_ts s
     in case sequencer_decisions_after E system cursor batch of
          Inl e \<Rightarrow> (ScanFailed e, applied_total, s)
        | Inr batch_decisions \<Rightarrow>
            (if batch_decisions = [] then (RegionDone, applied_total, s)
             else
               let payload = build_apply_batch batch_decisions meta batch (unat (ae_max_txn_bytes A))
               in if payload = [] then (RegionDone, applied_total, s)
                  else
                    let last_ts = dl_commit_ts (List.last payload);
                        more = (batch \<le> length payload \<or> length payload < length batch_decisions)
                    in case ae_raft A i of
                         None \<Rightarrow> (RegionFailed, applied_total, s)
                       | Some (revision, applied) \<Rightarrow>
                           (case apply_commit_decisions_with_log Z s (ae_nonces A i) payload revision applied
                                   (ae_max_txn_bytes A) of
                              (Inl e, s) \<Rightarrow> (RegionFailed, applied_total, s)
                            | (Inr res, s) \<Rightarrow>
                                (if last_ts \<le> dr_through_ts res then
                                   if more then region_loop fuel E Z A system meta batch (Suc i) s (applied_total + dr_decisions res)
                                   else (RegionDone, applied_total + dr_decisions res, s)
                                 else (RegionFailed, applied_total, s)))))"

text \<open>The pass over the regions this node runs. A failed region does not stop the others.\<close>

record RegionRuntime =
  rr_meta :: RegionMeta
  rr_leader :: bool
  rr_env :: apply_env
  rr_store :: MvccStorage

fun apply_runtimes ::
    "nat \<Rightarrow> seq_env \<Rightarrow> log_env \<Rightarrow> MvccStorage \<Rightarrow> nat \<Rightarrow> RegionRuntime list \<Rightarrow> u64 \<Rightarrow> region_report option \<Rightarrow>
     (region_report + u64) \<times> RegionRuntime list" where
  "apply_runtimes fuel E Z system batch [] applied_total first_error =
    (case first_error of Some err \<Rightarrow> Inl err | None \<Rightarrow> Inr applied_total, [])"
| "apply_runtimes fuel E Z system batch (rt # rts) applied_total first_error =
    (if \<not> rr_leader rt then
       (case apply_runtimes fuel E Z system batch rts applied_total first_error of (res, rts) \<Rightarrow> (res, rt # rts))
     else
       case region_loop fuel E Z (rr_env rt) system (rr_meta rt) batch 0 (rr_store rt) applied_total of
         (report, applied_total, s) \<Rightarrow>
           let rt = rt\<lparr>rr_store := s\<rparr>
           in case report of
                RegionDone \<Rightarrow>
                  (case apply_runtimes fuel E Z system batch rts applied_total first_error of (res, rts) \<Rightarrow> (res, rt # rts))
              | RegionFailed \<Rightarrow>
                  (case apply_runtimes fuel E Z system batch rts applied_total
                          (case first_error of Some err \<Rightarrow> Some err | None \<Rightarrow> Some report) of
                     (res, rts) \<Rightarrow> (res, rt # rts))
              | _ \<Rightarrow> (Inl report, rt # rts))"

definition apply_pending_decisions ::
    "nat \<Rightarrow> seq_env \<Rightarrow> log_env \<Rightarrow> bool \<Rightarrow> RegionRuntime list option \<Rightarrow> MvccStorage \<Rightarrow> nat \<Rightarrow>
     (region_report + u64) \<times> RegionRuntime list option" where
  "apply_pending_decisions fuel E Z enabled manager system batch =
    (if \<not> enabled then (Inr 0, manager)
     else
       case manager of
         None \<Rightarrow> (Inr 0, None)
       | Some rts \<Rightarrow>
           (case apply_runtimes fuel E Z system (max batch 1) rts 0 None of (res, rts) \<Rightarrow> (res, Some rts)))"

section \<open>What a decision commits\<close>

text \<open>The range delete of a decision is the range delete of the store, with records.\<close>

lemma delete_range_rows_loop:
  "delete_range_rows wl ts end0 rs (map tombstone_change acc) rcs d = (cs, rcs', d') \<Longrightarrow>
    \<exists>dels. delete_range_loop ts end0 acc d rs = (dels, d') \<and> cs = map tombstone_change dels"
proof (induction rs arbitrary: acc rcs d)
  case (Cons r rs)
  obtain ik v where r: "r = (ik, v)" by (cases r)
  show ?case
  proof (cases "decode_kv_key ik")
    case None
    then show ?thesis using Cons by (simp add: r)
  next
    case (Some uk)
    show ?thesis
    proof (cases "end0 \<noteq> [] \<and> end0 \<le> uk")
      case True
      then show ?thesis using Cons.prems Some by (auto simp: r)
    next
      case False
      note stop = False
      show ?thesis
      proof (cases "kv_metadata_in_tx d uk")
        case None
        then show ?thesis using Cons.prems Cons.IH Some stop by (auto simp: r)
      next
        case (Some meta)
        note meta = this
        show ?thesis
        proof (cases "deleted meta")
          case True
          then show ?thesis using Cons.prems Cons.IH \<open>decode_kv_key ik = Some uk\<close> stop meta by (auto simp: r)
        next
          case False
          let ?rcs = "if wl then rcs @ [\<lparr>cc_key = uk, cc_value = None, cc_prev = Some (prev_of meta v)\<rparr>] else rcs"
          have "delete_range_rows wl ts end0 rs (map tombstone_change (acc @ [uk])) ?rcs
              (put_metadata d uk (mark_deleted meta ts)) = (cs, rcs', d')"
            using Cons.prems \<open>decode_kv_key ik = Some uk\<close> stop meta False by (auto simp: r)
          from Cons.IH [OF this] show ?thesis
            using \<open>decode_kv_key ik = Some uk\<close> stop meta False by (auto simp: r)
        qed
      qed
    qed
  qed
qed simp

text \<open>The bounds of the scan: an empty end is the end of the user keys.\<close>

definition scan_end :: "bytes \<Rightarrow> bytes" where
  "scan_end end0 = (if end0 = [] then prefix_upper_bound KV_PREFIX else encode_kv_key end0)"

lemma scan_range:
  "in_range (encode_kv_key a) (scan_end b) ik \<Longrightarrow> prefix KV_PREFIX ik"
  "in_range (encode_kv_key a) (scan_end b) (encode_kv_key k) \<longleftrightarrow> in_range a b k"
proof -
  have kv: "KV_PREFIX = ascii ''/kv'' @ [47]" by (simp add: KV_PREFIX_def ascii_def)
  have ub: "in_range (KV_PREFIX @ a) (prefix_upper_bound KV_PREFIX) ik \<longleftrightarrow> prefix KV_PREFIX ik \<and> KV_PREFIX @ a \<le> ik" for ik
    by (rule prefix_upper_bound_snoc [OF kv]) simp
  show "prefix KV_PREFIX ik" if "in_range (encode_kv_key a) (scan_end b) ik"
    using that ub [of ik] range_prefix_kv [of a b ik]
    by (cases "b = []") (simp_all add: scan_end_def encode_kv_key_def)
  show "in_range (encode_kv_key a) (scan_end b) (encode_kv_key k) \<longleftrightarrow> in_range a b k"
  proof (cases "b = []")
    case True
    then have "in_range (encode_kv_key a) (scan_end b) (encode_kv_key k) \<longleftrightarrow> a \<le> k"
      using ub [of "encode_kv_key k"] by (simp add: scan_end_def encode_kv_key_def)
    then show ?thesis using True by (simp add: in_range_def)
  next
    case False
    then show ?thesis by (simp add: scan_end_def in_range_def)
  qed
qed

lemma apply_mutation_step:
  assumes ok: "mvcc_ok (s\<lparr>backend := d\<rparr>)" and b: "barrier_ok s nonce"
    and ap: "apply_mutation s nonce wl ts m d = Inr ((cs, rcs), d')"
  shows "kv_step s d d' ts cs \<and> apply_changes (live (s\<lparr>backend := d\<rparr>)) cs = mutation_effect m (live (s\<lparr>backend := d\<rparr>))"
proof (cases m)
  case (MPut k v l)
  then obtain e where e: "encrypt_value s nonce (encode_kv_key k) v = Inr e"
    and d': "d' = put_metadata (tx_insert d T_kv (encode_kv_key k) e) k (put_meta (kv_metadata_in_tx d k) ts l)"
    and cs: "cs = [\<lparr>ch_key = k, ch_value = Some v, ch_prev_value = None\<rparr>]"
    using ap by (auto simp: put_meta_def Let_def)
  show ?thesis using kv_step_put [OF ok b e d'] MPut cs by simp
next
  case (MDelete k)
  then have d': "d' = (case kv_metadata_in_tx d k of
      Some m \<Rightarrow> (if \<not> deleted m then put_metadata d k (mark_deleted m ts) else d) | None \<Rightarrow> d)"
    and cs: "cs = [tombstone_change k]"
    using ap by (auto simp: Let_def)
  have db: "db_ok d'" using mvcc_okD(1) [OF ok] by (auto simp: d' split: option.split)
  have "kv_step s d d' ts [tombstone_change k]"
  proof (rule kv_step_mark [OF ok db, where K = "{k}" and f = "\<lambda>m. if deleted m then version m else version m + 1"
        and g = "\<lambda>m. if deleted m then mod_revision m else ts"])
    show "kv_metadata_in_tx d' k' = (if k' \<in> {k} then map_option
        (\<lambda>m. m\<lparr>version := if deleted m then version m else version m + 1,
               mod_revision := if deleted m then mod_revision m else ts, deleted := True\<rparr>)
        (kv_metadata_in_tx d k') else kv_metadata_in_tx d k')" for k'
      by (auto simp: d' row_simps mark_deleted_eq split: option.split)
  qed (auto simp: d' table_simps tombstone_change_def fun_eq_iff split: option.split)
  then show ?thesis using MDelete cs by (simp add: tombstone_change_def)
next
  case (MDeleteRange a e)
  obtain rcs' where rows: "delete_range_rows wl ts e (tx_iter_range d T_kv (encode_kv_key a) (scan_end e))
      (map tombstone_change []) [] d = (cs, rcs', d')"
    using ap MDeleteRange by (auto simp: scan_end_def split: prod.splits)
  obtain dels where loop: "delete_range_loop ts e [] d (tx_iter_range d T_kv (encode_kv_key a) (scan_end e)) = (dels, d')"
    and cs: "cs = map tombstone_change dels"
    using delete_range_rows_loop [OF rows] by blast
  have db: "db_ok d" using mvcc_okD(1) [OF ok] by simp
  obtain ks where ks: "map fst (tx_iter_range d T_kv (encode_kv_key a) (scan_end e)) = map encode_kv_key ks"
      "distinct ks" "\<And>k. k \<in> set ks \<longleftrightarrow> in_range a e k \<and> tx_get d T_kv (encode_kv_key k) \<noteq> None"
    by (rule scan_keys [OF db scan_range(1)], assumption, rule that) (auto simp: scan_range(2))
  have "\<forall>k \<in> set ks. \<not> (e \<noteq> [] \<and> e \<le> k)" by (auto simp: ks(3) in_range_def not_le)
  note sp = delete_range_loop_spec [OF ks(2) this ks(1) loop]
  have dels: "k \<in> set dels \<longleftrightarrow> in_range a e k \<and> live (s\<lparr>backend := d\<rparr>) k \<noteq> None" for k
    using mvcc_okD(4) [OF ok, of k] sp unfolding live_key_iff [OF ok] by (auto simp: ks(3) live_key_def)
  have "kv_step s d d' ts (map tombstone_change dels)"
    by (rule kv_step_mark [OF ok, where K = "set dels" and f = "\<lambda>m. version m + 1" and g = "\<lambda>m. ts"])
       (use sp db in \<open>auto simp: mark_keys_def mark_deleted_eq apply_tombstones fun_eq_iff\<close>)
  moreover have "apply_changes (live (s\<lparr>backend := d\<rparr>)) (map tombstone_change dels) =
      mutation_effect m (live (s\<lparr>backend := d\<rparr>))"
    by (auto simp: MDeleteRange apply_tombstones fun_eq_iff dels)
  ultimately show ?thesis using cs by simp
qed

lemma apply_mutations_step:
  assumes "mvcc_ok (s\<lparr>backend := d\<rparr>)" "\<And>i. barrier_ok s (nonces i)"
    and "apply_mutations s nonces i wl ts ms d = Inr ((cs, rcs), d')"
  shows "kv_step s d d' ts cs \<and>
    apply_changes (live (s\<lparr>backend := d\<rparr>)) cs = fold mutation_effect ms (live (s\<lparr>backend := d\<rparr>))"
  using assms(1,3)
proof (induction ms arbitrary: i d cs rcs)
  case Nil
  then show ?case by (auto simp: kv_step_refl)
next
  case (Cons m ms)
  obtain cs1 rcs1 d1 cs2 rcs2 where m: "apply_mutation s (nonces i) wl ts m d = Inr ((cs1, rcs1), d1)"
    and ms: "apply_mutations s nonces (Suc i) wl ts ms d1 = Inr ((cs2, rcs2), d')" and cs: "cs = cs1 @ cs2"
    using Cons.prems(2) by fastforce
  note s1 = apply_mutation_step [OF Cons.prems(1) assms(2) m]
  note kd = kv_stepD(1,2) [OF conjunct1 [OF s1]]
  note s2 = Cons.IH [OF kd(1) ms]
  show ?case using kv_step_trans [of s d d1 ts cs1 d' cs2] s1 s2 kd(2) cs by simp
qed

lemma append_decision_frame:
  "t \<noteq> T_commit_log \<Longrightarrow> tx_get (append_decision_record Z d lg ts rcs mx) t k = tx_get d t k"
  "db_ok d \<Longrightarrow> db_ok (append_decision_record Z d lg ts rcs mx)"
  by (auto simp: append_decision_record_def append_commit_record_in_tx_def Let_def bind_result_def table_simps
      split: option.splits sum.splits if_splits)

text \<open>
  The store while a batch is applied: the rows a decision touches, apart from the
  user rows, are its changelog entry and its commit record.
\<close>

definition views_step :: "MvccStorage \<Rightarrow> db \<Rightarrow> db \<Rightarrow> bool" where
  "views_step s d d' \<longleftrightarrow>
    (\<forall>t k. t \<noteq> T_kv \<and> t \<noteq> T_kv_meta \<and> t \<noteq> T_changelog \<and> t \<noteq> T_commit_log \<longrightarrow> tx_get d' t k = tx_get d t k) \<and>
    (\<forall>k. \<not> prefix KV_PREFIX k \<longrightarrow> tx_get d' T_kv k = tx_get d T_kv k)"

lemma views_step_refl [simp]: "views_step s d d"
  by (simp add: views_step_def)

lemma views_step_trans: "views_step s d d1 \<Longrightarrow> views_step s d1 d2 \<Longrightarrow> views_step s d d2"
  by (simp add: views_step_def)

lemma apply_decision_step:
  assumes ok: "mvcc_ok (s\<lparr>backend := d\<rparr>)" and b: "\<And>i. barrier_ok s (nonces i)"
    and ap: "apply_decision Z s nonces mx view d = Inr d'"
  shows "mvcc_ok (s\<lparr>backend := d'\<rparr>)"
    "live (s\<lparr>backend := d'\<rparr>) = fold mutation_effect (view_mutations view) (live (s\<lparr>backend := d\<rparr>))"
    "views_step s d d'"
    "ts \<noteq> view_commit_ts view \<Longrightarrow> tx_get d' T_changelog (encode_changelog_key ts) = tx_get d T_changelog (encode_changelog_key ts)"
proof -
  obtain cs rcs d1 where am: "apply_mutations s nonces 0 (view_logged view \<noteq> None) (view_commit_ts view) (view_mutations view) d =
      Inr ((cs, rcs), d1)"
    and d': "d' = append_decision_record Z (if cs \<noteq> [] then put_event d1 \<lparr>ev_revision = view_commit_ts view, ev_changes = cs,
        ev_event_type = Txn\<rparr> else d1) (view_logged view) (view_commit_ts view) rcs mx"
    using ap by (auto simp: apply_decision_def Let_def)
  note st = apply_mutations_step [OF ok b am]
  note kv = kv_stepD [OF conjunct1 [OF st]]
  have row: "tx_get d' t k = tx_get d1 t k" if "t \<noteq> T_commit_log" "t \<noteq> T_changelog \<or> k \<noteq> encode_changelog_key (view_commit_ts view)" for t k
    using that by (auto simp: d' append_decision_frame table_simps)
  have db: "db_ok d'" using mvcc_okD(1) [OF kv(1)] by (simp add: d' append_decision_frame)
  have meta: "kv_metadata_in_tx d' k = kv_metadata_in_tx d1 k" for k
    by (simp add: kv_metadata_in_tx_def row)
  note fr = mvcc_ok_frame [OF kv(1) db row meta, simplified]
  show "mvcc_ok (s\<lparr>backend := d'\<rparr>)" by (rule fr(1))
  show "live (s\<lparr>backend := d'\<rparr>) = fold mutation_effect (view_mutations view) (live (s\<lparr>backend := d\<rparr>))"
    using fr(2) kv(2) st by simp
  show "views_step s d d'" using kv(3,4) by (simp add: views_step_def row)
  show "ts \<noteq> view_commit_ts view \<Longrightarrow> tx_get d' T_changelog (encode_changelog_key ts) = tx_get d T_changelog (encode_changelog_key ts)"
    using kv(3) by (simp add: row)
qed

text \<open>A store that can write: encryption succeeds and can be undone.\<close>

definition can_write :: "MvccStorage \<Rightarrow> (nat \<Rightarrow> bytes) \<Rightarrow> bool" where
  "can_write s nonces \<longleftrightarrow>
    (\<forall>i. barrier_ok s (nonces i) \<and> (\<forall>k v. \<exists>e. encrypt_value s (nonces i) (encode_kv_key k) v = Inr e))"

lemma apply_mutations_total:
  assumes "\<And>i. \<forall>k v. \<exists>e. encrypt_value s (nonces i) (encode_kv_key k) v = Inr e"
  shows "\<exists>cs rcs d'. apply_mutations s nonces i wl ts ms d = Inr ((cs, rcs), d')"
proof (induction ms arbitrary: i d)
  case (Cons m ms)
  have "\<exists>cs rcs d1. apply_mutation s (nonces i) wl ts m d = Inr ((cs, rcs), d1)"
  proof (cases m)
    case (MPut k v l)
    obtain e where "encrypt_value s (nonces i) (encode_kv_key k) v = Inr e" using assms by blast
    then show ?thesis by (simp add: MPut Let_def)
  next
    case (MDeleteRange a e)
    show ?thesis by (simp add: MDeleteRange Let_def split: prod.split)
  qed (simp add: Let_def)
  then obtain cs rcs d1 where "apply_mutation s (nonces i) wl ts m d = Inr ((cs, rcs), d1)" by blast
  moreover obtain cs' rcs' d' where "apply_mutations s nonces (Suc i) wl ts ms d1 = Inr ((cs', rcs'), d')"
    using Cons.IH by blast
  ultimately show ?case by simp
qed simp

lemma apply_decision_total:
  assumes "can_write s nonces"
  shows "\<exists>d'. apply_decision Z s nonces mx view d = Inr d'"
proof -
  have "\<And>i. \<forall>k v. \<exists>e. encrypt_value s (nonces i) (encode_kv_key k) v = Inr e" using assms by (simp add: can_write_def)
  from apply_mutations_total [where nonces = nonces, OF this] obtain cs rcs d' where
    "apply_mutations s nonces 0 (view_logged view \<noteq> None) (view_commit_ts view) (view_mutations view) d = Inr ((cs, rcs), d')"
    by blast
  then show ?thesis by (simp add: apply_decision_def)
qed

section \<open>Batches in step with the region\<close>

text \<open>
  The region applied everything up to its cursor and nothing beyond it: its
  revision is not ahead of the cursor and the changelog ends there.
\<close>

definition in_step :: "apply_state \<Rightarrow> db \<Rightarrow> bool" where
  "in_step st d \<longleftrightarrow>
    as_current st \<le> as_through st \<and> (case as_previous st of Some ts \<Rightarrow> ts \<le> as_through st | None \<Rightarrow> True) \<and>
    (\<forall>ts. as_through st < ts \<longrightarrow> tx_get d T_changelog (encode_changelog_key ts) = None)"

definition view_effect :: "DecisionView \<Rightarrow> (bytes \<Rightarrow> bytes option) \<Rightarrow> bytes \<Rightarrow> bytes option" where
  "view_effect view = fold mutation_effect (view_mutations view)"

lemma apply_views_in_step:
  assumes "in_step st d" "mvcc_ok (s\<lparr>backend := d\<rparr>)" "\<And>n. can_write s (nonces n)"
    and "sorted_wrt (<) (map view_commit_ts views)" "\<forall>v \<in> set views. as_through st < view_commit_ts v"
  shows "\<exists>st' d'. apply_views Z s nonces n mx views st d = Inr (st', d') \<and>
    mvcc_ok (s\<lparr>backend := d'\<rparr>) \<and> live (s\<lparr>backend := d'\<rparr>) = fold view_effect views (live (s\<lparr>backend := d\<rparr>)) \<and>
    in_step st' d' \<and> views_step s d d' \<and>
    as_through st' = (if views = [] then as_through st else view_commit_ts (List.last views)) \<and>
    as_current st' = (if views = [] then as_current st else view_commit_ts (List.last views))"
  using assms(1,2,4,5)
proof (induction views arbitrary: n st d)
  case Nil
  then show ?case by simp
next
  case (Cons v vs)
  let ?ts = "view_commit_ts v"
  let ?st = "(passed (st\<lparr>as_previous := Some ?ts\<rparr>) ?ts)\<lparr>as_current := ?ts\<rparr>"
  have through: "as_through st < ?ts" using Cons.prems(4) by simp
  have none: "tx_get d T_changelog (encode_changelog_key ?ts) = None"
    using Cons.prems(1) through unfolding in_step_def by blast
  obtain d1 where d1: "apply_decision Z s (nonces n) mx v d = Inr d1"
    using apply_decision_total [OF assms(3)] by blast
  have b: "barrier_ok s (nonces n i)" for i using assms(3) by (simp add: can_write_def)
  note ad = apply_decision_step [OF Cons.prems(2) b d1]
  have prev: "\<not> (case as_previous st of Some ts \<Rightarrow> ?ts \<le> ts | None \<Rightarrow> False)" "\<not> ?ts \<le> as_through st" "\<not> ?ts \<le> as_current st"
    using Cons.prems(1) through by (auto simp: in_step_def split: option.splits)
  have step: "apply_views Z s nonces n mx (v # vs) st d = apply_views Z s nonces (Suc n) mx vs ?st d1"
    using prev none d1 by (simp add: Let_def passed_def)
  have "in_step ?st d1"
    using Cons.prems(1) ad(4) through by (auto simp: in_step_def passed_def)
  moreover have "\<forall>x \<in> set vs. as_through ?st < view_commit_ts x" "sorted_wrt (<) (map view_commit_ts vs)"
    using Cons.prems(3) by (auto simp: passed_def)
  ultimately obtain st' d' where IH: "apply_views Z s nonces (Suc n) mx vs ?st d1 = Inr (st', d')"
    "mvcc_ok (s\<lparr>backend := d'\<rparr>)" "live (s\<lparr>backend := d'\<rparr>) = fold view_effect vs (live (s\<lparr>backend := d1\<rparr>))"
    "in_step st' d'" "views_step s d1 d'"
    "as_through st' = (if vs = [] then as_through ?st else view_commit_ts (List.last vs))"
    "as_current st' = (if vs = [] then as_current ?st else view_commit_ts (List.last vs))"
    using Cons.IH [OF _ ad(1), of ?st "Suc n"] by blast
  show ?case
    using IH(1,2,4) step
    by (intro exI [of _ st'] exI [of _ d'] conjI)
       (simp_all add: IH(3,6,7) ad(2) [folded view_effect_def] passed_def views_step_trans [OF ad(3) IH(5)] del: apply_views.simps)
qed

text \<open>The same for a store.\<close>

definition region_in_step :: "MvccStorage \<Rightarrow> bool" where
  "region_in_step s \<longleftrightarrow> mvcc_ok s \<and> revision_mode s = CommitTs \<and> current_revision s \<le> last_applied_decision_ts s \<and>
    (\<forall>ts. last_applied_decision_ts s < ts \<longrightarrow> tx_get (backend s) T_changelog (encode_changelog_key ts) = None)"

lemma finish_apply_rows:
  fixes s :: MvccStorage
  assumes "revision_mode s = CommitTs" "db_ok d" "as_current st \<le> as_through st" "cursor \<le> as_through st"
    and "read_u64_row d DECISION_APPLIED_TS = cursor" "current_revision_in_tx d CommitTs \<le> as_through st"
  shows "db_ok (finish_apply s cursor st r a d)"
    "t \<noteq> T_meta \<Longrightarrow> t \<noteq> T_kv \<or> k \<noteq> DECISION_APPLIED_TS \<Longrightarrow> tx_get (finish_apply s cursor st r a d) t k = tx_get d t k"
    "read_u64_row (finish_apply s cursor st r a d) DECISION_APPLIED_TS = as_through st"
    "current_revision_in_tx (finish_apply s cursor st r a d) CommitTs = as_through st"
proof -
  let ?d = "if cursor < as_through st then tx_insert d T_kv DECISION_APPLIED_TS (u64_bytes (as_through st)) else d"
  let ?e = "if current_revision_in_tx ?d CommitTs < as_through st
      then tx_insert ?d T_meta META_CURRENT_REVISION (u64_bytes (as_through st)) else ?d"
  have cur: "current_revision_in_tx ?d CommitTs = current_revision_in_tx d CommitTs"
    by (simp add: row_simps)
  have eff: "max (as_current st) (as_through st) = as_through st" using assms(3) by simp
  have fin: "finish_apply s cursor st r a d = put_applied ?e a"
    unfolding finish_apply_def Let_def assms(1) eff by (simp add: note_log_index_revision_def)
  show "db_ok (finish_apply s cursor st r a d)" using assms(2) by (simp add: fin)
  show "t \<noteq> T_meta \<Longrightarrow> t \<noteq> T_kv \<or> k \<noteq> DECISION_APPLIED_TS \<Longrightarrow> tx_get (finish_apply s cursor st r a d) t k = tx_get d t k"
    by (auto simp: fin table_simps)
  show "read_u64_row (finish_apply s cursor st r a d) DECISION_APPLIED_TS = as_through st"
    using assms(4,5) by (auto simp: fin read_u64_row_def table_simps decode_u64_def)
  show "current_revision_in_tx (finish_apply s cursor st r a d) CommitTs = as_through st"
    using assms(6) cur by (auto simp: fin row_simps current_revision_put_applied_commit_ts)
qed

lemma apply_core_in_step:
  assumes st: "region_in_step s" and w: "\<And>n. can_write s (nonces n)"
    and v: "sorted_wrt (<) (map view_commit_ts views)" "\<forall>v \<in> set views. last_applied_decision_ts s < view_commit_ts v"
  shows "\<exists>res s'. apply_commit_decisions_core Z s nonces views r a mx = (Inr res, s') \<and> region_in_step s' \<and>
    live s' = fold view_effect views (live s) \<and> barrier s' = barrier s \<and>
    last_applied_decision_ts s' = (if views = [] then last_applied_decision_ts s else view_commit_ts (List.last views)) \<and>
    dr_through_ts res = last_applied_decision_ts s'"
proof -
  let ?c = "last_applied_decision_ts s"
  let ?st = "\<lparr>as_current = current_revision_in_tx (backend s) (revision_mode s), as_through = ?c, as_count = 0, as_previous = None\<rparr>"
  have ok: "mvcc_ok (s\<lparr>backend := backend s\<rparr>)" and mode: "revision_mode s = CommitTs" and cur: "current_revision s \<le> ?c"
    using st by (simp_all add: region_in_step_def)
  have "in_step ?st (backend s)" using st by (auto simp: region_in_step_def in_step_def current_revision_eq)
  from apply_views_in_step [where nonces = nonces and n = 0 and mx = mx and Z = Z, OF this ok w v(1)] v(2)
  obtain st' d' where av: "apply_views Z s nonces 0 mx views ?st (backend s) = Inr (st', d')"
    "mvcc_ok (s\<lparr>backend := d'\<rparr>)" "live (s\<lparr>backend := d'\<rparr>) = fold view_effect views (live s)"
    "in_step st' d'" "views_step s (backend s) d'"
    "as_through st' = (if views = [] then ?c else view_commit_ts (List.last views))" by auto
  have le: "?c \<le> as_through st'" using av(6) v(2) by (auto simp: less_imp_le)
  have row: "read_u64_row d' DECISION_APPLIED_TS = ?c"
    using av(5) by (simp add: views_step_def read_u64_row_def last_applied_decision_ts_def key_defs ascii_def)
  have rev: "current_revision_in_tx d' CommitTs \<le> as_through st'"
    using av(5) cur le mode by (simp add: current_revision_eq current_revision_in_tx_def views_step_def cong: option.case_cong)
  have db: "db_ok d'" using mvcc_okD(1) [OF av(2)] by simp
  have "as_current st' \<le> as_through st'" using av(4) by (simp add: in_step_def)
  note fin = finish_apply_rows [where r = r and a = a, OF mode db this le row rev]
  let ?d = "finish_apply s ?c st' r a d'"
  have core: "apply_commit_decisions_core Z s nonces views r a mx =
      (Inr \<lparr>dr_through_ts = as_through st', dr_decisions = as_count st'\<rparr>, s\<lparr>backend := ?d\<rparr>)"
    unfolding apply_commit_decisions_core_def Let_def by (simp add: av(1))
  have keep: "mvcc_ok (s\<lparr>backend := ?d\<rparr>)" "live (s\<lparr>backend := ?d\<rparr>) = live (s\<lparr>backend := d'\<rparr>)"
    by (rule mvcc_ok_frame [OF av(2) fin(1)]; simp add: fin(2) kv_metadata_in_tx_def key_defs encode_kv_key_def ascii_def)+
  have last: "last_applied_decision_ts (s\<lparr>backend := ?d\<rparr>) = as_through st'"
    using fin(3) by (simp add: last_applied_decision_ts_def)
  have "region_in_step (s\<lparr>backend := ?d\<rparr>)"
    using keep(1) mode av(4) by (simp add: region_in_step_def current_revision_eq fin(2,4) last in_step_def)
  then show ?thesis using core keep(2) av(3,6) last by auto
qed

section \<open>Slices\<close>

lemma key_in_region_range: "key_in_region meta k \<longleftrightarrow> in_range (rm_start_key meta) (rm_end_key meta) k"
  by (simp add: key_in_region_def in_range_def)

lemma clip_range_exact:
  "(case clip_range meta a b of Some (a', b') \<Rightarrow> in_range a' b' k | None \<Rightarrow> False) \<longleftrightarrow>
    in_range a b k \<and> key_in_region meta k"
  by (auto simp: clip_range_def Let_def in_range_def key_in_region_def min_def split: if_splits)

lemma mutation_effect_cong: "st k = st' k \<Longrightarrow> mutation_effect m st k = mutation_effect m st' k"
  by (cases m) auto

lemma mutations_effect_cong: "st k = st' k \<Longrightarrow> fold mutation_effect ms st k = fold mutation_effect ms st' k"
proof (induction ms arbitrary: st st')
  case (Cons m ms)
  have "mutation_effect m st k = mutation_effect m st' k"
    by (rule mutation_effect_cong [where st = st and st' = st', OF Cons.prems])
  then show ?case using Cons.IH [where st = "mutation_effect m st" and st' = "mutation_effect m st'"] by simp
qed simp

lemma clip_mutation_effect:
  "(case clip_mutation meta m of Some m' \<Rightarrow> mutation_effect m' st | None \<Rightarrow> st) k =
    (if key_in_region meta k then mutation_effect m st k else st k)"
proof (cases m)
  case (MDeleteRange a b)
  then show ?thesis using clip_range_exact [where meta = meta and a = a and b = b and k = k] by (auto split: option.splits)
qed auto

lemma clipped_effect:
  "fold mutation_effect (List.map_filter (clip_mutation meta) ms) st k =
    (if key_in_region meta k then fold mutation_effect ms st k else st k)"
proof (induction ms arbitrary: st)
  case (Cons m ms)
  let ?st = "case clip_mutation meta m of Some m' \<Rightarrow> mutation_effect m' st | None \<Rightarrow> st"
  have "fold mutation_effect (List.map_filter (clip_mutation meta) (m # ms)) st =
      fold mutation_effect (List.map_filter (clip_mutation meta) ms) ?st"
    by (simp add: List.map_filter_def split: option.split)
  then show ?case
    using clip_mutation_effect [where meta = meta and m = m and st = st and k = k] Cons.IH [of ?st]
      mutations_effect_cong [where st = ?st and k = k and st' = "mutation_effect m st" and ms = ms] by simp
qed (simp add: List.map_filter_def)

lemma batch_loop_prefix:
  "\<exists>n. batch_loop meta max_bytes ds payload bs = payload @ map (clipped meta) (take n ds) \<and>
    (payload = [] \<and> ds \<noteq> [] \<longrightarrow> 0 < n)"
proof (induction ds arbitrary: payload bs)
  case (Cons e ds)
  let ?size = "24 + sum_list (map mutation_bytes (dl_mutations (clipped meta e)))"
  show ?case
  proof (cases "payload \<noteq> [] \<and> max max_bytes 1 < bs + ?size")
    case True
    then show ?thesis by (intro exI [of _ 0]) simp
  next
    case False
    obtain n where "batch_loop meta max_bytes ds (payload @ [clipped meta e]) (bs + ?size) =
        (payload @ [clipped meta e]) @ map (clipped meta) (take n ds)"
      using Cons.IH by blast
    then show ?thesis using False by (intro exI [of _ "Suc n"]) (auto simp: Let_def)
  qed
qed simp

lemma build_apply_batch_prefix:
  assumes "ds \<noteq> []" "0 < batch"
  obtains n where "0 < n" "n \<le> batch" "n \<le> length ds" "build_apply_batch ds meta batch mx = map (clipped meta) (take n ds)"
proof -
  obtain n where n: "batch_loop meta mx (take batch ds) [] 0 = map (clipped meta) (take n (take batch ds))" "0 < n"
    using batch_loop_prefix [of meta mx "take batch ds" "[]" 0] assms by auto
  let ?n = "min n (min batch (length ds))"
  have "take n (take batch ds) = take ?n ds" by (simp add: min_def)
  then show thesis using that [of ?n] n assms by (simp add: build_apply_batch_def)
qed

section \<open>A region catches up\<close>

lemma txns_effect_cong: "st k = st' k \<Longrightarrow> fold txn_effect ts st k = fold txn_effect ts st' k"
proof (induction ts arbitrary: st st')
  case (Cons t ts)
  have "txn_effect t st k = txn_effect t st' k"
    unfolding txn_effect_def by (rule mutations_effect_cong [where st = st and st' = st', OF Cons.prems])
  then show ?case using Cons.IH [where st = "txn_effect t st" and st' = "txn_effect t st'"] by simp
qed simp

lemma slices_effect:
  "fold view_effect (map (\<lambda>t. Logged (clipped meta (decision_of t))) ts) st k =
    (if key_in_region meta k then fold txn_effect ts st k else st k)"
proof (induction ts arbitrary: st)
  case (Cons t ts)
  let ?st = "view_effect (Logged (clipped meta (decision_of t))) st"
  have "?st k = (if key_in_region meta k then txn_effect t st k else st k)"
    by (simp add: view_effect_def clipped_def clipped_effect txn_effect_def decision_of_def)
  then show ?case using Cons.IH [of ?st] txns_effect_cong [where st = ?st and k = k and st' = "txn_effect t st" and ts = ts] by simp
qed simp

lemma apply_prefix:
  assumes st: "region_in_step s" and w: "\<And>n. can_write s (nonces n)"
    and P: "sorted_wrt (\<lambda>x y. st_commit_ts x < st_commit_ts y) P" "\<forall>t \<in> set P. last_applied_decision_ts s < st_commit_ts t" "P \<noteq> []"
  shows "\<exists>res s'. apply_commit_decisions_with_log Z s nonces (map (\<lambda>t. clipped meta (decision_of t)) P) r a mx = (Inr res, s') \<and>
    region_in_step s' \<and> barrier s' = barrier s \<and>
    (\<forall>k. live s' k = (if key_in_region meta k then fold txn_effect P (live s) k else live s k)) \<and>
    last_applied_decision_ts s' = st_commit_ts (List.last P) \<and> dr_through_ts res = st_commit_ts (List.last P)"
proof -
  let ?v = "map (\<lambda>t. Logged (clipped meta (decision_of t))) P"
  have ts: "dl_commit_ts (clipped meta (decision_of t)) = st_commit_ts t" for t
    by (simp add: clipped_def decision_of_def)
  have 1: "sorted_wrt (<) (map view_commit_ts ?v)" using P(1) by (simp add: sorted_wrt_map ts comp_def)
  have 2: "\<forall>v \<in> set ?v. last_applied_decision_ts s < view_commit_ts v" using P(2) by (auto simp: ts)
  have last: "view_commit_ts (List.last ?v) = st_commit_ts (List.last P)" using P(3) by (simp add: last_map ts)
  have eq: "apply_commit_decisions_with_log Z s nonces (map (\<lambda>t. clipped meta (decision_of t)) P) r a mx =
      apply_commit_decisions_core Z s nonces ?v r a mx"
    by (simp add: apply_commit_decisions_with_log_def comp_def)
  from apply_core_in_step [where nonces = nonces, OF st w 1 2, of Z r a mx]
  obtain res s' where "apply_commit_decisions_core Z s nonces ?v r a mx = (Inr res, s')" "region_in_step s'"
    "live s' = fold view_effect ?v (live s)" "barrier s' = barrier s"
    "last_applied_decision_ts s' = (if ?v = [] then last_applied_decision_ts s else view_commit_ts (List.last ?v))"
    "dr_through_ts res = last_applied_decision_ts s'" by blast
  then show ?thesis using P(3) last slices_effect [of meta P "live s"] by (simp add: eq del: map_is_Nil_conv)
qed

lemma can_write_barrier: "barrier s' = barrier s \<Longrightarrow> can_write s' n = can_write s n"
  by (simp add: can_write_def barrier_ok_def encrypt_value_def)

lemma pending_after:
  assumes "sorted_wrt (\<lambda>x y. st_commit_ts x < st_commit_ts y) L" "P = filter (\<lambda>t. c < st_commit_ts t) L" "0 < m" "m \<le> length P"
  shows "filter (\<lambda>t. st_commit_ts (List.last (take m P)) < st_commit_ts t) L = drop m P"
proof -
  let ?l = "List.last (take m P)"
  have P: "sorted_wrt (\<lambda>x y. st_commit_ts x < st_commit_ts y) (take m P @ drop m P)"
    using assms(1,2) by (simp add: sorted_wrt_filter)
  have l: "?l \<in> set (take m P)" using assms(3,4) by (intro last_in_set) auto
  then have "?l \<in> set P" by (rule in_set_takeD)
  then have e: "filter (\<lambda>t. st_commit_ts ?l < st_commit_ts t) L = filter (\<lambda>t. st_commit_ts ?l < st_commit_ts t) (take m P @ drop m P)"
    unfolding append_take_drop_id assms(2) filter_filter by (intro filter_cong) auto
  have "\<forall>t \<in> set (drop m P). st_commit_ts ?l < st_commit_ts t" using P l unfolding sorted_wrt_append by blast
  moreover have "\<forall>t \<in> set (take m P). \<not> st_commit_ts ?l < st_commit_ts t"
  proof
    fix t assume t: "t \<in> set (take m P)"
    have "take m P = butlast (take m P) @ [?l]" using assms(3,4) by (intro append_butlast_last_id [symmetric]) auto
    moreover have "sorted_wrt (\<lambda>x y. st_commit_ts x < st_commit_ts y) (take m P)" using P unfolding sorted_wrt_append by blast
    ultimately have "\<forall>x \<in> set (butlast (take m P)). st_commit_ts x < st_commit_ts ?l" "t \<in> set (butlast (take m P)) \<or> t = ?l"
      using t sorted_wrt_append [of _ "butlast (take m P)" "[?l]"] by (metis list.set_intros(1), metis Un_iff empty_iff insert_iff list.set(1,2) set_append)
    then show "\<not> st_commit_ts ?l < st_commit_ts t" by auto
  qed
  ultimately show ?thesis unfolding e filter_append by (simp add: filter_True filter_False)
qed

lemma region_loop_catches_up:
  assumes L: "log_rows E L (backend system)" "postcard_ok (decision_codec E)" "\<forall>t \<in> set L. st_commit_ts t \<noteq> - 1"
    and A: "\<And>i. ae_raft A i \<noteq> None" "0 < batch"
    and s: "region_in_step s" "last_applied_decision_ts s \<noteq> - 1" "\<And>i n. can_write s (ae_nonces A i n)"
    and fuel: "length (filter (\<lambda>t. last_applied_decision_ts s < st_commit_ts t) L) < fuel"
  shows "\<exists>n s'. region_loop fuel E Z A system meta batch i s tot = (RegionDone, n, s') \<and> region_in_step s' \<and>
    (\<forall>t \<in> set L. st_commit_ts t \<le> last_applied_decision_ts s') \<and>
    (\<forall>k. live s' k =
       (if key_in_region meta k
        then fold txn_effect (filter (\<lambda>t. last_applied_decision_ts s < st_commit_ts t) L) (live s) k else live s k))"
  using s fuel
proof (induction fuel arbitrary: i s tot)
  case (Suc fuel)
  let ?c = "last_applied_decision_ts s"
  let ?P = "filter (\<lambda>t. ?c < st_commit_ts t) L"
  have srt: "sorted_wrt (\<lambda>x y. st_commit_ts x < st_commit_ts y) L" using L(1) by (simp add: log_rows_def)
  have scan: "sequencer_decisions_after E system ?c batch = Inr (take batch (map decision_of ?P))"
    using decisions_after_rows [OF L(1,2) Suc.prems(2), of batch] A(2) by (simp add: max_absorb1 Suc_le_eq)
  show ?case
  proof (cases "?P = []")
    case True
    then have "region_loop (Suc fuel) E Z A system meta batch i s tot = (RegionDone, tot, s)" by (simp add: scan)
    moreover have "\<forall>t \<in> set L. st_commit_ts t \<le> ?c" using True by (auto simp: filter_empty_conv not_less)
    ultimately show ?thesis using Suc.prems(1) True by simp
  next
    case False
    let ?ds = "take batch (map decision_of ?P)"
    have ne: "?ds \<noteq> []" using False A(2) by simp
    obtain m where m: "0 < m" "m \<le> batch" "m \<le> length ?ds"
        "build_apply_batch ?ds meta batch (unat (ae_max_txn_bytes A)) = map (clipped meta) (take m ?ds)"
      using build_apply_batch_prefix [OF ne A(2)] by metis
    let ?Q = "take m ?P"
    have Q: "map (clipped meta) (take m ?ds) = map (\<lambda>t. clipped meta (decision_of t)) ?Q" "?Q \<noteq> []"
      using m(1-3) False by (auto simp: take_map min_absorb1)
    obtain r a where ra: "ae_raft A i = Some (r, a)" using A(1) [of i] by auto
    have P: "sorted_wrt (\<lambda>x y. st_commit_ts x < st_commit_ts y) ?P" using srt by (rule sorted_wrt_filter)
    have mP: "m \<le> length ?P" using m(3) by simp
    have Qs: "sorted_wrt (\<lambda>x y. st_commit_ts x < st_commit_ts y) ?Q" "\<forall>t \<in> set ?Q. ?c < st_commit_ts t"
      using P by (auto simp: sorted_wrt_take dest: in_set_takeD)
    from apply_prefix [where nonces = "ae_nonces A i", OF Suc.prems(1,3) Qs Q(2), of Z meta r a "ae_max_txn_bytes A"]
    obtain res s1 where s1: "apply_commit_decisions_with_log Z s (ae_nonces A i) (map (\<lambda>t. clipped meta (decision_of t)) ?Q) r a
          (ae_max_txn_bytes A) = (Inr res, s1)" "region_in_step s1" "barrier s1 = barrier s"
        "\<forall>k. live s1 k = (if key_in_region meta k then fold txn_effect ?Q (live s) k else live s k)"
        "last_applied_decision_ts s1 = st_commit_ts (List.last ?Q)" "dr_through_ts res = st_commit_ts (List.last ?Q)" by blast
    have last: "dl_commit_ts (List.last (map (\<lambda>t. clipped meta (decision_of t)) ?Q)) = st_commit_ts (List.last ?Q)"
      using Q(2) by (simp add: last_map clipped_def decision_of_def)
    have pay: "map (\<lambda>t. clipped meta (decision_of t)) ?Q \<noteq> []" "length (map (\<lambda>t. clipped meta (decision_of t)) ?Q) = m"
      using Q(2) mP by auto
    let ?more = "batch \<le> m \<or> m < length ?ds"
    have loop: "region_loop (Suc fuel) E Z A system meta batch i s tot =
        (if ?more then region_loop fuel E Z A system meta batch (Suc i) s1 (tot + dr_decisions res)
         else (RegionDone, tot + dr_decisions res, s1))"
      unfolding region_loop.simps Let_def scan sum.case if_not_P [OF ne] m(4) Q(1) if_not_P [OF pay(1)] ra option.case
        prod.case s1(1) last s1(6) pay(2) by simp
    have rest: "filter (\<lambda>t. last_applied_decision_ts s1 < st_commit_ts t) L = drop m ?P"
      unfolding s1(5) by (rule pending_after [OF srt refl m(1) mP])
    have all: "fold txn_effect ?P st = fold txn_effect (drop m ?P) (fold txn_effect ?Q st)" for st
      by (metis append_take_drop_id fold_append comp_apply)
    show ?thesis
    proof (cases ?more)
      case True
      have "List.last ?Q \<in> set L" using Q(2) by (meson filter_is_subset in_set_takeD last_in_set subsetD)
      then have c1: "last_applied_decision_ts s1 \<noteq> - 1" using L(3) s1(5) by auto
      have w1: "\<And>i n. can_write s1 (ae_nonces A i n)" using Suc.prems(3) can_write_barrier [OF s1(3)] by simp
      have "length (filter (\<lambda>t. last_applied_decision_ts s1 < st_commit_ts t) L) < fuel"
        using Suc.prems(4) m(1) mP unfolding rest by simp
      from Suc.IH [OF s1(2) c1 w1 this, of "Suc i" "tot + dr_decisions res"] show ?thesis
        unfolding loop if_P [OF True] rest using s1(4) all by (metis (no_types, lifting) txns_effect_cong)
    next
      case False
      then have "length ?P \<le> m" by auto
      then have "drop m ?P = []" by simp
      then have "\<forall>t \<in> set L. st_commit_ts t \<le> last_applied_decision_ts s1" "fold txn_effect ?P st = fold txn_effect ?Q st" for st
        using rest all by (auto simp: filter_empty_conv not_less)
      then show ?thesis unfolding loop if_not_P [OF False] using s1(2,4) by simp
    qed
  qed
qed simp

lemma sorted_split_at:
  "sorted_wrt (\<lambda>x y. f x < (f y :: u64)) K \<Longrightarrow> filter (\<lambda>x. f x \<le> c) K @ filter (\<lambda>x. c < f x) K = K"
proof (induction K)
  case (Cons x K)
  have "filter (\<lambda>y. f y \<le> c) K = []" if "c < f x"
    using Cons.prems that by (fastforce simp: filter_empty_conv)
  then show ?case using Cons by (cases "f x \<le> c") (auto simp: not_le)
qed simp

text \<open>
  A region whose store holds the effect of the committed transactions up to its
  cursor, and can take more.
\<close>

definition region_ready ::
    "apply_env \<Rightarrow> seq_entry list \<Rightarrow> (bytes \<Rightarrow> bytes option) \<Rightarrow> RegionMeta \<Rightarrow> MvccStorage \<Rightarrow> bool" where
  "region_ready A K st meta s \<longleftrightarrow>
    region_in_step s \<and> last_applied_decision_ts s \<noteq> - 1 \<and> (\<forall>i n. can_write s (ae_nonces A i n)) \<and>
    (\<forall>k. key_in_region meta k \<longrightarrow>
      get s k = Inr (serial_state (filter (\<lambda>e. st_commit_ts (fst e) \<le> last_applied_decision_ts s) K) st k))"

lemma region_converges:
  assumes "seq_clean s0" "postcard_ok (interval_codec E)" "sequencer_run E cmds s0 = (K, system)" "log_ok E K"
    and "postcard_ok (decision_codec E)" "\<forall>e \<in> set K. st_commit_ts (fst e) \<noteq> - 1"
    and ready: "region_ready A K st meta s" and raft: "\<forall>i. ae_raft A i \<noteq> None" and len: "0 < batch" "length K < fuel"
  shows "\<exists>n s'. region_loop fuel E Z A system meta batch 0 s tot = (RegionDone, n, s') \<and> region_in_step s' \<and>
    (\<forall>e \<in> set K. st_commit_ts (fst e) \<le> last_applied_decision_ts s') \<and>
    (\<forall>k. get s' k = (if key_in_region meta k then Inr (serial_state K st k) else get s k))"
proof -
  let ?c = "last_applied_decision_ts s"
  have rdy: "region_in_step s" "?c \<noteq> - 1" "\<And>i n. can_write s (ae_nonces A i n)"
    "\<And>k. key_in_region meta k \<Longrightarrow> get s k = Inr (serial_state (filter (\<lambda>e. st_commit_ts (fst e) \<le> ?c) K) st k)"
    using ready by (auto simp: region_ready_def)
  have inv: "seq_inv E (map fst K) (backend system)"
    using run_from_clean [OF assms(1,2,4,3)] by (simp add: occ_state_def)
  note L = seq_inv_log_rows [OF inv]
  have srt: "sorted_wrt (\<lambda>x y. st_commit_ts (fst x) < st_commit_ts (fst y)) K"
    using L by (simp add: log_rows_def sorted_wrt_map)
  have fuel: "length (filter (\<lambda>t. ?c < st_commit_ts t) (map fst K)) < fuel"
    using order_le_less_trans [OF length_filter_le [of "\<lambda>t. ?c < st_commit_ts t" "map fst K"]] len(2)
    unfolding length_map by blast
  have "\<forall>t \<in> set (map fst K). st_commit_ts t \<noteq> - 1" using assms(6) by simp
  from region_loop_catches_up [OF L assms(5) this _ len(1) rdy(1,2) _ fuel, of A Z meta 0 tot] rdy(3) raft
  obtain n s' where s': "region_loop fuel E Z A system meta batch 0 s tot = (RegionDone, n, s')" "region_in_step s'"
    "\<forall>e \<in> set K. st_commit_ts (fst e) \<le> last_applied_decision_ts s'"
    "\<forall>k. live s' k =
       (if key_in_region meta k then fold txn_effect (filter (\<lambda>t. ?c < st_commit_ts t) (map fst K)) (live s) k else live s k)"
    by auto
  have ok: "mvcc_ok s" "mvcc_ok s'" using rdy(1) s'(2) by (simp_all add: region_in_step_def)
  have "live s' k = serial_state K st k" if k: "key_in_region meta k" for k
  proof -
    let ?old = "filter (\<lambda>e. st_commit_ts (fst e) \<le> ?c) K" and ?new = "filter (\<lambda>e. ?c < st_commit_ts (fst e)) K"
    have new: "filter (\<lambda>t. ?c < st_commit_ts t) (map fst K) = map fst ?new" by (simp add: filter_map comp_def)
    have "live s k = serial_state ?old st k" using rdy(4) [OF k] get_live [OF ok(1), of k] by simp
    then have "fold txn_effect (map fst ?new) (live s) k = fold txn_effect (map fst ?new) (serial_state ?old st) k"
      by (rule txns_effect_cong [where st = "live s"])
    also have "\<dots> = serial_state (?old @ ?new) st k" by (simp add: serial_state_def fold_map comp_def)
    finally show ?thesis using s'(4) k sorted_split_at [OF srt] by (simp add: new)
  qed
  then have "get s' k = (if key_in_region meta k then Inr (serial_state K st k) else get s k)" for k
    using s'(4) by (simp add: get_live [OF ok(1)] get_live [OF ok(2)])
  then show ?thesis using s'(1-3) by blast
qed

text \<open>The pass brings every region it leads up to date and leaves the others alone.\<close>

definition runtime_ready :: "seq_entry list \<Rightarrow> (bytes \<Rightarrow> bytes option) \<Rightarrow> RegionRuntime \<Rightarrow> bool" where
  "runtime_ready K st rt \<longleftrightarrow> region_ready (rr_env rt) K st (rr_meta rt) (rr_store rt) \<and> (\<forall>i. ae_raft (rr_env rt) i \<noteq> None)"

definition caught_up :: "seq_entry list \<Rightarrow> (bytes \<Rightarrow> bytes option) \<Rightarrow> RegionRuntime \<Rightarrow> RegionRuntime \<Rightarrow> bool" where
  "caught_up K st rt rt' \<longleftrightarrow> (if \<not> rr_leader rt then rt' = rt
     else rr_meta rt' = rr_meta rt \<and> (\<forall>e \<in> set K. st_commit_ts (fst e) \<le> last_applied_decision_ts (rr_store rt')) \<and>
       (\<forall>k. get (rr_store rt') k =
         (if key_in_region (rr_meta rt) k then Inr (serial_state K st k) else get (rr_store rt) k)))"

lemma runtimes_converge:
  assumes "seq_clean s0" "postcard_ok (interval_codec E)" "sequencer_run E cmds s0 = (K, system)" "log_ok E K"
    and "postcard_ok (decision_codec E)" "\<forall>e \<in> set K. st_commit_ts (fst e) \<noteq> - 1"
    and "0 < batch" "length K < fuel"
    and "\<forall>rt \<in> set rts. rr_leader rt \<longrightarrow> runtime_ready K st rt"
  shows "\<exists>n rts'. apply_runtimes fuel E Z system batch rts tot None = (Inr n, rts') \<and> list_all2 (caught_up K st) rts rts'"
  using assms(9)
proof (induction rts arbitrary: tot)
  case (Cons rt rts)
  show ?case
  proof (cases "rr_leader rt")
    case False
    obtain n rts' where "apply_runtimes fuel E Z system batch rts tot None = (Inr n, rts')" "list_all2 (caught_up K st) rts rts'"
      using Cons by fastforce
    moreover have "caught_up K st rt rt" using False by (simp add: caught_up_def)
    ultimately show ?thesis using False by simp
  next
    case True
    then have "region_ready (rr_env rt) K st (rr_meta rt) (rr_store rt)" "\<forall>i. ae_raft (rr_env rt) i \<noteq> None"
      using Cons.prems by (auto simp: runtime_ready_def)
    from region_converges [OF assms(1-6) this assms(7,8), of Z tot] obtain m s' where
      s': "region_loop fuel E Z (rr_env rt) system (rr_meta rt) batch 0 (rr_store rt) tot = (RegionDone, m, s')"
        "\<forall>e \<in> set K. st_commit_ts (fst e) \<le> last_applied_decision_ts s'"
        "\<forall>k. get s' k = (if key_in_region (rr_meta rt) k then Inr (serial_state K st k) else get (rr_store rt) k)"
      by blast
    obtain n rts' where "apply_runtimes fuel E Z system batch rts m None = (Inr n, rts')" "list_all2 (caught_up K st) rts rts'"
      using Cons by fastforce
    moreover have "caught_up K st rt (rt\<lparr>rr_store := s'\<rparr>)" using True s'(2,3) by (simp add: caught_up_def)
    ultimately show ?thesis using True s'(1) by simp
  qed
qed simp

definition sample_apply_env :: apply_env where
  "sample_apply_env = \<lparr>ae_raft = \<lambda>i. Some (0, standalone 1), ae_nonces = \<lambda>i n j. [], ae_max_txn_bytes = 100\<rparr>"

lemma sample_region_ready:
  "region_ready sample_apply_env [(sample_writer, []), (sample_reader 5 9 2, [])] (\<lambda>_. None) meta (fresh CommitTs)"
proof -
  let ?K = "[(sample_writer, []), (sample_reader 5 9 2, [])] :: seq_entry list"
  have cur: "last_applied_decision_ts (fresh CommitTs) = 0"
    by (simp add: last_applied_decision_ts_def read_u64_row_def new_with_revision_mode_def)
  have step: "region_in_step (fresh CommitTs)"
    by (simp add: region_in_step_def new_with_revision_mode_def cur current_revision_def mvcc_ok_def kv_metadata_in_tx_def)
  have w: "\<forall>i n. can_write (fresh CommitTs) (ae_nonces sample_apply_env i n)"
    by (simp add: can_write_def barrier_ok_def encrypt_value_def new_with_revision_mode_def)
  have "get (fresh CommitTs) k =
      Inr (serial_state (filter (\<lambda>e. st_commit_ts (fst e) \<le> last_applied_decision_ts (fresh CommitTs)) ?K) (\<lambda>_. None) k)" for k
    unfolding cur by (simp add: sample_writer_def sample_reader_def serial_state_def get_def new_with_revision_mode_def)
  then show ?thesis using step w cur by (simp add: region_ready_def)
qed

end
