(* ===== verification/Move_Source.thy ===== *)
theory Move_Source
  imports Decision_Apply Commit_Trim Time_Travel
begin

text \<open>
  The source of a range move while it is moved
  (\<open>coord-server/src/split_merge.rs\<close>): the runs of the commands that a data region
  applies (\<open>coord-server/src/raft/state_machine.rs\<close>) between two accesses of the
  migrator. A command that changes a row of a key moves the revision, so the pages of
  one revision form one snapshot. Not among the commands: range imports into the source
  itself, which the region operations exclude, and the commands of the first protocol,
  which a cluster with commit timestamps refuses to its clients. Of the latter, the key
  deletion of an expired lease still reaches a data region and is applied without
  moving its revision; the last theorem shows what a move across it delivers.
\<close>

section \<open>The commands of a data region\<close>

inductive region_step :: "MvccStorage \<Rightarrow> MvccStorage \<Rightarrow> bool" where
  rs_put: "barrier_ok s nonce \<Longrightarrow> put_at_key s nonce k v l ts a PolicyCommitTs = (res, s') \<Longrightarrow> region_step s s'"
| rs_delete: "delete_at_key s k ts a PolicyCommitTs = (res, s') \<Longrightarrow> region_step s s'"
| rs_delete_range: "delete_range_at_key s x y ts a PolicyCommitTs = (dres, s') \<Longrightarrow> region_step s s'"
| rs_lease_v2: "delete_keys_by_lease_at_commit_ts s lid ts a = (lres, s') \<Longrightarrow> region_step s s'"
| rs_decisions: "(\<And>n i. barrier_ok s (nonces n i)) \<Longrightarrow>
    apply_commit_decisions_core Z s nonces views r a mx = (cres, s') \<Longrightarrow> region_step s s'"
| rs_advance: "advance_commit_ts_watermark s ts a = (ares, s') \<Longrightarrow> region_step s s'"
| rs_safe_ts: "set_safe_ts_fence s ts a = (ares, s') \<Longrightarrow> region_step s s'"
| rs_watermark: "publish_commit_watermark s ts a = (ares, s') \<Longrightarrow> region_step s s'"
| rs_fence: "fence_direct_writes s x y op_id a = (ares, s') \<Longrightarrow> region_step s s'"
| rs_clear_fence: "clear_direct_write_fence s op_id a = (ures, s') \<Longrightarrow> region_step s s'"
| rs_trim: "trim_commit_log_outbox s ts n a = (tres, s') \<Longrightarrow> region_step s s'"
| rs_compact: "apply_compact s ts a = (ores, s') \<Longrightarrow> region_step s s'"
| rs_applied: "set_last_applied s a = (ures, s') \<Longrightarrow> region_step s s'"

section \<open>Rows move with the revision\<close>

definition revision_guards :: "MvccStorage \<Rightarrow> MvccStorage \<Rightarrow> bool" where
  "revision_guards s s' \<longleftrightarrow> mvcc_ok s' \<and> revision_mode s' = CommitTs \<and> current_revision s \<le> current_revision s' \<and>
    (current_revision s' = current_revision s \<longrightarrow> same_rows s s')"

lemma same_rows_refl [simp]: "same_rows s s"
  by (simp add: same_rows_def)

lemma same_rows_trans: "same_rows s t \<Longrightarrow> same_rows t u \<Longrightarrow> same_rows s u"
  by (auto simp: same_rows_def)

lemma same_rows_sym: "same_rows s t \<Longrightarrow> same_rows t s"
  by (auto simp: same_rows_def)

lemma guards_refl: "mvcc_ok s \<Longrightarrow> revision_mode s = CommitTs \<Longrightarrow> revision_guards s s"
  by (simp add: revision_guards_def)

lemma guards_trans:
  assumes "revision_guards s t" "revision_guards t u"
  shows "revision_guards s u"
proof -
  have le: "current_revision s \<le> current_revision t" "current_revision t \<le> current_revision u"
    using assms by (simp_all add: revision_guards_def)
  have "same_rows s u" if "current_revision u = current_revision s"
  proof (rule same_rows_trans)
    have "current_revision t = current_revision s" using le that by simp
    then show "same_rows s t" "same_rows t u" using assms that by (simp_all add: revision_guards_def)
  qed
  then show ?thesis using assms(2) order_trans [OF le] by (simp add: revision_guards_def)
qed

lemma guards_committed:
  "revision_mode s = CommitTs \<Longrightarrow> committed s s' ts cs \<Longrightarrow> revision_guards s s'"
  unfolding committed_def revision_guards_def by auto

lemma current_revision_row:
  "tx_get d' T_meta META_CURRENT_REVISION = tx_get d T_meta META_CURRENT_REVISION \<Longrightarrow>
    current_revision_in_tx d' CommitTs = current_revision_in_tx d CommitTs"
  by (simp add: current_revision_in_tx_def split: option.split)

lemma guards_rows:
  assumes "mvcc_ok s" "revision_mode s = CommitTs" "db_ok d"
    and "\<And>k. tx_get d T_kv (encode_kv_key k) = tx_get (backend s) T_kv (encode_kv_key k)"
    and m: "\<And>k. kv_metadata_in_tx d k = kv_metadata_in_tx (backend s) k"
    and "current_revision_in_tx (backend s) CommitTs \<le> current_revision_in_tx d CommitTs"
  shows "revision_guards s (s\<lparr>backend := d\<rparr>)"
proof -
  have "mvcc_ok (s\<lparr>backend := backend s\<rparr>)" using assms(1) by simp
  note fr = mvcc_ok_frame [OF this assms(3,4) m]
  show ?thesis using fr m assms(2,6) by (simp add: revision_guards_def same_rows_def current_revision_eq)
qed

text \<open>The registers of a region: only system rows change.\<close>

lemma kv_key_not_register [simp]:
  "encode_kv_key k \<noteq> SAFE_TS_FENCE" "encode_kv_key k \<noteq> COMMIT_WATERMARK" "encode_kv_key k \<noteq> DIRECT_WRITE_FENCE"
  "encode_kv_key k \<noteq> DECISION_APPLIED_TS"
  by (simp_all add: encode_kv_key_def key_defs ascii_def)

lemma guards_registers:
  assumes "mvcc_ok s" "revision_mode s = CommitTs"
  shows "advance_commit_ts_watermark s ts a = (ares, s') \<Longrightarrow> revision_guards s s'"
    "set_safe_ts_fence s ts a = (ares, s') \<Longrightarrow> revision_guards s s'"
    "publish_commit_watermark s ts a = (ares, s') \<Longrightarrow> revision_guards s s'"
    "fence_direct_writes s x y op_id a = (ares, s') \<Longrightarrow> revision_guards s s'"
    "clear_direct_write_fence s op_id a = (ures, s') \<Longrightarrow> revision_guards s s'"
    "set_last_applied s a = (ures, s') \<Longrightarrow> revision_guards s s'"
proof -
  note r = guards_rows [OF assms] and db = mvcc_okD(1) [OF assms(1)]
  note reg = write_store_def backend_write_def Let_def bind_result_def assms(2) table_simps note_log_index_revision_def
    kv_metadata_in_tx_def
  show "advance_commit_ts_watermark s ts a = (ares, s') \<Longrightarrow> revision_guards s s'"
    using guards_refl [OF assms] db
    by (auto simp: advance_commit_ts_watermark_def reg current_revision_put_applied_commit_ts current_revision_insert
      split: if_splits intro!: r)
  show "set_safe_ts_fence s ts a = (ares, s') \<Longrightarrow> revision_guards s s'"
    using guards_refl [OF assms] db
    by (auto simp: set_safe_ts_fence_def reg current_revision_put_applied_commit_ts row_simps split: if_splits intro!: r)
  show "publish_commit_watermark s ts a = (ares, s') \<Longrightarrow> revision_guards s s'"
    using guards_refl [OF assms] db
    by (auto simp: publish_commit_watermark_def reg current_revision_put_applied_commit_ts row_simps split: if_splits intro!: r)
  show "fence_direct_writes s x y op_id a = (ares, s') \<Longrightarrow> revision_guards s s'"
    using guards_refl [OF assms] db
    by (auto simp: fence_direct_writes_def reg current_revision_put_applied_commit_ts row_simps
      split: if_splits sum.splits intro!: r)
  show "clear_direct_write_fence s op_id a = (ures, s') \<Longrightarrow> revision_guards s s'"
    using guards_refl [OF assms] db
    by (auto simp: clear_direct_write_fence_def reg current_revision_put_applied_commit_ts row_simps
      split: if_splits sum.splits option.splits intro!: r eq_refl [OF current_revision_row [symmetric]])
  show "set_last_applied s a = (ures, s') \<Longrightarrow> revision_guards s s'"
    using db by (auto simp: set_last_applied_def reg current_revision_put_applied_commit_ts intro!: r)
qed

lemma guards_compact:
  assumes "mvcc_ok s" "revision_mode s = CommitTs" "apply_compact s ts a = (res, s')"
  shows "revision_guards s s'"
proof (cases "s' = s")
  case False
  obtain e dc dt d where l: "compact_loop e 0 0 (backend s) = (dc, dt, d)"
    and s': "s' = s\<lparr>backend := note_log_index_revision (revision_mode s)
        (put_applied (tx_insert d T_meta META_COMPACT_REVISION (u64_bytes e)) a) (ali_index a)\<rparr>"
    using apply_compact_eq [OF assms(3) False] by blast
  have sh: "shrunk e (backend s) d" using compact_loop_spec [OF mvcc_okD(1) [OF assms(1)] l] by blast
  note cr = compact_rows [OF assms(1) l s'] and sl = shrunk_live [OF assms(1) sh]
  note fr = mvcc_ok_frame [OF sl(1), of "backend s'"]
  have eq: "s\<lparr>backend := backend s'\<rparr> = s'" by (simp add: s')
  have ok: "mvcc_ok s'" "live s' = live s" using fr cr sl(2) assms(2) by (simp_all add: eq)
  have "kv_metadata_in_tx (backend s') k = kv_metadata_in_tx (backend s) k" if "live s k \<noteq> None" for k
    using shrunk_meta [OF sh, of k] that cr(5) assms(2) live_key_iff [OF assms(1), of k] by (auto simp: live_key_def)
  then show ?thesis using ok cr(4) assms(2) by (simp add: revision_guards_def same_rows_def s')
qed (simp add: guards_refl assms)

lemma guards_trim:
  assumes "mvcc_ok s" "revision_mode s = CommitTs" "trim_commit_log_outbox s ts n a = (res, s')"
  shows "revision_guards s s'"
proof -
  have db: "db_ok (backend s)" by (rule mvcc_okD(1) [OF assms(1)])
  have ne: "META_CURRENT_REVISION \<noteq> META_COMMIT_LOG_TRIMMED_BEFORE" by (simp add: key_defs META_COMMIT_LOG_TRIMMED_BEFORE_def ascii_def)
  have rows: "db_ok d \<and> (\<forall>t k. t \<noteq> T_commit_log \<longrightarrow> t \<noteq> T_meta \<or> k \<noteq> META_COMMIT_LOG_TRIMMED_BEFORE \<longrightarrow>
      tx_get d t k = tx_get (backend s) t k)" if "trim_tx (backend s) ts n = Inr (r, d)" for r d
    using that db by (auto simp: trim_tx_def Let_def remove_log_rows_get table_simps split: if_splits)
  show ?thesis
    using assms(3) db rows ne guards_refl [OF assms(1,2)]
    by (auto simp: trim_commit_log_outbox_def write_store_def backend_write_def bind_result_def assms(2) table_simps
        note_log_index_revision_def kv_metadata_in_tx_def current_revision_put_applied_commit_ts split: if_splits sum.splits
        intro!: guards_rows [OF assms(1,2)] eq_refl [OF current_revision_row [symmetric]])
qed

lemma guards_lease_v2:
  assumes "mvcc_ok s" "revision_mode s = CommitTs" "delete_keys_by_lease_at_commit_ts s lid ts a = (res, s')"
  shows "revision_guards s s'"
proof (cases "\<exists>oc dels. res = Inr (oc, dels) \<and> \<not> replayed oc \<and> dels \<noteq> []")
  case True
  then show ?thesis
    using guards_committed [OF assms(2)] delete_keys_by_lease_at_commit_ts_committed(1) [OF assms(1)] assms(3) by blast
next
  case False
  obtain dels d where del: "delete_keys_by_lease_in_tx (backend s) lid ts = (dels, d)" by fastforce
  note sp = delete_keys_by_lease_spec [OF mvcc_okD(1) [OF assms(1)] del]
  have "s' = s \<or> dels = [] \<and> s' = s\<lparr>backend := put_applied d a\<rparr>"
    using assms(3) False del
    by (auto simp: delete_keys_by_lease_at_commit_ts_def write_store_def backend_write_def Let_def bind_result_def
        split: if_splits sum.splits option.splits)
  moreover have "revision_guards s (s\<lparr>backend := put_applied d a\<rparr>)" if "dels = []"
  proof (rule guards_rows [OF assms(1,2)])
    show "db_ok (put_applied d a)" using sp(4) by simp
    show "tx_get (put_applied d a) T_kv (encode_kv_key k) = tx_get (backend s) T_kv (encode_kv_key k)" for k
      by (simp add: table_simps sp(3))
    show "kv_metadata_in_tx (put_applied d a) k = kv_metadata_in_tx (backend s) k" for k
      using sp(2) [of k] that by (simp add: row_simps mark_keys_def)
    show "current_revision_in_tx (backend s) CommitTs \<le> current_revision_in_tx (put_applied d a) CommitTs"
      by (rule eq_refl [OF current_revision_row [symmetric]]) (simp add: table_simps sp(3))
  qed
  ultimately show ?thesis using guards_refl [OF assms(1,2)] by blast
qed

text \<open>A batch of decisions: the rows change only together with the running revision.\<close>

lemma apply_views_guards:
  assumes "mvcc_ok (s\<lparr>backend := d\<rparr>)" "\<And>n i. barrier_ok s (nonces n i)"
    and "apply_views Z s nonces n mx views st d = Inr (st', d')"
  shows "mvcc_ok (s\<lparr>backend := d'\<rparr>) \<and> views_step s d d' \<and> as_current st \<le> as_current st' \<and>
    (as_current st' = as_current st \<longrightarrow> d' = d)"
  using assms(1,3)
proof (induction views arbitrary: n st d)
  case (Cons v vs)
  let ?ts = "view_commit_ts v"
  let ?st = "st\<lparr>as_previous := Some ?ts\<rparr>"
  have run: "if ?ts \<le> as_through st then apply_views Z s nonces (Suc n) mx vs st d = Inr (st', d')
      else if (case as_previous st of Some ts \<Rightarrow> ?ts \<le> ts | None \<Rightarrow> False) then st' = st \<and> d' = d
      else case tx_get d T_changelog (encode_changelog_key ?ts) of
          Some bs \<Rightarrow> st' = ?st \<and> d' = d \<or> apply_views Z s nonces (Suc n) mx vs (passed ?st ?ts) d = Inr (st', d')
        | None \<Rightarrow> if ?ts \<le> as_current st
            then st' = ?st \<and> d' = d \<or> apply_views Z s nonces (Suc n) mx vs (passed ?st ?ts) d = Inr (st', d')
            else \<exists>d1. apply_decision Z s (nonces n) mx v d = Inr d1 \<and>
              apply_views Z s nonces (Suc n) mx vs ((passed ?st ?ts)\<lparr>as_current := ?ts\<rparr>) d1 = Inr (st', d')"
    using Cons.prems(2) unfolding apply_views.simps Let_def bind_result_def
    by (simp split: if_split_asm option.split_asm option.split sum.split_asm)
  consider "st' = st" "d' = d" | "st' = ?st" "d' = d"
    | "apply_views Z s nonces (Suc n) mx vs st d = Inr (st', d')"
    | "apply_views Z s nonces (Suc n) mx vs (passed ?st ?ts) d = Inr (st', d')"
    | d1 where "as_current st < ?ts" "apply_decision Z s (nonces n) mx v d = Inr d1"
      "apply_views Z s nonces (Suc n) mx vs ((passed ?st ?ts)\<lparr>as_current := ?ts\<rparr>) d1 = Inr (st', d')"
    using run unfolding not_le [symmetric] by (cases "tx_get d T_changelog (encode_changelog_key ?ts)"; simp only: option.case; meson)
  then show ?case
  proof cases
    case 5
    note ad = apply_decision_step [OF Cons.prems(1) assms(2) 5(2)]
    show ?thesis using Cons.IH [OF ad(1) 5(3)] 5(1) views_step_trans [OF ad(3)] by (auto simp: passed_def)
  next
    case 3
    then show ?thesis by (rule Cons.IH [OF Cons.prems(1)])
  next
    case 4
    then show ?thesis using Cons.IH [OF Cons.prems(1) 4] by (simp add: passed_def)
  qed (use Cons.prems(1) in simp_all)
qed simp

lemma finish_rows:
  assumes "revision_mode s = CommitTs"
  shows "db_ok d \<Longrightarrow> db_ok (finish_apply s cursor st r a d)"
    "tx_get (finish_apply s cursor st r a d) T_kv (encode_kv_key k) = tx_get d T_kv (encode_kv_key k)"
    "kv_metadata_in_tx (finish_apply s cursor st r a d) k = kv_metadata_in_tx d k"
    "current_revision_in_tx (finish_apply s cursor st r a d) CommitTs =
      max (current_revision_in_tx d CommitTs) (max (as_current st) (as_through st))"
proof -
  let ?d = "if cursor < as_through st then tx_insert d T_kv DECISION_APPLIED_TS (u64_bytes (as_through st)) else d"
  have cur: "current_revision_in_tx ?d CommitTs = current_revision_in_tx d CommitTs" by (simp add: row_simps)
  note fin = finish_apply_def Let_def note_log_index_revision_def assms
  show "db_ok d \<Longrightarrow> db_ok (finish_apply s cursor st r a d)" by (simp add: fin)
  show "tx_get (finish_apply s cursor st r a d) T_kv (encode_kv_key k) = tx_get d T_kv (encode_kv_key k)"
    by (simp add: fin table_simps)
  show "kv_metadata_in_tx (finish_apply s cursor st r a d) k = kv_metadata_in_tx d k"
    by (simp add: fin kv_metadata_in_tx_def table_simps)
  show "current_revision_in_tx (finish_apply s cursor st r a d) CommitTs =
      max (current_revision_in_tx d CommitTs) (max (as_current st) (as_through st))"
    unfolding fin by (simp add: cur current_revision_put_applied_commit_ts current_revision_insert not_less max_absorb1 max_absorb2 less_imp_le)
qed

lemma guards_decisions:
  assumes "mvcc_ok s" "revision_mode s = CommitTs" "\<And>n i. barrier_ok s (nonces n i)"
    and "apply_commit_decisions_core Z s nonces views r a mx = (res, s')"
  shows "revision_guards s s'"
proof (cases "s' = s")
  case False
  let ?c = "last_applied_decision_ts s"
  let ?st = "\<lparr>as_current = current_revision_in_tx (backend s) CommitTs, as_through = ?c, as_count = 0, as_previous = None\<rparr>"
  obtain st d where av: "apply_views Z s nonces 0 mx views ?st (backend s) = Inr (st, d)"
    and s': "s' = s\<lparr>backend := finish_apply s ?c st r a d\<rparr>"
    using assms(4) False
    by (auto simp: apply_commit_decisions_core_def write_store_def backend_write_def Let_def assms(2) bind_result_def
        split: sum.splits)
  have "mvcc_ok (s\<lparr>backend := backend s\<rparr>)" using assms(1) by simp
  note g = apply_views_guards [OF this assms(3) av]
  have cur: "current_revision_in_tx d CommitTs = current_revision_in_tx (backend s) CommitTs"
    using g by (intro current_revision_row) (simp add: views_step_def)
  note fin = finish_rows [OF assms(2), where cursor = ?c and st = st and r = r and a = a and d = d]
  have db: "db_ok d" using g mvcc_okD(1) by fastforce
  note fr = mvcc_ok_frame [where s = s and d = d and d' = "finish_apply s ?c st r a d"]
  have ok: "mvcc_ok s'" "live s' = live (s\<lparr>backend := d\<rparr>)"
    using fr g fin(1) [OF db] fin(2,3) by (simp_all add: s')
  show ?thesis
  proof (cases "as_current st = as_current ?st")
    case True
    then have "d = backend s" using g by blast
    then show ?thesis using ok fin(3,4) assms(2) cur
      by (simp add: revision_guards_def same_rows_def s' current_revision_eq)
  next
    case False
    then have "current_revision_in_tx (backend s) CommitTs < as_current st" using g
      by (simp add: order.strict_iff_order eq_commute)
    then have "current_revision s < current_revision s'" using fin(4) cur
      by (simp add: s' current_revision_eq assms(2) less_max_iff_disj)
    then show ?thesis using ok assms(2) by (auto simp: revision_guards_def s')
  qed
qed (simp add: guards_refl assms)

lemma region_step_guards:
  assumes "region_step s s'" "mvcc_ok s" "revision_mode s = CommitTs"
  shows "revision_guards s s'"
  using assms
proof (induction rule: region_step.induct)
  case (rs_put s nonce k v l ts a res s')
  have pol: "policy_matches (revision_mode s) PolicyCommitTs" using rs_put(4) by (simp add: policy_matches_def)
  have "s' = s \<or> (\<exists>cs. committed s s' ts cs)"
    using put_at_key_unchanged [OF rs_put(2)] put_at_key_committed [OF rs_put(3) pol rs_put(1)] rs_put(2)
    by (cases "\<forall>oc. res = Inr oc \<longrightarrow> replayed oc") blast+
  then show ?case using guards_refl [OF rs_put(3,4)] guards_committed [OF rs_put(4)] by blast
next
  case (rs_delete s k ts a res s')
  have pol: "policy_matches (revision_mode s) PolicyCommitTs" using rs_delete(3) by (simp add: policy_matches_def)
  have "s' = s \<or> (\<exists>cs. committed s s' ts cs)"
    using delete_at_key_unchanged [OF rs_delete(1)] delete_at_key_committed [OF rs_delete(2) pol] rs_delete(1)
    by (cases "\<forall>oc. res = Inr oc \<longrightarrow> replayed oc") blast+
  then show ?case using guards_refl [OF rs_delete(2,3)] guards_committed [OF rs_delete(3)] by blast
next
  case (rs_delete_range s x y ts a dres s')
  have pol: "policy_matches (revision_mode s) PolicyCommitTs" using rs_delete_range(3) by (simp add: policy_matches_def)
  have "s' = s \<or> (\<exists>cs. committed s s' ts cs)"
    using delete_range_at_key_unchanged [OF rs_delete_range(1)] delete_range_at_key_committed(1) [OF rs_delete_range(2) pol]
      rs_delete_range(1)
    by (cases "\<forall>oc. dres = Inr oc \<longrightarrow> dr_replayed oc") blast+
  then show ?case using guards_refl [OF rs_delete_range(2,3)] guards_committed [OF rs_delete_range(3)] by blast
qed (auto intro: guards_lease_v2 guards_decisions guards_registers guards_trim guards_compact)

lemma region_run_guards:
  assumes "region_step\<^sup>*\<^sup>* s s'" "mvcc_ok s" "revision_mode s = CommitTs"
  shows "revision_guards s s'"
  using assms
proof (induction rule: rtranclp_induct)
  case (step t u)
  then show ?case using region_step_guards [of t u] guards_trans [of s t u] by (simp add: revision_guards_def)
qed (simp add: guards_refl)

lemma region_run_source:
  assumes "mvcc_ok (source 0)" "revision_mode (source 0) = CommitTs" "\<And>t. region_step\<^sup>*\<^sup>* (source t) (source (Suc t))"
  shows "source_ok source"
proof -
  have run: "region_step\<^sup>*\<^sup>* (source t) (source (t + n))" for t n
  proof (induction n)
    case (Suc n)
    show ?case using rtranclp_trans [OF Suc assms(3) [of "t + n"]] by simp
  qed simp
  have ok: "mvcc_ok (source t) \<and> revision_mode (source t) = CommitTs" for t
    using region_run_guards [OF run [of 0 t]] assms(1,2) by (simp add: revision_guards_def)
  have le: "same_rows (source t) (source t')" if "t \<le> t'" "current_revision (source t) = current_revision (source t')" for t t'
    using region_run_guards [OF run [of t "t' - t"]] ok that by (simp add: revision_guards_def)
  show ?thesis unfolding source_ok_def
  proof (intro conjI allI impI)
    fix t t'
    assume eq: "current_revision (source t) = current_revision (source t')"
    consider "t \<le> t'" | "t' \<le> t" by linarith
    then show "same_rows (source t) (source t')"
      by cases (rule le [OF _ eq], assumption, rule same_rows_sym [OF le [OF _ eq [symmetric]]], assumption)
  qed (use ok in blast)
qed

section \<open>Sample sources\<close>

lemma put_rows:
  assumes "put_at_key s nonce k v l r a PolicyCommitTs = (Inr oc, s')" "\<not> replayed oc" "revision_mode s = CommitTs"
  shows "kv_metadata_in_tx (backend s') k' =
      (if k' = k then Some (put_meta (kv_metadata_in_tx (backend s) k) r l) else kv_metadata_in_tx (backend s) k')"
    "meta_clean s \<Longrightarrow> meta_clean s'" "last_applied_decision_ts s' = last_applied_decision_ts s"
    "changelog_contains_revision s' r' \<longleftrightarrow> r' = r \<or> changelog_contains_revision s r'"
proof -
  have pol: "policy_matches (revision_mode s) PolicyCommitTs" using assms(3) by (simp add: policy_matches_def)
  obtain d e d1 where d: "accept_revision (revision_mode s) (backend s) r PolicyCommitTs = Inr d1"
    "d = put_applied (put_event (put_metadata (tx_insert d1 T_kv (encode_kv_key k) e) k (put_meta (kv_metadata_in_tx d1 k) r l))
      \<lparr>ev_revision = r, ev_changes = [\<lparr>ch_key = k, ch_value = Some v, ch_prev_value = None\<rparr>], ev_event_type = Put\<rparr>) a"
    "s' = s\<lparr>backend := d\<rparr>"
    using put_at_key_applied [OF assms(1,2)] by (auto simp: put_tx_def Let_def put_meta_def)
  then have d1: "d1 = tx_insert (backend s) T_meta META_CURRENT_REVISION (u64_bytes r)"
    by (auto simp: accept_revision_Inr [OF pol] split: if_splits)
  show meta: "kv_metadata_in_tx (backend s') k' =
      (if k' = k then Some (put_meta (kv_metadata_in_tx (backend s) k) r l) else kv_metadata_in_tx (backend s) k')" for k'
    by (simp add: d(2,3) d1 row_simps)
  show "meta_clean s \<Longrightarrow> meta_clean s'"
    unfolding meta_clean_def meta by (auto simp: d(2,3) d1 table_simps put_metadata_def)
  show "last_applied_decision_ts s' = last_applied_decision_ts s"
    using kv_key_not_register(4) [of k, symmetric]
    by (simp add: last_applied_decision_ts_def read_u64_row_def d(2,3) d1 table_simps)
  show "changelog_contains_revision s' r' \<longleftrightarrow> r' = r \<or> changelog_contains_revision s r'"
    by (auto simp: changelog_contains_revision_def d(2,3) d1 table_simps)
qed

lemma meta_clean_fresh: "meta_clean (fresh mode)"
  by (simp add: meta_clean_def new_with_revision_mode_def)

text \<open>A put that goes through on a store without a barrier.\<close>

definition put_on :: "MvccStorage \<Rightarrow> bytes \<Rightarrow> bytes \<Rightarrow> i64 option \<Rightarrow> u64 \<Rightarrow> MvccStorage \<Rightarrow> bool" where
  "put_on s k v l r s' \<longleftrightarrow>
    (barrier s' = None \<and> put_at_key s [] k v l r (standalone r) PolicyCommitTs = (Inr \<lparr>replayed = False\<rparr>, s'))"

lemma put_onD:
  assumes "put_on s k v l r s'" "mvcc_ok s" "meta_clean s" "revision_mode s = CommitTs"
  shows "region_step s s'" "mvcc_ok s'" "meta_clean s'" "revision_mode s' = CommitTs" "barrier s' = None"
    "current_revision s' = r" "live s' = (live s)(k \<mapsto> v)"
    "kv_metadata_in_tx (backend s') k' =
      (if k' = k then Some (put_meta (kv_metadata_in_tx (backend s) k) r l) else kv_metadata_in_tx (backend s) k')"
    "last_applied_decision_ts s' = last_applied_decision_ts s"
    "changelog_contains_revision s' r' \<longleftrightarrow> r' = r \<or> changelog_contains_revision s r'"
proof -
  have run: "put_at_key s [] k v l r (standalone r) PolicyCommitTs = (Inr \<lparr>replayed = False\<rparr>, s')" and b': "barrier s' = None"
    using assms(1) by (simp_all add: put_on_def)
  have pol: "policy_matches (revision_mode s) PolicyCommitTs" using assms(4) by (simp add: policy_matches_def)
  have "barrier s' = barrier s" using put_at_key_applied [OF run] by auto
  then have b: "barrier_ok s []" using b' by (simp add: barrier_ok_def)
  note cd = committedD [OF put_at_key_committed [OF assms(2) pol b run]] and pr = put_rows [OF run _ assms(4)]
  show "region_step s s'" by (rule rs_put [OF b run])
  show "mvcc_ok s'" "revision_mode s' = CommitTs" "barrier s' = None" "current_revision s' = r" "live s' = (live s)(k \<mapsto> v)"
    using cd assms(4) b' by simp_all
  show "meta_clean s'" "kv_metadata_in_tx (backend s') k' =
      (if k' = k then Some (put_meta (kv_metadata_in_tx (backend s) k) r l) else kv_metadata_in_tx (backend s) k')"
    "last_applied_decision_ts s' = last_applied_decision_ts s"
    "changelog_contains_revision s' r' \<longleftrightarrow> r' = r \<or> changelog_contains_revision s r'"
    using pr assms(3) by simp_all
qed

lemma put_on_exists:
  assumes "revision_mode s = CommitTs" "barrier s = None" "current_revision s < r" "\<not> changelog_contains_revision s r"
  shows "\<exists>s'. put_on s k v l r s'"
proof -
  have pol: "policy_matches (revision_mode s) PolicyCommitTs" using assms(1) by (simp add: policy_matches_def)
  have "encrypt_value s [] (encode_kv_key k) v = Inr v" using assms(2) by (simp add: encrypt_value_def)
  from put_at_key_succeeds [OF assms(3,4) pol this, of l "standalone r"] obtain s' where
    run: "put_at_key s [] k v l r (standalone r) PolicyCommitTs = (Inr \<lparr>replayed = False\<rparr>, s')" by blast
  have "barrier s' = None" using put_at_key_applied [OF run] assms(2) by auto
  then show ?thesis using run by (auto simp: put_on_def)
qed

text \<open>Without a pending decision a move reads the source from its second access on.\<close>

lemma import_pages_loop_cong:
  assumes "\<And>u. t \<le> u \<Longrightarrow> u < t + 2 * fuel \<Longrightarrow> source u = source' u"
  shows "import_pages_loop fuel env source t T start end0 seal0 after w = import_pages_loop fuel env source' t T start end0 seal0 after w"
  using assms
proof (induction fuel arbitrary: t T after w)
  case (Suc fuel)
  have now: "source t = source' t" "source (Suc t) = source' (Suc t)" using Suc.prems by simp_all
  have later: "import_pages_loop fuel env source (Suc (Suc t)) T start end0 seal0 after w =
      import_pages_loop fuel env source' (Suc (Suc t)) T start end0 seal0 after w" for T after w
    using Suc.IH [of "Suc (Suc t)"] Suc.prems by simp
  show ?case unfolding import_pages_loop.simps now later ..
qed simp

lemma import_pages_quiet_cong:
  assumes "\<And>u. 2 \<le> u \<Longrightarrow> u < 2 + 2 * fuel \<Longrightarrow> source u = S"
  shows "import_pages fuel 0 (quiet_env n) source T start end0 seal0 None =
    import_pages fuel 0 (quiet_env n) (\<lambda>_. S) T start end0 seal0 None"
  using import_pages_loop_cong [of 2 fuel source "\<lambda>_. S"] assms
  by (simp add: import_pages_def quiet_env_def decision_pending_def eval_nat_numeral split: sum.split prod.split)

section \<open>What a move delivers\<close>

text \<open>C5: A range move carries one snapshot. While puts, deletes, range deletes, second-version lease
  deletions, decision batches, watermarks, fences, trims and compactions keep changing the
  source between the accesses of the migrator, a move that succeeds leaves the target, on the
  moved range, with exactly the values and metadata the source had at the reported watermark;
  keys outside the range are untouched.\<close>

theorem range_move_exact:
  assumes "mvcc_ok (source 0)" "revision_mode (source 0) = CommitTs" "\<And>t. region_step\<^sup>*\<^sup>* (source t) (source (Suc t))"
    and "mvcc_ok target" "revision_mode target = CommitTs" "\<And>t i. barrier_ok target (ie_nonces env t i)"
    and "expected = None \<or> (\<exists>t. expected = Some (current_revision (source t)))"
    and "import_pages fuel polls env source target start end0 seal0 expected = Some (Inr w, target')"
  shows "\<exists>t. w = current_revision (source t) \<and> mvcc_ok target' \<and>
    (\<forall>k. get target' k = (if start \<le> k \<and> (end0 = [] \<or> k < end0) then get (source t) k else get target k)) \<and>
    (\<forall>k. start \<le> k \<and> (end0 = [] \<or> k < end0) \<and> get (source t) k \<noteq> Inr None \<longrightarrow>
       get_kv_metadata target' k = get_kv_metadata (source t) k)"
proof -
  have src: "source_ok source" by (rule region_run_source [OF assms(1-3)])
  obtain t where t: "w = current_revision (source t)" "moved target (source t) target' start end0 (\<lambda>_. False)"
    using import_pages_moved [OF src assms(4-8)] by blast
  have ok: "mvcc_ok (source t)" "mvcc_ok target'" using src t(2) by (simp_all add: source_ok_def moved_def)
  show ?thesis
    using t ok(2) by (intro exI [of _ t]) (simp add: moved_def in_part_def get_live [OF ok(1)] get_live [OF ok(2)]
        get_live [OF assms(4)] get_kv_metadata_def)
qed

theorem range_move_exact_witness:
  "\<exists>source target'. get (source 0) [1] = Inr None \<and> get (source 2) [1] = Inr (Some [10]) \<and> get (source 9) [1] = Inr (Some [20]) \<and>
    import_pages 2 0 (quiet_env 1) source (fresh CommitTs) [] [] True None = Some (Inr 5, target') \<and>
    get target' [1] = Inr (Some [10])"
proof -
  let ?f = "fresh CommitTs"
  have f: "revision_mode ?f = CommitTs" "meta_clean ?f" "mvcc_ok ?f" by (simp_all add: meta_clean_fresh mvcc_ok_new)
  have "\<exists>s. put_on ?f [1] [10] None 5 s" by (rule put_on_exists) simp_all
  then obtain s where "put_on ?f [1] [10] None 5 s" ..
  note s = put_onD [OF this f(3,2,1)]
  have "\<exists>s'. put_on s [1] [20] None 7 s'"
    by (rule put_on_exists) (simp_all add: s(4-6,10) word_less_nat_alt)
  then obtain s' where "put_on s [1] [20] None 7 s'" ..
  note s' = put_onD(1,2,6,7) [OF this s(2-4)]
  let ?src = "\<lambda>t::nat. if t = 0 then ?f else if t < 6 then s else s'"
  have l: "live ?f = Map.empty" by (simp add: fun_eq_iff live_def)
  have "kv_metadata_in_tx (backend ?f) [1] = None" by (simp add: kv_metadata_in_tx_def new_with_revision_mode_def)
  then have m: "kv_metadata_in_tx (backend s) [1] = Some (new_key 5 0)" by (simp add: s(8) put_meta_def)
  have "last_applied_decision_ts ?f = 0"
    by (simp add: last_applied_decision_ts_def read_u64_row_def new_with_revision_mode_def)
  then have z: "last_applied_decision_ts s = 0" by (simp only: s(9))
  have "\<not> reserved_key [1]" by (simp add: reserved_key_def ascii_def)
  then obtain T where "import_pages 2 0 (quiet_env 1) (\<lambda>_. s) ?f [] [] True None = Some (Inr 5, T)"
    using quiet_move [OF s(2,3,6) _ m z] s(7) l by auto
  then have run: "import_pages 2 0 (quiet_env 1) ?src ?f [] [] True None = Some (Inr 5, T)"
    using import_pages_quiet_cong [of 2 ?src s 1 ?f] by simp
  have b: "barrier_ok ?f (ie_nonces (quiet_env 1) t i)" for t i by simp
  have "region_step\<^sup>*\<^sup>* (?src t) (?src (Suc t))" for t
    using s(1) s'(1) by (auto intro: r_into_rtranclp)
  then obtain t where "5 = current_revision (?src t)" "get T [1] = get (?src t) [1]"
    using range_move_exact [of ?src ?f "quiet_env 1" None 2 0 "[]" "[]" True 5 T] run b by (auto simp: mvcc_ok_new)
  then have "get T [1] = get s [1]" using s'(3) by (auto split: if_splits)
  then show ?thesis using run
    by (intro exI [of _ ?src] exI [of _ T]) (simp add: get_live [OF s(2)] get_live [OF s'(2)] s(7) s'(4) l)
qed

text \<open>A live key that starts with \<open>/_\<close> blocks every move of a range around it: the export
  hands it out, the import refuses the page, and no move over it succeeds.\<close>

theorem reserved_key_blocks_move:
  assumes "mvcc_ok (source 0)" "revision_mode (source 0) = CommitTs" "\<And>t. region_step\<^sup>*\<^sup>* (source t) (source (Suc t))"
    and "mvcc_ok target" "revision_mode target = CommitTs" "\<And>t i. barrier_ok target (ie_nonces env t i)"
    and "expected = None \<or> (\<exists>t. expected = Some (current_revision (source t)))"
    and "reserved_key k" "start \<le> k" "end0 = [] \<or> k < end0" "\<And>t. get (source t) k \<noteq> Inr None"
  shows "import_pages fuel polls env source target start end0 seal0 expected \<noteq> Some (Inr w, target')"
proof
  assume run: "import_pages fuel polls env source target start end0 seal0 expected = Some (Inr w, target')"
  have src: "source_ok source" by (rule region_run_source [OF assms(1-3)])
  obtain t where t: "\<forall>k. in_part start end0 k \<and> live (source t) k \<noteq> None \<longrightarrow> \<not> reserved_key k"
    using import_pages_moved [OF src assms(4-7) run] by blast
  have ok: "mvcc_ok (source t)" using src by (simp add: source_ok_def)
  have "live (source t) k \<noteq> None" using assms(11) [of t] by (simp add: get_live [OF ok])
  then show False using t assms(8-10) by (auto simp: in_part_def)
qed

theorem reserved_key_blocks_move_witness:
  "\<exists>s. get s (ascii ''/_workflow'') = Inr (Some [10]) \<and>
    import_pages 9 9 (quiet_env 1) (\<lambda>_. s) (fresh CommitTs) [] [] True None \<noteq> Some (Inr 5, fresh CommitTs)"
proof -
  let ?k = "ascii ''/_workflow''" and ?f = "fresh CommitTs"
  have f: "revision_mode ?f = CommitTs" "meta_clean ?f" "mvcc_ok ?f" by (simp_all add: meta_clean_fresh mvcc_ok_new)
  have "\<exists>s. put_on ?f ?k [10] None 5 s" by (rule put_on_exists) simp_all
  then obtain s where "put_on ?f ?k [10] None 5 s" ..
  note s = put_onD [OF this f(3,2,1)]
  have g: "get s ?k = Inr (Some [10])" by (simp add: get_live [OF s(2)] s(7))
  have b: "barrier_ok ?f (ie_nonces (quiet_env 1) t i)" for t i by simp
  have "reserved_key ?k" by (simp add: reserved_key_def ascii_def)
  then show ?thesis
    using reserved_key_blocks_move [of "\<lambda>_. s" ?f "quiet_env 1" None ?k "[]" "[]"] s(2,4) f b g
    by (intro exI [of _ s]) simp
qed

section \<open>The first lease protocol\<close>

text \<open>In a data region the key deletion of the first protocol leaves the revision where it was.\<close>

lemma lease_delete_meta_clean:
  "lease_delete_loop lid r d acc rs = (dels, d') \<Longrightarrow> meta_clean (s\<lparr>backend := d\<rparr>) \<Longrightarrow> meta_clean (s\<lparr>backend := d'\<rparr>)"
proof (induction rs arbitrary: d acc)
  case (Cons row rs)
  obtain mk mv where row: "row = (mk, mv)" by fastforce
  have put: "meta_clean (s\<lparr>backend := put_metadata d k m\<rparr>)" for k m
  proof -
    have "tx_get (put_metadata d k m) T_kv_meta (encode_kv_meta_key k') = None \<longleftrightarrow>
        k' \<noteq> k \<and> tx_get d T_kv_meta (encode_kv_meta_key k') = None" for k'
      by (simp add: put_metadata_def table_simps)
    then show ?thesis using Cons.prems(2) unfolding meta_clean_def by (simp add: row_simps)
  qed
  show ?case
    using Cons.IH Cons.prems put by (auto simp: row Let_def split: option.splits if_splits)
qed simp

lemma lease_cleanup_region:
  assumes ok: "mvcc_ok S" "meta_clean S" "revision_mode S = CommitTs"
    and run: "apply_delete_keys_by_lease S lid r a = (Inr (oc, cs), S')" "\<not> replayed oc"
  shows "mvcc_ok S'" "meta_clean S'" "current_revision S' = current_revision S"
    "live S' k = (if bound_key lid (backend S) k then None else live S k)"
proof -
  obtain dels d where del: "delete_keys_by_lease_in_tx (backend S) lid r = (dels, d)" by fastforce
  let ?d = "put_applied (put_event d \<lparr>ev_revision = r, ev_changes = map tombstone_change dels, ev_event_type = Lease\<rparr>) a"
  have S': "S' = S\<lparr>backend := ?d\<rparr>"
    using run del ok(3)
    by (auto simp: apply_delete_keys_by_lease_def write_store_def backend_write_def Let_def note_log_index_revision_def
        split: if_splits)
  have ok0: "mvcc_ok (S\<lparr>backend := backend S\<rparr>)" using ok(1) by simp
  note kv = kv_stepD [OF kv_step_lease [OF ok0 del]] and sp = delete_keys_by_lease_spec [OF mvcc_okD(1) [OF ok(1)] del]
  have row: "tx_get ?d t k = tx_get d t k" if "t \<noteq> T_meta" "t \<noteq> T_changelog" for t k using that by (simp add: table_simps)
  have meta: "kv_metadata_in_tx ?d k = kv_metadata_in_tx d k" for k by (simp add: kv_metadata_in_tx_def row)
  note fr = mvcc_ok_frame [OF kv(1), where d' = ?d]
  show "mvcc_ok S'" using fr(1) sp(4) meta by (simp add: S' row)
  have "live S' = apply_changes (live S) (map tombstone_change dels)" using fr(2) sp(4) meta kv(2) by (simp add: S' row)
  then show "live S' k = (if bound_key lid (backend S) k then None else live S k)"
    by (simp add: apply_tombstones sp(1) lease_keys_of_iff [OF mvcc_okD(1) [OF ok(1)]])
  have "meta_clean (S\<lparr>backend := d\<rparr>)"
    using lease_delete_meta_clean [OF del [unfolded delete_keys_by_lease_in_tx_def], of S] ok(2) by simp
  then show "meta_clean S'" by (simp add: meta_clean_def S' meta row)
  have "tx_get ?d T_meta META_CURRENT_REVISION = tx_get (backend S) T_meta META_CURRENT_REVISION"
    by (simp add: table_simps sp(3))
  then have "current_revision_in_tx ?d CommitTs = current_revision_in_tx (backend S) CommitTs" by (rule current_revision_row)
  then show "current_revision S' = current_revision S" using ok(3) by (simp add: S' current_revision_eq)
qed

lemma two_part_keys:
  assumes "mvcc_ok S" "live S = [a \<mapsto> va, b \<mapsto> vb]" "a < b"
  shows "part_keys S [] [] = [a, b]"
proof (rule strict_sorted_unique [OF part_keys_spec(1) [OF assms(1)]])
  show "set (part_keys S [] []) = set [a, b]"
    by (rule set_eqI) (auto simp: part_keys_spec(2) [OF assms(1)] assms(2) in_part_def)
qed (use assms(3) in simp)

text \<open>The two pages of a move across it.\<close>

lemma torn_first_page:
  assumes S: "mvcc_ok S" "meta_clean S" "live S = [a \<mapsto> va, b \<mapsto> vb]" "a < b"
    and imp: "\<And>k. live S k \<noteq> None \<Longrightarrow> importable [] [] (current_revision S) (row_of S k)"
    and clr: "clear_imported_range (fresh CommitTs) [] [] p = (res, T1)"
  shows "export_range_page S [] [] None 1 None =
      Inr \<lparr>pg_rows = [row_of S a], pg_next_after = Some a, pg_revision = current_revision S\<rparr>"
    "\<exists>n T2. apply_range_import pc T1 (\<lambda>_. []) [] [] [row_of S a] (current_revision S) True False q = (Inr n, T2) \<and>
      mvcc_ok T2 \<and> barrier T2 = None \<and> revision_mode T2 = CommitTs \<and> live T2 a = Some va \<and> live T2 b = None"
proof -
  let ?f = "fresh CommitTs" and ?w = "current_revision S"
  note keys = two_part_keys [OF S(1,3,4)]
  have low: "export_lower [] None = []" by (simp add: export_lower_def)
  show "export_range_page S [] [] None 1 None = Inr \<lparr>pg_rows = [row_of S a], pg_next_after = Some a, pg_revision = ?w\<rparr>"
    using export_range_page_eq [OF S(1) disjI1 [OF S(2)], of "[]" None None "[]" 1] by (simp add: low keys)
  note cl = clear_imported_range_spec [OF mvcc_ok_new _ clr]
  have mv: "moved ?f S T1 [] [] (\<lambda>_. True)"
    unfolding moved_def using cl by (simp add: in_part_def)
  have b: "barrier_ok ?f []" by simp
  have pa: "True \<and> importable [] [] ?w (row_of S k)" if "k \<in> set [a]" for k using that imp [of a] S(3) by simp
  have "\<exists>n T'. apply_range_import pc T1 (\<lambda>_. []) [] [] (map (row_of S) [a]) ?w True False q = (Inr n, T')"
    by (rule import_page_succeeds [OF mv _ _ pa]) simp_all
  then obtain n T2 where run: "apply_range_import pc T1 (\<lambda>_. []) [] [] (map (row_of S) [a]) ?w True False q = (Inr n, T2)" by blast
  have "moved ?f S T2 [] [] (\<lambda>k. k \<noteq> a)"
    by (rule moved_page [OF mv b S(1) _ _ _ _ run, where rest = "{a}"]) (simp_all add: in_part_def S(3))
  then have T2: "mvcc_ok T2" "barrier T2 = None" "revision_mode T2 = CommitTs" "live T2 a = Some va"
    "kv_metadata_in_tx (backend T2) b = None"
    using S(3,4) by (auto simp: moved_def in_part_def)
  then show "\<exists>n T2. apply_range_import pc T1 (\<lambda>_. []) [] [] [row_of S a] ?w True False q = (Inr n, T2) \<and>
      mvcc_ok T2 \<and> barrier T2 = None \<and> revision_mode T2 = CommitTs \<and> live T2 a = Some va \<and> live T2 b = None"
    using run live_no_meta [OF T2(1,5)] by auto
qed

lemma torn_second_page:
  assumes S: "mvcc_ok S" "meta_clean S" "live S = Map.empty"
    and T: "mvcc_ok T" "barrier T = None" "revision_mode T = CommitTs"
  shows "export_range_page S [] [] (Some a) 1 (Some (current_revision S)) =
      Inr \<lparr>pg_rows = [], pg_next_after = None, pg_revision = current_revision S\<rparr>"
    "\<exists>n T'. apply_range_import pc T (\<lambda>_. []) [] [] [] w True True q = (Inr n, T') \<and> mvcc_ok T' \<and> live T' = live T"
proof -
  have "part_keys S l [] = []" for l
    using part_keys_spec(2) [OF S(1), of _ l "[]"] S(3) by (cases "part_keys S l []") auto
  then show "export_range_page S [] [] (Some a) 1 (Some (current_revision S)) =
      Inr \<lparr>pg_rows = [], pg_next_after = None, pg_revision = current_revision S\<rparr>"
    using export_range_page_eq [OF S(1) disjI1 [OF S(2)], of "[]" "Some a" "Some (current_revision S)" "[]" 1] by simp
  obtain n T' where run: "apply_range_import pc T (\<lambda>_. []) [] [] [] w True True q = (Inr n, T')"
    using T(3) by (simp add: apply_range_import_def import_tx_def write_store_def backend_write_def Let_def)
  have b: "barrier_ok T []" using T(2) by (simp add: barrier_ok_def)
  show "\<exists>n T'. apply_range_import pc T (\<lambda>_. []) [] [] [] w True True q = (Inr n, T') \<and> mvcc_ok T' \<and> live T' = live T"
    using apply_range_import_spec(3,6) [OF T(1) b run] run by (auto simp: merge_rows_def)
qed

text \<open>So a move does not see it. The source holds two keys of one lease, the deletion comes between
  the two pages, and the move succeeds at a revision where the source first held both keys and then
  neither: the target holds one of them.\<close>

theorem lease_cleanup_tears_move:
  assumes S: "mvcc_ok S" "meta_clean S" "revision_mode S = CommitTs" "live S = [a \<mapsto> va, b \<mapsto> vb]" "a < b"
    and imp: "\<And>k. live S k \<noteq> None \<Longrightarrow> importable [] [] (current_revision S) (row_of S k) \<and> bound_key lid (backend S) k"
    and run: "apply_delete_keys_by_lease S lid r applied = (Inr (oc, cs), S')" "\<not> replayed oc"
  shows "current_revision S' = current_revision S \<and> get S' a = Inr None \<and> get S' b = Inr None \<and>
    (\<exists>target'. import_pages 2 0 (quiet_env 1) (\<lambda>t. if t \<le> 3 then S else S') (fresh CommitTs) [] [] True None =
        Some (Inr (current_revision S), target') \<and>
      get target' a = Inr (Some va) \<and> get target' b = Inr None)"
proof -
  let ?f = "fresh CommitTs" and ?w = "current_revision S" and ?E = "quiet_env 1"
  note lc = lease_cleanup_region [OF S(1-3) run]
  have gone: "live S' = Map.empty"
  proof
    fix k show "live S' k = None" using imp [of k] lc(4) [of k] by (cases "live S k") auto
  qed
  obtain res T1 where clr: "clear_imported_range ?f [] [] (ie_appl ?E 0) = (res, T1)" by fastforce
  have ok: "\<exists>n. res = Inr n" using clear_imported_range_spec(6) [OF mvcc_ok_new _ clr] by simp
  note p1 = torn_first_page [OF S(1,2,4,5) conjunct1 [OF imp] clr]
  obtain n T2 where T2: "apply_range_import (ie_pc ?E) T1 (\<lambda>_. []) [] [] [row_of S a] ?w True False (ie_appl ?E 2) = (Inr n, T2)"
    "mvcc_ok T2" "barrier T2 = None" "revision_mode T2 = CommitTs" "live T2 a = Some va" "live T2 b = None"
    using p1(2) by blast
  note p2 = torn_second_page [OF lc(1,2) gone T2(2-4)]
  obtain n' T3 where T3: "apply_range_import (ie_pc ?E) T2 (\<lambda>_. []) [] [] [] ?w True True (ie_appl ?E 4) = (Inr n', T3)"
    "mvcc_ok T3" "live T3 = live T2" using p2(2) by blast
  have "import_pages 2 0 ?E (\<lambda>t. if t \<le> 3 then S else S') ?f [] [] True None = Some (Inr ?w, T3)"
    using ok p1(1) T2(1) p2(1) [unfolded lc(3)] T3(1) clr
    by (auto simp: import_pages_def quiet_env_def decision_pending_def require_no_pending_decision_def eval_nat_numeral Let_def)
  then show ?thesis
    using T2(5,6) T3(2,3) lc(1,3) gone by (simp add: get_live [OF lc(1)] get_live [OF T3(2)])
qed

theorem lease_cleanup_tears_move_witness:
  "\<exists>S S' target'. current_revision S' = current_revision S \<and> get S [2] = Inr (Some [20]) \<and> get S' [1] = Inr None \<and>
    import_pages 2 0 (quiet_env 1) (\<lambda>t. if t \<le> 3 then S else S') (fresh CommitTs) [] [] True None = Some (Inr 6, target') \<and>
    get target' [1] = Inr (Some [10]) \<and> get target' [2] = Inr None"
proof -
  let ?f = "fresh CommitTs"
  have f: "revision_mode ?f = CommitTs" "meta_clean ?f" "mvcc_ok ?f" by (simp_all add: meta_clean_fresh mvcc_ok_new)
  have "\<exists>s. put_on ?f [1] [10] (Some 7) 5 s" by (rule put_on_exists) simp_all
  then obtain s where "put_on ?f [1] [10] (Some 7) 5 s" ..
  note s = put_onD [OF this f(3,2,1)]
  have "\<exists>S. put_on s [2] [20] (Some 7) 6 S" by (rule put_on_exists) (simp_all add: s(4-6,10) word_less_nat_alt)
  then obtain S where "put_on s [2] [20] (Some 7) 6 S" ..
  note S = put_onD [OF this s(2-4)]
  have m0: "kv_metadata_in_tx (backend ?f) k = None" for k by (simp add: kv_metadata_in_tx_def new_with_revision_mode_def)
  have m: "kv_metadata_in_tx (backend S) [1] = Some (new_key 5 7)" "kv_metadata_in_tx (backend S) [2] = Some (new_key 6 7)"
    by (simp_all add: S(8) s(8) m0 put_meta_def)
  have "live ?f = Map.empty" by (simp add: fun_eq_iff live_def)
  then have l: "live S = [[1] \<mapsto> [10], [2] \<mapsto> [20]]" by (simp add: S(7) s(7))
  have imp: "importable [] [] (current_revision S) (row_of S k) \<and> bound_key 7 (backend S) k" if "live S k \<noteq> None" for k
    using that by (auto simp: l m S(6) importable_def row_of_def in_part_def new_key_def bound_key_def reserved_key_def ascii_def
        word_le_nat_alt split: if_splits)
  have new: "\<not> changelog_contains_revision S 9" by (simp add: S(10) s(10))
  obtain dels d where "delete_keys_by_lease_in_tx (note_log_index_revision (revision_mode S) (backend S) 9) 7 9 = (dels, d)"
    by fastforce
  then obtain cs S' where run: "apply_delete_keys_by_lease S 7 9 (standalone 9) = (Inr (\<lparr>replayed = False\<rparr>, cs), S')"
    using new by (simp add: apply_delete_keys_by_lease_def write_store_def backend_write_def Let_def)
  have two: "get S [2] = Inr (Some [20])" by (simp add: get_live [OF S(2)] l)
  have "[1] < [2 :: 8 word]" "\<not> replayed \<lparr>replayed = False\<rparr>" by simp_all
  note torn = lease_cleanup_tears_move [OF S(2-4) l this(1) imp run this(2), unfolded S(6)]
  then obtain T where T: "import_pages 2 0 (quiet_env 1) (\<lambda>t. if t \<le> 3 then S else S') ?f [] [] True None = Some (Inr 6, T)"
    "get T [1] = Inr (Some [10])" "get T [2] = Inr None" by blast
  show ?thesis
    by (rule exI [of _ S], rule exI [of _ S'], rule exI [of _ T]) (use T two torn S(6) in simp)
qed

end
