(* ===== verification/Commit_Shards.thy ===== *)
theory Commit_Shards
  imports Decision_Apply
begin

text \<open>
  The shards of the commit log: the table of region 0 that divides the commit
  timestamps among the shard groups (\<open>coord-server/src/storage/commit_log_shard.rs\<close>),
  its stored command (\<open>coord-server/src/storage/mvcc.rs\<close>), and the coordinator that
  ships the outbox of every region to the shards, computes the watermark and moves
  the table on (\<open>coord-server/src/kvt/commit_log_shards.rs\<close>). The postcard crate is
  the parameter \<open>pc\<close>. The assembly of a shard's Raft group is the parameter
  \<open>ensure_runtime\<close>: the store of the group, or the error. A write through a Raft
  group is \<open>raft i\<close>: the log position of the \<open>i\<close>th proposal, or the error of the write.
\<close>

section \<open>The shard table\<close>

definition COMMIT_LOG_SHARD_TABLE_KEY :: bytes where
  "COMMIT_LOG_SHARD_TABLE_KEY = ascii ''/_sys/commit_log/shards''"

record CommitLogShardMeta =
  sm_shard_id :: u64
  sm_start_ts :: u64
  sm_end_ts :: u64
  sm_opened_at_ms :: u64
  sm_ended_at_ms :: u64
  sm_sealed_at_ms :: u64

definition shard_covers :: "CommitLogShardMeta \<Rightarrow> u64 \<Rightarrow> bool" where
  "shard_covers meta ts \<longleftrightarrow> sm_start_ts meta \<le> ts \<and> (sm_end_ts meta = 0 \<or> ts < sm_end_ts meta)"

record CommitLogShardTable =
  ct_shards :: "CommitLogShardMeta list"
  ct_gc_before_ts :: u64

definition empty_shard_table :: CommitLogShardTable where
  "empty_shard_table = \<lparr>ct_shards = [], ct_gc_before_ts = 0\<rparr>"

fun validate_shards :: "nat \<Rightarrow> CommitLogShardMeta list \<Rightarrow> unit result" where
  "validate_shards index [] = Inr ()"
| "validate_shards index (meta # metas) =
    (if sm_start_ts meta = 0 then Inl Storage
     else if sm_shard_id meta \<noteq> of_nat index + 1 then Inl Storage
     else if sm_end_ts meta \<noteq> 0 \<and> sm_end_ts meta \<le> sm_start_ts meta then Inl Storage
     else
       bind_result
         (case metas of
            [] \<Rightarrow> Inr ()
          | next_meta # _ \<Rightarrow>
              (if sm_end_ts meta = 0 then Inl Storage
               else if sm_start_ts next_meta \<noteq> sm_end_ts meta then Inl Storage
               else Inr ()))
         (\<lambda>_. validate_shards (Suc index) metas))"

definition shard_table_validate :: "CommitLogShardTable \<Rightarrow> unit result" where
  "shard_table_validate table =
    bind_result (validate_shards 0 (ct_shards table)) (\<lambda>_.
      if ct_gc_before_ts table \<noteq> 0 \<and> \<not> (\<exists>meta \<in> set (ct_shards table). sm_end_ts meta = ct_gc_before_ts table)
      then Inl Storage else Inr ())"

definition shard_table_encode :: "CommitLogShardTable postcard \<Rightarrow> CommitLogShardTable \<Rightarrow> bytes result" where
  "shard_table_encode pc table = ok_or Storage (to_allocvec pc table)"

definition shard_table_decode :: "CommitLogShardTable postcard \<Rightarrow> bytes \<Rightarrow> CommitLogShardTable result" where
  "shard_table_decode pc bs =
    bind_result (ok_or Storage (take_from_bytes pc bs)) (\<lambda>(table, remainder).
      if remainder \<noteq> [] then Inl Storage
      else bind_result (shard_table_validate table) (\<lambda>_. Inr table))"

definition covering :: "CommitLogShardTable \<Rightarrow> u64 \<Rightarrow> CommitLogShardMeta option" where
  "covering table ts = find (\<lambda>meta. shard_covers meta ts) (ct_shards table)"

definition shard_latest :: "CommitLogShardTable \<Rightarrow> CommitLogShardMeta option" where
  "shard_latest table = (if ct_shards table = [] then None else Some (List.last (ct_shards table)))"

text \<open>An operation answers whether it changed the table; a refused one leaves it.\<close>

definition shard_open :: "CommitLogShardTable \<Rightarrow> u64 \<Rightarrow> u64 \<Rightarrow> (bool \<times> CommitLogShardTable) result" where
  "shard_open table first_start_ts now_ms =
    (let opened = (\<lambda>shard_id start_ts. Inr (True, table\<lparr>ct_shards := ct_shards table @
           [\<lparr>sm_shard_id = shard_id, sm_start_ts = start_ts, sm_end_ts = 0, sm_opened_at_ms = now_ms,
             sm_ended_at_ms = 0, sm_sealed_at_ms = 0\<rparr>]\<rparr>))
     in case shard_latest table of
          Some lst \<Rightarrow>
            (if sm_end_ts lst = 0 then Inr (False, table) else opened (sm_shard_id lst + 1) (sm_end_ts lst))
        | None \<Rightarrow> (if first_start_ts = 0 then Inl InvalidArgument else opened 1 first_start_ts))"

definition shard_set_end ::
    "CommitLogShardTable \<Rightarrow> u64 \<Rightarrow> u64 \<Rightarrow> u64 \<Rightarrow> (bool \<times> CommitLogShardTable) result" where
  "shard_set_end table shard_id end_ts now_ms =
    (case shard_latest table of
       None \<Rightarrow> Inl InvalidArgument
     | Some lst \<Rightarrow>
         (if sm_shard_id lst \<noteq> shard_id then Inl InvalidArgument
          else if sm_end_ts lst \<noteq> 0 then Inr (False, table)
          else if end_ts \<le> sm_start_ts lst then Inl InvalidArgument
          else Inr (True, table\<lparr>ct_shards := butlast (ct_shards table) @
                 [lst\<lparr>sm_end_ts := end_ts, sm_ended_at_ms := now_ms\<rparr>]\<rparr>)))"

fun update_first :: "('a \<Rightarrow> bool) \<Rightarrow> ('a \<Rightarrow> 'a) \<Rightarrow> 'a list \<Rightarrow> 'a list" where
  "update_first P f [] = []"
| "update_first P f (x # xs) = (if P x then f x # xs else x # update_first P f xs)"

definition shard_seal :: "CommitLogShardTable \<Rightarrow> u64 \<Rightarrow> u64 \<Rightarrow> (bool \<times> CommitLogShardTable) result" where
  "shard_seal table shard_id now_ms =
    (case find (\<lambda>meta. sm_shard_id meta = shard_id) (ct_shards table) of
       None \<Rightarrow> Inl InvalidArgument
     | Some meta \<Rightarrow>
         (if sm_end_ts meta = 0 then Inl InvalidArgument
          else if sm_sealed_at_ms meta \<noteq> 0 then Inr (False, table)
          else Inr (True, table\<lparr>ct_shards :=
                 update_first (\<lambda>meta. sm_shard_id meta = shard_id) (sm_sealed_at_ms_update (\<lambda>_. now_ms)) (ct_shards table)\<rparr>)))"

definition is_reclaimed :: "CommitLogShardTable \<Rightarrow> CommitLogShardMeta \<Rightarrow> bool" where
  "is_reclaimed table meta \<longleftrightarrow> sm_end_ts meta \<noteq> 0 \<and> sm_end_ts meta \<le> ct_gc_before_ts table"

definition live_shards :: "CommitLogShardTable \<Rightarrow> CommitLogShardMeta list" where
  "live_shards table = filter (\<lambda>meta. \<not> is_reclaimed table meta) (ct_shards table)"

definition advance_gc :: "CommitLogShardTable \<Rightarrow> u64 \<Rightarrow> (bool \<times> CommitLogShardTable) result" where
  "advance_gc table through_ts =
    (if through_ts = 0 \<or> through_ts \<le> ct_gc_before_ts table then Inr (False, table)
     else if \<not> (\<exists>meta \<in> set (ct_shards table). sm_end_ts meta = through_ts) then Inl InvalidArgument
     else if \<exists>meta \<in> set (ct_shards table). sm_end_ts meta \<noteq> 0 \<and> sm_end_ts meta \<le> through_ts \<and> sm_sealed_at_ms meta = 0
     then Inl InvalidArgument
     else Inr (True, table\<lparr>ct_gc_before_ts := through_ts\<rparr>))"

section \<open>Thresholds\<close>

text \<open>The products are taken over \<open>u128\<close> and do not wrap; they are natural numbers here.\<close>

definition split_end_ts :: "u64 \<Rightarrow> u64 \<Rightarrow> u64 \<Rightarrow> u64" where
  "split_end_ts ship_cursor_ts sequencer_last_ts start_ts =
    sat_add64 (max (max ship_cursor_ts sequencer_last_ts) start_ts) 1"

definition precreate_due :: "u64 \<Rightarrow> u64 \<Rightarrow> u64 \<Rightarrow> u64 \<Rightarrow> bool" where
  "precreate_due record_count age_ms shard_records shard_secs \<longleftrightarrow>
    unat shard_records * 4 \<le> unat record_count * 5 \<or> unat shard_secs * 1000 * 4 \<le> unat age_ms * 5"

definition seal_due :: "u64 \<Rightarrow> u64 \<Rightarrow> u64 \<Rightarrow> u64 \<Rightarrow> bool" where
  "seal_due record_count age_ms shard_records shard_secs \<longleftrightarrow>
    shard_records \<le> record_count \<or> unat shard_secs * 1000 \<le> unat age_ms"

definition seal_timeout_due :: "u64 \<Rightarrow> u64 \<Rightarrow> u64 \<Rightarrow> bool" where
  "seal_timeout_due ended_at_ms now_ms timeout_secs \<longleftrightarrow>
    ended_at_ms \<noteq> 0 \<and> unat ended_at_ms + unat timeout_secs * 1000 \<le> unat now_ms"

definition gc_due :: "CommitLogShardMeta \<Rightarrow> u64 \<Rightarrow> u64 \<Rightarrow> u64 \<Rightarrow> bool" where
  "gc_due meta watermark now_ms retention_secs \<longleftrightarrow>
    sm_end_ts meta \<noteq> 0 \<and> sm_sealed_at_ms meta \<noteq> 0 \<and> sm_end_ts meta \<le> watermark \<and>
    unat (sm_sealed_at_ms meta) + unat retention_secs * 1000 \<le> unat now_ms"

fun gc_boundary_loop ::
    "CommitLogShardTable \<Rightarrow> u64 \<Rightarrow> u64 \<Rightarrow> u64 \<Rightarrow> CommitLogShardMeta list \<Rightarrow> u64 option \<Rightarrow> u64 option" where
  "gc_boundary_loop table watermark now_ms retention_secs [] through = through"
| "gc_boundary_loop table watermark now_ms retention_secs (meta # metas) through =
    (if is_reclaimed table meta then gc_boundary_loop table watermark now_ms retention_secs metas through
     else if \<not> gc_due meta watermark now_ms retention_secs then through
     else gc_boundary_loop table watermark now_ms retention_secs metas (Some (sm_end_ts meta)))"

definition gc_boundary :: "CommitLogShardTable \<Rightarrow> u64 \<Rightarrow> u64 \<Rightarrow> u64 \<Rightarrow> u64 option" where
  "gc_boundary table watermark now_ms retention_secs =
    gc_boundary_loop table watermark now_ms retention_secs (ct_shards table) None"

section \<open>The stored command\<close>

datatype CommitLogShardOp =
    ShardOpen u64 u64
  | ShardSetEnd u64 u64 u64
  | ShardSeal u64 u64
  | ShardGc u64

fun run_shard_op :: "CommitLogShardOp \<Rightarrow> CommitLogShardTable \<Rightarrow> (bool \<times> CommitLogShardTable) result" where
  "run_shard_op (ShardOpen start_ts opened_at_ms) table = shard_open table start_ts opened_at_ms"
| "run_shard_op (ShardSetEnd shard_id end_ts now_ms) table = shard_set_end table shard_id end_ts now_ms"
| "run_shard_op (ShardSeal shard_id now_ms) table = shard_seal table shard_id now_ms"
| "run_shard_op (ShardGc through_ts) table = advance_gc table through_ts"

definition stored_shard_table :: "CommitLogShardTable postcard \<Rightarrow> db \<Rightarrow> CommitLogShardTable result" where
  "stored_shard_table pc d =
    (case tx_get d T_kv COMMIT_LOG_SHARD_TABLE_KEY of
       Some bs \<Rightarrow> shard_table_decode pc bs
     | None \<Rightarrow> Inr empty_shard_table)"

definition apply_commit_log_shard_op ::
    "CommitLogShardTable postcard \<Rightarrow> MvccStorage \<Rightarrow> CommitLogShardOp \<Rightarrow> u64 \<Rightarrow> AppliedLogId \<Rightarrow>
     CommitLogShardMeta list result \<times> MvccStorage" where
  "apply_commit_log_shard_op pc s op0 revision applied =
    write_store s (\<lambda>d.
      let d = note_log_index_revision (revision_mode s) d revision
      in bind_result (stored_shard_table pc d) (\<lambda>table.
           let (changed, table) = (case run_shard_op op0 table of Inr outcome \<Rightarrow> outcome | Inl e \<Rightarrow> (False, table))
           in bind_result
                (if changed
                 then bind_result (shard_table_encode pc table) (\<lambda>bs. Inr (tx_insert d T_kv COMMIT_LOG_SHARD_TABLE_KEY bs))
                 else Inr d)
                (\<lambda>d. Inr (ct_shards table, put_applied d applied))))"

definition commit_log_shard_table :: "CommitLogShardTable postcard \<Rightarrow> MvccStorage \<Rightarrow> CommitLogShardTable result" where
  "commit_log_shard_table pc s = stored_shard_table pc (backend s)"

section \<open>The watermark of a node\<close>

text \<open>
  Every region this node runs contributes its next unapplied decision, and every
  live shard the next record of every region it has not taken yet.
\<close>

fun collect_results :: "('a \<Rightarrow> 'b result) \<Rightarrow> 'a list \<Rightarrow> 'b list result" where
  "collect_results f [] = Inr []"
| "collect_results f (x # xs) = bind_result (f x) (\<lambda>y. bind_result (collect_results f xs) (\<lambda>ys. Inr (y # ys)))"

definition region_in_flight :: "seq_env \<Rightarrow> MvccStorage \<Rightarrow> RegionRuntime \<Rightarrow> u64 option result" where
  "region_in_flight E system rt =
    (let applied = last_applied_decision_ts (rr_store rt)
     in bind_result (next_sequencer_decision_ts E system applied) (\<lambda>next_ts. Inr (pending_decision applied next_ts)))"

definition ship_floor :: "CommitLogShardMeta \<Rightarrow> MvccStorage \<Rightarrow> u64 \<Rightarrow> u64" where
  "ship_floor meta shard_store region_id =
    max (commit_log_shipped_through shard_store region_id) (sat_sub64 (sm_start_ts meta) 1)"

definition outbox_in_flight ::
    "log_env \<Rightarrow> CommitLogShardMeta \<Rightarrow> MvccStorage \<Rightarrow> RegionRuntime \<Rightarrow> u64 option result" where
  "outbox_in_flight Z meta shard_store rt =
    bind_result
      (commit_records_after Z (rr_store rt) COMMIT_LOG_STAGING_SHARD_ID
        (ship_floor meta shard_store (rm_region_id (rr_meta rt))) 1)
      (\<lambda>rows. Inr (unshipped_record (sm_start_ts meta) (sm_end_ts meta)
         (case rows of [] \<Rightarrow> None | rc # _ \<Rightarrow> Some (cr_commit_ts rc))))"

definition shard_in_flight ::
    "log_env \<Rightarrow> (u64 \<Rightarrow> MvccStorage result) \<Rightarrow> RegionRuntime list \<Rightarrow> CommitLogShardMeta \<Rightarrow> u64 option list result" where
  "shard_in_flight Z ensure_runtime regions meta =
    bind_result (ensure_runtime (sm_shard_id meta)) (\<lambda>shard_store.
      collect_results (outbox_in_flight Z meta shard_store) regions)"

definition local_watermark ::
    "seq_env \<Rightarrow> log_env \<Rightarrow> CommitLogShardTable postcard \<Rightarrow> MvccStorage \<Rightarrow> (u64 \<Rightarrow> MvccStorage result) \<Rightarrow>
     RegionRuntime list \<Rightarrow> CommitWatermarkState result" where
  "local_watermark E Z pc system ensure_runtime regions =
    (let decision_last = sequencer_last_commit_ts system
     in bind_result (commit_log_shard_table pc system) (\<lambda>table.
        bind_result (collect_results (region_in_flight E system) regions) (\<lambda>pending.
        bind_result (collect_results (shard_in_flight Z ensure_runtime regions) (live_shards table)) (\<lambda>unshipped.
          Inr (commit_watermark_state decision_last (List.map_filter id (pending @ concat unshipped)))))))"

section \<open>Shipping\<close>

definition SHIP_BATCH_RECORDS :: nat where "SHIP_BATCH_RECORDS = 256"

definition SHIP_BATCH_TXN_BYTES :: u64 where "SHIP_BATCH_TXN_BYTES = 8 * 1024 * 1024"

fun split_ship_loop :: "CommitRecord list \<Rightarrow> CommitRecord list \<Rightarrow> u64 \<Rightarrow> CommitRecord list list" where
  "split_ship_loop [] current bs = (if current \<noteq> [] then [current] else [])"
| "split_ship_loop (rc # rcs) current bs =
    (let size = ucast (cr_txn_bytes rc)
     in if current \<noteq> [] \<and> SHIP_BATCH_TXN_BYTES < sat_add64 bs size
        then current # split_ship_loop rcs [rc] (sat_add64 0 size)
        else split_ship_loop rcs (current @ [rc]) (sat_add64 bs size))"

definition split_ship_batches :: "CommitRecord list \<Rightarrow> CommitRecord list list" where
  "split_ship_batches rcs = split_ship_loop rcs [] 0"

fun ship_chunks ::
    "log_env \<Rightarrow> (nat \<Rightarrow> (u64 \<times> AppliedLogId) result) \<Rightarrow> u64 \<Rightarrow> CommitLogShardMeta \<Rightarrow> CommitRecord list list \<Rightarrow>
     nat \<Rightarrow> u64 \<times> u64 \<Rightarrow> MvccStorage \<Rightarrow> (nat \<times> u64 \<times> u64) result \<times> MvccStorage" where
  "ship_chunks Z raft max_txn_bytes meta [] i (shipped, rejected) s = (Inr (i, shipped, rejected), s)"
| "ship_chunks Z raft max_txn_bytes meta (chunk # chunks) i (shipped, rejected) s =
    (case raft i of
       Inl e \<Rightarrow> (Inl e, s)
     | Inr (revision, applied) \<Rightarrow>
         (case apply_commit_log_append Z s (sm_shard_id meta) (sm_start_ts meta) (sm_end_ts meta) chunk max_txn_bytes
                 revision applied of
            (Inl e, s) \<Rightarrow> (Inl e, s)
          | (Inr res, s) \<Rightarrow>
              ship_chunks Z raft max_txn_bytes meta chunks (Suc i)
                (shipped + (ar_inserted res + ar_duplicates res), rejected + ar_rejected res) s))"

definition ship_batch ::
    "log_env \<Rightarrow> CommitLogShardMeta \<Rightarrow> MvccStorage \<Rightarrow> RegionRuntime \<Rightarrow> CommitRecord list result" where
  "ship_batch Z meta s rt =
    bind_result
      (commit_records_after Z (rr_store rt) COMMIT_LOG_STAGING_SHARD_ID
        (ship_floor meta s (rm_region_id (rr_meta rt))) SHIP_BATCH_RECORDS)
      (\<lambda>rows. Inr (map (\<lambda>rc. rc\<lparr>cr_shard_id := sm_shard_id meta\<rparr>)
         (filter (\<lambda>rc. shard_covers meta (cr_commit_ts rc)) rows)))"

fun ship_regions ::
    "log_env \<Rightarrow> (nat \<Rightarrow> (u64 \<times> AppliedLogId) result) \<Rightarrow> u64 \<Rightarrow> CommitLogShardMeta \<Rightarrow> RegionRuntime list \<Rightarrow>
     nat \<Rightarrow> u64 \<times> u64 \<Rightarrow> MvccStorage \<Rightarrow> (u64 \<times> u64) result \<times> MvccStorage" where
  "ship_regions Z raft max_txn_bytes meta [] i acc s = (Inr acc, s)"
| "ship_regions Z raft max_txn_bytes meta (rt # rts) i acc s =
    (case ship_batch Z meta s rt of
       Inl e \<Rightarrow> (Inl e, s)
     | Inr batch \<Rightarrow>
         (case ship_chunks Z raft max_txn_bytes meta (split_ship_batches batch) i acc s of
            (Inl e, s) \<Rightarrow> (Inl e, s)
          | (Inr (i, acc), s) \<Rightarrow> ship_regions Z raft max_txn_bytes meta rts i acc s))"

definition ship_shard ::
    "log_env \<Rightarrow> (nat \<Rightarrow> (u64 \<times> AppliedLogId) result) \<Rightarrow> u64 \<Rightarrow> CommitLogShardMeta \<Rightarrow> RegionRuntime list \<Rightarrow>
     MvccStorage \<Rightarrow> (u64 \<times> u64) result \<times> MvccStorage" where
  "ship_shard Z raft max_txn_bytes meta regions s = ship_regions Z raft max_txn_bytes meta regions 0 (0, 0) s"

section \<open>Moving the table on\<close>

text \<open>The part of the configuration that the coordinator reads here.\<close>

record KvTRuntimeConfig =
  kc_commit_log_shard_records :: u64
  kc_commit_log_shard_secs :: u64
  kc_shard_seal_timeout_secs :: u64
  kc_watch_retention :: u64

definition propose ::
    "CommitLogShardTable postcard \<Rightarrow> (nat \<Rightarrow> (u64 \<times> AppliedLogId) result) \<Rightarrow> CommitLogShardOp \<Rightarrow> nat \<Rightarrow> MvccStorage \<Rightarrow>
     CommitLogShardMeta list result \<times> MvccStorage" where
  "propose pc raft op0 i system =
    (case raft i of
       Inl e \<Rightarrow> (Inl e, system)
     | Inr (revision, applied) \<Rightarrow> apply_commit_log_shard_op pc system op0 revision applied)"

fun seal_loop ::
    "CommitLogShardTable postcard \<Rightarrow> (nat \<Rightarrow> (u64 \<times> AppliedLogId) result) \<Rightarrow> KvTRuntimeConfig \<Rightarrow> u64 \<Rightarrow> u64 \<Rightarrow>
     CommitLogShardMeta list \<Rightarrow> nat \<Rightarrow> u64 \<times> u64 \<Rightarrow> MvccStorage \<Rightarrow> (u64 \<times> u64) result \<times> MvccStorage" where
  "seal_loop pc raft cfg now watermark [] i (sealed_count, stalls) system = (Inr (sealed_count, stalls), system)"
| "seal_loop pc raft cfg now watermark (meta # metas) i (sealed_count, stalls) system =
    (let stalled = \<not> sm_end_ts meta \<le> watermark
     in if \<not> stalled \<or> seal_timeout_due (sm_ended_at_ms meta) now (kc_shard_seal_timeout_secs cfg) then
          (case propose pc raft (ShardSeal (sm_shard_id meta) now) i system of
             (Inl e, system) \<Rightarrow> (Inl e, system)
           | (Inr _, system) \<Rightarrow>
               seal_loop pc raft cfg now watermark metas (Suc i) (sealed_count + 1, if stalled then stalls + 1 else stalls) system)
        else seal_loop pc raft cfg now watermark metas i (sealed_count, stalls) system)"

definition seal_bounded ::
    "CommitLogShardTable postcard \<Rightarrow> (nat \<Rightarrow> (u64 \<times> AppliedLogId) result) \<Rightarrow> KvTRuntimeConfig \<Rightarrow> u64 \<Rightarrow> u64 \<Rightarrow> u64 \<Rightarrow>
     nat \<Rightarrow> MvccStorage \<Rightarrow> (u64 \<times> u64 \<times> u64) result \<times> MvccStorage" where
  "seal_bounded pc raft cfg now watermark opened i system =
    (case commit_log_shard_table pc system of
       Inl e \<Rightarrow> (Inl e, system)
     | Inr table \<Rightarrow>
         (case seal_loop pc raft cfg now watermark
                 (filter (\<lambda>meta. sm_end_ts meta \<noteq> 0 \<and> sm_sealed_at_ms meta = 0) (ct_shards table)) i (0, 0) system of
            (Inl e, system) \<Rightarrow> (Inl e, system)
          | (Inr (sealed_count, stalls), system) \<Rightarrow> (Inr (opened, sealed_count, stalls), system)))"

definition advance_metadata ::
    "CommitLogShardTable postcard \<Rightarrow> (nat \<Rightarrow> (u64 \<times> AppliedLogId) result) \<Rightarrow> KvTRuntimeConfig \<Rightarrow>
     (u64 \<Rightarrow> MvccStorage result) \<Rightarrow> u64 \<Rightarrow> u64 \<Rightarrow> MvccStorage \<Rightarrow> (u64 \<times> u64 \<times> u64) result \<times> MvccStorage" where
  "advance_metadata pc raft cfg ensure_runtime now watermark system =
    (case commit_log_shard_table pc system of
       Inl e \<Rightarrow> (Inl e, system)
     | Inr table \<Rightarrow>
         (case shard_latest table of
            None \<Rightarrow>
              (case propose pc raft (ShardOpen 1 now) 0 system of
                 (Inl e, system) \<Rightarrow> (Inl e, system)
               | (Inr _, system) \<Rightarrow> (Inr (1, 0, 0), system))
          | Some lst \<Rightarrow>
              (if sm_end_ts lst \<noteq> 0 then seal_bounded pc raft cfg now watermark 0 0 system
               else
                 case ensure_runtime (sm_shard_id lst) of
                   Inl e \<Rightarrow> (Inl e, system)
                 | Inr rt \<Rightarrow>
                     let record_count = commit_log_record_count rt;
                         age = sat_sub64 now (sm_opened_at_ms lst);
                         full = seal_due record_count age (kc_commit_log_shard_records cfg) (kc_commit_log_shard_secs cfg)
                     in if full \<or> precreate_due record_count age (kc_commit_log_shard_records cfg) (kc_commit_log_shard_secs cfg)
                        then
                          let end0 = split_end_ts (commit_log_cursor rt) (sequencer_last_commit_ts system) (sm_start_ts lst)
                          in case propose pc raft (ShardSetEnd (sm_shard_id lst) end0 now) 0 system of
                               (Inl e, system) \<Rightarrow> (Inl e, system)
                             | (Inr _, system) \<Rightarrow>
                                 (case propose pc raft (ShardOpen end0 now) 1 system of
                                    (Inl e, system) \<Rightarrow> (Inl e, system)
                                  | (Inr _, system) \<Rightarrow> seal_bounded pc raft cfg now watermark 1 2 system)
                        else seal_bounded pc raft cfg now watermark 0 0 system)))"

definition advance_gc_metadata ::
    "CommitLogShardTable postcard \<Rightarrow> (nat \<Rightarrow> (u64 \<times> AppliedLogId) result) \<Rightarrow> KvTRuntimeConfig \<Rightarrow> u64 \<Rightarrow> u64 \<Rightarrow>
     MvccStorage \<Rightarrow> unit result \<times> MvccStorage" where
  "advance_gc_metadata pc raft cfg now watermark system =
    (case commit_log_shard_table pc system of
       Inl e \<Rightarrow> (Inl e, system)
     | Inr table \<Rightarrow>
         (case gc_boundary table watermark now (kc_watch_retention cfg) of
            None \<Rightarrow> (Inr (), system)
          | Some through_ts \<Rightarrow>
              (case propose pc raft (ShardGc through_ts) 0 system of
                 (Inl e, system) \<Rightarrow> (Inl e, system)
               | (Inr _, system) \<Rightarrow> (Inr (), system))))"


text \<open>
  The part of a coordinator tick that the leader of region 0 runs: it publishes the
  watermark of this node and moves the table on.
\<close>

record tick_env =
  te_cfg :: KvTRuntimeConfig
  te_now :: u64
  te_publish :: "(u64 \<times> AppliedLogId) result"
  te_metadata :: "nat \<Rightarrow> (u64 \<times> AppliedLogId) result"
  te_gc :: "nat \<Rightarrow> (u64 \<times> AppliedLogId) result"
  te_ensure_runtime :: "u64 \<Rightarrow> MvccStorage result"
  te_regions :: "RegionRuntime list"

definition publish_watermark :: "tick_env \<Rightarrow> u64 \<Rightarrow> MvccStorage \<Rightarrow> u64 result \<times> MvccStorage" where
  "publish_watermark A watermark system =
    (case te_publish A of
       Inl e \<Rightarrow> (Inl e, system)
     | Inr (revision, applied) \<Rightarrow> publish_commit_watermark system watermark applied)"

definition leader_tick ::
    "seq_env \<Rightarrow> log_env \<Rightarrow> CommitLogShardTable postcard \<Rightarrow> tick_env \<Rightarrow> MvccStorage \<Rightarrow> (u64 \<times> u64 \<times> u64) result \<times> MvccStorage" where
  "leader_tick E Z pc A system =
    (case local_watermark E Z pc system (te_ensure_runtime A) (te_regions A) of
       Inl e \<Rightarrow> (Inl e, system)
     | Inr state \<Rightarrow>
         (case (if commit_watermark system < ws_watermark state then publish_watermark A (ws_watermark state) system
                else (Inr 0, system)) of
            (Inl e, system) \<Rightarrow> (Inl e, system)
          | (Inr _, system) \<Rightarrow>
              (case advance_metadata pc (te_metadata A) (te_cfg A) (te_ensure_runtime A) (te_now A) (ws_watermark state) system of
                 (Inl e, system) \<Rightarrow> (Inl e, system)
               | (Inr counts, system) \<Rightarrow>
                   (case advance_gc_metadata pc (te_gc A) (te_cfg A) (te_now A) (ws_watermark state) system of
                      (Inl e, system) \<Rightarrow> (Inl e, system)
                    | (Inr _, system) \<Rightarrow> (Inr counts, system)))))"

section \<open>The table tiles the timestamps\<close>

definition shard_chain :: "nat \<Rightarrow> CommitLogShardMeta list \<Rightarrow> bool" where
  "shard_chain n ms \<longleftrightarrow> (\<forall>i < length ms. sm_start_ts (ms ! i) \<noteq> 0 \<and> sm_shard_id (ms ! i) = of_nat (n + i) + 1 \<and>
     (sm_end_ts (ms ! i) \<noteq> 0 \<longrightarrow> sm_start_ts (ms ! i) < sm_end_ts (ms ! i)) \<and>
     (Suc i < length ms \<longrightarrow> sm_end_ts (ms ! i) \<noteq> 0 \<and> sm_start_ts (ms ! Suc i) = sm_end_ts (ms ! i)))"

lemma shard_chain_Cons:
  "shard_chain n (m # ms) \<longleftrightarrow> sm_start_ts m \<noteq> 0 \<and> sm_shard_id m = of_nat n + 1 \<and>
     (sm_end_ts m \<noteq> 0 \<longrightarrow> sm_start_ts m < sm_end_ts m) \<and>
     (ms \<noteq> [] \<longrightarrow> sm_end_ts m \<noteq> 0 \<and> sm_start_ts (hd ms) = sm_end_ts m) \<and> shard_chain (Suc n) ms"
  unfolding shard_chain_def length_Cons All_less_Suc2 by (auto simp: hd_conv_nth)

lemma validate_shards_iff: "validate_shards n ms = Inr () \<longleftrightarrow> shard_chain n ms"
proof (induction ms arbitrary: n)
  case Nil
  then show ?case by (simp add: shard_chain_def)
next
  case (Cons m ms)
  then show ?case by (cases ms) (auto simp: shard_chain_Cons not_le)
qed

definition shard_table_ok :: "CommitLogShardTable \<Rightarrow> bool" where
  "shard_table_ok table \<longleftrightarrow> shard_chain 0 (ct_shards table) \<and>
    (ct_gc_before_ts table \<noteq> 0 \<longrightarrow> (\<exists>meta \<in> set (ct_shards table). sm_end_ts meta = ct_gc_before_ts table)) \<and>
    (\<forall>meta \<in> set (ct_shards table). is_reclaimed table meta \<longrightarrow> sm_sealed_at_ms meta \<noteq> 0)"

lemma shard_table_validate_iff:
  "shard_table_validate table = Inr () \<longleftrightarrow> shard_chain 0 (ct_shards table) \<and>
    (ct_gc_before_ts table \<noteq> 0 \<longrightarrow> (\<exists>meta \<in> set (ct_shards table). sm_end_ts meta = ct_gc_before_ts table))"
  by (auto simp: shard_table_validate_def  validate_shards_iff)

lemma shard_chain_pos:
  "shard_chain n ms \<Longrightarrow> i < length ms \<Longrightarrow> sm_end_ts (ms ! i) \<noteq> 0 \<Longrightarrow> sm_start_ts (ms ! i) < sm_end_ts (ms ! i)"
  unfolding shard_chain_def by blast

lemma shard_chain_order:
  assumes "shard_chain n ms" "i < j" "j < length ms"
  shows "sm_end_ts (ms ! i) \<noteq> 0 \<and> sm_end_ts (ms ! i) \<le> sm_start_ts (ms ! j)"
  using assms(2,3)
proof (induction j)
  case (Suc j)
  have c: "sm_end_ts (ms ! k) \<noteq> 0" "sm_start_ts (ms ! Suc k) = sm_end_ts (ms ! k)" "sm_start_ts (ms ! k) < sm_end_ts (ms ! k)"
    if "Suc k < length ms" for k
    using assms(1) that by (auto simp: shard_chain_def)
  show ?case
  proof (cases "i = j")
    case True
    then show ?thesis using c [of j] Suc.prems by simp
  next
    case False
    then show ?thesis using Suc c [of j] by (auto intro: order_trans less_imp_le)
  qed
qed simp

lemma shard_covers_unique:
  assumes "shard_chain n ms" "i < length ms" "j < length ms" "shard_covers (ms ! i) ts" "shard_covers (ms ! j) ts"
  shows "i = j"
proof -
  have "\<not> i < j" if "i < length ms" "j < length ms" "shard_covers (ms ! i) ts" "shard_covers (ms ! j) ts" for i j
  proof
    assume "i < j"
    from shard_chain_order [OF assms(1) this that(2)] show False
      using that(3,4) by (auto simp: shard_covers_def)
  qed
  from this [of i j] this [of j i] assms(2-5) show ?thesis by auto
qed

lemma shard_covered:
  assumes "shard_chain n ms" "ms \<noteq> []" "sm_start_ts (hd ms) \<le> ts" "sm_end_ts (last ms) = 0 \<or> ts < sm_end_ts (last ms)"
  shows "\<exists>i < length ms. shard_covers (ms ! i) ts"
  using assms
proof (induction ms arbitrary: n)
  case (Cons m ms)
  show ?case
  proof (cases "shard_covers m ts")
    case True
    then show ?thesis by (intro exI [of _ 0]) simp
  next
    case False
    with Cons.prems(3) have gap: "sm_end_ts m \<noteq> 0" "sm_end_ts m \<le> ts" by (auto simp: shard_covers_def not_less)
    have ne: "ms \<noteq> []" using gap Cons.prems(4) by auto
    have "shard_chain (Suc n) ms" "sm_start_ts (hd ms) \<le> ts"
      using Cons.prems(1) ne gap by (auto simp: shard_chain_Cons)
    from Cons.IH [OF this(1) ne this(2)] Cons.prems(4) ne
    obtain i where "i < length ms" "shard_covers (ms ! i) ts" by auto
    then show ?thesis by (intro exI [of _ "Suc i"]) simp
  qed
qed simp

lemma covering_iff:
  assumes "shard_chain 0 (ct_shards table)"
  shows "covering table ts = Some meta \<longleftrightarrow> meta \<in> set (ct_shards table) \<and> shard_covers meta ts"
proof
  assume "covering table ts = Some meta"
  then show "meta \<in> set (ct_shards table) \<and> shard_covers meta ts"
    by (auto simp: covering_def find_Some_iff)
next
  assume m: "meta \<in> set (ct_shards table) \<and> shard_covers meta ts"
  then have "covering table ts \<noteq> None" by (auto simp: covering_def find_None_iff)
  then obtain m' where m': "covering table ts = Some m'" by blast
  then have "m' \<in> set (ct_shards table)" "shard_covers m' ts" by (auto simp: covering_def find_Some_iff)
  with m shard_covers_unique [OF assms] have "m' = meta" by (auto simp: in_set_conv_nth)
  with m' show "covering table ts = Some meta" by simp
qed

text \<open>What an operation may do to a table: rows keep their identity and start, an end that
  is set and a seal stay, the reclaimed part only grows.\<close>

definition table_extends :: "CommitLogShardTable \<Rightarrow> CommitLogShardTable \<Rightarrow> bool" where
  "table_extends t u \<longleftrightarrow> length (ct_shards t) \<le> length (ct_shards u) \<and> ct_gc_before_ts t \<le> ct_gc_before_ts u \<and>
    (\<forall>i < length (ct_shards t).
       sm_shard_id (ct_shards u ! i) = sm_shard_id (ct_shards t ! i) \<and>
       sm_start_ts (ct_shards u ! i) = sm_start_ts (ct_shards t ! i) \<and>
       (sm_end_ts (ct_shards t ! i) \<noteq> 0 \<longrightarrow> sm_end_ts (ct_shards u ! i) = sm_end_ts (ct_shards t ! i)) \<and>
       (sm_sealed_at_ms (ct_shards t ! i) \<noteq> 0 \<longrightarrow> sm_sealed_at_ms (ct_shards u ! i) = sm_sealed_at_ms (ct_shards t ! i)))"

lemma table_extends_refl [simp]: "table_extends t t"
  by (simp add: table_extends_def)

lemma table_extends_trans:
  assumes "table_extends t u" "table_extends u v"
  shows "table_extends t v"
  unfolding table_extends_def
proof (intro conjI allI impI)
  show "length (ct_shards t) \<le> length (ct_shards v)" "ct_gc_before_ts t \<le> ct_gc_before_ts v"
    using assms by (auto simp: table_extends_def)
  fix i assume i: "i < length (ct_shards t)"
  then have j: "i < length (ct_shards u)" using assms(1) by (simp add: table_extends_def)
  note f = assms(1) [unfolded table_extends_def, THEN conjunct2, THEN conjunct2, rule_format, OF i]
    assms(2) [unfolded table_extends_def, THEN conjunct2, THEN conjunct2, rule_format, OF j]
  show "sm_shard_id (ct_shards v ! i) = sm_shard_id (ct_shards t ! i)"
    "sm_start_ts (ct_shards v ! i) = sm_start_ts (ct_shards t ! i)" using f by simp_all
  show "sm_end_ts (ct_shards v ! i) = sm_end_ts (ct_shards t ! i)" if "sm_end_ts (ct_shards t ! i) \<noteq> 0"
    using f that by simp
  show "sm_sealed_at_ms (ct_shards v ! i) = sm_sealed_at_ms (ct_shards t ! i)" if "sm_sealed_at_ms (ct_shards t ! i) \<noteq> 0"
    using f that by simp
qed

lemma shard_chain_snoc:
  "shard_chain n (ms @ [m]) \<longleftrightarrow> shard_chain n ms \<and> sm_start_ts m \<noteq> 0 \<and> sm_shard_id m = of_nat (n + length ms) + 1 \<and>
     (sm_end_ts m \<noteq> 0 \<longrightarrow> sm_start_ts m < sm_end_ts m) \<and>
     (ms \<noteq> [] \<longrightarrow> sm_end_ts (last ms) \<noteq> 0 \<and> sm_start_ts m = sm_end_ts (last ms))"
proof (induction ms arbitrary: n)
  case Nil
  then show ?case by (simp add: shard_chain_def)
next
  case (Cons x xs)
  show ?case
    unfolding append_Cons shard_chain_Cons [of n] Cons.IH [of "Suc n"] by (auto simp: hd_append shard_chain_def [of _ "[]"])
qed

lemma shard_latest_Some: "shard_latest table = Some lst \<Longrightarrow> ct_shards table = butlast (ct_shards table) @ [lst]"
  by (auto simp: shard_latest_def split: if_splits)

lemma update_first_nth:
  "i < length xs \<Longrightarrow> update_first P f xs ! i = (if P (xs ! i) \<and> (\<forall>j < i. \<not> P (xs ! j)) then f (xs ! i) else xs ! i)"
proof (induction xs arbitrary: i)
  case (Cons x xs)
  then show ?case by (cases i) (auto simp: All_less_Suc2)
qed simp

lemma length_update_first [simp]: "length (update_first P f xs) = length xs"
  by (induction xs) auto

lemma shard_open_ok:
  assumes ok: "shard_table_ok t" and run: "shard_open t first now = Inr (changed, u)"
  shows "shard_table_ok u \<and> table_extends t u"
proof (cases "shard_latest t")
  case None
  then have e: "ct_shards t = []" by (auto simp: shard_latest_def split: if_splits)
  then show ?thesis
    using ok run None
    by (auto simp: shard_open_def shard_table_ok_def shard_chain_def table_extends_def is_reclaimed_def split: if_splits)
next
  case (Some lst)
  show ?thesis
  proof (cases "sm_end_ts lst = 0")
    case True
    then show ?thesis using ok run Some by (auto simp: shard_open_def)
  next
    case False
    define ms where "ms = butlast (ct_shards t)"
    have t: "ct_shards t = ms @ [lst]" using shard_latest_Some [OF Some] by (simp add: ms_def)
    have c: "shard_chain 0 (ms @ [lst])" using ok t by (simp add: shard_table_ok_def)
    have u: "u = t\<lparr>ct_shards := (ms @ [lst]) @
           [\<lparr>sm_shard_id = sm_shard_id lst + 1, sm_start_ts = sm_end_ts lst, sm_end_ts = 0, sm_opened_at_ms = now,
             sm_ended_at_ms = 0, sm_sealed_at_ms = 0\<rparr>]\<rparr>"
      using run Some False by (simp add: shard_open_def Let_def t)
    have "sm_shard_id lst = of_nat (length ms) + 1" using c by (simp add: shard_chain_snoc)
    then have "shard_chain 0 ((ms @ [lst]) @
        [\<lparr>sm_shard_id = sm_shard_id lst + 1, sm_start_ts = sm_end_ts lst, sm_end_ts = 0, sm_opened_at_ms = now,
          sm_ended_at_ms = 0, sm_sealed_at_ms = 0\<rparr>])"
      unfolding shard_chain_snoc [of 0 "ms @ [lst]"] using c False by simp
    then have "shard_chain 0 (ct_shards u)" unfolding u by simp
    then show ?thesis
      using ok unfolding shard_table_ok_def by (auto simp: u t is_reclaimed_def table_extends_def nth_append)
  qed
qed

lemma shard_set_end_ok:
  assumes ok: "shard_table_ok t" and run: "shard_set_end t shard end0 now = Inr (changed, u)"
  shows "shard_table_ok u \<and> table_extends t u"
proof -
  obtain lst where Some: "shard_latest t = Some lst" using run by (auto simp: shard_set_end_def split: option.splits)
  define ms where "ms = butlast (ct_shards t)"
  have t: "ct_shards t = ms @ [lst]" using shard_latest_Some [OF Some] by (simp add: ms_def)
  show ?thesis
  proof (cases "sm_end_ts lst = 0")
    case False
    then show ?thesis using ok run Some by (auto simp: shard_set_end_def split: if_splits)
  next
    case True
    then have u: "u = t\<lparr>ct_shards := ms @ [lst\<lparr>sm_end_ts := end0, sm_ended_at_ms := now\<rparr>]\<rparr>" and lt: "sm_start_ts lst < end0"
      using run Some by (auto simp: shard_set_end_def t not_le split: if_splits)
    have c: "shard_chain 0 (ms @ [lst])" using ok t by (simp add: shard_table_ok_def)
    have bound: "ct_gc_before_ts t \<le> sm_start_ts lst"
    proof (cases "ct_gc_before_ts t = 0")
      case False
      then obtain i where i: "i < length (ct_shards t)" "sm_end_ts (ct_shards t ! i) = ct_gc_before_ts t"
        using ok by (auto simp: shard_table_ok_def in_set_conv_nth)
      then have "i < length ms" using True False by (cases "i = length ms") (auto simp: t)
      with shard_chain_order [of 0 "ms @ [lst]" i "length ms"] c i show ?thesis by (simp add: t nth_append)
    qed simp
    have gc: "\<exists>meta \<in> set ms. sm_end_ts meta = ct_gc_before_ts t" if "ct_gc_before_ts t \<noteq> 0"
      using ok that True by (auto simp: shard_table_ok_def t)
    have "shard_chain 0 (ct_shards u)" using c lt by (simp add: u shard_chain_snoc)
    moreover have "\<not> is_reclaimed u (lst\<lparr>sm_end_ts := end0, sm_ended_at_ms := now\<rparr>)"
      using bound lt by (auto simp: is_reclaimed_def u)
    ultimately show ?thesis
      using ok gc True unfolding shard_table_ok_def by (auto simp: u t is_reclaimed_def table_extends_def nth_append)
  qed
qed

lemma find_update_first:
  "find P xs = Some x \<Longrightarrow> \<exists>i < length xs. xs ! i = x \<and> update_first P f xs = xs[i := f x]"
proof (induction xs)
  case (Cons y ys)
  show ?case
  proof (cases "P y")
    case True
    then show ?thesis using Cons.prems by (intro exI [of _ 0]) auto
  next
    case False
    then obtain i where "i < length ys" "ys ! i = x" "update_first P f ys = ys[i := f x]" using Cons by auto
    then show ?thesis using False by (intro exI [of _ "Suc i"]) simp
  qed
qed simp

lemma shard_chain_update:
  assumes "shard_chain n ms" "i < length ms" "sm_start_ts m = sm_start_ts (ms ! i)" "sm_shard_id m = sm_shard_id (ms ! i)"
    "sm_end_ts m = sm_end_ts (ms ! i)"
  shows "shard_chain n (ms[i := m])"
proof -
  have "sm_start_ts (ms[i := m] ! j) = sm_start_ts (ms ! j) \<and> sm_shard_id (ms[i := m] ! j) = sm_shard_id (ms ! j) \<and>
      sm_end_ts (ms[i := m] ! j) = sm_end_ts (ms ! j)" for j
    using assms(2-) by (cases "j = i") simp_all
  then show ?thesis using assms(1) by (simp add: shard_chain_def)
qed

lemma shard_seal_ok:
  assumes ok: "shard_table_ok t" and run: "shard_seal t shard now = Inr (changed, u)"
  shows "shard_table_ok u \<and> table_extends t u"
proof (cases "u = t")
  case False
  obtain m where m: "find (\<lambda>meta. sm_shard_id meta = shard) (ct_shards t) = Some m" "sm_sealed_at_ms m = 0"
      "u = t\<lparr>ct_shards := update_first (\<lambda>meta. sm_shard_id meta = shard) (sm_sealed_at_ms_update (\<lambda>_. now)) (ct_shards t)\<rparr>"
    using run False by (auto simp: shard_seal_def split: option.splits if_splits)
  obtain i where i: "i < length (ct_shards t)" "ct_shards t ! i = m"
      "ct_shards u = (ct_shards t)[i := m\<lparr>sm_sealed_at_ms := now\<rparr>]"
    using find_update_first [OF m(1), of "sm_sealed_at_ms_update (\<lambda>_. now)"] m(3) by auto
  have gc: "ct_gc_before_ts u = ct_gc_before_ts t" by (simp add: m(3))
  have ends: "sm_end_ts (ct_shards u ! j) = sm_end_ts (ct_shards t ! j)" for j using i by (cases "j = i") simp_all
  have seals: "sm_sealed_at_ms (ct_shards t ! j) \<noteq> 0 \<Longrightarrow> sm_sealed_at_ms (ct_shards u ! j) = sm_sealed_at_ms (ct_shards t ! j)" for j
    using i m(2) by (cases "j = i") simp_all
  have "shard_chain 0 (ct_shards u)"
    unfolding i(3) by (rule shard_chain_update) (use ok i in \<open>simp_all add: shard_table_ok_def\<close>)
  moreover have "table_extends t u"
    unfolding table_extends_def
  proof (intro conjI allI impI)
    fix j assume "j < length (ct_shards t)"
    show "sm_shard_id (ct_shards u ! j) = sm_shard_id (ct_shards t ! j)" "sm_start_ts (ct_shards u ! j) = sm_start_ts (ct_shards t ! j)"
      using i by (cases "j = i", simp_all)+
  qed (use ends seals gc i(3) in simp_all)
  moreover have "\<exists>meta \<in> set (ct_shards u). sm_end_ts meta = ct_gc_before_ts u" if nz: "ct_gc_before_ts u \<noteq> 0"
  proof -
    obtain j where j: "j < length (ct_shards t)" "sm_end_ts (ct_shards t ! j) = ct_gc_before_ts t"
      using ok nz gc by (auto simp: shard_table_ok_def in_set_conv_nth)
    then have "ct_shards u ! j \<in> set (ct_shards u)" using i(3) by simp
    then show ?thesis using j(2) ends gc by (intro bexI [of _ "ct_shards u ! j"]) simp_all
  qed
  moreover have "sm_sealed_at_ms meta \<noteq> 0" if mu: "meta \<in> set (ct_shards u)" "is_reclaimed u meta" for meta
  proof -
    obtain j where j: "j < length (ct_shards t)" "meta = ct_shards u ! j" using mu(1) i(3) by (auto simp: in_set_conv_nth)
    then have "is_reclaimed t (ct_shards t ! j)" using mu(2) ends gc by (simp add: is_reclaimed_def)
    then show ?thesis using ok j seals by (auto simp: shard_table_ok_def)
  qed
  ultimately show ?thesis by (simp add: shard_table_ok_def)
qed (use ok in simp)

lemma advance_gc_ok:
  assumes "shard_table_ok t" "advance_gc t through = Inr (changed, u)"
  shows "shard_table_ok u \<and> table_extends t u"
  using assms by (auto simp: advance_gc_def shard_table_ok_def table_extends_def is_reclaimed_def split: if_splits)

lemma run_shard_op_ok:
  "shard_table_ok t \<Longrightarrow> run_shard_op op0 t = Inr (changed, u) \<Longrightarrow> shard_table_ok u \<and> table_extends t u"
  by (cases op0) (auto dest: shard_open_ok shard_set_end_ok shard_seal_ok advance_gc_ok)

lemma run_shard_op_unchanged: "run_shard_op op0 t = Inr (False, u) \<Longrightarrow> u = t"
  by (cases op0) (auto simp: shard_open_def shard_set_end_def shard_seal_def advance_gc_def Let_def
      split: option.splits if_splits)

lemma empty_shard_table_ok [simp]: "shard_table_ok empty_shard_table"
  by (simp add: shard_table_ok_def empty_shard_table_def shard_chain_def)

section \<open>The stored table\<close>

lemma shard_table_round_trip:
  assumes "postcard_ok pc" "shard_table_encode pc t = Inr bs" "shard_table_ok t"
  shows "shard_table_decode pc bs = Inr t"
proof -
  have "to_allocvec pc t = Some bs" using assms(2) by (auto simp: shard_table_encode_def ok_or_def split: option.splits)
  from postcard_okD [OF assms(1) this, of "[]"] show ?thesis
    using assms(3) shard_table_validate_iff [of t] by (simp add: shard_table_decode_def shard_table_ok_def)
qed

lemma apply_shard_op_table:
  assumes pc: "postcard_ok pc" and t: "commit_log_shard_table pc s = Inr t" "shard_table_ok t"
    and ap: "apply_commit_log_shard_op pc s op0 r a = (res, s')"
  shows "\<exists>u. commit_log_shard_table pc s' = Inr u \<and> shard_table_ok u \<and> table_extends t u \<and>
    (case res of
       Inl e \<Rightarrow> s' = s \<and> (\<exists>u. run_shard_op op0 t = Inr (True, u) \<and> to_allocvec pc u = None)
     | Inr metas \<Rightarrow> metas = ct_shards u \<and> u = (case run_shard_op op0 t of Inr (changed, u) \<Rightarrow> u | Inl e \<Rightarrow> t))"
proof -
  let ?d = "note_log_index_revision (revision_mode s) (backend s) r"
  have st: "stored_shard_table pc ?d = Inr t"
    using t(1) by (simp add: commit_log_shard_table_def stored_shard_table_def note_log_index_rows)
  obtain changed u where u: "(case run_shard_op op0 t of Inr outcome \<Rightarrow> outcome | Inl e \<Rightarrow> (False, t)) = (changed, u)" by fastforce
  have ok: "shard_table_ok u" "table_extends t u"
    using u run_shard_op_ok [OF t(2)] t(2) by (auto split: sum.splits)
  have u': "u = (case run_shard_op op0 t of Inr (changed, u) \<Rightarrow> u | Inl e \<Rightarrow> t)" using u by (auto split: sum.splits)
  have same: "\<not> changed \<Longrightarrow> u = t" using u run_shard_op_unchanged by (auto split: sum.splits)
  have ap': "(case bind_result (if changed
        then bind_result (shard_table_encode pc u) (\<lambda>bs. Inr (tx_insert ?d T_kv COMMIT_LOG_SHARD_TABLE_KEY bs)) else Inr ?d)
      (\<lambda>d. Inr (ct_shards u, put_applied d a)) of
        Inl e \<Rightarrow> (Inl e, s) | Inr (x, d) \<Rightarrow> (Inr x, s\<lparr>backend := d\<rparr>)) = (res, s')"
    using ap by (auto simp: apply_commit_log_shard_op_def write_store_def backend_write_def Let_def st u split: sum.splits prod.splits)
  show ?thesis
  proof (cases changed)
    case False
    then have "res = Inr (ct_shards u)" "backend s' = put_applied ?d a" using ap' by (auto simp: split: prod.splits)
    then show ?thesis
      using st ok same [OF False] u'
      by (auto simp: commit_log_shard_table_def stored_shard_table_def table_simps)
  next
    case True
    show ?thesis
    proof (cases "shard_table_encode pc u")
      case (Inl e)
      then have e: "res = Inl e" "s' = s" using ap' True by auto
      have "run_shard_op op0 t = Inr (True, u)" using u True by (auto split: sum.splits)
      moreover have "to_allocvec pc u = None" using Inl by (auto simp: shard_table_encode_def ok_or_def split: option.splits)
      ultimately show ?thesis using t e by auto
    next
      case (Inr bs)
      then have "res = Inr (ct_shards u)" "backend s' = put_applied (tx_insert ?d T_kv COMMIT_LOG_SHARD_TABLE_KEY bs) a"
        using ap' True by auto
      then show ?thesis
        using ok u' shard_table_round_trip [OF pc Inr ok(1)]
        by (auto simp: commit_log_shard_table_def stored_shard_table_def table_simps)
    qed
  qed
qed

lemma shard_op_frame:
  "k \<noteq> COMMIT_LOG_SHARD_TABLE_KEY \<Longrightarrow>
    tx_get (backend (snd (apply_commit_log_shard_op pc s op0 r a))) T_kv k = tx_get (backend s) T_kv k"
  by (auto simp: apply_commit_log_shard_op_def write_store_def backend_write_def Let_def bind_result_def note_log_index_rows
      table_simps split: sum.splits prod.splits)

type_synonym shard_cmd = "CommitLogShardOp \<times> u64 \<times> AppliedLogId"

fun shard_command :: "CommitLogShardTable postcard \<Rightarrow> shard_cmd \<Rightarrow> MvccStorage \<Rightarrow> MvccStorage" where
  "shard_command pc (op0, revision, applied) s = snd (apply_commit_log_shard_op pc s op0 revision applied)"

definition table_state :: "CommitLogShardTable postcard \<Rightarrow> MvccStorage \<Rightarrow> CommitLogShardTable \<Rightarrow> bool" where
  "table_state pc s t \<longleftrightarrow> commit_log_shard_table pc s = Inr t \<and> shard_table_ok t"

lemma apply_shard_op_state:
  assumes "postcard_ok pc" "table_state pc s t" "apply_commit_log_shard_op pc s op0 r a = (res, s')"
  shows "\<exists>u. table_state pc s' u \<and> table_extends t u"
  using apply_shard_op_table [OF assms(1) _ _ assms(3)] assms(2) unfolding table_state_def by blast

lemma shard_commands_state:
  "postcard_ok pc \<Longrightarrow> table_state pc s t \<Longrightarrow> \<exists>u. table_state pc (fold (shard_command pc) cmds s) u \<and> table_extends t u"
proof (induction cmds arbitrary: s t)
  case Nil
  then show ?case by auto
next
  case (Cons c cmds)
  obtain op0 r a where c: "c = (op0, r, a)" by (cases c)
  obtain u where u: "table_state pc (shard_command pc c s) u" "table_extends t u"
    using apply_shard_op_state [OF Cons.prems, of op0 r a] by (cases "apply_commit_log_shard_op pc s op0 r a") (auto simp: c)
  from Cons.IH [OF Cons.prems(1) u(1)] u(2) show ?case by (auto intro: table_extends_trans)
qed

lemma table_state_fresh [simp]: "table_state pc (fresh mode) empty_shard_table"
  by (simp add: table_state_def commit_log_shard_table_def stored_shard_table_def new_with_revision_mode_def)

lemma covering_exact:
  assumes "shard_chain 0 (ct_shards t)"
  shows "(\<exists>!meta. meta \<in> set (ct_shards t) \<and> shard_covers meta ts) \<longleftrightarrow>
    ct_shards t \<noteq> [] \<and> sm_start_ts (hd (ct_shards t)) \<le> ts \<and>
    (sm_end_ts (last (ct_shards t)) = 0 \<or> ts < sm_end_ts (last (ct_shards t)))"
    (is "?one \<longleftrightarrow> ?in")
proof
  assume ?one
  then obtain i where i: "i < length (ct_shards t)" "shard_covers (ct_shards t ! i) ts" by (auto simp: in_set_conv_nth)
  then have ne: "ct_shards t \<noteq> []" by auto
  have "sm_start_ts (hd (ct_shards t)) \<le> ts"
  proof (cases i)
    case 0
    then show ?thesis using i ne by (simp add: hd_conv_nth shard_covers_def)
  next
    case (Suc k)
    have e: "sm_end_ts (ct_shards t ! 0) \<noteq> 0" "sm_end_ts (ct_shards t ! 0) \<le> sm_start_ts (ct_shards t ! i)"
      using shard_chain_order [OF assms, of 0 i] i(1) Suc by auto
    moreover have "sm_start_ts (ct_shards t ! 0) < sm_end_ts (ct_shards t ! 0)"
      using shard_chain_pos [OF assms, of 0] e(1) ne by simp
    ultimately show ?thesis using i(2) ne by (auto simp: hd_conv_nth shard_covers_def)
  qed
  moreover have "sm_end_ts (last (ct_shards t)) = 0 \<or> ts < sm_end_ts (last (ct_shards t))"
  proof (cases "Suc i = length (ct_shards t)")
    case True
    then show ?thesis using i ne by (auto simp: last_conv_nth shard_covers_def simp flip: True)
  next
    case False
    let ?l = "length (ct_shards t) - 1"
    have l: "i < ?l" "?l < length (ct_shards t)" using False i(1) by auto
    have "ts < sm_start_ts (ct_shards t ! ?l)"
      using shard_chain_order [OF assms l] i(2) by (auto simp: shard_covers_def)
    moreover have "sm_end_ts (ct_shards t ! ?l) = 0 \<or> sm_start_ts (ct_shards t ! ?l) < sm_end_ts (ct_shards t ! ?l)"
      using assms l(2) unfolding shard_chain_def by blast
    ultimately show ?thesis using ne by (auto simp: last_conv_nth)
  qed
  ultimately show ?in using ne by blast
next
  assume ?in
  then obtain i where i: "i < length (ct_shards t)" "shard_covers (ct_shards t ! i) ts"
    using shard_covered [OF assms] by blast
  show ?one
  proof (rule ex1I)
    show "ct_shards t ! i \<in> set (ct_shards t) \<and> shard_covers (ct_shards t ! i) ts" using i by simp
    fix meta assume "meta \<in> set (ct_shards t) \<and> shard_covers meta ts"
    then show "meta = ct_shards t ! i" using shard_covers_unique [OF assms _ i(1) _ i(2)] by (auto simp: in_set_conv_nth)
  qed
qed

text \<open>C40: Whatever shard commands region 0 applies, in any order and with any arguments, its
  table divides the timestamps from the first start to the last end among its shards,
  each timestamp to one; later commands keep the identity, the start, a set end and a
  seal of every shard; and only sealed shards are reclaimed.\<close>

theorem shard_table_tiles:
  assumes "postcard_ok pc" "s = fold (shard_command pc) cmds (fresh mode)" "s' = fold (shard_command pc) cmds' s"
  shows "\<exists>t t'. commit_log_shard_table pc s = Inr t \<and> commit_log_shard_table pc s' = Inr t' \<and> table_extends t t' \<and>
    (\<forall>ts. (\<exists>!meta. meta \<in> set (ct_shards t) \<and> shard_covers meta ts) \<longleftrightarrow>
       ct_shards t \<noteq> [] \<and> sm_start_ts (hd (ct_shards t)) \<le> ts \<and>
       (sm_end_ts (last (ct_shards t)) = 0 \<or> ts < sm_end_ts (last (ct_shards t)))) \<and>
    (\<forall>ts meta. covering t ts = Some meta \<longleftrightarrow> meta \<in> set (ct_shards t) \<and> shard_covers meta ts) \<and>
    (\<forall>meta \<in> set (ct_shards t). meta \<in> set (live_shards t) \<or> sm_sealed_at_ms meta \<noteq> 0)"
proof -
  obtain t where t: "table_state pc s t"
    using shard_commands_state [OF assms(1) table_state_fresh] assms(2) by blast
  obtain t' where t': "table_state pc s' t'" "table_extends t t'"
    using shard_commands_state [OF assms(1) t, of cmds'] assms(3) by blast
  have ch: "shard_chain 0 (ct_shards t)" using t by (simp add: table_state_def shard_table_ok_def)
  have "\<forall>meta \<in> set (ct_shards t). meta \<in> set (live_shards t) \<or> sm_sealed_at_ms meta \<noteq> 0"
    using t by (auto simp: table_state_def shard_table_ok_def live_shards_def)
  then show ?thesis using t t' covering_exact [OF ch] covering_iff [OF ch] unfolding table_state_def by blast
qed

definition sample_shard :: "u64 \<Rightarrow> u64 \<Rightarrow> u64 \<Rightarrow> u64 \<Rightarrow> CommitLogShardMeta" where
  "sample_shard i a b e = \<lparr>sm_shard_id = i, sm_start_ts = a, sm_end_ts = b, sm_opened_at_ms = 10, sm_ended_at_ms = e, sm_sealed_at_ms = 0\<rparr>"

definition sample_shards :: "nat \<Rightarrow> CommitLogShardTable" where
  "sample_shards n = \<lparr>ct_shards = take (max n 1) [sample_shard 1 1 (if n = 0 then 0 else 2) (if n = 0 then 0 else 20), sample_shard 2 2 0 0],
     ct_gc_before_ts = 0\<rparr>"

definition sample_shard_pc :: "CommitLogShardTable postcard" where
  "sample_shard_pc = table_codec [sample_shards 0, sample_shards 1, sample_shards 2]"

definition sample_shard_cmds :: "shard_cmd list" where
  "sample_shard_cmds = [(ShardOpen 1 10, 1, standalone 1), (ShardSetEnd 1 2 20, 2, standalone 2)]"

lemma sample_shard_pc_ok: "postcard_ok sample_shard_pc"
  by (simp add: sample_shard_pc_def table_codec_ok)

lemma shard_command_run:
  assumes "postcard_ok pc" "table_state pc s t" "run_shard_op op0 t = Inr (changed, u)" "to_allocvec pc u \<noteq> None"
  shows "table_state pc (shard_command pc (op0, r, a) s) u"
proof -
  obtain res s' where ap: "apply_commit_log_shard_op pc s op0 r a = (res, s')" by fastforce
  from apply_shard_op_table [OF assms(1) _ _ ap] assms(2) obtain v where v: "table_state pc s' v"
      "case res of Inl e \<Rightarrow> s' = s \<and> (\<exists>u. run_shard_op op0 t = Inr (True, u) \<and> to_allocvec pc u = None)
       | Inr metas \<Rightarrow> metas = ct_shards v \<and> v = (case run_shard_op op0 t of Inr (changed, u) \<Rightarrow> u | Inl e \<Rightarrow> t)"
    unfolding table_state_def by blast
  have "v = u" using v(2) assms(3,4) by (cases res) auto
  then show ?thesis using v(1) ap by simp
qed

lemma sample_shard_ops:
  "run_shard_op (ShardOpen 1 10) empty_shard_table = Inr (True, sample_shards 0)"
  "run_shard_op (ShardSetEnd 1 2 20) (sample_shards 0) = Inr (True, sample_shards 1)"
  "to_allocvec sample_shard_pc (sample_shards 0) \<noteq> None" "to_allocvec sample_shard_pc (sample_shards 1) \<noteq> None"
  by (simp_all add: shard_open_def shard_set_end_def shard_latest_def empty_shard_table_def sample_shards_def sample_shard_def
      word_le_nat_alt sample_shard_pc_def table_codec_def)

definition sample_opened :: MvccStorage where
  "sample_opened = shard_command sample_shard_pc (ShardOpen 1 10, 1, standalone 1) (fresh LogIndex)"

lemma sample_opened_table: "table_state sample_shard_pc sample_opened (sample_shards 0)"
  unfolding sample_opened_def
  by (rule shard_command_run [OF sample_shard_pc_ok table_state_fresh sample_shard_ops(1,3)])

lemma sample_shard_commands:
  "table_state sample_shard_pc (fold (shard_command sample_shard_pc) sample_shard_cmds (fresh LogIndex)) (sample_shards 1)"
  using shard_command_run [OF sample_shard_pc_ok sample_opened_table sample_shard_ops(2,4), of 2 "standalone 2"]
  by (simp add: sample_shard_cmds_def sample_opened_def)

theorem shard_table_tiles_witness:
  "\<exists>meta. commit_log_shard_table sample_shard_pc
      (fold (shard_command sample_shard_pc) sample_shard_cmds (fresh LogIndex)) = Inr (sample_shards 1) \<and>
    meta \<in> set (ct_shards (sample_shards 1)) \<and> shard_covers meta 1 \<and>
    (\<forall>meta' \<in> set (ct_shards (sample_shards 1)). shard_covers meta' 1 \<longrightarrow> meta' = meta)"
proof -
  have st: "commit_log_shard_table sample_shard_pc
      (fold (shard_command sample_shard_pc) sample_shard_cmds (fresh LogIndex)) = Inr (sample_shards 1)"
    using sample_shard_commands by (simp add: table_state_def)
  have "\<exists>!meta. meta \<in> set (ct_shards (sample_shards 1)) \<and> shard_covers meta 1"
    using shard_table_tiles [OF sample_shard_pc_ok refl refl, of sample_shard_cmds LogIndex "[]"] st
    by (auto simp: sample_shards_def sample_shard_def)
  then show ?thesis using st by auto
qed

section \<open>A bounded last shard\<close>

lemma propose_keeps_length:
  assumes "postcard_ok pc" "table_state pc s t" "propose pc raft op0 i s = (res, s')"
    and "(\<exists>shard now. op0 = ShardSeal shard now) \<or> (\<exists>through. op0 = ShardGc through)"
  shows "\<exists>u. table_state pc s' u \<and> table_extends t u \<and> length (ct_shards u) = length (ct_shards t)"
proof (cases "raft i")
  case (Inl e)
  then show ?thesis using assms(2,3) by (auto simp: propose_def)
next
  case (Inr p)
  obtain r a where p: "p = (r, a)" by (cases p)
  have ap: "apply_commit_log_shard_op pc s op0 r a = (res, s')" using assms(3) Inr p by (simp add: propose_def)
  from apply_shard_op_table [OF assms(1) _ _ ap] assms(2) obtain u where u: "table_state pc s' u" "table_extends t u"
      "case res of Inl e \<Rightarrow> s' = s \<and> (\<exists>u. run_shard_op op0 t = Inr (True, u) \<and> to_allocvec pc u = None)
       | Inr metas \<Rightarrow> metas = ct_shards u \<and> u = (case run_shard_op op0 t of Inr (changed, u) \<Rightarrow> u | Inl e \<Rightarrow> t)"
    unfolding table_state_def by blast
  have same: "length (ct_shards v) = length (ct_shards t)" if "run_shard_op op0 t = Inr (changed, v)" for changed v
    using that assms(4) by (auto simp: shard_seal_def advance_gc_def split: option.splits if_splits)
  show ?thesis
  proof (cases res)
    case (Inl e)
    then show ?thesis using u(3) assms(2) by auto
  next
    case Inr
    then have "length (ct_shards u) = length (ct_shards t)" using u(3) same by (auto split: sum.splits)
    then show ?thesis using u by blast
  qed
qed

lemma seal_loop_keeps_length:
  assumes pc: "postcard_ok pc"
  shows "table_state pc s t \<Longrightarrow> seal_loop pc raft cfg now wm metas i acc s = (res, s') \<Longrightarrow>
    \<exists>u. table_state pc s' u \<and> table_extends t u \<and> length (ct_shards u) = length (ct_shards t)"
proof (induction metas arbitrary: s t i acc)
  case Nil
  then show ?case by (cases acc) auto
next
  case (Cons m ms)
  obtain sc st where acc: "acc = (sc, st)" by (cases acc)
  obtain r s1 where p: "propose pc raft (ShardSeal (sm_shard_id m) now) i s = (r, s1)" by fastforce
  from propose_keeps_length [OF pc Cons.prems(1) p] obtain u where
    u: "table_state pc s1 u" "table_extends t u" "length (ct_shards u) = length (ct_shards t)" by auto
  show ?case
  proof (cases "\<not> (\<not> sm_end_ts m \<le> wm) \<or> seal_timeout_due (sm_ended_at_ms m) now (kc_shard_seal_timeout_secs cfg)")
    case False
    then show ?thesis using Cons.prems Cons.IH by (auto simp: acc)
  next
    case True
    show ?thesis
    proof (cases r)
      case (Inl e)
      then show ?thesis using Cons.prems(2) p u True by (auto simp: acc)
    next
      case (Inr x)
      then obtain i' acc' where "seal_loop pc raft cfg now wm ms i' acc' s1 = (res, s')"
        using Cons.prems(2) p True by (auto simp: acc)
      from Cons.IH [OF u(1) this] u show ?thesis by (auto intro: table_extends_trans)
    qed
  qed
qed

text \<open>A table whose last shard has an end: \<open>same_shards\<close> is what stays under a coordinator pass.\<close>

definition same_shards :: "CommitLogShardTable postcard \<Rightarrow> CommitLogShardTable \<Rightarrow> MvccStorage \<Rightarrow> bool" where
  "same_shards pc t s \<longleftrightarrow> (\<exists>u. table_state pc s u \<and> table_extends t u \<and> length (ct_shards u) = length (ct_shards t))"

lemma same_shards_trans: "same_shards pc t s \<Longrightarrow> (\<And>u. table_state pc s u \<Longrightarrow> same_shards pc u s') \<Longrightarrow> same_shards pc t s'"
  unfolding same_shards_def by (metis table_extends_trans)

lemma same_shards_refl: "table_state pc s t \<Longrightarrow> same_shards pc t s"
  unfolding same_shards_def by auto

lemma bounded_last:
  assumes "shard_latest t = Some lst" "sm_end_ts lst \<noteq> 0" "table_extends t u" "length (ct_shards u) = length (ct_shards t)"
  shows "\<exists>lst'. shard_latest u = Some lst' \<and> sm_end_ts lst' = sm_end_ts lst"
proof -
  let ?l = "length (ct_shards t) - 1"
  have ne: "ct_shards t \<noteq> []" "ct_shards t ! ?l = lst" using assms(1) by (auto simp: shard_latest_def last_conv_nth split: if_splits)
  then have "?l < length (ct_shards t)" by simp
  then have "sm_end_ts (ct_shards u ! ?l) = sm_end_ts lst" using assms(2,3) ne(2) by (auto simp: table_extends_def)
  moreover have "ct_shards u \<noteq> []" using assms(4) ne(1) by auto
  ultimately show ?thesis using assms(4) by (auto simp: shard_latest_def last_conv_nth)
qed

lemma advance_metadata_bounded:
  assumes pc: "postcard_ok pc" and t: "table_state pc s t" "shard_latest t = Some lst" "sm_end_ts lst \<noteq> 0"
    and run: "advance_metadata pc raft cfg ensure now wm s = (res, s')"
  shows "same_shards pc t s'"
proof -
  let ?ms = "filter (\<lambda>meta. sm_end_ts meta \<noteq> 0 \<and> sm_sealed_at_ms meta = 0) (ct_shards t)"
  obtain r s1 where r: "seal_loop pc raft cfg now wm ?ms 0 (0, 0) s = (r, s1)" by fastforce
  have tt: "commit_log_shard_table pc s = Inr t" using t(1) by (simp add: table_state_def)
  have "s' = s1"
    using run by (cases r) (auto simp: advance_metadata_def seal_bounded_def tt t(2,3) r)
  then show ?thesis using seal_loop_keeps_length [OF pc t(1) r] by (simp add: same_shards_def)
qed

lemma advance_gc_metadata_rows:
  assumes pc: "postcard_ok pc" and t: "table_state pc s t"
    and run: "advance_gc_metadata pc raft cfg now wm s = (res, s')"
  shows "same_shards pc t s'"
proof (cases "gc_boundary t wm now (kc_watch_retention cfg)")
  case None
  then show ?thesis using run t by (auto simp: advance_gc_metadata_def table_state_def intro: same_shards_refl)
next
  case (Some through)
  obtain r s1 where p: "propose pc raft (ShardGc through) 0 s = (r, s1)" by fastforce
  have "s' = s1" using run t p Some by (cases r) (auto simp: advance_gc_metadata_def table_state_def)
  then show ?thesis using propose_keeps_length [OF pc t p] by (auto simp: same_shards_def)
qed

lemma publish_watermark_rows:
  assumes "table_state pc s t" "publish_watermark A wm s = (res, s')"
  shows "table_state pc s' t"
proof -
  have k: "COMMIT_LOG_SHARD_TABLE_KEY \<noteq> COMMIT_WATERMARK"
    by (simp add: COMMIT_LOG_SHARD_TABLE_KEY_def COMMIT_WATERMARK_def ascii_def)
  have "tx_get (backend s') T_kv COMMIT_LOG_SHARD_TABLE_KEY = tx_get (backend s) T_kv COMMIT_LOG_SHARD_TABLE_KEY"
    using assms(2) k
    by (auto simp: publish_watermark_def publish_commit_watermark_def write_store_def backend_write_def Let_def table_simps
        split: sum.splits if_splits)
  then show ?thesis using assms(1) by (simp add: table_state_def commit_log_shard_table_def stored_shard_table_def)
qed

lemma leader_tick_bounded:
  assumes pc: "postcard_ok pc" and t: "table_state pc s t" "shard_latest t = Some lst" "sm_end_ts lst \<noteq> 0"
  shows "same_shards pc t (snd (leader_tick E Z pc A s))"
proof (cases "local_watermark E Z pc s (te_ensure_runtime A) (te_regions A)")
  case (Inl e)
  then show ?thesis using t(1) by (simp add: leader_tick_def same_shards_refl)
next
  case (Inr state)
  let ?w = "ws_watermark state"
  obtain r1 s1 where p: "(if commit_watermark s < ?w then publish_watermark A ?w s else (Inr 0, s)) = (r1, s1)" by fastforce
  have t1: "table_state pc s1 t" using p t(1) publish_watermark_rows by (auto split: if_splits)
  obtain r2 s2 where m: "advance_metadata pc (te_metadata A) (te_cfg A) (te_ensure_runtime A) (te_now A) ?w s1 = (r2, s2)" by fastforce
  obtain r3 s3 where g: "advance_gc_metadata pc (te_gc A) (te_cfg A) (te_now A) ?w s2 = (r3, s3)" by fastforce
  have s2: "same_shards pc t s2" by (rule advance_metadata_bounded [OF pc t1 t(2,3) m])
  have s3: "same_shards pc t s3" using s2 advance_gc_metadata_rows [OF pc _ g] by (rule same_shards_trans)
  have "snd (leader_tick E Z pc A s) \<in> {s1, s2, s3}"
    using p m g by (auto simp: leader_tick_def Inr split: sum.splits prod.splits)
  then show ?thesis using same_shards_refl [OF t1] s2 s3 by auto
qed

lemma leader_ticks_bounded:
  assumes pc: "postcard_ok pc" and t: "table_state pc s t" "shard_latest t = Some lst" "sm_end_ts lst \<noteq> 0"
  shows "same_shards pc t (fold (\<lambda>A s. snd (leader_tick E Z pc A s)) ticks s)"
  using t
proof (induction ticks arbitrary: s t lst)
  case Nil
  then show ?case by (simp add: same_shards_refl)
next
  case (Cons A ticks)
  obtain u where u: "table_state pc (snd (leader_tick E Z pc A s)) u" "table_extends t u" "length (ct_shards u) = length (ct_shards t)"
    using leader_tick_bounded [OF pc Cons.prems, of E Z A] by (auto simp: same_shards_def)
  obtain lst' where l: "shard_latest u = Some lst'" "sm_end_ts lst' \<noteq> 0" using bounded_last [OF Cons.prems(2,3) u(2,3)] Cons.prems(3) by auto
  from Cons.IH [OF u(1) l] u(2,3) show ?case by (auto simp: same_shards_def intro: table_extends_trans)
qed

text \<open>Once the last shard has an end and no shard follows it, the coordinator never opens
  another one: after any number of leader ticks the table has the same shards, and no
  shard covers a timestamp from that end on, so no record committed from then on is
  shipped or read. A pass that fails between its two proposals leaves such a table.\<close>

theorem shard_log_stuck:
  assumes "postcard_ok pc" "commit_log_shard_table pc s = Inr t" "shard_table_ok t" "shard_latest t = Some lst" "sm_end_ts lst \<noteq> 0"
  shows "\<exists>u. commit_log_shard_table pc (fold (\<lambda>A s. snd (leader_tick E Z pc A s)) ticks s) = Inr u \<and>
    length (ct_shards u) = length (ct_shards t) \<and> (\<forall>ts \<ge> sm_end_ts lst. covering u ts = None)"
proof -
  obtain u where u: "table_state pc (fold (\<lambda>A s. snd (leader_tick E Z pc A s)) ticks s) u" "table_extends t u"
      "length (ct_shards u) = length (ct_shards t)"
    using leader_ticks_bounded [OF assms(1) _ assms(4,5), of s E Z ticks] assms(2,3) by (auto simp: same_shards_def table_state_def)
  obtain lst' where l: "shard_latest u = Some lst'" "sm_end_ts lst' = sm_end_ts lst" using bounded_last [OF assms(4,5) u(2,3)] by blast
  have ch: "shard_chain 0 (ct_shards u)" using u(1) by (simp add: table_state_def shard_table_ok_def)
  have "covering u ts = None" if "sm_end_ts lst \<le> ts" for ts
  proof (rule ccontr)
    assume "covering u ts \<noteq> None"
    then obtain meta where "covering u ts = Some meta" by blast
    then have "\<exists>!meta. meta \<in> set (ct_shards u) \<and> shard_covers meta ts" using covering_iff [OF ch] by (metis option.inject)
    then show False using covering_exact [OF ch, of ts] l assms(5) that by (auto simp: shard_latest_def)
  qed
  then show ?thesis using u by (auto simp: table_state_def)
qed

definition sample_raft :: "nat \<Rightarrow> (u64 \<times> AppliedLogId) result" where
  "sample_raft i = (if i = 0 then Inr (2, standalone 2) else Inl NotLeader)"

definition sample_shard_cfg :: KvTRuntimeConfig where
  "sample_shard_cfg = \<lparr>kc_commit_log_shard_records = 0, kc_commit_log_shard_secs = 0, kc_shard_seal_timeout_secs = 300, kc_watch_retention = 60\<rparr>"

definition sample_split :: "(u64 \<times> u64 \<times> u64) result \<times> MvccStorage" where
  "sample_split = advance_metadata sample_shard_pc sample_raft sample_shard_cfg (\<lambda>_. Inr (fresh CommitTs)) 20 0 sample_opened"

lemma sample_split_run:
  "fst sample_split = Inl NotLeader" "snd sample_split = fold (shard_command sample_shard_pc) sample_shard_cmds (fresh LogIndex)"
proof -
  have t: "commit_log_shard_table sample_shard_pc sample_opened = Inr (sample_shards 0)"
    using sample_opened_table by (simp add: table_state_def)
  have l: "shard_latest (sample_shards 0) = Some (sample_shard 1 1 0 0)" by (simp add: shard_latest_def sample_shards_def)
  have z: "commit_log_record_count (fresh CommitTs) = 0" "commit_log_cursor (fresh CommitTs) = 0"
    by (simp_all add: commit_log_record_count_def commit_log_cursor_def read_u64_row_def new_with_revision_mode_def)
  have q: "sequencer_last_commit_ts sample_opened = 0"
    by (simp add: sequencer_last_commit_ts_def read_u64_row_def sample_opened_def shard_op_frame COMMIT_LOG_SHARD_TABLE_KEY_def
        key_defs ascii_def new_with_revision_mode_def)
  have e: "split_end_ts 0 0 1 = 2" by (simp add: split_end_ts_def sat_add64_def)
  obtain res s1 where p: "apply_commit_log_shard_op sample_shard_pc sample_opened (ShardSetEnd 1 2 20) 2 (standalone 2) = (res, s1)"
    by fastforce
  have "res = Inr (ct_shards (sample_shards 1))"
    using apply_shard_op_table [OF sample_shard_pc_ok t _ p] sample_opened_table sample_shard_ops(2,4)
    by (cases res) (auto simp: table_state_def simp del: run_shard_op.simps)
  then have sp: "sample_split = (Inl NotLeader, s1)"
    using p by (simp add: sample_split_def advance_metadata_def t l z q e seal_due_def sample_shard_cfg_def sample_shard_def
        propose_def sample_raft_def)
  show "fst sample_split = Inl NotLeader" unfolding sp by simp
  show "snd sample_split = fold (shard_command sample_shard_pc) sample_shard_cmds (fresh LogIndex)"
    unfolding sp using p [unfolded sample_opened_def] by (simp add: sample_shard_cmds_def)
qed

theorem shard_log_stuck_witness:
  "fst sample_split = Inl NotLeader \<and>
   (\<forall>ticks. \<exists>u. commit_log_shard_table sample_shard_pc
      (fold (\<lambda>A s. snd (leader_tick sample_env sample_log_env sample_shard_pc A s)) ticks (snd sample_split)) = Inr u \<and>
    length (ct_shards u) = 1 \<and> covering u 7 = None)"
proof -
  have t: "commit_log_shard_table sample_shard_pc (snd sample_split) = Inr (sample_shards 1)" "shard_table_ok (sample_shards 1)"
    using sample_shard_commands by (simp_all add: sample_split_run(2) table_state_def)
  have l: "shard_latest (sample_shards 1) = Some (sample_shard 1 1 2 20)" "sm_end_ts (sample_shard 1 1 2 20) = 2"
      "length (ct_shards (sample_shards 1)) = 1" "sm_end_ts (sample_shard 1 1 2 20) \<noteq> 0"
    by (simp_all add: shard_latest_def sample_shards_def sample_shard_def)
  have "(2 :: u64) \<le> 7" by (simp add: word_le_nat_alt)
  then show ?thesis
    using shard_log_stuck [OF sample_shard_pc_ok t l(1,4), of sample_env sample_log_env] sample_split_run(1)
    unfolding l(2,3) by blast
qed

section \<open>Reads in timestamp order\<close>

lemma prefix_upper_bound_successor:
  "prefix_upper_bound P = (case prefix_successor P of Some q \<Rightarrow> q | None \<Rightarrow> [])"
proof -
  have "prefix_upper_bound_loop xs = (case prefix_successor_loop xs of Some q \<Rightarrow> q | None \<Rightarrow> [])" for xs
    by (induction xs) auto
  then show ?thesis by (simp add: prefix_upper_bound_def prefix_successor_def)
qed

lemma prefix_upper_bound_range:
  "in_range (P @ q) (prefix_upper_bound P) k \<longleftrightarrow> prefix P k \<and> P @ q \<le> k"
proof (cases "prefix_successor P")
  case None
  then show ?thesis
    using prefix_successor_None_imp [OF None, of k] order_trans [OF le_append [of P q], of k]
    by (auto simp: prefix_upper_bound_successor in_range_def)
next
  case (Some u)
  have "u \<noteq> []" using Some by (cases P) (auto split: option.splits if_splits)
  then show ?thesis
    using prefix_successor_Some_imp [OF Some, of k] order_trans [OF le_append [of P q], of k]
    by (auto simp: prefix_upper_bound_successor in_range_def Some)
qed

lemma shard_prefix_row: "prefix (commit_log_shard_prefix shard) (row_key (record_key_of rc)) \<longleftrightarrow> cr_shard_id rc = shard"
  by (auto simp: commit_log_shard_prefix_def record_key_of_def encode_commit_log_key_def prefix_def)

definition rec_less :: "CommitRecord \<Rightarrow> CommitRecord \<Rightarrow> bool" where
  "rec_less x y \<longleftrightarrow> cr_commit_ts x < cr_commit_ts y \<or> cr_commit_ts x = cr_commit_ts y \<and> cr_region_id x < cr_region_id y"

lemma decode_rows_take:
  "decode_commit_log_rows Z rs = Inr rcs \<Longrightarrow> decode_commit_log_rows Z (take n rs) = Inr (take n rcs)"
proof (induction rs arbitrary: rcs n)
  case (Cons r rs)
  then show ?case by (cases r; cases n) (auto split: sum.splits)
qed simp

lemma commit_records_after_exact:
  assumes ok: "log_rows_ok Z (backend s)"
  shows "\<exists>rcs. (\<forall>n. commit_records_after Z s shard after (Suc n) = Inr (take (Suc n) rcs)) \<and> sorted_wrt rec_less rcs \<and>
    (\<forall>rc. rc \<in> set rcs \<longleftrightarrow> cr_shard_id rc = shard \<and> sat_succ after \<le> cr_commit_ts rc \<and>
       records Z (backend s) (record_key_of rc) = Some rc)"
proof -
  have db: "db_ok (backend s)" using ok by (simp add: log_rows_ok_def)
  let ?a = "encode_commit_log_key shard (sat_succ after) 0"
  let ?b = "prefix_upper_bound (commit_log_shard_prefix shard)"
  let ?rs = "tx_iter_range (backend s) T_commit_log ?a ?b"
  have key: "encode_commit_log_key sh ts r = commit_log_shard_prefix sh @ u64_bytes ts @ u64_bytes r" for sh ts r
    by (simp add: encode_commit_log_key_def commit_log_shard_prefix_def)
  have rng: "in_range ?a ?b (row_key (record_key_of rc)) \<longleftrightarrow> cr_shard_id rc = shard \<and> sat_succ after \<le> cr_commit_ts rc" for rc
  proof -
    have "in_range ?a ?b (row_key (record_key_of rc)) \<longleftrightarrow> cr_shard_id rc = shard \<and> ?a \<le> row_key (record_key_of rc)"
      unfolding key prefix_upper_bound_range shard_prefix_row by simp
    moreover have "?a \<le> row_key (record_key_of rc) \<longleftrightarrow> sat_succ after \<le> cr_commit_ts rc" if "cr_shard_id rc = shard"
      using that by (auto simp: record_key_of_def le_less encode_commit_log_key_less word_gt_0)
    ultimately show ?thesis by auto
  qed
  obtain rcs where rcs: "decode_commit_log_rows Z ?rs = Inr rcs"
      "sorted_wrt (\<lambda>x y. row_key (record_key_of x) < row_key (record_key_of y)) rcs"
      "\<forall>rc. rc \<in> set rcs \<longleftrightarrow> in_range ?a ?b (row_key (record_key_of rc)) \<and> records Z (backend s) (record_key_of rc) = Some rc"
    using read_rows [OF ok, of ?rs "in_range ?a ?b"] db tx_iter_range_iff [OF db] by auto
  have "sorted_wrt rec_less rcs"
    using rcs(2) by (rule sorted_wrt_mono_rel [rotated])
      (use rcs(3) rng in \<open>auto simp: record_key_of_def encode_commit_log_key_less rec_less_def\<close>)
  moreover have "commit_records_after Z s shard after (Suc n) = Inr (take (Suc n) rcs)" for n
    unfolding commit_records_after_def tx_iter_range_limited_take [OF db] using decode_rows_take [OF rcs(1)] by simp
  ultimately show ?thesis using rcs(3) rng by blast
qed

section \<open>What the watermark promises\<close>

lemma min_of_le: "min_of xs = Some m \<Longrightarrow> x \<in> set xs \<Longrightarrow> m \<le> x"
  using less_foldl_min [of x] by (cases xs) (auto simp: min_of_def simp flip: not_less)

lemma watermark_below:
  "ws_watermark (commit_watermark_state last_ts xs) \<le> last_ts"
  "x \<in> set xs \<Longrightarrow> x \<noteq> 0 \<Longrightarrow> ws_watermark (commit_watermark_state last_ts xs) < x"
proof -
  show "ws_watermark (commit_watermark_state last_ts xs) \<le> last_ts"
    by (simp add: commit_watermark_state_def Let_def split: option.splits)
  assume x: "x \<in> set xs" "x \<noteq> 0"
  obtain m where m: "min_of xs = Some m" using x(1) by (cases xs) (auto simp: min_of_def)
  have "sat_sub64 m 1 < x"
    using min_of_le [OF m x(1)] x(2) by (auto simp: word_less_nat_alt word_le_nat_alt unat_sat_sub64 unat_eq_0 [symmetric] simp del: unat_eq_0)
  then show "ws_watermark (commit_watermark_state last_ts xs) < x"
    by (simp add: commit_watermark_state_def m min_less_iff_disj)
qed

lemma set_map_filter_id: "x \<in> set (List.map_filter id xs) \<longleftrightarrow> Some x \<in> set xs"
  by (induction xs) (auto simp: List.map_filter_def split: option.splits)

lemma collect_results_mem: "collect_results f xs = Inr ys \<Longrightarrow> x \<in> set xs \<Longrightarrow> \<exists>y \<in> set ys. f x = Inr y"
  by (induction xs arbitrary: ys) auto

definition outbox :: "log_env \<Rightarrow> RegionRuntime \<Rightarrow> CommitRecord \<Rightarrow> bool" where
  "outbox Z rt rc \<longleftrightarrow> cr_shard_id rc = COMMIT_LOG_STAGING_SHARD_ID \<and> records Z (backend (rr_store rt)) (record_key_of rc) = Some rc"

lemma ship_floor_start: "sm_start_ts meta \<noteq> 0 \<Longrightarrow> ship_floor meta g r < ts \<Longrightarrow> sm_start_ts meta \<le> ts"
  unfolding ship_floor_def max_less_iff_conj by (auto simp: word_le_nat_alt word_less_nat_alt unat_sat_sub64)

lemma sat_succ_floor: "a < b \<longleftrightarrow> sat_succ a \<le> b \<and> a \<noteq> - 1" for a b :: u64
proof (cases "a = - 1")
  case True
  then show ?thesis by (simp add: not_less)
qed (simp add: sat_succ_le)

lemma outbox_in_flight_bound:
  assumes ok: "log_rows_ok Z (backend (rr_store rt))" and start: "sm_start_ts meta \<noteq> 0"
    and fl: "outbox_in_flight Z meta g rt = Inr next_ts"
    and rc: "outbox Z rt rc" "shard_covers meta (cr_commit_ts rc)" "ship_floor meta g (rm_region_id (rr_meta rt)) < cr_commit_ts rc"
  shows "\<exists>ts. next_ts = Some ts \<and> ts \<noteq> 0 \<and> ts \<le> cr_commit_ts rc"
proof -
  let ?f = "ship_floor meta g (rm_region_id (rr_meta rt))"
  obtain rcs where rcs: "\<And>n. commit_records_after Z (rr_store rt) COMMIT_LOG_STAGING_SHARD_ID ?f (Suc n) = Inr (take (Suc n) rcs)"
      "sorted_wrt rec_less rcs"
      "\<And>rc. rc \<in> set rcs \<longleftrightarrow> cr_shard_id rc = COMMIT_LOG_STAGING_SHARD_ID \<and> sat_succ ?f \<le> cr_commit_ts rc \<and>
         records Z (backend (rr_store rt)) (record_key_of rc) = Some rc"
    using commit_records_after_exact [OF ok] by meson
  have mem: "rc \<in> set rcs" using rc by (auto simp: rcs(3) outbox_def sat_succ_floor)
  then obtain r0 rest where l: "rcs = r0 # rest" by (cases rcs) auto
  have le: "cr_commit_ts r0 \<le> cr_commit_ts rc" using mem rcs(2) by (auto simp: l rec_less_def)
  have "?f < cr_commit_ts r0"
  proof -
    have "?f \<noteq> - 1" using rc(3) by (auto simp: sat_succ_floor)
    moreover have "r0 \<in> set rcs" by (simp add: l)
    then have "sat_succ ?f \<le> cr_commit_ts r0" using rcs(3) by blast
    ultimately show ?thesis by (simp add: sat_succ_floor)
  qed
  then have r0: "sm_start_ts meta \<le> cr_commit_ts r0" using ship_floor_start [OF start] by blast
  have "next_ts = unshipped_record (sm_start_ts meta) (sm_end_ts meta) (Some (cr_commit_ts r0))"
    using fl rcs(1) [of 0] by (simp add: outbox_in_flight_def l)
  then show ?thesis using r0 le rc(2) start by (auto simp: unshipped_record_def shard_covers_def)
qed

lemma local_watermark_safe:
  assumes w: "local_watermark E Z pc system ensure regions = Inr st" and t: "commit_log_shard_table pc system = Inr t"
    "shard_chain 0 (ct_shards t)"
  shows "ws_watermark st \<le> sequencer_last_commit_ts system"
    and "rt \<in> set regions \<Longrightarrow> \<exists>n. next_sequencer_decision_ts E system (last_applied_decision_ts (rr_store rt)) = Inr n \<and>
      (\<forall>ts. n = Some ts \<longrightarrow> last_applied_decision_ts (rr_store rt) < ts \<longrightarrow> ws_watermark st < ts)"
    and "rt \<in> set regions \<Longrightarrow> meta \<in> set (live_shards t) \<Longrightarrow> log_rows_ok Z (backend (rr_store rt)) \<Longrightarrow>
      \<exists>g. ensure (sm_shard_id meta) = Inr g \<and>
        (\<forall>rc. outbox Z rt rc \<longrightarrow> shard_covers meta (cr_commit_ts rc) \<longrightarrow>
           ship_floor meta g (rm_region_id (rr_meta rt)) < cr_commit_ts rc \<longrightarrow> ws_watermark st < cr_commit_ts rc)"
proof -
  obtain pending where p1: "collect_results (region_in_flight E system) regions = Inr pending"
    using w t(1) by (cases "collect_results (region_in_flight E system) regions") (simp_all add: local_watermark_def)
  obtain unshipped where p2: "collect_results (shard_in_flight Z ensure regions) (live_shards t) = Inr unshipped"
    using w t(1) p1 by (cases "collect_results (shard_in_flight Z ensure regions) (live_shards t)") (simp_all add: local_watermark_def)
  have p3: "st = commit_watermark_state (sequencer_last_commit_ts system) (List.map_filter id (pending @ concat unshipped))"
    using w t(1) p1 p2 by (simp add: local_watermark_def)
  note p = p1 p2 p3
  have mf: "ts \<in> set (List.map_filter id (pending @ concat unshipped)) \<longleftrightarrow> Some ts \<in> set pending \<or> (\<exists>xs \<in> set unshipped. Some ts \<in> set xs)" for ts
    by (auto simp: set_map_filter_id)
  show "ws_watermark st \<le> sequencer_last_commit_ts system" by (simp add: p(3) watermark_below)
  show "\<exists>n. next_sequencer_decision_ts E system (last_applied_decision_ts (rr_store rt)) = Inr n \<and>
      (\<forall>ts. n = Some ts \<longrightarrow> last_applied_decision_ts (rr_store rt) < ts \<longrightarrow> ws_watermark st < ts)" if rt: "rt \<in> set regions"
  proof -
    obtain y where y: "y \<in> set pending" "region_in_flight E system rt = Inr y" using collect_results_mem [OF p(1) rt] by blast
    then obtain n where n: "next_sequencer_decision_ts E system (last_applied_decision_ts (rr_store rt)) = Inr n"
        "y = pending_decision (last_applied_decision_ts (rr_store rt)) n"
      by (auto simp: region_in_flight_def Let_def)
    have "ws_watermark st < ts" if "n = Some ts" "last_applied_decision_ts (rr_store rt) < ts" for ts
      unfolding p(3) by (rule watermark_below(2)) (use that n(2) y(1) mf in \<open>auto simp: pending_decision_def\<close>)
    then show ?thesis using n(1) by blast
  qed
  show "\<exists>g. ensure (sm_shard_id meta) = Inr g \<and>
        (\<forall>rc. outbox Z rt rc \<longrightarrow> shard_covers meta (cr_commit_ts rc) \<longrightarrow>
           ship_floor meta g (rm_region_id (rr_meta rt)) < cr_commit_ts rc \<longrightarrow> ws_watermark st < cr_commit_ts rc)"
    if r: "rt \<in> set regions" "meta \<in> set (live_shards t)" "log_rows_ok Z (backend (rr_store rt))"
  proof -
    obtain xs where xs: "xs \<in> set unshipped" "shard_in_flight Z ensure regions meta = Inr xs" using collect_results_mem [OF p(2) r(2)] by blast
    then obtain g where g: "ensure (sm_shard_id meta) = Inr g" "collect_results (outbox_in_flight Z meta g) regions = Inr xs"
      by (auto simp: shard_in_flight_def)
    obtain y where y: "y \<in> set xs" "outbox_in_flight Z meta g rt = Inr y" using collect_results_mem [OF g(2) r(1)] by blast
    have start: "sm_start_ts meta \<noteq> 0" using r(2) t(2) by (auto simp: live_shards_def shard_chain_def in_set_conv_nth)
    have "ws_watermark st < cr_commit_ts rc"
      if rc: "outbox Z rt rc" "shard_covers meta (cr_commit_ts rc)" "ship_floor meta g (rm_region_id (rr_meta rt)) < cr_commit_ts rc" for rc
    proof -
      obtain ts where ts: "y = Some ts" "ts \<noteq> 0" "ts \<le> cr_commit_ts rc" using outbox_in_flight_bound [OF r(3) start y(2) rc] by blast
      have "ws_watermark st < ts" unfolding p(3) by (rule watermark_below(2)) (use ts y(1) xs(1) mf in auto)
      then show ?thesis using ts(3) by simp
    qed
    then show ?thesis using g(1) by blast
  qed
qed

end
