(* ===== verification/Scope_Auth.thy ===== *)
theory Scope_Auth
  imports Commit_Log Region_Table "HOL-Library.AList"
begin

text \<open>
  Scopes: which keys a capability grant covers. The scope trie and the cover test for
  intervals come from \<open>coord-core/src/auth/trie.rs\<close>, the decision for a whole request
  from \<open>coord-core/src/grpc_auth.rs\<close>, the reserved namespaces from
  \<open>coord-server/src/auth/interceptor.rs\<close>, and the guards of the two watch services from
  \<open>coord-server/src/server/mod.rs\<close> and \<open>coord-server/src/kvt/watch_rpc.rs\<close>. Strings are
  their UTF-8 bytes; splitting at a slash and the tests on scope characters only look
  at ASCII characters, so they agree on both.
\<close>

section \<open>Strings\<close>

definition slash :: byte where "slash = 0x2F"

definition star :: byte where "star = 0x2A"

text \<open>The pieces between slashes, and a string without a given ending.\<close>

fun split_slash :: "bytes \<Rightarrow> bytes list" where
  "split_slash [] = [[]]"
| "split_slash (c # cs) =
    (if c = slash then [] # split_slash cs
     else case split_slash cs of s # ss \<Rightarrow> (c # s) # ss | [] \<Rightarrow> [[c]])"

definition strip_suffix :: "bytes \<Rightarrow> bytes \<Rightarrow> bytes option" where
  "strip_suffix suf s = (if suffix suf s then Some (take (length s - length suf) s) else None)"

text \<open>
  The length of the UTF-8 sequence a string starts with, zero when it starts with
  none, and whether the whole string is UTF-8.
\<close>

definition continuation :: "byte \<Rightarrow> byte \<Rightarrow> bytes \<Rightarrow> bool" where
  "continuation lo hi bs = (case bs of b # _ \<Rightarrow> lo \<le> b \<and> b \<le> hi | [] \<Rightarrow> False)"

definition utf8_first :: "bytes \<Rightarrow> nat" where
  "utf8_first bs =
    (case bs of
       [] \<Rightarrow> 0
     | a # r \<Rightarrow>
         if a < 0x80 then 1
         else if 0xC2 \<le> a \<and> a \<le> 0xDF then (if continuation 0x80 0xBF r then 2 else 0)
         else if 0xE0 \<le> a \<and> a \<le> 0xEF then
           (if continuation (if a = 0xE0 then 0xA0 else 0x80) (if a = 0xED then 0x9F else 0xBF) r \<and>
               continuation 0x80 0xBF (tl r) then 3 else 0)
         else if 0xF0 \<le> a \<and> a \<le> 0xF4 then
           (if continuation (if a = 0xF0 then 0x90 else 0x80) (if a = 0xF4 then 0x8F else 0xBF) r \<and>
               continuation 0x80 0xBF (tl r) \<and> continuation 0x80 0xBF (tl (tl r)) then 4 else 0)
         else 0)"

function utf8 :: "bytes \<Rightarrow> bool" where
  "utf8 bs = (if bs = [] then True else if utf8_first bs = 0 then False else utf8 (drop (utf8_first bs) bs))"
  by auto
termination by (relation "measure length") auto

declare utf8.simps [simp del]

section \<open>The scope trie\<close>

datatype TrieNode = TrieNode (children: "(bytes \<times> TrieNode) list") (is_endpoint: bool) (has_wildcard: bool)

definition TrieNode_default :: TrieNode where "TrieNode_default = TrieNode [] False False"

record ScopeTrie =
  root :: TrieNode

definition ScopeTrie_new :: ScopeTrie where "ScopeTrie_new = \<lparr>root = TrieNode_default\<rparr>"

definition scope_char :: "byte \<Rightarrow> bool" where
  "scope_char c \<longleftrightarrow> (0x30 \<le> c \<and> c \<le> 0x39) \<or> (0x41 \<le> c \<and> c \<le> 0x5A) \<or> (0x61 \<le> c \<and> c \<le> 0x7A) \<or>
    c = slash \<or> c = 0x5F \<or> c = 0x2D \<or> c = star"

definition validate_scope_chars :: "bytes \<Rightarrow> unit result" where
  "validate_scope_chars scope = (if list_all scope_char scope then Inr () else Inl InvalidArgument)"

definition split_scope :: "bytes \<Rightarrow> bytes list" where
  "split_scope path = (if path = [] then [] else filter (\<lambda>s. s \<noteq> []) (split_slash path))"

definition mark_endpoint :: "TrieNode \<Rightarrow> TrieNode" where
  "mark_endpoint node = TrieNode (children node) True (has_wildcard node)"

fun insert_segments :: "bytes list \<Rightarrow> TrieNode \<Rightarrow> unit result \<times> TrieNode" where
  "insert_segments [] node = (Inr (), node)"
| "insert_segments (segment # segments) node =
    (let is_last = (segments = [])
     in if segment = [star] then
          if \<not> is_last then (Inl InvalidArgument, node)
          else (Inr (), TrieNode (children node) (is_endpoint node) True)
        else
          let child = (case map_of (children node) segment of Some child \<Rightarrow> child | None \<Rightarrow> TrieNode_default);
              child = (if is_last then mark_endpoint child else child)
          in case insert_segments segments child of
               (res, child) \<Rightarrow>
                 (res, TrieNode (AList.update segment child (children node)) (is_endpoint node) (has_wildcard node)))"

definition ScopeTrie_insert :: "ScopeTrie \<Rightarrow> bytes \<Rightarrow> unit result \<times> ScopeTrie" where
  "ScopeTrie_insert trie scope =
    (if scope = [] then (Inr (), trie\<lparr>root := mark_endpoint (root trie)\<rparr>)
     else
       case validate_scope_chars scope of
         Inl e \<Rightarrow> (Inl e, trie)
       | Inr _ \<Rightarrow>
           (let segments = split_scope scope
            in if segments = [] then (Inr (), trie\<lparr>root := mark_endpoint (root trie)\<rparr>)
               else case insert_segments segments (root trie) of (res, node) \<Rightarrow> (res, trie\<lparr>root := node\<rparr>)))"

fun match_segments :: "bytes list \<Rightarrow> TrieNode \<Rightarrow> bool" where
  "match_segments [] node \<longleftrightarrow> is_endpoint node \<or> has_wildcard node"
| "match_segments (segment # segments) node \<longleftrightarrow>
    (if has_wildcard node then True
     else if is_endpoint node then True
     else case map_of (children node) segment of Some child \<Rightarrow> match_segments segments child | None \<Rightarrow> False)"

definition ScopeTrie_matches :: "ScopeTrie \<Rightarrow> bytes \<Rightarrow> bool" where
  "ScopeTrie_matches trie resource =
    (if is_endpoint (root trie) then True else match_segments (split_scope resource) (root trie))"

definition ScopeTrie_is_empty :: "ScopeTrie \<Rightarrow> bool" where
  "ScopeTrie_is_empty trie \<longleftrightarrow> children (root trie) = [] \<and> \<not> is_endpoint (root trie) \<and> \<not> has_wildcard (root trie)"

section \<open>Scopes over intervals\<close>

text \<open>
  The module has its own copy of \<open>prefix_successor\<close>, with the body of the one in
  \<open>kv_range.rs\<close>.
\<close>

definition scope_safe_byte_prefix :: "bytes \<Rightarrow> bytes option" where
  "scope_safe_byte_prefix scope =
    (case validate_scope_chars scope of
       Inl e \<Rightarrow> None
     | Inr _ \<Rightarrow>
         (case strip_suffix [slash, star] scope of
            Some base \<Rightarrow>
              (if star \<in> set base then None
               else if base = [] then Some []
               else Some (if suffix [slash] base then base else base @ [slash]))
          | None \<Rightarrow>
              (if star \<in> set scope then None
               else Some (if suffix [slash] scope then scope else scope @ [slash]))))"

definition scope_covers_interval :: "bytes \<Rightarrow> bytes \<Rightarrow> bytes \<Rightarrow> bool" where
  "scope_covers_interval scope key range_end =
    (if scope = [] \<or> list_all (\<lambda>c. c = slash) scope \<or> scope = [slash, star] \<or> scope = [star] then True
     else if range_end = [] then
       (case ScopeTrie_insert ScopeTrie_new scope of
          (res, trie) \<Rightarrow> res = Inr () \<and> ScopeTrie_matches trie (if utf8 key then key else [0xEF, 0xBF, 0xBD]))
     else if range_end = [0] then False
     else
       case scope_safe_byte_prefix scope of
         None \<Rightarrow> False
       | Some pfx \<Rightarrow>
           (if pfx = [] then True
            else case prefix_successor pfx of
                   None \<Rightarrow> False
                 | Some upper \<Rightarrow> pfx \<le> key \<and> range_end \<le> upper))"

section \<open>Requests\<close>

record ScopeAccess =
  sa_key :: bytes
  sa_range_end :: bytes

definition from_range :: "bytes \<Rightarrow> bytes \<Rightarrow> ScopeAccess" where
  "from_range key range_end =
    (case range_semantics_of key range_end of
       SingleKey \<Rightarrow> \<lparr>sa_key = key, sa_range_end = []\<rparr>
     | Interval \<Rightarrow> \<lparr>sa_key = key, sa_range_end = range_end\<rparr>)"

definition watch_create_access :: "bytes \<Rightarrow> bytes \<Rightarrow> ScopeAccess" where
  "watch_create_access key range_end =
    (case watch_match_interval key range_end of
       (lo, hi) \<Rightarrow> \<lparr>sa_key = lo, sa_range_end = (case hi of Some upper \<Rightarrow> upper | None \<Rightarrow> UNBOUNDED_RANGE_END)\<rparr>)"

definition scope_allows_access :: "bytes list \<Rightarrow> ScopeAccess \<Rightarrow> bool" where
  "scope_allows_access grant_scopes access =
    list_ex (\<lambda>scope.
      if scope = [] then True
      else if sa_range_end access = [] then
        (if utf8 (sa_key access)
         then (case ScopeTrie_insert ScopeTrie_new scope of
                 (res, trie) \<Rightarrow> res = Inr () \<and> ScopeTrie_matches trie (sa_key access))
         else False)
      else scope_covers_interval scope (sa_key access) (sa_range_end access)) grant_scopes"

definition scope_allows :: "bytes list \<Rightarrow> ScopeAccess list \<Rightarrow> bool" where
  "scope_allows grant_scopes accesses =
    (if accesses = [] then list_ex (\<lambda>s. s = []) grant_scopes
     else list_all (scope_allows_access grant_scopes) accesses)"

record DeferredScopeGrants =
  dg_capability_id :: bytes
  dg_grant_scopes :: "bytes list"

definition check_deferred_scope :: "DeferredScopeGrants option \<Rightarrow> ScopeAccess list \<Rightarrow> unit result" where
  "check_deferred_scope grants accesses =
    (case grants of
       None \<Rightarrow> Inr ()
     | Some grants \<Rightarrow> (if scope_allows (dg_grant_scopes grants) accesses then Inr () else Inl PermissionDenied))"

section \<open>Reserved namespaces\<close>

definition RESERVED_INTERNAL_KV_PREFIXES :: "bytes list" where
  "RESERVED_INTERNAL_KV_PREFIXES = [ascii ''/_pki/'', ascii ''/_lease/'', ascii ''/_idgen/'', ascii ''/_pd/'']"

definition touches_prefix :: "ScopeAccess \<Rightarrow> bytes \<Rightarrow> bool" where
  "touches_prefix access pfx =
    (case prefix_successor pfx of
       None \<Rightarrow> False
     | Some upper \<Rightarrow>
         (if sa_range_end access = [] then prefix pfx (sa_key access)
          else if sa_range_end access = [0] then sa_key access < upper
          else sa_key access < upper \<and> pfx < sa_range_end access))"

definition reserved_internal_prefix :: "ScopeAccess \<Rightarrow> bytes option" where
  "reserved_internal_prefix access = find (touches_prefix access) RESERVED_INTERNAL_KV_PREFIXES"

definition reserved_internal_kv_namespace :: "bytes \<Rightarrow> bytes \<Rightarrow> bytes option" where
  "reserved_internal_kv_namespace key range_end = reserved_internal_prefix (from_range key range_end)"

section \<open>The watch guards\<close>

text \<open>The checks of the first watch service before it subscribes.\<close>

definition watch_guard :: "bool \<Rightarrow> DeferredScopeGrants option \<Rightarrow> bytes \<Rightarrow> bytes \<Rightarrow> unit result" where
  "watch_guard object_enabled grants key range_end =
    (if object_enabled \<and> range_touches_object_space key range_end then Inl InvalidArgument
     else if reserved_internal_kv_namespace key range_end \<noteq> None then Inl PermissionDenied
     else
       case grants of
         None \<Rightarrow> Inr ()
       | Some _ \<Rightarrow> check_deferred_scope grants [watch_create_access key range_end])"

text \<open>The second watch service.\<close>

datatype EventKindFilter = AllKinds | PutsOnly | DeletesOnly

record WatchFilter =
  wf_key :: bytes
  wf_range_end :: bytes
  wf_kind :: EventKindFilter
  wf_prev_kv :: bool

definition WatchFilter_validate :: "WatchFilter \<Rightarrow> unit result" where
  "WatchFilter_validate f =
    (if wf_range_end f \<noteq> [] \<and> wf_range_end f \<le> wf_key f then Inl InvalidArgument else Inr ())"

definition WatchFilter_key_matches :: "WatchFilter \<Rightarrow> bytes \<Rightarrow> bool" where
  "WatchFilter_key_matches f key =
    (if wf_key f = [] \<and> wf_range_end f = [] then True
     else if wf_range_end f = [] then key = wf_key f
     else wf_key f \<le> key \<and> key < wf_range_end f)"

definition WatchFilter_matches :: "WatchFilter \<Rightarrow> CommitChange \<Rightarrow> bool" where
  "WatchFilter_matches f change =
    (let kind_matches = (case wf_kind f of
           AllKinds \<Rightarrow> True | PutsOnly \<Rightarrow> cc_value change \<noteq> None | DeletesOnly \<Rightarrow> cc_value change = None)
     in if \<not> kind_matches then False else WatchFilter_key_matches f (cc_key change))"

definition normalized_bounds :: "bytes \<Rightarrow> bytes \<Rightarrow> bytes \<times> bytes" where
  "normalized_bounds key range_end = (if range_end = [] \<or> range_end = key then (key, []) else (key, range_end))"

definition watch_scope_access :: "bytes \<Rightarrow> bytes \<Rightarrow> ScopeAccess" where
  "watch_scope_access key range_end =
    (if key = [] \<and> range_end = [] then \<lparr>sa_key = [], sa_range_end = UNBOUNDED_RANGE_END\<rparr>
     else from_range key range_end)"

definition guard_create :: "bytes \<Rightarrow> bytes \<Rightarrow> DeferredScopeGrants option \<Rightarrow> unit result" where
  "guard_create create_key create_range_end grants =
    (let all_keyspace = (create_key = [] \<and> create_range_end = []);
         (key, range_end) = normalized_bounds create_key create_range_end
     in if \<not> all_keyspace \<and> range_touches_object_space key range_end then Inl InvalidArgument
        else if \<not> all_keyspace \<and> reserved_internal_kv_namespace key range_end \<noteq> None then Inl PermissionDenied
        else
          case grants of
            None \<Rightarrow> Inr ()
          | Some _ \<Rightarrow> check_deferred_scope grants [watch_scope_access create_key create_range_end])"

section \<open>What a scope grants\<close>

text \<open>
  A scope stands for a path of segments, a last segment \<open>*\<close> aside, and grants the keys
  whose path starts with it.
\<close>

definition scope_pattern :: "bytes \<Rightarrow> bytes list" where
  "scope_pattern scope =
    (let segments = split_scope scope
     in if segments \<noteq> [] \<and> List.last segments = [star] then butlast segments else segments)"

definition scope_ok :: "bytes \<Rightarrow> bool" where
  "scope_ok scope \<longleftrightarrow> list_all scope_char scope \<and> [star] \<notin> set (butlast (split_scope scope))"

definition scope_grants :: "bytes \<Rightarrow> bytes \<Rightarrow> bool" where
  "scope_grants scope key \<longleftrightarrow> scope_ok scope \<and> prefix (scope_pattern scope) (split_scope key)"

lemma match_default [simp]: "\<not> match_segments r TrieNode_default"
  by (cases r) (simp_all add: TrieNode_default_def)

lemma match_endpoint [simp]: "match_segments r (mark_endpoint node)"
  by (cases r) (simp_all add: mark_endpoint_def)

lemma insert_segments_result:
  "fst (insert_segments segments node) = Inr () \<longleftrightarrow> [star] \<notin> set (butlast segments)"
  by (induction segments arbitrary: node) (auto simp: Let_def case_prod_unfold)

lemma match_insert:
  "segments \<noteq> [] \<Longrightarrow> match_segments r (snd (insert_segments segments node)) \<longleftrightarrow>
    match_segments r node \<or> [star] \<notin> set (butlast segments) \<and>
      prefix (if List.last segments = [star] then butlast segments else segments) r"
proof (induction segments arbitrary: r node)
  case (Cons segment segments)
  define child where "child = (case map_of (children node) segment of Some child \<Rightarrow> child | None \<Rightarrow> TrieNode_default)"
  have walk: "match_segments (segment # xs) node \<longleftrightarrow> has_wildcard node \<or> is_endpoint node \<or> match_segments xs child" for xs
    by (auto simp: child_def split: option.split)
  show ?case
  proof (cases "segment = [star]")
    case True
    then show ?thesis by (cases r) (auto simp: Let_def)
  next
    case False
    let ?c = "if segments = [] then mark_endpoint child else child"
    let ?new = "snd (insert_segments segments ?c)"
    have new: "snd (insert_segments (segment # segments) node) =
        TrieNode (AList.update segment ?new (children node)) (is_endpoint node) (has_wildcard node)"
      using False by (simp add: Let_def child_def split: prod.split)
    show ?thesis
    proof (cases r)
      case Nil
      then show ?thesis using False by (simp add: new del: insert_segments.simps)
    next
      case (Cons x xs)
      have inner: "match_segments xs ?new \<longleftrightarrow> match_segments xs child \<or> [star] \<notin> set (butlast (segment # segments)) \<and>
          prefix (if List.last (segment # segments) = [star] then butlast (segment # segments) else segment # segments) (segment # xs)"
      proof (cases "segments = []")
        case True
        then show ?thesis using False by simp
      next
        case ne: False
        have "match_segments xs (snd (insert_segments segments child)) \<longleftrightarrow>
            match_segments xs child \<or> [star] \<notin> set (butlast segments) \<and>
              prefix (if List.last segments = [star] then butlast segments else segments) xs"
          by (rule Cons.IH [OF ne])
        then show ?thesis using ne False by (auto simp: child_def)
      qed
      have "match_segments (x # xs) (TrieNode (AList.update segment ?new (children node)) (is_endpoint node) (has_wildcard node)) \<longleftrightarrow>
          has_wildcard node \<or> is_endpoint node \<or>
          (if x = segment then match_segments xs ?new
           else case map_of (children node) x of Some c \<Rightarrow> match_segments xs c | None \<Rightarrow> False)"
        by (simp add: update_conv')
      moreover have "\<not> prefix (if List.last (segment # segments) = [star] then butlast (segment # segments) else segment # segments) (x # xs)"
        if "x \<noteq> segment" using that False by (cases segments) auto
      ultimately show ?thesis
        unfolding new Cons using inner walk [of xs] by (cases "x = segment") auto
    qed
  qed
qed simp

lemma matches_walk: "ScopeTrie_matches trie k \<longleftrightarrow> match_segments (split_scope k) (root trie)"
  by (cases "split_scope k") (simp_all add: ScopeTrie_matches_def)

lemma trie_insert:
  "ScopeTrie_matches (snd (ScopeTrie_insert trie scope)) k \<longleftrightarrow> ScopeTrie_matches trie k \<or> scope_grants scope k"
  "fst (ScopeTrie_insert trie scope) = Inr () \<longleftrightarrow> scope_ok scope"
proof -
  have chars: "validate_scope_chars scope = (if list_all scope_char scope then Inr () else Inl InvalidArgument)"
    by (simp add: validate_scope_chars_def)
  have nil: "split_scope [] = []" by (simp add: split_scope_def)
  consider "\<not> list_all scope_char scope" | "list_all scope_char scope" "split_scope scope = []"
    | "list_all scope_char scope" "split_scope scope \<noteq> []" by blast
  then have "(ScopeTrie_matches (snd (ScopeTrie_insert trie scope)) k \<longleftrightarrow> ScopeTrie_matches trie k \<or> scope_grants scope k) \<and>
    (fst (ScopeTrie_insert trie scope) = Inr () \<longleftrightarrow> scope_ok scope)"
  proof cases
    case 1
    then have "ScopeTrie_insert trie scope = (Inl InvalidArgument, trie)" "\<not> scope_ok scope"
      by (auto simp: ScopeTrie_insert_def chars scope_ok_def)
    then show ?thesis by (simp add: scope_grants_def)
  next
    case 2
    then have "ScopeTrie_insert trie scope = (Inr (), trie\<lparr>root := mark_endpoint (root trie)\<rparr>)"
      by (simp add: ScopeTrie_insert_def chars)
    then show ?thesis using 2 by (simp add: matches_walk scope_grants_def scope_ok_def scope_pattern_def)
  next
    case 3
    then have ins: "ScopeTrie_insert trie scope =
        (case insert_segments (split_scope scope) (root trie) of (res, node) \<Rightarrow> (res, trie\<lparr>root := node\<rparr>))"
      using nil by (auto simp: ScopeTrie_insert_def chars)
    show ?thesis using match_insert [OF 3(2), of "split_scope k" "root trie"]
        insert_segments_result [of "split_scope scope" "root trie"] 3
      by (simp add: ins case_prod_unfold matches_walk scope_grants_def scope_ok_def scope_pattern_def)
  qed
  then show "ScopeTrie_matches (snd (ScopeTrie_insert trie scope)) k \<longleftrightarrow> ScopeTrie_matches trie k \<or> scope_grants scope k"
    "fst (ScopeTrie_insert trie scope) = Inr () \<longleftrightarrow> scope_ok scope" by blast+
qed

lemma new_matches [simp]: "\<not> ScopeTrie_matches ScopeTrie_new k"
  by (simp add: matches_walk ScopeTrie_new_def)

text \<open>C34: The scope trie is exactly the set of scopes put into it: after any insertions, refused
  ones included, it matches a key when some well-formed inserted scope is a prefix of
  the key's path, segment by segment, and no other key.\<close>

theorem scope_trie_exact:
  "ScopeTrie_matches (fold (\<lambda>scope trie. snd (ScopeTrie_insert trie scope)) scopes ScopeTrie_new) k \<longleftrightarrow>
    list_ex (\<lambda>scope. scope_grants scope k) scopes"
proof -
  have "ScopeTrie_matches (fold (\<lambda>scope trie. snd (ScopeTrie_insert trie scope)) scopes trie) k \<longleftrightarrow>
      ScopeTrie_matches trie k \<or> list_ex (\<lambda>scope. scope_grants scope k) scopes" for trie
    by (induction scopes arbitrary: trie) (auto simp: trie_insert(1))
  then show ?thesis by simp
qed

lemma point_grants:
  "(case ScopeTrie_insert ScopeTrie_new scope of (res, trie) \<Rightarrow> res = Inr () \<and> ScopeTrie_matches trie k) \<longleftrightarrow>
    scope_grants scope k"
  using trie_insert [of ScopeTrie_new scope] by (auto simp: case_prod_unfold scope_grants_def)

section \<open>Intervals\<close>

lemma split_slash_append: "split_slash (a @ slash # b) = split_slash a @ split_slash b"
proof (induction a)
  case (Cons c a)
  have "split_slash a \<noteq> []" by (induction a) (auto split: list.split)
  then show ?case using Cons by (auto split: list.split)
qed simp

lemma split_scope_append: "split_scope (a @ slash # b) = split_scope a @ split_scope b"
  by (simp add: split_scope_def split_slash_append)

lemma split_scope_Nil [simp]: "split_scope [] = []"
  by (simp add: split_scope_def)

lemma split_scope_chars: "seg \<in> set (split_scope s) \<Longrightarrow> set seg \<subseteq> set s"
proof -
  have "seg \<in> set (split_slash s) \<Longrightarrow> set seg \<subseteq> set s" for seg
    by (induction s arbitrary: seg) (auto split: list.splits if_splits, blast+)
  then show "seg \<in> set (split_scope s) \<Longrightarrow> set seg \<subseteq> set s" by (auto simp: split_scope_def split: if_splits)
qed

lemma no_star_segment: "star \<notin> set s \<Longrightarrow> [star] \<notin> set (split_scope s)"
  using split_scope_chars [of "[star]" s] by auto

text \<open>Every key that starts with a directory lies below its path.\<close>

lemma directory_prefix:
  assumes "prefix (if suffix [slash] base then base else base @ [slash]) k"
  shows "prefix (split_scope base) (split_scope k)"
proof -
  obtain b where b: "(if suffix [slash] base then base else base @ [slash]) = b @ [slash]"
    by (cases "suffix [slash] base") (auto simp: suffix_def)
  then have "split_scope base = split_scope b"
    using split_scope_append [of b "[]"] by (auto split: if_splits)
  moreover obtain r where "k = b @ slash # r" using assms unfolding b by (auto simp: prefix_def)
  ultimately show ?thesis by (simp add: split_scope_append)
qed

lemma strip_suffix_Some: "strip_suffix suf s = Some base \<Longrightarrow> s = base @ suf"
  by (auto simp: strip_suffix_def suffix_def split: if_splits)

lemma safe_prefix_grants:
  assumes p: "scope_safe_byte_prefix scope = Some pfx" and k: "prefix pfx k"
  shows "scope_grants scope k"
proof (cases "strip_suffix [slash, star] scope")
  case None
  then have p': "list_all scope_char scope" "star \<notin> set scope" "pfx = (if suffix [slash] scope then scope else scope @ [slash])"
    using p by (auto simp: scope_safe_byte_prefix_def validate_scope_chars_def split: if_splits)
  have ns: "[star] \<notin> set (split_scope scope)" using p'(2) by (rule no_star_segment)
  then have "split_scope scope \<noteq> [] \<Longrightarrow> List.last (split_scope scope) \<noteq> [star]"
    using List.last_in_set [of "split_scope scope"] by force
  then have "scope_ok scope" "scope_pattern scope = split_scope scope"
    using p'(1) ns in_set_butlastD [of "[star]" "split_scope scope"] by (auto simp: scope_ok_def scope_pattern_def Let_def)
  then show ?thesis using directory_prefix [OF k [unfolded p'(3)]] by (simp add: scope_grants_def)
next
  case (Some base)
  have scope: "scope = base @ [slash, star]" by (rule strip_suffix_Some [OF Some])
  have p': "list_all scope_char scope" "star \<notin> set base"
    "base = [] \<or> pfx = (if suffix [slash] base then base else base @ [slash])"
    using p Some by (auto simp: scope_safe_byte_prefix_def validate_scope_chars_def split: if_splits)
  have "split_scope [star] = [[star]]" by (simp add: split_scope_def star_def slash_def)
  then have segs: "split_scope scope = split_scope base @ [[star]]"
    using split_scope_append [of base "[star]"] by (simp add: scope)
  have "scope_ok scope" "scope_pattern scope = split_scope base"
    using p'(1) no_star_segment [OF p'(2)] by (simp_all add: scope_ok_def scope_pattern_def segs)
  moreover have "prefix (split_scope base) (split_scope k)" using p'(3) directory_prefix [of base k] k by auto
  ultimately show ?thesis by (simp add: scope_grants_def)
qed

lemma match_all_grants:
  assumes "scope = [] \<or> list_all (\<lambda>c. c = slash) scope \<or> scope = [slash, star] \<or> scope = [star]"
  shows "scope_grants scope k"
proof -
  have slashes: "split_scope s = []" "list_all scope_char s" if "list_all (\<lambda>c. c = slash) s" for s
  proof -
    have "set (split_slash s) \<subseteq> {[]}" using that by (induction s) auto
    then show "split_scope s = []" by (auto simp: split_scope_def filter_empty_conv)
    show "list_all scope_char s" using that by (auto simp: list_all_iff scope_char_def)
  qed
  have stars: "split_scope [slash, star] = [[star]]" "split_scope [star] = [[star]]" "list_all scope_char [slash, star]"
    by (simp_all add: split_scope_def star_def slash_def scope_char_def)
  show ?thesis using assms slashes [of scope] slashes [of "[]"] stars
    by (auto simp: scope_grants_def scope_ok_def scope_pattern_def)
qed

text \<open>The keys of a request; the end \<open>\0\<close> stands for no upper bound.\<close>

definition access_covers :: "ScopeAccess \<Rightarrow> bytes \<Rightarrow> bool" where
  "access_covers access k =
    (if sa_range_end access = [] then k = sa_key access
     else sa_key access \<le> k \<and> (sa_range_end access = [0] \<or> k < sa_range_end access))"

lemma interval_grants:
  assumes "scope_covers_interval scope key range_end" "range_end \<noteq> []" "key \<le> k" "range_end = [0] \<or> k < range_end"
  shows "scope_grants scope k"
proof (cases "scope = [] \<or> list_all (\<lambda>c. c = slash) scope \<or> scope = [slash, star] \<or> scope = [star]")
  case True
  then show ?thesis by (rule match_all_grants)
next
  case False
  then obtain pfx where pfx: "scope_safe_byte_prefix scope = Some pfx"
    "pfx = [] \<or> (\<exists>upper. prefix_successor pfx = Some upper \<and> pfx \<le> key \<and> range_end \<le> upper)" "range_end \<noteq> [0]"
    using assms(1,2) by (auto simp: scope_covers_interval_def split: if_splits option.splits)
  have "prefix pfx k"
    using pfx(2)
  proof
    assume "\<exists>upper. prefix_successor pfx = Some upper \<and> pfx \<le> key \<and> range_end \<le> upper"
    then obtain upper where u: "prefix_successor pfx = Some upper" "pfx \<le> key" "range_end \<le> upper" by blast
    have "pfx \<le> k" "k < upper" using assms(3,4) pfx(3) u(2,3) by auto
    then show ?thesis using prefix_successor_Some_imp [OF u(1), of k] by blast
  qed simp
  with pfx(1) show ?thesis by (rule safe_prefix_grants)
qed

lemma access_grants:
  assumes "scope_allows_access grants access" "access_covers access k"
  shows "\<exists>scope \<in> set grants. scope_grants scope k"
proof -
  obtain scope where scope: "scope \<in> set grants"
    "scope = [] \<or> (if sa_range_end access = [] then scope_grants scope (sa_key access)
                   else scope_covers_interval scope (sa_key access) (sa_range_end access))"
    using assms(1) unfolding scope_allows_access_def point_grants by (auto simp: list_ex_iff split: if_splits)
  have "scope_grants scope k"
    using scope(2) match_all_grants [of "[]" k] interval_grants [of scope "sa_key access" "sa_range_end access" k] assms(2)
    by (auto simp: access_covers_def split: if_splits)
  with scope(1) show ?thesis by blast
qed

text \<open>C8: A request that the scope check lets through only touches granted keys: every key of
  every range the request covers lies below a scope of the caller, whether the range
  is a single key, bounded or open at the top.\<close>

theorem scope_allows_sound:
  assumes "scope_allows grants accesses" "access \<in> set accesses" "access_covers access k"
  shows "\<exists>scope \<in> set grants. scope_grants scope k"
proof -
  have "scope_allows_access grants access" using assms(1,2) by (auto simp: scope_allows_def list_all_iff split: if_splits)
  then show ?thesis using assms(3) by (rule access_grants)
qed

theorem scope_allows_sound_witness:
  "scope_allows [ascii ''/app/a''] [from_range (ascii ''/app/a/x'') (ascii ''/app/a0'')] \<and>
    scope_grants (ascii ''/app/a'') (ascii ''/app/a/y'')"
proof -
  let ?a = "from_range (ascii ''/app/a/x'') (ascii ''/app/a0'')"
  have a: "?a = \<lparr>sa_key = ascii ''/app/a/x'', sa_range_end = ascii ''/app/a0''\<rparr>"
    by (simp add: from_range_def range_semantics_of_def ascii_def)
  have ok: "scope_allows [ascii ''/app/a''] [?a]" unfolding a
    by (simp add: scope_allows_def scope_allows_access_def scope_covers_interval_def scope_safe_byte_prefix_def
      validate_scope_chars_def strip_suffix_def suffix_def scope_char_def slash_def star_def ascii_def)
  have "access_covers ?a (ascii ''/app/a/y'')" unfolding a by (simp add: access_covers_def ascii_def)
  with scope_allows_sound [OF ok _ this] ok show ?thesis by simp
qed

section \<open>The guards\<close>

text \<open>A request meets a prefix exactly when one of its keys has the prefix.\<close>

lemma touches_prefix_iff:
  assumes "prefix_successor pfx = Some upper" "sa_range_end access = [] \<or> sa_range_end access = [0] \<or> sa_key access < sa_range_end access"
  shows "touches_prefix access pfx \<longleftrightarrow> (\<exists>k. access_covers access k \<and> prefix pfx k)"
proof -
  let ?m = "max (sa_key access) pfx"
  have up: "prefix pfx k \<longleftrightarrow> pfx \<le> k \<and> k < upper" for k using prefix_successor_Some_imp [OF assms(1)] by blast
  have "pfx < upper" using up [of pfx] by simp
  show ?thesis
  proof (cases "sa_range_end access = []")
    case True
    then show ?thesis using assms(1) by (simp add: touches_prefix_def access_covers_def)
  next
    case False
    then have "touches_prefix access pfx \<longleftrightarrow> access_covers access ?m \<and> prefix pfx ?m"
      using assms \<open>pfx < upper\<close> by (auto simp: touches_prefix_def access_covers_def up max_def)
    moreover have "access_covers access ?m \<and> prefix pfx ?m" if "access_covers access k" "prefix pfx k" for k
      using that False by (auto simp: access_covers_def up max_def)
    ultimately show ?thesis by blast
  qed
qed

lemma reserved_successor: "p \<in> set RESERVED_INTERNAL_KV_PREFIXES \<Longrightarrow> \<exists>upper. prefix_successor p = Some upper"
  by (auto simp: RESERVED_INTERNAL_KV_PREFIXES_def ascii_def)

lemma reserved_none:
  assumes "reserved_internal_prefix access = None" "sa_range_end access = [] \<or> sa_range_end access = [0] \<or> sa_key access < sa_range_end access"
    and "access_covers access k" "p \<in> set RESERVED_INTERNAL_KV_PREFIXES"
  shows "\<not> prefix p k"
proof -
  obtain upper where "prefix_successor p = Some upper" using reserved_successor [OF assms(4)] by blast
  from touches_prefix_iff [OF this assms(2)] show ?thesis
    using assms(1,3,4) by (auto simp: reserved_internal_prefix_def find_None_iff)
qed

text \<open>The reserved-namespace guard is exact: a request whose range is not empty is reported
  exactly when one of its keys lies in a reserved namespace.\<close>

theorem reserved_guard_exact:
  assumes "sa_range_end access = [] \<or> sa_range_end access = [0] \<or> sa_key access < sa_range_end access"
  shows "reserved_internal_prefix access \<noteq> None \<longleftrightarrow>
    (\<exists>k. access_covers access k \<and> list_ex (\<lambda>p. prefix p k) RESERVED_INTERNAL_KV_PREFIXES)"
proof
  assume "reserved_internal_prefix access \<noteq> None"
  then obtain p where p: "p \<in> set RESERVED_INTERNAL_KV_PREFIXES" "touches_prefix access p"
    by (auto simp: reserved_internal_prefix_def find_None_iff)
  obtain upper where "prefix_successor p = Some upper" using reserved_successor [OF p(1)] by blast
  with touches_prefix_iff [OF this assms] p show "\<exists>k. access_covers access k \<and> list_ex (\<lambda>p. prefix p k) RESERVED_INTERNAL_KV_PREFIXES"
    by (auto simp: list_ex_iff)
next
  assume "\<exists>k. access_covers access k \<and> list_ex (\<lambda>p. prefix p k) RESERVED_INTERNAL_KV_PREFIXES"
  then show "reserved_internal_prefix access \<noteq> None" using reserved_none [OF _ assms] by (auto simp: list_ex_iff)
qed

theorem reserved_guard_exact_witness:
  "reserved_internal_prefix (from_range (ascii ''/_p'') (ascii ''/_q'')) \<noteq> None \<and>
    (\<exists>k. access_covers (from_range (ascii ''/_p'') (ascii ''/_q'')) k \<and>
      list_ex (\<lambda>p. prefix p k) RESERVED_INTERNAL_KV_PREFIXES)"
proof -
  let ?a = "from_range (ascii ''/_p'') (ascii ''/_q'')"
  have a: "?a = \<lparr>sa_key = ascii ''/_p'', sa_range_end = ascii ''/_q''\<rparr>"
    by (simp add: from_range_def range_semantics_of_def ascii_def)
  have hit: "reserved_internal_prefix ?a \<noteq> None" unfolding a
    by (simp add: reserved_internal_prefix_def RESERVED_INTERNAL_KV_PREFIXES_def touches_prefix_def ascii_def)
  have "sa_range_end ?a = [] \<or> sa_range_end ?a = [0] \<or> sa_key ?a < sa_range_end ?a" unfolding a by (simp add: ascii_def)
  from reserved_guard_exact [OF this] hit show ?thesis by blast
qed

text \<open>C35: The second watch service isolates its streams. Whatever subscription its guard accepts, a
  delivered change of a caller with scopes lies below one of the scopes, and unless the
  whole key space is watched it is neither an object nor in a reserved namespace.\<close>

theorem watch_v2_isolated:
  assumes "guard_create (wf_key f) (wf_range_end f) grants = Inr ()" "WatchFilter_validate f = Inr ()"
    and "WatchFilter_matches f change"
  shows "(wf_key f \<noteq> [] \<or> wf_range_end f \<noteq> [] \<longrightarrow>
      \<not> key_in_object_space (cc_key change) \<and> \<not> list_ex (\<lambda>p. prefix p (cc_key change)) RESERVED_INTERNAL_KV_PREFIXES) \<and>
    (\<forall>g. grants = Some g \<longrightarrow> (\<exists>scope \<in> set (dg_grant_scopes g). scope_grants scope (cc_key change)))"
proof -
  let ?k = "cc_key change"
  have m: "WatchFilter_key_matches f ?k" using assms(3) by (simp add: WatchFilter_matches_def Let_def split: if_splits)
  have v: "wf_range_end f = [] \<or> wf_key f < wf_range_end f"
    using assms(2) by (auto simp: WatchFilter_validate_def split: if_splits)
  have bounds: "normalized_bounds (wf_key f) (wf_range_end f) = (wf_key f, wf_range_end f)"
    "from_range (wf_key f) (wf_range_end f) = \<lparr>sa_key = wf_key f, sa_range_end = wf_range_end f\<rparr>"
    using v by (auto simp: normalized_bounds_def from_range_def range_semantics_of_def)
  have cover: "access_covers (watch_scope_access (wf_key f) (wf_range_end f)) ?k"
    using m v bounds(2) by (auto simp: watch_scope_access_def access_covers_def WatchFilter_key_matches_def UNBOUNDED_RANGE_END_def)
  have "\<exists>scope \<in> set (dg_grant_scopes g). scope_grants scope ?k" if "grants = Some g" for g
  proof -
    have "scope_allows_access (dg_grant_scopes g) (watch_scope_access (wf_key f) (wf_range_end f))"
      using assms(1) that
      by (simp add: guard_create_def bounds Let_def check_deferred_scope_def scope_allows_def split: if_splits)
    then show ?thesis using cover by (rule access_grants)
  qed
  moreover have "\<not> key_in_object_space ?k \<and> \<not> list_ex (\<lambda>p. prefix p ?k) RESERVED_INTERNAL_KV_PREFIXES"
    if ne: "wf_key f \<noteq> [] \<or> wf_range_end f \<noteq> []"
  proof
    let ?a = "\<lparr>sa_key = wf_key f, sa_range_end = wf_range_end f\<rparr>"
    have g: "\<not> range_touches_object_space (wf_key f) (wf_range_end f)" "reserved_internal_prefix ?a = None"
      using assms(1) ne
      by (auto simp: guard_create_def bounds Let_def reserved_internal_kv_namespace_def split: if_splits)
    show "\<not> key_in_object_space ?k"
      using g(1) m v ne object_space_iff [of ?k]
      by (auto simp: range_touches_object_space_def WatchFilter_key_matches_def Let_def split: if_splits)
    show "\<not> list_ex (\<lambda>p. prefix p ?k) RESERVED_INTERNAL_KV_PREFIXES"
    proof -
      have "access_covers ?a ?k" using m ne by (auto simp: access_covers_def WatchFilter_key_matches_def split: if_splits)
      then show ?thesis using reserved_none [OF g(2), of ?k] v by (auto simp: list_ex_iff)
    qed
  qed
  ultimately show ?thesis by blast
qed

theorem watch_v2_isolated_witness:
  "\<exists>f g change. guard_create (wf_key f) (wf_range_end f) (Some g) = Inr () \<and> WatchFilter_matches f change \<and>
    \<not> key_in_object_space (cc_key change) \<and> (\<exists>scope \<in> set (dg_grant_scopes g). scope_grants scope (cc_key change))"
proof -
  let ?f = "\<lparr>wf_key = ascii ''/a/x'', wf_range_end = ascii ''/a/z'', wf_kind = PutsOnly, wf_prev_kv = False\<rparr>"
  let ?g = "\<lparr>dg_capability_id = ascii ''data:watch'', dg_grant_scopes = [ascii ''/a'']\<rparr>"
  let ?c = "\<lparr>cc_key = ascii ''/a/y'', cc_value = Some [], cc_prev = None\<rparr> :: CommitChange"
  have acc: "from_range (ascii ''/a/x'') (ascii ''/a/z'') = \<lparr>sa_key = ascii ''/a/x'', sa_range_end = ascii ''/a/z''\<rparr>"
    by (simp add: from_range_def range_semantics_of_def ascii_def)
  have "scope_allows [ascii ''/a''] [\<lparr>sa_key = ascii ''/a/x'', sa_range_end = ascii ''/a/z''\<rparr>]"
    by (simp add: scope_allows_def scope_allows_access_def scope_covers_interval_def scope_safe_byte_prefix_def
      validate_scope_chars_def strip_suffix_def suffix_def scope_char_def slash_def star_def ascii_def)
  moreover have "watch_scope_access (ascii ''/a/x'') (ascii ''/a/z'') = from_range (ascii ''/a/x'') (ascii ''/a/z'')"
    by (simp add: watch_scope_access_def ascii_def)
  moreover have "reserved_internal_kv_namespace (ascii ''/a/x'') (ascii ''/a/z'') = None"
    unfolding reserved_internal_kv_namespace_def acc
    by (simp add: reserved_internal_prefix_def RESERVED_INTERNAL_KV_PREFIXES_def touches_prefix_def ascii_def)
  moreover have "\<not> range_touches_object_space (ascii ''/a/x'') (ascii ''/a/z'')"
    by (simp add: range_touches_object_space_def OBJECT_PREFIX_def OBJECT_SPACE_END_def ascii_def)
  moreover have "normalized_bounds (ascii ''/a/x'') (ascii ''/a/z'') = (ascii ''/a/x'', ascii ''/a/z'')"
    by (simp add: normalized_bounds_def ascii_def)
  ultimately have guard: "guard_create (wf_key ?f) (wf_range_end ?f) (Some ?g) = Inr ()"
    by (simp add: guard_create_def check_deferred_scope_def acc)
  have "WatchFilter_validate ?f = Inr ()" by (simp add: WatchFilter_validate_def ascii_def)
  moreover have m: "WatchFilter_matches ?f ?c" by (simp add: WatchFilter_matches_def WatchFilter_key_matches_def ascii_def)
  moreover have "wf_key ?f \<noteq> []" by (simp add: ascii_def)
  ultimately have "\<not> key_in_object_space (cc_key ?c) \<and>
      (\<exists>scope \<in> set (dg_grant_scopes ?g). scope_grants scope (cc_key ?c))"
    using watch_v2_isolated [OF guard] by blast
  with guard m show ?thesis by blast
qed

text \<open>The first watch service holds the caller to the scopes: whatever subscription its guard
  accepts for a caller with scopes, every delivered key lies below one of them, an
  empty end, which subscribes to a prefix, included.\<close>

theorem watch_v1_scope_sound:
  assumes "watch_guard object_enabled (Some g) key range_end = Inr ()" "key_matches k key range_end"
  shows "\<exists>scope \<in> set (dg_grant_scopes g). scope_grants scope k"
proof -
  have "scope_allows_access (dg_grant_scopes g) (watch_create_access key range_end)"
    using assms(1) by (simp add: watch_guard_def check_deferred_scope_def scope_allows_def split: if_splits)
  moreover have "access_covers (watch_create_access key range_end) k"
  proof -
    obtain hi where hi: "watch_match_interval key range_end = (key, hi)" by (auto simp: watch_match_interval_def Let_def)
    have "key \<le> k" "\<And>u. hi = Some u \<Longrightarrow> k < u"
      using assms(2) by (auto simp: key_matches_def hi interval_contains_def split: if_splits)
    then show ?thesis by (auto simp: watch_create_access_def hi access_covers_def UNBOUNDED_RANGE_END_def split: option.split)
  qed
  ultimately show ?thesis by (rule access_grants)
qed

theorem watch_v1_scope_sound_witness:
  "\<exists>g. watch_guard True (Some g) (ascii ''/a/'') [] = Inr () \<and> key_matches (ascii ''/a/x'') (ascii ''/a/'') [] \<and>
    (\<exists>scope \<in> set (dg_grant_scopes g). scope_grants scope (ascii ''/a/x''))"
proof -
  let ?g = "\<lparr>dg_capability_id = [], dg_grant_scopes = [ascii ''/a'']\<rparr>"
  have acc: "watch_create_access (ascii ''/a/'') [] = \<lparr>sa_key = ascii ''/a/'', sa_range_end = ascii ''/a0''\<rparr>"
    by (simp add: watch_create_access_def watch_match_interval_def ascii_def)
  have "scope_allows [ascii ''/a''] [\<lparr>sa_key = ascii ''/a/'', sa_range_end = ascii ''/a0''\<rparr>]"
    by (simp add: scope_allows_def scope_allows_access_def scope_covers_interval_def scope_safe_byte_prefix_def
      validate_scope_chars_def strip_suffix_def suffix_def scope_char_def slash_def star_def ascii_def)
  moreover have "reserved_internal_kv_namespace (ascii ''/a/'') [] = None"
    by (simp add: reserved_internal_kv_namespace_def from_range_def range_semantics_of_def reserved_internal_prefix_def
      RESERVED_INTERNAL_KV_PREFIXES_def touches_prefix_def ascii_def)
  moreover have "\<not> range_touches_object_space (ascii ''/a/'') []"
    by (simp add: range_touches_object_space_def key_in_object_space_def OBJECT_PREFIX_def ascii_def)
  ultimately have guard: "watch_guard True (Some ?g) (ascii ''/a/'') [] = Inr ()"
    by (simp add: watch_guard_def check_deferred_scope_def acc)
  have "key_matches (ascii ''/a/x'') (ascii ''/a/'') []"
    by (simp add: key_matches_def watch_match_interval_def interval_contains_def ascii_def)
  with watch_v1_scope_sound [OF guard this] guard show ?thesis by blast
qed

text \<open>C36: The first watch service does not isolate the reserved namespaces. Its namespace guards
  read an empty end as a single key, its delivery reads it as a prefix: a caller with
  an unrestricted grant who watches \<open>/\<close> is accepted, and is then sent the certificates'
  private keys under \<open>/_pki/\<close> and the manifests under \<open>/obj/\<close>.\<close>

theorem watch_v1_guard_bypassed:
  "watch_guard True (Some \<lparr>dg_capability_id = capability, dg_grant_scopes = [[]]\<rparr>) (ascii ''/'') [] = Inr () \<and>
    key_matches (ascii ''/_pki/'' @ name) (ascii ''/'') [] \<and> key_matches (ascii ''/obj/'' @ name) (ascii ''/'') [] \<and>
    key_in_object_space (ascii ''/obj/'' @ name) \<and>
    list_ex (\<lambda>p. prefix p (ascii ''/_pki/'' @ name)) RESERVED_INTERNAL_KV_PREFIXES"
  by (simp add: watch_guard_def check_deferred_scope_def scope_allows_def scope_allows_access_def
    reserved_internal_kv_namespace_def from_range_def range_semantics_of_def reserved_internal_prefix_def
    RESERVED_INTERNAL_KV_PREFIXES_def touches_prefix_def range_touches_object_space_def key_in_object_space_def
    OBJECT_PREFIX_def key_matches_def watch_match_interval_def interval_contains_def ascii_def)

end
