(* ===== verification/Auth_Manager.thy ===== *)
theory Auth_Manager
  imports Scope_Auth
begin

text \<open>
  Users, roles and grants (\<open>coord-server/src/auth/manager.rs\<close>): the capability checks,
  the bootstrap tokens, the in-memory tables, the command that stores their rows
  (\<open>apply_auth_op\<close> of \<open>coord-server/src/storage/mvcc.rs\<close>), the table update that follows
  it in the state machine (\<open>coord-server/src/raft/state_machine.rs\<close>) and the reload at
  start-up. The hash maps are partial functions; where the code iterates over one, the
  order is a parameter. The postcard crate is the parameter \<open>C\<close>.
\<close>

section \<open>Permissions\<close>

datatype PermissionType = PRead | PWrite | PReadWrite

record Permission =
  pm_type :: PermissionType
  pm_key_prefix :: bytes
  pm_range_end :: bytes

definition perm_key_matches :: "Permission \<Rightarrow> bytes \<Rightarrow> bool" where
  "perm_key_matches p key =
    (if \<not> prefix (pm_key_prefix p) key then False
     else if pm_range_end p = [] then True
     else pm_key_prefix p \<le> key \<and> key < pm_range_end p)"

definition allows_read :: "Permission \<Rightarrow> bytes \<Rightarrow> bool" where
  "allows_read p key = (if pm_type p = PWrite then False else perm_key_matches p key)"

definition allows_write :: "Permission \<Rightarrow> bytes \<Rightarrow> bool" where
  "allows_write p key = (if pm_type p = PRead then False else perm_key_matches p key)"

definition range_matches :: "Permission \<Rightarrow> bytes \<Rightarrow> bytes \<Rightarrow> bool" where
  "range_matches p key range_end =
    (if range_end = [] then perm_key_matches p key
     else if pm_key_prefix p = [] \<and> pm_range_end p = [] then True
     else if range_end = [0] then False
     else if key < pm_key_prefix p then False
     else
       case (if pm_range_end p = [] then prefix_successor (pm_key_prefix p) else Some (pm_range_end p)) of
         None \<Rightarrow> False
       | Some upper \<Rightarrow> range_end \<le> upper)"

definition allows_read_range :: "Permission \<Rightarrow> bytes \<Rightarrow> bytes \<Rightarrow> bool" where
  "allows_read_range p key range_end = (if pm_type p = PWrite then False else range_matches p key range_end)"

definition allows_write_range :: "Permission \<Rightarrow> bytes \<Rightarrow> bytes \<Rightarrow> bool" where
  "allows_write_range p key range_end = (if pm_type p = PRead then False else range_matches p key range_end)"

section \<open>Tables and rows\<close>

record CapabilityGrant =
  cg_capability_id :: bytes
  cg_scope :: bytes

record Role =
  ro_name :: bytes
  ro_permissions :: "Permission list"
  ro_capability_grants :: "CapabilityGrant list"
  ro_high_sensitive :: bool

record UserEntry =
  ue_password_hash :: bytes
  ue_roles :: "bytes set"

record AuthBootstrapTokenRecord =
  bt_id :: bytes
  bt_hash_hex :: bytes
  bt_label :: bytes
  bt_created_by :: bytes
  bt_created_at_unix :: u64
  bt_expires_at_unix :: u64
  bt_consumed_at_unix :: "u64 option"

record AuthSessionRecord =
  as_username :: bytes
  as_expires_at_unix :: u64
  as_is_refresh :: bool

record AuthUserRecord =
  au_name :: bytes
  au_password_hash :: bytes
  au_roles :: "bytes list"

record AuthPermissionRecord =
  ap_perm_type :: u8
  ap_key_prefix :: bytes
  ap_range_end :: bytes

record AuthRoleRecord =
  ar_name :: bytes
  ar_permissions :: "AuthPermissionRecord list"
  ar_capability_grants :: "CapabilityGrant list"
  ar_high_sensitive :: bool

record AuthRevocationRecord =
  av_jti :: bytes
  av_revoked_at :: i64

abbreviation AUTH_PREFIX :: bytes where "AUTH_PREFIX \<equiv> ascii ''/_sys/auth/''"
abbreviation AUTH_USER_PREFIX :: bytes where "AUTH_USER_PREFIX \<equiv> ascii ''/_sys/auth/user/''"
abbreviation AUTH_ROLE_PREFIX :: bytes where "AUTH_ROLE_PREFIX \<equiv> ascii ''/_sys/auth/role/''"
abbreviation AUTH_REVOKED_PREFIX :: bytes where "AUTH_REVOKED_PREFIX \<equiv> ascii ''/_sys/auth/revoked/''"
abbreviation AUTH_SESSION_PREFIX :: bytes where "AUTH_SESSION_PREFIX \<equiv> ascii ''/_sys/auth/sessions/''"
abbreviation AUTH_BOOTSTRAP_PREFIX :: bytes where "AUTH_BOOTSTRAP_PREFIX \<equiv> ascii ''/_sys/auth/bootstrap/''"

record auth_codec =
  ac_user :: "AuthUserRecord postcard"
  ac_role :: "AuthRoleRecord postcard"
  ac_token :: "AuthBootstrapTokenRecord postcard"
  ac_session :: "AuthSessionRecord postcard"
  ac_revocation :: "AuthRevocationRecord postcard"

text \<open>Reading a row, which gives nothing when it does not decode, and writing one.\<close>

definition get_record :: "'a postcard \<Rightarrow> bytes \<Rightarrow> db \<Rightarrow> 'a option" where
  "get_record pc key d = (case tx_get d T_kv key of Some bs \<Rightarrow> envelope_ok pc bs | None \<Rightarrow> None)"

definition put_record :: "'a postcard \<Rightarrow> bytes \<Rightarrow> 'a \<Rightarrow> db \<Rightarrow> db result" where
  "put_record pc key rec d =
    (case envelope_encode pc rec of Some bs \<Rightarrow> Inr (tx_insert d T_kv key bs) | None \<Rightarrow> Inl Internal)"

definition perm_type_of :: "u8 \<Rightarrow> PermissionType" where
  "perm_type_of t = (if t = 0 then PRead else if t = 1 then PWrite else PReadWrite)"

definition Permission_from_record :: "AuthPermissionRecord \<Rightarrow> Permission" where
  "Permission_from_record p =
    \<lparr>pm_type = perm_type_of (ap_perm_type p), pm_key_prefix = ap_key_prefix p, pm_range_end = ap_range_end p\<rparr>"

definition Role_from_record :: "AuthRoleRecord \<Rightarrow> Role" where
  "Role_from_record rec =
    \<lparr>ro_name = ar_name rec, ro_permissions = map Permission_from_record (ar_permissions rec),
     ro_capability_grants = ar_capability_grants rec, ro_high_sensitive = ar_high_sensitive rec\<rparr>"

definition ROOT_ROLE :: bytes where "ROOT_ROLE = ascii ''root''"

definition is_root :: "bytes list \<Rightarrow> bool" where
  "is_root roles = list_ex (\<lambda>r. r = ROOT_ROLE) roles"

record AuthManager =
  am_enabled :: bool
  am_users :: "bytes \<rightharpoonup> UserEntry"
  am_roles :: "bytes \<rightharpoonup> Role"
  am_bootstrap_tokens :: "bytes \<rightharpoonup> AuthBootstrapTokenRecord"

definition root_role :: Role where
  "root_role = \<lparr>ro_name = ROOT_ROLE,
     ro_permissions = [\<lparr>pm_type = PReadWrite, pm_key_prefix = [], pm_range_end = []\<rparr>],
     ro_capability_grants = [], ro_high_sensitive = True\<rparr>"

definition AuthManager_new_empty :: AuthManager where
  "AuthManager_new_empty = \<lparr>am_enabled = False, am_users = Map.empty, am_roles = [ROOT_ROLE \<mapsto> root_role],
     am_bootstrap_tokens = Map.empty\<rparr>"

section \<open>Capability checks\<close>

definition legacy_allows :: "bytes \<Rightarrow> (Permission \<Rightarrow> bool) \<Rightarrow> (Permission \<Rightarrow> bool) \<Rightarrow> Role \<Rightarrow> bool" where
  "legacy_allows capability_id read_ok write_ok role =
    (if capability_id = ascii ''data:kv:read'' then list_ex read_ok (ro_permissions role)
     else if capability_id \<in> {ascii ''data:kv:write'', ascii ''data:kv:delete'', ascii ''data:txn:execute''}
     then list_ex write_ok (ro_permissions role)
     else False)"

definition check_capability :: "AuthManager \<Rightarrow> bytes list \<Rightarrow> bytes \<Rightarrow> bytes option \<Rightarrow> bool" where
  "check_capability m roles capability_id scope_key =
    (if is_root roles then True
     else list_ex (\<lambda>role_name.
       case am_roles m role_name of
         None \<Rightarrow> False
       | Some role \<Rightarrow>
           list_ex (\<lambda>grant.
             cg_capability_id grant = capability_id \<and>
             (cg_scope grant = [] \<or>
              (case scope_key of
                 Some key \<Rightarrow> (case ScopeTrie_insert ScopeTrie_new (cg_scope grant) of
                                (res, trie) \<Rightarrow> res = Inr () \<and> ScopeTrie_matches trie key)
               | None \<Rightarrow> False))) (ro_capability_grants role) \<or>
           (let key = (case scope_key of Some key \<Rightarrow> key | None \<Rightarrow> [])
            in legacy_allows capability_id (\<lambda>p. allows_read p key) (\<lambda>p. allows_write p key) role)) roles)"

definition check_capability_range :: "AuthManager \<Rightarrow> bytes list \<Rightarrow> bytes \<Rightarrow> bytes \<Rightarrow> bytes \<Rightarrow> bool" where
  "check_capability_range m roles capability_id key range_end =
    (if is_root roles then True
     else list_ex (\<lambda>role_name.
       case am_roles m role_name of
         None \<Rightarrow> False
       | Some role \<Rightarrow>
           list_ex (\<lambda>grant.
             cg_capability_id grant = capability_id \<and>
             (cg_scope grant = [] \<or> scope_covers_interval (cg_scope grant) key range_end)) (ro_capability_grants role) \<or>
           legacy_allows capability_id (\<lambda>p. allows_read_range p key range_end) (\<lambda>p. allows_write_range p key range_end)
             role) roles)"

text \<open>The scopes of a capability, without repetitions, in the order they are found.\<close>

definition scopes_for_capability :: "AuthManager \<Rightarrow> bytes list \<Rightarrow> bytes \<Rightarrow> bytes list" where
  "scopes_for_capability m roles capability_id =
    fold (\<lambda>role_name scopes.
      case am_roles m role_name of
        None \<Rightarrow> scopes
      | Some role \<Rightarrow>
          fold (\<lambda>grant scopes.
            if cg_capability_id grant = capability_id \<and> cg_scope grant \<notin> set scopes
            then scopes @ [cg_scope grant] else scopes) (ro_capability_grants role) scopes) roles []"

section \<open>Commands\<close>

datatype AuthOp =
    UserAdd bytes bytes "bytes list"
  | UserDelete bytes
  | UserSetPassword bytes bytes
  | UserGrantRole bytes bytes
  | UserRevokeRole bytes bytes
  | RoleAdd bytes
  | RoleDelete bytes
  | RoleGrantPermission bytes u8 bytes bytes
  | RoleRevokePermission bytes bytes bytes
  | RevokeJti bytes
  | IssueSession bytes bytes u64 bool
  | ConsumeSession bytes
  | RoleGrantCapability bytes bytes bytes
  | RoleRevokeCapability bytes bytes bytes
  | IssueBootstrapToken bytes bytes bytes bytes u64 u64
  | ConsumeBootstrapToken bytes u64
  | RevokeBootstrapToken bytes
  | ConsumeSessions "bytes list"

text \<open>Changes the row under a key, when it is there and decodes, to what \<open>f\<close> gives, if anything.\<close>

definition update_record :: "'a postcard \<Rightarrow> bytes \<Rightarrow> ('a \<Rightarrow> 'a option) \<Rightarrow> db \<Rightarrow> db result" where
  "update_record pc key f d =
    (case get_record pc key d of
       None \<Rightarrow> Inr d
     | Some rec \<Rightarrow> (case f rec of Some updated \<Rightarrow> put_record pc key updated d | None \<Rightarrow> Inr d))"

definition insert_record :: "'a postcard \<Rightarrow> bytes \<Rightarrow> 'a \<Rightarrow> db \<Rightarrow> db result" where
  "insert_record pc key rec d = (if tx_get d T_kv key = None then put_record pc key rec d else Inr d)"

definition drop_role :: "bytes \<Rightarrow> AuthUserRecord \<Rightarrow> AuthUserRecord" where
  "drop_role role rec = rec\<lparr>au_roles := filter (\<lambda>r. r \<noteq> role) (au_roles rec)\<rparr>"

fun role_delete_updates :: "auth_codec \<Rightarrow> bytes \<Rightarrow> rows \<Rightarrow> rows result" where
  "role_delete_updates C role [] = Inr []"
| "role_delete_updates C role ((k, v) # rs) =
    (case envelope_ok (ac_user C) v of
       None \<Rightarrow> role_delete_updates C role rs
     | Some rec \<Rightarrow>
         (if length (au_roles (drop_role role rec)) \<noteq> length (au_roles rec)
          then bind_result (ok_or Internal (envelope_encode (ac_user C) (drop_role role rec))) (\<lambda>bs.
                 bind_result (role_delete_updates C role rs) (\<lambda>updates. Inr ((k, bs) # updates)))
          else role_delete_updates C role rs))"

text \<open>The wall clock is not negative, so the signed division of \<open>RevokeJti\<close> is \<open>div\<close>.\<close>

fun auth_op_in_tx :: "auth_codec \<Rightarrow> i64 \<Rightarrow> AuthOp \<Rightarrow> db \<Rightarrow> db result" where
  "auth_op_in_tx C now_ms (UserAdd name hash roles) d =
    put_record (ac_user C) (AUTH_USER_PREFIX @ name) \<lparr>au_name = name, au_password_hash = hash, au_roles = roles\<rparr> d"
| "auth_op_in_tx C now_ms (UserDelete name) d = Inr (tx_remove d T_kv (AUTH_USER_PREFIX @ name))"
| "auth_op_in_tx C now_ms (UserSetPassword name hash) d =
    update_record (ac_user C) (AUTH_USER_PREFIX @ name) (\<lambda>rec. Some (rec\<lparr>au_password_hash := hash\<rparr>)) d"
| "auth_op_in_tx C now_ms (UserGrantRole name role) d =
    update_record (ac_user C) (AUTH_USER_PREFIX @ name) (\<lambda>rec.
      Some (rec\<lparr>au_roles := (if role \<in> set (au_roles rec) then au_roles rec else au_roles rec @ [role])\<rparr>)) d"
| "auth_op_in_tx C now_ms (UserRevokeRole name role) d =
    update_record (ac_user C) (AUTH_USER_PREFIX @ name) (\<lambda>rec. Some (drop_role role rec)) d"
| "auth_op_in_tx C now_ms (RoleAdd role) d =
    insert_record (ac_role C) (AUTH_ROLE_PREFIX @ role)
      \<lparr>ar_name = role, ar_permissions = [], ar_capability_grants = [], ar_high_sensitive = False\<rparr> d"
| "auth_op_in_tx C now_ms (RoleDelete role) d =
    (let d = tx_remove d T_kv (AUTH_ROLE_PREFIX @ role)
     in bind_result (role_delete_updates C role (tx_iter_prefix d T_kv AUTH_USER_PREFIX)) (\<lambda>updates.
          Inr (fold (\<lambda>(k, v) d. tx_insert d T_kv k v) updates d)))"
| "auth_op_in_tx C now_ms (RoleGrantPermission role perm_type key range_end) d =
    update_record (ac_role C) (AUTH_ROLE_PREFIX @ role) (\<lambda>rec.
      let p = \<lparr>ap_perm_type = perm_type, ap_key_prefix = key, ap_range_end = range_end\<rparr>
      in if p \<in> set (ar_permissions rec) then None
         else Some (rec\<lparr>ar_permissions := ar_permissions rec @ [p]\<rparr>)) d"
| "auth_op_in_tx C now_ms (RoleRevokePermission role key range_end) d =
    update_record (ac_role C) (AUTH_ROLE_PREFIX @ role) (\<lambda>rec.
      Some (rec\<lparr>ar_permissions :=
        filter (\<lambda>p. \<not> (ap_key_prefix p = key \<and> ap_range_end p = range_end)) (ar_permissions rec)\<rparr>)) d"
| "auth_op_in_tx C now_ms (RevokeJti jti) d =
    insert_record (ac_revocation C) (AUTH_REVOKED_PREFIX @ jti) \<lparr>av_jti = jti, av_revoked_at = now_ms div 1000\<rparr> d"
| "auth_op_in_tx C now_ms (IssueSession hash_hex username expires_at_unix is_refresh) d =
    put_record (ac_session C) (AUTH_SESSION_PREFIX @ hash_hex)
      \<lparr>as_username = username, as_expires_at_unix = expires_at_unix, as_is_refresh = is_refresh\<rparr> d"
| "auth_op_in_tx C now_ms (ConsumeSession hash_hex) d = Inr (tx_remove d T_kv (AUTH_SESSION_PREFIX @ hash_hex))"
| "auth_op_in_tx C now_ms (ConsumeSessions hash_hexes) d =
    Inr (fold (\<lambda>hash_hex d. tx_remove d T_kv (AUTH_SESSION_PREFIX @ hash_hex)) hash_hexes d)"
| "auth_op_in_tx C now_ms (RoleGrantCapability role capability_id scope) d =
    update_record (ac_role C) (AUTH_ROLE_PREFIX @ role) (\<lambda>rec.
      let g = \<lparr>cg_capability_id = capability_id, cg_scope = scope\<rparr>
      in if g \<in> set (ar_capability_grants rec) then None
         else Some (rec\<lparr>ar_capability_grants := ar_capability_grants rec @ [g]\<rparr>)) d"
| "auth_op_in_tx C now_ms (RoleRevokeCapability role capability_id scope) d =
    update_record (ac_role C) (AUTH_ROLE_PREFIX @ role) (\<lambda>rec.
      Some (rec\<lparr>ar_capability_grants :=
        filter (\<lambda>g. \<not> (cg_capability_id g = capability_id \<and> cg_scope g = scope)) (ar_capability_grants rec)\<rparr>)) d"
| "auth_op_in_tx C now_ms (IssueBootstrapToken token hash_hex label created_by created_at_unix expires_at_unix) d =
    insert_record (ac_token C) (AUTH_BOOTSTRAP_PREFIX @ token)
      \<lparr>bt_id = token, bt_hash_hex = hash_hex, bt_label = label, bt_created_by = created_by,
       bt_created_at_unix = created_at_unix, bt_expires_at_unix = expires_at_unix, bt_consumed_at_unix = None\<rparr> d"
| "auth_op_in_tx C now_ms (ConsumeBootstrapToken token consumed_at_unix) d =
    update_record (ac_token C) (AUTH_BOOTSTRAP_PREFIX @ token) (\<lambda>rec.
      if bt_consumed_at_unix rec = None then Some (rec\<lparr>bt_consumed_at_unix := Some consumed_at_unix\<rparr>) else None) d"
| "auth_op_in_tx C now_ms (RevokeBootstrapToken token) d = Inr (tx_remove d T_kv (AUTH_BOOTSTRAP_PREFIX @ token))"

definition apply_auth_op ::
    "auth_codec \<Rightarrow> i64 \<Rightarrow> MvccStorage \<Rightarrow> AuthOp \<Rightarrow> u64 \<Rightarrow> AppliedLogId \<Rightarrow> ApplyOutcome result \<times> MvccStorage" where
  "apply_auth_op C now_ms s op revision applied =
    (if changelog_contains_revision s revision then (Inr \<lparr>replayed = True\<rparr>, s)
     else write_store s (\<lambda>d.
       bind_result (auth_op_in_tx C now_ms op (note_log_index_revision (revision_mode s) d revision)) (\<lambda>d.
         let d = put_event d \<lparr>ev_revision = revision, ev_changes = [], ev_event_type = Put\<rparr>
         in Inr (\<lparr>replayed = False\<rparr>, put_applied d applied))))"

definition update_role :: "bytes \<Rightarrow> (Role \<Rightarrow> Role) \<Rightarrow> AuthManager \<Rightarrow> AuthManager" where
  "update_role role f m =
    (case am_roles m role of Some r \<Rightarrow> m\<lparr>am_roles := (am_roles m)(role \<mapsto> f r)\<rparr> | None \<Rightarrow> m)"

definition update_user :: "bytes \<Rightarrow> (UserEntry \<Rightarrow> UserEntry) \<Rightarrow> AuthManager \<Rightarrow> AuthManager" where
  "update_user name f m =
    (case am_users m name of Some entry \<Rightarrow> m\<lparr>am_users := (am_users m)(name \<mapsto> f entry)\<rparr> | None \<Rightarrow> m)"

fun apply_auth_op_to_view :: "AuthOp \<Rightarrow> AuthManager \<Rightarrow> AuthManager" where
  "apply_auth_op_to_view (UserAdd name hash roles) m =
    m\<lparr>am_users := (am_users m)(name \<mapsto> \<lparr>ue_password_hash = hash, ue_roles = set roles\<rparr>)\<rparr>"
| "apply_auth_op_to_view (UserDelete name) m = m\<lparr>am_users := (am_users m)(name := None)\<rparr>"
| "apply_auth_op_to_view (UserSetPassword name hash) m = update_user name (\<lambda>entry. entry\<lparr>ue_password_hash := hash\<rparr>) m"
| "apply_auth_op_to_view (UserGrantRole name role) m =
    update_user name (\<lambda>entry. entry\<lparr>ue_roles := insert role (ue_roles entry)\<rparr>) m"
| "apply_auth_op_to_view (UserRevokeRole name role) m =
    update_user name (\<lambda>entry. entry\<lparr>ue_roles := ue_roles entry - {role}\<rparr>) m"
| "apply_auth_op_to_view (RoleAdd role) m =
    (case am_roles m role of
       Some _ \<Rightarrow> m
     | None \<Rightarrow> m\<lparr>am_roles := (am_roles m)(role \<mapsto>
         \<lparr>ro_name = role, ro_permissions = [], ro_capability_grants = [], ro_high_sensitive = False\<rparr>)\<rparr>)"
| "apply_auth_op_to_view (RoleDelete role) m =
    m\<lparr>am_roles := (am_roles m)(role := None),
      am_users := (\<lambda>name. map_option (\<lambda>entry. entry\<lparr>ue_roles := ue_roles entry - {role}\<rparr>) (am_users m name))\<rparr>"
| "apply_auth_op_to_view (RoleGrantPermission role perm_type key range_end) m =
    update_role role (\<lambda>r.
      let p = \<lparr>pm_type = perm_type_of perm_type, pm_key_prefix = key, pm_range_end = range_end\<rparr>
      in if p \<in> set (ro_permissions r) then r else r\<lparr>ro_permissions := ro_permissions r @ [p]\<rparr>) m"
| "apply_auth_op_to_view (RoleRevokePermission role key range_end) m =
    update_role role (\<lambda>r. r\<lparr>ro_permissions :=
      filter (\<lambda>p. \<not> (pm_key_prefix p = key \<and> pm_range_end p = range_end)) (ro_permissions r)\<rparr>) m"
| "apply_auth_op_to_view (RevokeJti jti) m = m"
| "apply_auth_op_to_view (IssueSession hash_hex username expires_at_unix is_refresh) m = m"
| "apply_auth_op_to_view (ConsumeSession hash_hex) m = m"
| "apply_auth_op_to_view (ConsumeSessions hash_hexes) m = m"
| "apply_auth_op_to_view (RoleGrantCapability role capability_id scope) m =
    update_role role (\<lambda>r.
      let g = \<lparr>cg_capability_id = capability_id, cg_scope = scope\<rparr>
      in if g \<in> set (ro_capability_grants r) then r
         else r\<lparr>ro_capability_grants := ro_capability_grants r @ [g]\<rparr>) m"
| "apply_auth_op_to_view (RoleRevokeCapability role capability_id scope) m =
    update_role role (\<lambda>r. r\<lparr>ro_capability_grants :=
      filter (\<lambda>g. \<not> (cg_capability_id g = capability_id \<and> cg_scope g = scope)) (ro_capability_grants r)\<rparr>) m"
| "apply_auth_op_to_view (IssueBootstrapToken token hash_hex label created_by created_at_unix expires_at_unix) m =
    m\<lparr>am_bootstrap_tokens := (am_bootstrap_tokens m)(token \<mapsto>
      \<lparr>bt_id = token, bt_hash_hex = hash_hex, bt_label = label, bt_created_by = created_by,
       bt_created_at_unix = created_at_unix, bt_expires_at_unix = expires_at_unix, bt_consumed_at_unix = None\<rparr>)\<rparr>"
| "apply_auth_op_to_view (ConsumeBootstrapToken token consumed_at_unix) m =
    (case am_bootstrap_tokens m token of
       Some rec \<Rightarrow> m\<lparr>am_bootstrap_tokens := (am_bootstrap_tokens m)(token \<mapsto>
         rec\<lparr>bt_consumed_at_unix := Some consumed_at_unix\<rparr>)\<rparr>
     | None \<Rightarrow> m)"
| "apply_auth_op_to_view (RevokeBootstrapToken token) m =
    m\<lparr>am_bootstrap_tokens := (am_bootstrap_tokens m)(token := None)\<rparr>"

text \<open>The command in the state machine: the table follows the rows unless the entry is a replay.\<close>

definition apply_auth_command ::
    "auth_codec \<Rightarrow> i64 \<Rightarrow> AuthOp \<Rightarrow> u64 \<Rightarrow> AppliedLogId \<Rightarrow> MvccStorage \<times> AuthManager \<Rightarrow> MvccStorage \<times> AuthManager" where
  "apply_auth_command C now_ms op revision applied = (\<lambda>(s, m).
    case apply_auth_op C now_ms s op revision applied of
      (Inl e, s) \<Rightarrow> (s, m)
    | (Inr outcome, s) \<Rightarrow> (s, if \<not> replayed outcome then apply_auth_op_to_view op m else m))"

section \<open>Start-up\<close>

definition list_raw_prefix :: "MvccStorage \<Rightarrow> bytes \<Rightarrow> rows" where
  "list_raw_prefix s pfx = tx_iter_prefix (backend s) T_kv pfx"

fun load_entry :: "auth_codec \<Rightarrow> bytes \<times> bytes \<Rightarrow> AuthManager \<Rightarrow> AuthManager" where
  "load_entry C (key, value) m =
    (if prefix AUTH_USER_PREFIX key then
       (case envelope_ok (ac_user C) value of
          Some rec \<Rightarrow> m\<lparr>am_users := (am_users m)(au_name rec \<mapsto>
            \<lparr>ue_password_hash = au_password_hash rec, ue_roles = set (au_roles rec)\<rparr>)\<rparr>
        | None \<Rightarrow> m)
     else if prefix AUTH_ROLE_PREFIX key then
       (case envelope_ok (ac_role C) value of
          Some rec \<Rightarrow> m\<lparr>am_roles := (am_roles m)(ar_name rec \<mapsto> Role_from_record rec)\<rparr>
        | None \<Rightarrow> m)
     else if prefix AUTH_BOOTSTRAP_PREFIX key then
       (case envelope_ok (ac_token C) value of
          Some rec \<Rightarrow> m\<lparr>am_bootstrap_tokens := (am_bootstrap_tokens m)(bt_id rec \<mapsto> rec)\<rparr>
        | None \<Rightarrow> m)
     else m)"

definition load_from_entries :: "auth_codec \<Rightarrow> rows \<Rightarrow> AuthManager \<Rightarrow> AuthManager" where
  "load_from_entries C entries m =
    (if entries = [] then m
     else
       fold (load_entry C) entries
         (m\<lparr>am_users := Map.empty,
            am_roles := (case am_roles m ROOT_ROLE of Some kept \<Rightarrow> [ROOT_ROLE \<mapsto> kept] | None \<Rightarrow> Map.empty),
            am_bootstrap_tokens := Map.empty\<rparr>))"

section \<open>Bootstrap tokens\<close>

definition is_usable :: "AuthBootstrapTokenRecord \<Rightarrow> u64 \<Rightarrow> bool" where
  "is_usable rec now_unix \<longleftrightarrow> bt_consumed_at_unix rec = None \<and> \<not> bt_expires_at_unix rec \<le> now_unix"

text \<open>\<open>order\<close> lists the table in the order the hash map is walked.\<close>

definition consume_bootstrap_token_atomic ::
    "(bytes \<times> AuthBootstrapTokenRecord) list \<Rightarrow> bytes \<Rightarrow> u64 \<Rightarrow> AuthManager \<Rightarrow> AuthBootstrapTokenRecord option \<times> AuthManager" where
  "consume_bootstrap_token_atomic order hash_hex now_unix m =
    (case find (\<lambda>(token, r). bt_hash_hex r = hash_hex \<and> is_usable r now_unix) order of
       None \<Rightarrow> (None, m)
     | Some (token, _) \<Rightarrow>
         (case am_bootstrap_tokens m token of
            None \<Rightarrow> (None, m)
          | Some rec \<Rightarrow>
              (let rec = rec\<lparr>bt_consumed_at_unix := Some now_unix\<rparr>
               in (Some rec, m\<lparr>am_bootstrap_tokens := (am_bootstrap_tokens m)(token \<mapsto> rec)\<rparr>))))"

definition revert_bootstrap_token_consumption :: "bytes \<Rightarrow> u64 \<Rightarrow> AuthManager \<Rightarrow> bool \<times> AuthManager" where
  "revert_bootstrap_token_consumption token expected m =
    (case am_bootstrap_tokens m token of
       Some rec \<Rightarrow>
         (if bt_consumed_at_unix rec = Some expected
          then (True, m\<lparr>am_bootstrap_tokens := (am_bootstrap_tokens m)(token \<mapsto> rec\<lparr>bt_consumed_at_unix := None\<rparr>)\<rparr>)
          else (False, m))
     | None \<Rightarrow> (False, m))"

definition prune_expired_bootstrap_tokens :: "u64 \<Rightarrow> AuthManager \<Rightarrow> AuthManager" where
  "prune_expired_bootstrap_tokens now_unix m =
    m\<lparr>am_bootstrap_tokens := (\<lambda>token. case am_bootstrap_tokens m token of
        Some r \<Rightarrow> (if bt_expires_at_unix r \<le> now_unix \<and> bt_consumed_at_unix r = None then None else Some r)
      | None \<Rightarrow> None)\<rparr>"

section \<open>Point and range checks\<close>

text \<open>
  A permission whose end lies inside its own prefix. The service puts no such bound on
  the permissions it stores.
\<close>

definition perm_tight :: "Permission \<Rightarrow> bool" where
  "perm_tight p \<longleftrightarrow> pm_range_end p = [] \<or>
    (case prefix_successor (pm_key_prefix p) of Some upper \<Rightarrow> pm_range_end p \<le> upper | None \<Rightarrow> True)"

lemma range_matches_point:
  assumes "range_matches p key range_end" "perm_tight p" "access_covers \<lparr>sa_key = key, sa_range_end = range_end\<rparr> k"
  shows "perm_key_matches p k"
proof (cases "range_end = [] \<or> (pm_key_prefix p = [] \<and> pm_range_end p = [])")
  case True
  then show ?thesis using assms(1,3) by (auto simp: range_matches_def access_covers_def perm_key_matches_def split: if_splits)
next
  case False
  let ?u = "if pm_range_end p = [] then prefix_successor (pm_key_prefix p) else Some (pm_range_end p)"
  obtain upper where u: "?u = Some upper" "range_end \<le> upper" "pm_key_prefix p \<le> key" "range_end \<noteq> [0]"
    using assms(1) False by (auto simp: range_matches_def split: if_splits option.splits)
  have k: "pm_key_prefix p \<le> k" "k < upper" using assms(3) u False by (auto simp: access_covers_def)
  have "prefix (pm_key_prefix p) k"
  proof (cases "prefix_successor (pm_key_prefix p)")
    case None
    then show ?thesis using prefix_successor_None_imp [OF None, of k] k(1) by blast
  next
    case (Some v)
    then have "upper \<le> v" using u(1) assms(2) by (auto simp: perm_tight_def split: if_splits)
    then show ?thesis using prefix_successor_Some_imp [OF Some, of k] k by auto
  qed
  then show ?thesis using k u(1) by (auto simp: perm_key_matches_def split: if_splits)
qed

lemma scope_covers_point:
  assumes "scope_covers_interval scope key range_end" "access_covers \<lparr>sa_key = key, sa_range_end = range_end\<rparr> k" "utf8 k"
  shows "scope_grants scope k"
proof (cases "range_end = []")
  case True
  then have "k = key" using assms(2) by (simp add: access_covers_def)
  then show ?thesis using assms(1,3) True match_all_grants [of scope k]
    unfolding scope_covers_interval_def point_grants by (auto split: if_splits)
next
  case False
  then show ?thesis using interval_grants [OF assms(1), of k] assms(2) by (auto simp: access_covers_def)
qed

lemma legacy_allows_mono:
  assumes "legacy_allows cap r w role" "\<And>p. p \<in> set (ro_permissions role) \<Longrightarrow> r p \<Longrightarrow> r' p"
    "\<And>p. p \<in> set (ro_permissions role) \<Longrightarrow> w p \<Longrightarrow> w' p"
  shows "legacy_allows cap r' w' role"
proof -
  have "list_ex r (ro_permissions role) \<longrightarrow> list_ex r' (ro_permissions role)"
    "list_ex w (ro_permissions role) \<longrightarrow> list_ex w' (ro_permissions role)"
    using assms(2,3) unfolding list_ex_iff by blast+
  then show ?thesis using assms(1) unfolding legacy_allows_def by (simp split: if_split_asm)
qed

lemma legacy_range_point:
  assumes "legacy_allows cap (\<lambda>p. allows_read_range p key range_end) (\<lambda>p. allows_write_range p key range_end) role"
    and "list_all perm_tight (ro_permissions role)" "access_covers \<lparr>sa_key = key, sa_range_end = range_end\<rparr> k"
  shows "legacy_allows cap (\<lambda>p. allows_read p k) (\<lambda>p. allows_write p k) role"
proof -
  have "allows_read_range p key range_end \<Longrightarrow> allows_read p k" "allows_write_range p key range_end \<Longrightarrow> allows_write p k"
    if "p \<in> set (ro_permissions role)" for p
    using that assms(2) range_matches_point [OF _ _ assms(3), of p]
    by (auto simp: allows_read_range_def allows_read_def allows_write_range_def allows_write_def list_all_iff)
  with assms(1) show ?thesis by (rule legacy_allows_mono)
qed

text \<open>C37: A range is granted only when every key in it is: if the range check accepts a request for a
  capability, the point check accepts each key of the range, as long as no legacy
  permission reaches beyond its own prefix.\<close>

theorem capability_range_sound:
  assumes "check_capability_range m roles cap key range_end"
    and "\<forall>name role. am_roles m name = Some role \<longrightarrow> list_all perm_tight (ro_permissions role)"
    and "access_covers \<lparr>sa_key = key, sa_range_end = range_end\<rparr> k" "utf8 k"
  shows "check_capability m roles cap (Some k)"
proof (cases "is_root roles")
  case True
  then show ?thesis by (simp add: check_capability_def)
next
  case False
  obtain name role where r: "name \<in> set roles" "am_roles m name = Some role"
    and ok: "(\<exists>g \<in> set (ro_capability_grants role). cg_capability_id g = cap \<and> (cg_scope g = [] \<or> scope_covers_interval (cg_scope g) key range_end)) \<or>
      legacy_allows cap (\<lambda>p. allows_read_range p key range_end) (\<lambda>p. allows_write_range p key range_end) role"
    using assms(1) False by (auto simp: check_capability_range_def list_ex_iff split: option.splits)
  have "(\<exists>g \<in> set (ro_capability_grants role). cg_capability_id g = cap \<and> (cg_scope g = [] \<or> scope_grants (cg_scope g) k)) \<or>
      legacy_allows cap (\<lambda>p. allows_read p k) (\<lambda>p. allows_write p k) role"
    using ok scope_covers_point [OF _ assms(3,4)] legacy_range_point [OF _ _ assms(3)] assms(2) r(2) by blast
  then show ?thesis using r unfolding check_capability_def point_grants
    by (auto simp: False list_ex_iff intro!: bexI [of _ name])
qed

text \<open>C38: The range check of a legacy permission is wider than its point check. When the end of a
  role's only permission lies beyond its prefix, and the role has no grant for reading,
  then from every key between the prefix and the end that lacks the prefix, reading the
  range up to the end is granted, though it returns that key, and reading the key alone
  is refused; and there are such keys.\<close>

theorem permission_range_exceeds_point:
  assumes "am_roles m name = Some role" "\<not> is_root [name]" "ro_permissions role = [p]" "pm_type p \<noteq> PWrite"
    and "\<forall>g \<in> set (ro_capability_grants role). cg_capability_id g \<noteq> ascii ''data:kv:read''" "\<not> perm_tight p"
  shows "(\<exists>key. pm_key_prefix p \<le> key \<and> key < pm_range_end p \<and> \<not> prefix (pm_key_prefix p) key) \<and>
    (\<forall>key. pm_key_prefix p \<le> key \<and> key < pm_range_end p \<and> \<not> prefix (pm_key_prefix p) key \<longrightarrow>
      check_capability_range m [name] (ascii ''data:kv:read'') key (pm_range_end p) \<and>
      access_covers \<lparr>sa_key = key, sa_range_end = pm_range_end p\<rparr> key \<and>
      \<not> check_capability m [name] (ascii ''data:kv:read'') (Some key))"
proof (intro conjI allI impI)
  obtain u where u: "prefix_successor (pm_key_prefix p) = Some u" "u < pm_range_end p"
    using assms(6) by (auto simp: perm_tight_def split: option.splits)
  note su = prefix_successor_Some_imp [OF u(1)]
  have "pm_key_prefix p < u" using su [of "pm_key_prefix p"] by simp
  then have "pm_key_prefix p \<le> u" by (rule less_imp_le)
  moreover have "\<not> prefix (pm_key_prefix p) u" using su [of u] by blast
  ultimately show "\<exists>key. pm_key_prefix p \<le> key \<and> key < pm_range_end p \<and> \<not> prefix (pm_key_prefix p) key"
    using u(2) by blast
next
  fix key
  assume k: "pm_key_prefix p \<le> key \<and> key < pm_range_end p \<and> \<not> prefix (pm_key_prefix p) key"
  have e: "pm_range_end p \<noteq> []" using k by auto
  have z: "pm_range_end p \<noteq> [0]"
  proof
    assume "pm_range_end p = [0]"
    then have "key = []" using k by (cases key) auto
    then show False using k by (cases "pm_key_prefix p") auto
  qed
  have "range_matches p key (pm_range_end p)" using k e z by (auto simp: range_matches_def not_less)
  then show "check_capability_range m [name] (ascii ''data:kv:read'') key (pm_range_end p)"
    using assms by (simp add: check_capability_range_def legacy_allows_def allows_read_range_def)
  show "access_covers \<lparr>sa_key = key, sa_range_end = pm_range_end p\<rparr> key" using k e z by (auto simp: access_covers_def)
  have "\<not> perm_key_matches p key" using k by (simp add: perm_key_matches_def)
  then show "\<not> check_capability m [name] (ascii ''data:kv:read'') (Some key)"
    using assms by (auto simp: check_capability_def list_ex_iff legacy_allows_def allows_read_def)
qed

theorem permission_range_exceeds_point_witness:
  "\<exists>m. check_capability_range m [ascii ''app''] (ascii ''data:kv:read'') (ascii ''/b'') (ascii ''/z'') \<and>
    \<not> check_capability m [ascii ''app''] (ascii ''data:kv:read'') (Some (ascii ''/b''))"
proof -
  let ?p = "\<lparr>pm_type = PRead, pm_key_prefix = ascii ''/a'', pm_range_end = ascii ''/z''\<rparr>"
  let ?r = "\<lparr>ro_name = ascii ''app'', ro_permissions = [?p], ro_capability_grants = [], ro_high_sensitive = False\<rparr>"
  let ?m = "AuthManager_new_empty\<lparr>am_roles := [ascii ''app'' \<mapsto> ?r]\<rparr>"
  have "\<not> is_root [ascii ''app'']" by (simp add: is_root_def ROOT_ROLE_def ascii_def)
  moreover have "\<not> perm_tight ?p" by (simp add: perm_tight_def ascii_def)
  ultimately show ?thesis
    using permission_range_exceeds_point [of ?m "ascii ''app''" ?r ?p]
    by (intro exI [of _ ?m]) (simp add: ascii_def)
qed

theorem capability_range_sound_witness:
  "\<exists>m. check_capability_range m [ascii ''app''] (ascii ''data:kv:write'') (ascii ''/a/x'') (ascii ''/a/z'') \<and>
    check_capability m [ascii ''app''] (ascii ''data:kv:write'') (Some (ascii ''/a/y''))"
proof -
  let ?m = "AuthManager_new_empty\<lparr>am_roles := [ascii ''app'' \<mapsto> \<lparr>ro_name = ascii ''app'', ro_permissions = [],
      ro_capability_grants = [\<lparr>cg_capability_id = ascii ''data:kv:write'', cg_scope = ascii ''/a''\<rparr>], ro_high_sensitive = False\<rparr>]\<rparr>"
  have cover: "scope_covers_interval (ascii ''/a'') (ascii ''/a/x'') (ascii ''/a/z'')"
    by (simp add: scope_covers_interval_def scope_safe_byte_prefix_def validate_scope_chars_def strip_suffix_def suffix_def
      scope_char_def slash_def star_def ascii_def)
  have "\<not> is_root [ascii ''app'']" by (simp add: is_root_def ROOT_ROLE_def ascii_def)
  then have check: "check_capability_range ?m [ascii ''app''] (ascii ''data:kv:write'') (ascii ''/a/x'') (ascii ''/a/z'')"
    using cover by (simp add: check_capability_range_def)
  have "\<forall>name role. am_roles ?m name = Some role \<longrightarrow> list_all perm_tight (ro_permissions role)" by auto
  moreover have "access_covers \<lparr>sa_key = ascii ''/a/x'', sa_range_end = ascii ''/a/z''\<rparr> (ascii ''/a/y'')"
    by (simp add: access_covers_def ascii_def)
  moreover have "utf8 (ascii ''/a/y'')"
    by (simp add: utf8.simps [of "_ # _"] utf8.simps [of "[]"] utf8_first_def ascii_def)
  ultimately have "check_capability ?m [ascii ''app''] (ascii ''data:kv:write'') (Some (ascii ''/a/y''))"
    by (rule capability_range_sound [OF check])
  with check show ?thesis by blast
qed

section \<open>The tables follow the rows\<close>

text \<open>
  Rows under a prefix that decode to a record with the name in their key.
\<close>

definition named :: "'a postcard \<Rightarrow> bytes \<Rightarrow> ('a \<Rightarrow> bytes) \<Rightarrow> ('a \<Rightarrow> bool) \<Rightarrow> db \<Rightarrow> bool" where
  "named pc pre name P d \<longleftrightarrow>
    (\<forall>n bs. tx_get d T_kv (pre @ n) = Some bs \<longrightarrow> (\<exists>rec. envelope_ok pc bs = Some rec \<and> name rec = n \<and> P rec))"

lemma record_frame:
  assumes "\<And>n. tx_get d' T_kv (pre @ n) = tx_get d T_kv (pre @ n)"
  shows "get_record pc (pre @ n) d' = get_record pc (pre @ n) d" "named pc pre name P d' \<longleftrightarrow> named pc pre name P d"
  using assms by (simp_all add: get_record_def named_def)

lemma named_get: "named pc pre name P d \<Longrightarrow> tx_get d T_kv (pre @ n) = None \<longleftrightarrow> get_record pc (pre @ n) d = None"
  by (auto simp: named_def get_record_def split: option.split)

lemma named_record: "named pc pre name P d \<Longrightarrow> get_record pc (pre @ n) d = Some rec \<Longrightarrow> name rec = n \<and> P rec"
  by (fastforce simp: named_def get_record_def split: option.splits)

lemma put_record_rows:
  assumes "put_record pc key rec d = Inr d'"
  shows "\<exists>bs. envelope_encode pc rec = Some bs \<and> d' = tx_insert d T_kv key bs"
  using assms by (auto simp: put_record_def split: option.splits)

lemma put_record_named:
  assumes "put_record pc (pre @ n) rec d = Inr d'" "postcard_ok pc"
  shows "get_record pc (pre @ n') d' = (if n' = n then Some rec else get_record pc (pre @ n') d)"
    "named pc pre name P d \<Longrightarrow> name rec = n \<Longrightarrow> P rec \<Longrightarrow> named pc pre name P d'"
proof -
  obtain bs where bs: "envelope_encode pc rec = Some bs" "d' = tx_insert d T_kv (pre @ n) bs"
    using put_record_rows [OF assms(1)] by blast
  have dec: "envelope_ok pc bs = Some rec" by (rule envelope_decode_encode(2) [OF assms(2) bs(1)])
  show "get_record pc (pre @ n') d' = (if n' = n then Some rec else get_record pc (pre @ n') d)"
    by (simp add: get_record_def bs(2) table_simps dec)
  show "named pc pre name P d'" if "named pc pre name P d" "name rec = n" "P rec"
    using that dec unfolding named_def bs(2) by (auto simp: table_simps)
qed

lemma remove_named:
  assumes "db_ok d"
  shows "get_record pc (pre @ n') (tx_remove d T_kv (pre @ n)) = (if n' = n then None else get_record pc (pre @ n') d)"
    "named pc pre name P d \<Longrightarrow> named pc pre name P (tx_remove d T_kv (pre @ n))"
  using assms by (auto simp: get_record_def named_def table_simps)

text \<open>The stored tables, and the tables in memory that belong to them.\<close>

definition codecs_ok :: "auth_codec \<Rightarrow> bool" where
  "codecs_ok C \<longleftrightarrow> postcard_ok (ac_user C) \<and> postcard_ok (ac_role C) \<and> postcard_ok (ac_token C)"

definition role_record_ok :: "AuthRoleRecord \<Rightarrow> bool" where
  "role_record_ok rec \<longleftrightarrow> ar_name rec \<noteq> ROOT_ROLE \<and> (\<forall>p \<in> set (ar_permissions rec). ap_perm_type p \<le> 2)"

definition user_entry :: "AuthUserRecord \<Rightarrow> UserEntry" where
  "user_entry rec = \<lparr>ue_password_hash = au_password_hash rec, ue_roles = set (au_roles rec)\<rparr>"

definition auth_rows_ok :: "auth_codec \<Rightarrow> db \<Rightarrow> bool" where
  "auth_rows_ok C d \<longleftrightarrow> db_ok d \<and> named (ac_user C) AUTH_USER_PREFIX au_name (\<lambda>_. True) d \<and>
    named (ac_role C) AUTH_ROLE_PREFIX ar_name role_record_ok d \<and>
    named (ac_token C) AUTH_BOOTSTRAP_PREFIX bt_id (\<lambda>_. True) d"

definition stored_view :: "auth_codec \<Rightarrow> db \<Rightarrow> AuthManager" where
  "stored_view C d = \<lparr>am_enabled = False,
     am_users = (\<lambda>n. map_option user_entry (get_record (ac_user C) (AUTH_USER_PREFIX @ n) d)),
     am_roles = (\<lambda>n. if n = ROOT_ROLE then Some root_role
                     else map_option Role_from_record (get_record (ac_role C) (AUTH_ROLE_PREFIX @ n) d)),
     am_bootstrap_tokens = (\<lambda>n. get_record (ac_token C) (AUTH_BOOTSTRAP_PREFIX @ n) d)\<rparr>"

lemma auth_keys [simp]:
  "AUTH_USER_PREFIX @ a \<noteq> AUTH_ROLE_PREFIX @ b" "AUTH_USER_PREFIX @ a \<noteq> AUTH_BOOTSTRAP_PREFIX @ b"
  "AUTH_USER_PREFIX @ a \<noteq> AUTH_SESSION_PREFIX @ b" "AUTH_USER_PREFIX @ a \<noteq> AUTH_REVOKED_PREFIX @ b"
  "AUTH_ROLE_PREFIX @ a \<noteq> AUTH_USER_PREFIX @ b" "AUTH_ROLE_PREFIX @ a \<noteq> AUTH_BOOTSTRAP_PREFIX @ b"
  "AUTH_ROLE_PREFIX @ a \<noteq> AUTH_SESSION_PREFIX @ b" "AUTH_ROLE_PREFIX @ a \<noteq> AUTH_REVOKED_PREFIX @ b"
  "AUTH_BOOTSTRAP_PREFIX @ a \<noteq> AUTH_USER_PREFIX @ b" "AUTH_BOOTSTRAP_PREFIX @ a \<noteq> AUTH_ROLE_PREFIX @ b"
  "AUTH_BOOTSTRAP_PREFIX @ a \<noteq> AUTH_SESSION_PREFIX @ b" "AUTH_BOOTSTRAP_PREFIX @ a \<noteq> AUTH_REVOKED_PREFIX @ b"
  by (simp_all add: ascii_def)

text \<open>One row written or removed.\<close>

lemma put_user:
  assumes "put_record (ac_user C) (AUTH_USER_PREFIX @ n) rec d = Inr d'" "auth_rows_ok C d" "codecs_ok C" "au_name rec = n"
  shows "auth_rows_ok C d'" "stored_view C d' = (stored_view C d)\<lparr>am_users := (am_users (stored_view C d))(n \<mapsto> user_entry rec)\<rparr>"
proof -
  obtain bs where d': "d' = tx_insert d T_kv (AUTH_USER_PREFIX @ n) bs" using put_record_rows [OF assms(1)] by blast
  note u = put_record_named [OF assms(1), unfolded codecs_ok_def]
  have fr: "tx_get d' T_kv (AUTH_ROLE_PREFIX @ x) = tx_get d T_kv (AUTH_ROLE_PREFIX @ x)"
    "tx_get d' T_kv (AUTH_BOOTSTRAP_PREFIX @ x) = tx_get d T_kv (AUTH_BOOTSTRAP_PREFIX @ x)" for x
    by (simp_all add: d' table_simps)
  have "db_ok d'" using assms(2) by (simp add: auth_rows_ok_def d')
  then show "auth_rows_ok C d'"
    using assms(2-4) u(2) by (simp add: auth_rows_ok_def record_frame(2) [OF fr(1)] record_frame(2) [OF fr(2)] codecs_ok_def)
  show "stored_view C d' = (stored_view C d)\<lparr>am_users := (am_users (stored_view C d))(n \<mapsto> user_entry rec)\<rparr>"
    using assms(3) u(1) by (simp add: stored_view_def record_frame(1) [OF fr(1)] record_frame(1) [OF fr(2)] codecs_ok_def fun_eq_iff)
qed

lemma put_role:
  assumes "put_record (ac_role C) (AUTH_ROLE_PREFIX @ n) rec d = Inr d'" "auth_rows_ok C d" "codecs_ok C"
    "ar_name rec = n" "role_record_ok rec"
  shows "auth_rows_ok C d'" "stored_view C d' = (stored_view C d)\<lparr>am_roles := (am_roles (stored_view C d))(n \<mapsto> Role_from_record rec)\<rparr>"
proof -
  obtain bs where d': "d' = tx_insert d T_kv (AUTH_ROLE_PREFIX @ n) bs" using put_record_rows [OF assms(1)] by blast
  note u = put_record_named [OF assms(1), unfolded codecs_ok_def]
  have fr: "tx_get d' T_kv (AUTH_USER_PREFIX @ x) = tx_get d T_kv (AUTH_USER_PREFIX @ x)"
    "tx_get d' T_kv (AUTH_BOOTSTRAP_PREFIX @ x) = tx_get d T_kv (AUTH_BOOTSTRAP_PREFIX @ x)" for x
    by (simp_all add: d' table_simps)
  have "db_ok d'" using assms(2) by (simp add: auth_rows_ok_def d')
  then show "auth_rows_ok C d'"
    using assms(2-5) u(2) by (simp add: auth_rows_ok_def record_frame(2) [OF fr(1)] record_frame(2) [OF fr(2)] codecs_ok_def)
  show "stored_view C d' = (stored_view C d)\<lparr>am_roles := (am_roles (stored_view C d))(n \<mapsto> Role_from_record rec)\<rparr>"
    using assms(3-5) u(1)
    by (auto simp: stored_view_def record_frame(1) [OF fr(1)] record_frame(1) [OF fr(2)] codecs_ok_def fun_eq_iff role_record_ok_def)
qed

lemma put_token:
  assumes "put_record (ac_token C) (AUTH_BOOTSTRAP_PREFIX @ n) rec d = Inr d'" "auth_rows_ok C d" "codecs_ok C" "bt_id rec = n"
  shows "auth_rows_ok C d'"
    "stored_view C d' = (stored_view C d)\<lparr>am_bootstrap_tokens := (am_bootstrap_tokens (stored_view C d))(n \<mapsto> rec)\<rparr>"
proof -
  obtain bs where d': "d' = tx_insert d T_kv (AUTH_BOOTSTRAP_PREFIX @ n) bs" using put_record_rows [OF assms(1)] by blast
  note u = put_record_named [OF assms(1), unfolded codecs_ok_def]
  have fr: "tx_get d' T_kv (AUTH_USER_PREFIX @ x) = tx_get d T_kv (AUTH_USER_PREFIX @ x)"
    "tx_get d' T_kv (AUTH_ROLE_PREFIX @ x) = tx_get d T_kv (AUTH_ROLE_PREFIX @ x)" for x
    by (simp_all add: d' table_simps)
  have "db_ok d'" using assms(2) by (simp add: auth_rows_ok_def d')
  then show "auth_rows_ok C d'"
    using assms(2-4) u(2) by (simp add: auth_rows_ok_def record_frame(2) [OF fr(1)] record_frame(2) [OF fr(2)] codecs_ok_def)
  show "stored_view C d' = (stored_view C d)\<lparr>am_bootstrap_tokens := (am_bootstrap_tokens (stored_view C d))(n \<mapsto> rec)\<rparr>"
    using assms(3) u(1) by (simp add: stored_view_def record_frame(1) [OF fr(1)] record_frame(1) [OF fr(2)] codecs_ok_def fun_eq_iff)
qed

lemma rows_elsewhere:
  assumes "auth_rows_ok C d" "db_ok d'"
    and "\<And>x. tx_get d' T_kv (AUTH_USER_PREFIX @ x) = tx_get d T_kv (AUTH_USER_PREFIX @ x)"
      "\<And>x. tx_get d' T_kv (AUTH_ROLE_PREFIX @ x) = tx_get d T_kv (AUTH_ROLE_PREFIX @ x)"
      "\<And>x. tx_get d' T_kv (AUTH_BOOTSTRAP_PREFIX @ x) = tx_get d T_kv (AUTH_BOOTSTRAP_PREFIX @ x)"
  shows "auth_rows_ok C d'" "stored_view C d' = stored_view C d"
  using assms(1,2)
  by (auto simp: auth_rows_ok_def stored_view_def record_frame [OF assms(3)] record_frame [OF assms(4)]
    record_frame [OF assms(5)] fun_eq_iff)

lemma remove_user:
  assumes "auth_rows_ok C d" and d': "d' = tx_remove d T_kv (AUTH_USER_PREFIX @ n)"
  shows "auth_rows_ok C d'" "stored_view C d' = (stored_view C d)\<lparr>am_users := (am_users (stored_view C d))(n := None)\<rparr>"
proof -
  have ok: "db_ok d" "db_ok d'" using assms(1) by (simp_all add: auth_rows_ok_def d')
  have fr: "tx_get d' T_kv (AUTH_ROLE_PREFIX @ x) = tx_get d T_kv (AUTH_ROLE_PREFIX @ x)"
    "tx_get d' T_kv (AUTH_BOOTSTRAP_PREFIX @ x) = tx_get d T_kv (AUTH_BOOTSTRAP_PREFIX @ x)" for x
    using ok(1) by (simp_all add: d' table_simps)
  note rm = remove_named [OF ok(1), where pre = "AUTH_USER_PREFIX" and n = n, folded d']
  show "auth_rows_ok C d'"
    using assms(1) ok(2) by (auto simp: auth_rows_ok_def record_frame(2) [OF fr(1)] record_frame(2) [OF fr(2)] intro: rm(2))
  show "stored_view C d' = (stored_view C d)\<lparr>am_users := (am_users (stored_view C d))(n := None)\<rparr>"
    by (auto simp: stored_view_def record_frame(1) [OF fr(1)] record_frame(1) [OF fr(2)] rm(1) fun_eq_iff)
qed

lemma remove_role:
  assumes "auth_rows_ok C d" and d': "d' = tx_remove d T_kv (AUTH_ROLE_PREFIX @ n)" and ne: "n \<noteq> ROOT_ROLE"
  shows "auth_rows_ok C d'" "stored_view C d' = (stored_view C d)\<lparr>am_roles := (am_roles (stored_view C d))(n := None)\<rparr>"
proof -
  have ok: "db_ok d" "db_ok d'" using assms(1) by (simp_all add: auth_rows_ok_def d')
  have fr: "tx_get d' T_kv (AUTH_USER_PREFIX @ x) = tx_get d T_kv (AUTH_USER_PREFIX @ x)"
    "tx_get d' T_kv (AUTH_BOOTSTRAP_PREFIX @ x) = tx_get d T_kv (AUTH_BOOTSTRAP_PREFIX @ x)" for x
    using ok(1) by (simp_all add: d' table_simps)
  note rm = remove_named [OF ok(1), where pre = "AUTH_ROLE_PREFIX" and n = n, folded d']
  show "auth_rows_ok C d'"
    using assms(1) ok(2) by (auto simp: auth_rows_ok_def record_frame(2) [OF fr(1)] record_frame(2) [OF fr(2)] intro: rm(2))
  show "stored_view C d' = (stored_view C d)\<lparr>am_roles := (am_roles (stored_view C d))(n := None)\<rparr>"
    using assms(3) by (auto simp: stored_view_def record_frame(1) [OF fr(1)] record_frame(1) [OF fr(2)] rm(1) fun_eq_iff)
qed

lemma remove_token:
  assumes "auth_rows_ok C d" and d': "d' = tx_remove d T_kv (AUTH_BOOTSTRAP_PREFIX @ n)"
  shows "auth_rows_ok C d'" "stored_view C d' = (stored_view C d)\<lparr>am_bootstrap_tokens := (am_bootstrap_tokens (stored_view C d))(n := None)\<rparr>"
proof -
  have ok: "db_ok d" "db_ok d'" using assms(1) by (simp_all add: auth_rows_ok_def d')
  have fr: "tx_get d' T_kv (AUTH_USER_PREFIX @ x) = tx_get d T_kv (AUTH_USER_PREFIX @ x)"
    "tx_get d' T_kv (AUTH_ROLE_PREFIX @ x) = tx_get d T_kv (AUTH_ROLE_PREFIX @ x)" for x
    using ok(1) by (simp_all add: d' table_simps)
  note rm = remove_named [OF ok(1), where pre = "AUTH_BOOTSTRAP_PREFIX" and n = n, folded d']
  show "auth_rows_ok C d'"
    using assms(1) ok(2) by (auto simp: auth_rows_ok_def record_frame(2) [OF fr(1)] record_frame(2) [OF fr(2)] intro: rm(2))
  show "stored_view C d' = (stored_view C d)\<lparr>am_bootstrap_tokens := (am_bootstrap_tokens (stored_view C d))(n := None)\<rparr>"
    by (auto simp: stored_view_def record_frame(1) [OF fr(1)] record_frame(1) [OF fr(2)] rm(1) fun_eq_iff)
qed


text \<open>Deleting a role takes it from every stored user.\<close>

definition row_update :: "auth_codec \<Rightarrow> bytes \<Rightarrow> bytes \<Rightarrow> bytes option" where
  "row_update C role v = (case envelope_ok (ac_user C) v of
     Some rec \<Rightarrow> (if role \<in> set (au_roles rec) then envelope_encode (ac_user C) (drop_role role rec) else None)
   | None \<Rightarrow> None)"

lemma role_dropped: "length (au_roles (drop_role role rec)) \<noteq> length (au_roles rec) \<longleftrightarrow> role \<in> set (au_roles rec)"
proof
  assume "role \<in> set (au_roles rec)"
  then show "length (au_roles (drop_role role rec)) \<noteq> length (au_roles rec)"
    using length_filter_less [of role "au_roles rec" "\<lambda>r. r \<noteq> role"] by (simp add: drop_role_def)
next
  assume ne: "length (au_roles (drop_role role rec)) \<noteq> length (au_roles rec)"
  show "role \<in> set (au_roles rec)"
  proof (rule ccontr)
    assume "role \<notin> set (au_roles rec)"
    then have "filter (\<lambda>r. r \<noteq> role) (au_roles rec) = au_roles rec" by (auto simp: filter_id_conv)
    then show False using ne by (simp add: drop_role_def)
  qed
qed

lemma role_delete_updates_spec:
  "role_delete_updates C role rs = Inr ups \<Longrightarrow> distinct (map fst rs) \<Longrightarrow>
    set (map fst ups) \<subseteq> set (map fst rs) \<and> distinct (map fst ups) \<and>
    (\<forall>k. map_of ups k = (case map_of rs k of None \<Rightarrow> None | Some v \<Rightarrow> row_update C role v)) \<and>
    (\<forall>k v rec. map_of rs k = Some v \<longrightarrow> envelope_ok (ac_user C) v = Some rec \<longrightarrow> role \<in> set (au_roles rec) \<longrightarrow>
      row_update C role v \<noteq> None)"
proof (induction rs arbitrary: ups)
  case (Cons r rs)
  obtain k0 v0 where r: "r = (k0, v0)" by (cases r)
  have none: "map_of rs k0 = None" using Cons.prems(2) by (auto simp: r map_of_eq_None_iff)
  have dist: "distinct (map fst rs)" using Cons.prems(2) by simp
  show ?case
  proof (cases "\<exists>rec. envelope_ok (ac_user C) v0 = Some rec \<and> role \<in> set (au_roles rec)")
    case True
    then obtain rec where rec: "envelope_ok (ac_user C) v0 = Some rec" "role \<in> set (au_roles rec)" by blast
    obtain bs ups' where u: "envelope_encode (ac_user C) (drop_role role rec) = Some bs"
      "role_delete_updates C role rs = Inr ups'" "ups = (k0, bs) # ups'"
      using Cons.prems(1) rec role_dropped [of role rec]
      by (auto simp: r bind_result_def ok_or_def split: sum.splits option.splits)
    have up: "row_update C role v0 = Some bs" using rec u(1) by (simp add: row_update_def)
    note IH = Cons.IH [OF u(2) dist]
    have "k0 \<notin> set (map fst ups')" using IH Cons.prems(2) by (auto simp: r)
    then show ?thesis using IH up by (auto simp: r u(3))
  next
    case False
    then have u: "role_delete_updates C role rs = Inr ups" "row_update C role v0 = None"
      using Cons.prems(1) role_dropped [of role] by (auto simp: r row_update_def split: option.splits)
    note IH = Cons.IH [OF u(1) dist]
    have "map_of ups k0 = None" using IH none by simp
    then show ?thesis using IH u(2) False by (auto simp: r)
  qed
qed simp

lemma insert_rows_get:
  "distinct (map fst ups) \<Longrightarrow> tx_get (fold (\<lambda>(k, v) d. tx_insert d T_kv k v) ups d) t k =
    (if t = T_kv then (case map_of ups k of Some v \<Rightarrow> Some v | None \<Rightarrow> tx_get d t k) else tx_get d t k)"
proof (induction ups arbitrary: d)
  case (Cons u ups)
  obtain k0 v0 where u: "u = (k0, v0)" by (cases u)
  have "map_of ups k0 = None" using Cons.prems by (auto simp: u map_of_eq_None_iff)
  then show ?case using Cons by (auto simp: u table_simps split: option.split)
qed simp

lemma insert_rows_ok: "db_ok d \<Longrightarrow> db_ok (fold (\<lambda>(k, v) d. tx_insert d T_kv k v) ups d)"
  by (induction ups arbitrary: d) auto

lemma delete_role_users:
  assumes "auth_rows_ok C d1" "codecs_ok C" "role_delete_updates C role (tx_iter_prefix d1 T_kv AUTH_USER_PREFIX) = Inr ups"
    and d': "d' = fold (\<lambda>(k, v) d. tx_insert d T_kv k v) ups d1"
  shows "\<not> prefix AUTH_USER_PREFIX k \<Longrightarrow> tx_get d' T_kv k = tx_get d1 T_kv k"
    "case get_record (ac_user C) (AUTH_USER_PREFIX @ n) d1 of None \<Rightarrow> tx_get d' T_kv (AUTH_USER_PREFIX @ n) = None
      | Some rec \<Rightarrow> (\<exists>bs. tx_get d' T_kv (AUTH_USER_PREFIX @ n) = Some bs \<and> envelope_ok (ac_user C) bs = Some (drop_role role rec))"
proof -
  let ?rows = "tx_iter_prefix d1 T_kv AUTH_USER_PREFIX"
  have ok: "db_ok d1" and users: "named (ac_user C) AUTH_USER_PREFIX au_name (\<lambda>_. True) d1"
    using assms(1) by (simp_all add: auth_rows_ok_def)
  have srt: "keys_sorted ?rows" using ok by simp
  note S = role_delete_updates_spec [OF assms(3) keys_sorted_distinct [OF srt]]
  have mem: "map_of ?rows k = Some v \<longleftrightarrow> prefix AUTH_USER_PREFIX k \<and> tx_get d1 T_kv k = Some v" for k v
    unfolding map_of_in_sorted [OF srt] tx_iter_prefix_iff [OF ok] ..
  have row: "map_of ?rows k = (if prefix AUTH_USER_PREFIX k then tx_get d1 T_kv k else None)" for k
  proof (cases "map_of ?rows k")
    case None
    then show ?thesis using mem [of k] by (cases "tx_get d1 T_kv k") auto
  next
    case (Some v)
    then show ?thesis using mem [of k v] by simp
  qed
  have get: "tx_get d' T_kv k = (case map_of ups k of Some v \<Rightarrow> Some v | None \<Rightarrow> tx_get d1 T_kv k)" for k
    using insert_rows_get [of ups d1 T_kv k] S by (simp add: d')
  show "tx_get d' T_kv k = tx_get d1 T_kv k" if "\<not> prefix AUTH_USER_PREFIX k"
    using that S by (simp add: get row)
  have user: "tx_get d' T_kv (AUTH_USER_PREFIX @ n) =
      (case tx_get d1 T_kv (AUTH_USER_PREFIX @ n) of None \<Rightarrow> None
       | Some v \<Rightarrow> Some (case row_update C role v of Some v' \<Rightarrow> v' | None \<Rightarrow> v))"
    using S by (simp add: get row split: option.split)
  show "case get_record (ac_user C) (AUTH_USER_PREFIX @ n) d1 of None \<Rightarrow> tx_get d' T_kv (AUTH_USER_PREFIX @ n) = None
      | Some rec \<Rightarrow> (\<exists>bs. tx_get d' T_kv (AUTH_USER_PREFIX @ n) = Some bs \<and> envelope_ok (ac_user C) bs = Some (drop_role role rec))"
  proof (cases "tx_get d1 T_kv (AUTH_USER_PREFIX @ n)")
    case None
    then show ?thesis by (simp add: get_record_def user)
  next
    case (Some v)
    then obtain rec where rec: "envelope_ok (ac_user C) v = Some rec" using users by (auto simp: named_def)
    have "\<exists>bs. tx_get d' T_kv (AUTH_USER_PREFIX @ n) = Some bs \<and> envelope_ok (ac_user C) bs = Some (drop_role role rec)"
    proof (cases "role \<in> set (au_roles rec)")
      case True
      have "map_of ?rows (AUTH_USER_PREFIX @ n) = Some v" using Some by (simp add: row)
      then obtain v' where v': "row_update C role v = Some v'" using S rec True by blast
      then have "envelope_encode (ac_user C) (drop_role role rec) = Some v'" using rec True by (simp add: row_update_def)
      from envelope_decode_encode(2) [OF _ this] show ?thesis using assms(2) Some v' by (simp add: user codecs_ok_def)
    next
      case False
      then have "drop_role role rec = rec" by (auto simp: drop_role_def filter_id_conv intro!: AuthUserRecord.equality)
      then show ?thesis using Some rec False by (simp add: user row_update_def)
    qed
    then show ?thesis using Some rec by (simp add: get_record_def)
  qed
qed

lemma delete_role_rows:
  assumes "auth_rows_ok C d" "codecs_ok C" "role \<noteq> ROOT_ROLE" "auth_op_in_tx C now (RoleDelete role) d = Inr d'"
  shows "auth_rows_ok C d'" "stored_view C d' = apply_auth_op_to_view (RoleDelete role) (stored_view C d)"
proof -
  define d1 where "d1 = tx_remove d T_kv (AUTH_ROLE_PREFIX @ role)"
  have d1: "auth_rows_ok C d1" "stored_view C d1 = (stored_view C d)\<lparr>am_roles := (am_roles (stored_view C d))(role := None)\<rparr>"
    using remove_role [OF assms(1) d1_def assms(3)] by simp_all
  have ok: "db_ok d1" and users: "named (ac_user C) AUTH_USER_PREFIX au_name (\<lambda>_. True) d1"
    using d1(1) by (simp_all add: auth_rows_ok_def)
  obtain ups where ups: "role_delete_updates C role (tx_iter_prefix d1 T_kv AUTH_USER_PREFIX) = Inr ups"
    "d' = fold (\<lambda>(k, v) d. tx_insert d T_kv k v) ups d1"
    using assms(4) by (auto simp: d1_def [symmetric] bind_result_def split: sum.splits)
  note other = delete_role_users(1) [OF d1(1) assms(2) ups] and rec = delete_role_users(2) [OF d1(1) assms(2) ups]
  have fr: "tx_get d' T_kv (AUTH_ROLE_PREFIX @ x) = tx_get d1 T_kv (AUTH_ROLE_PREFIX @ x)"
    "tx_get d' T_kv (AUTH_BOOTSTRAP_PREFIX @ x) = tx_get d1 T_kv (AUTH_BOOTSTRAP_PREFIX @ x)" for x
    by (rule other, simp add: ascii_def)+
  have got: "get_record (ac_user C) (AUTH_USER_PREFIX @ n) d' = map_option (drop_role role) (get_record (ac_user C) (AUTH_USER_PREFIX @ n) d1)" for n
    using rec [of n] by (cases "get_record (ac_user C) (AUTH_USER_PREFIX @ n) d1") (auto simp: get_record_def)
  have "named (ac_user C) AUTH_USER_PREFIX au_name (\<lambda>_. True) d'"
    unfolding named_def
  proof (intro allI impI)
    fix n bs
    assume bs: "tx_get d' T_kv (AUTH_USER_PREFIX @ n) = Some bs"
    then obtain r where r: "get_record (ac_user C) (AUTH_USER_PREFIX @ n) d1 = Some r" "envelope_ok (ac_user C) bs = Some (drop_role role r)"
      using rec [of n] by (auto split: option.splits)
    then show "\<exists>rec. envelope_ok (ac_user C) bs = Some rec \<and> au_name rec = n \<and> True"
      using named_record [OF users r(1)] by (simp add: drop_role_def)
  qed
  moreover have "db_ok d'" using ok by (simp add: ups(2) insert_rows_ok)
  ultimately show "auth_rows_ok C d'"
    using d1(1) by (simp add: auth_rows_ok_def record_frame(2) [OF fr(1)] record_frame(2) [OF fr(2)])
  have "stored_view C d' = (stored_view C d1)\<lparr>am_users :=
      (\<lambda>name. map_option (\<lambda>entry. entry\<lparr>ue_roles := ue_roles entry - {role}\<rparr>) (am_users (stored_view C d1) name))\<rparr>"
    by (auto simp: stored_view_def got record_frame(1) [OF fr(1)] record_frame(1) [OF fr(2)] fun_eq_iff option.map_comp comp_def
      user_entry_def drop_role_def set_diff_eq intro!: map_option_cong)
  then show "stored_view C d' = apply_auth_op_to_view (RoleDelete role) (stored_view C d)" by (simp add: d1(2))
qed

text \<open>
  The commands after which tables and rows agree: those that do not name the built-in
  root role, use the three permission types the service sends, issue a token under a new
  id and consume it once.
\<close>

fun auth_fits :: "AuthManager \<Rightarrow> AuthOp \<Rightarrow> bool" where
  "auth_fits m (RoleAdd role) \<longleftrightarrow> role \<noteq> ROOT_ROLE"
| "auth_fits m (RoleDelete role) \<longleftrightarrow> role \<noteq> ROOT_ROLE"
| "auth_fits m (RoleGrantPermission role perm_type key range_end) \<longleftrightarrow> role \<noteq> ROOT_ROLE \<and> perm_type \<le> 2"
| "auth_fits m (RoleRevokePermission role key range_end) \<longleftrightarrow> role \<noteq> ROOT_ROLE"
| "auth_fits m (RoleGrantCapability role capability_id scope) \<longleftrightarrow> role \<noteq> ROOT_ROLE"
| "auth_fits m (RoleRevokeCapability role capability_id scope) \<longleftrightarrow> role \<noteq> ROOT_ROLE"
| "auth_fits m (IssueBootstrapToken token hash_hex label created_by created_at expires_at) \<longleftrightarrow>
    am_bootstrap_tokens m token = None"
| "auth_fits m (ConsumeBootstrapToken token at) \<longleftrightarrow>
    (case am_bootstrap_tokens m token of
       Some rec \<Rightarrow> bt_consumed_at_unix rec = None \<or> bt_consumed_at_unix rec = Some at
     | None \<Rightarrow> True)"
| "auth_fits m op \<longleftrightarrow> True"

lemma update_record_cases:
  assumes "update_record pc key f d = Inr d'"
  obtains "get_record pc key d = None" "d' = d"
  | rec where "get_record pc key d = Some rec" "f rec = None" "d' = d"
  | rec upd where "get_record pc key d = Some rec" "f rec = Some upd" "put_record pc key upd d = Inr d'"
  using assms by (auto simp: update_record_def split: option.splits)

lemma stored_view_sel [simp]:
  "am_users (stored_view C d) n = map_option user_entry (get_record (ac_user C) (AUTH_USER_PREFIX @ n) d)"
  "n \<noteq> ROOT_ROLE \<Longrightarrow> am_roles (stored_view C d) n = map_option Role_from_record (get_record (ac_role C) (AUTH_ROLE_PREFIX @ n) d)"
  "am_bootstrap_tokens (stored_view C d) n = get_record (ac_token C) (AUTH_BOOTSTRAP_PREFIX @ n) d"
  by (simp_all add: stored_view_def)

text \<open>A change of a user's row, or of a role's, is the change of the table.\<close>

lemma update_user_rows:
  assumes "update_record (ac_user C) (AUTH_USER_PREFIX @ n) (\<lambda>rec. Some (f rec)) d = Inr d'"
    and "auth_rows_ok C d" "codecs_ok C" "\<And>rec. au_name (f rec) = au_name rec" "\<And>rec. user_entry (f rec) = g (user_entry rec)"
  shows "auth_rows_ok C d' \<and> stored_view C d' = update_user n g (stored_view C d)"
  using assms(1)
proof (cases rule: update_record_cases)
  case 1
  then show ?thesis using assms(2) by (simp add: update_user_def)
next
  case (3 rec upd)
  have "au_name upd = n"
    using named_record [OF _ 3(1)] assms(2,4) 3(2) unfolding auth_rows_ok_def by force
  note put_user [OF 3(3) assms(2,3) this]
  then show ?thesis using 3(1,2) assms(5) by (auto simp: update_user_def)
qed simp

lemma update_role_rows:
  assumes "update_record (ac_role C) (AUTH_ROLE_PREFIX @ n) f d = Inr d'" "n \<noteq> ROOT_ROLE"
    and "auth_rows_ok C d" "codecs_ok C"
    and "\<And>rec. role_record_ok rec \<Longrightarrow> (case f rec of
      None \<Rightarrow> g (Role_from_record rec) = Role_from_record rec
    | Some upd \<Rightarrow> ar_name upd = ar_name rec \<and> role_record_ok upd \<and> Role_from_record upd = g (Role_from_record rec))"
  shows "auth_rows_ok C d' \<and> stored_view C d' = update_role n g (stored_view C d)"
proof -
  have roles: "named (ac_role C) AUTH_ROLE_PREFIX ar_name role_record_ok d" using assms(3) by (simp add: auth_rows_ok_def)
  show ?thesis using assms(1)
  proof (cases rule: update_record_cases)
    case 1
    then show ?thesis using assms(2,3) by (simp add: update_role_def)
  next
    case (2 rec)
    then have "g (Role_from_record rec) = Role_from_record rec" using assms(5) [of rec] named_record [OF roles 2(1)] by simp
    then have "update_role n g (stored_view C d) = stored_view C d"
      using 2(1) assms(2) by (auto simp: update_role_def fun_upd_idem intro!: AuthManager.equality)
    then show ?thesis using 2(3) assms(3) by simp
  next
    case (3 rec upd)
    have ok: "ar_name upd = n" "role_record_ok upd" "Role_from_record upd = g (Role_from_record rec)"
      using assms(5) [of rec] named_record [OF roles 3(1)] 3(2) by simp_all
    from put_role [OF 3(3) assms(3,4) ok(1,2)] show ?thesis using 3(1) ok(3) assms(2) by (simp add: update_role_def)
  qed
qed

lemma perm_type_inj:
  assumes "(a :: u8) \<le> 2" "b \<le> 2"
  shows "perm_type_of a = perm_type_of b \<longleftrightarrow> a = b"
proof -
  have "c = 0 \<or> c = 1 \<or> c = 2" if "(c :: u8) \<le> 2" for c
  proof -
    have "unat c \<le> 2" using that by (simp add: word_le_nat_alt)
    then have "unat c = 0 \<or> unat c = 1 \<or> unat c = 2" by linarith
    then show ?thesis by (auto simp: word_unat_eq_iff)
  qed
  from this [OF assms(1)] this [OF assms(2)] show ?thesis by (elim disjE) (simp_all add: perm_type_of_def)
qed

lemma from_record_mem:
  assumes "role_record_ok rec" "t \<le> 2"
  shows "\<lparr>pm_type = perm_type_of t, pm_key_prefix = key, pm_range_end = range_end\<rparr> \<in> set (ro_permissions (Role_from_record rec)) \<longleftrightarrow>
    \<lparr>ap_perm_type = t, ap_key_prefix = key, ap_range_end = range_end\<rparr> \<in> set (ar_permissions rec)"
proof -
  have "Permission_from_record p = \<lparr>pm_type = perm_type_of t, pm_key_prefix = key, pm_range_end = range_end\<rparr> \<longleftrightarrow>
      p = \<lparr>ap_perm_type = t, ap_key_prefix = key, ap_range_end = range_end\<rparr>" if "p \<in> set (ar_permissions rec)" for p
    using that assms perm_type_inj [of "ap_perm_type p" t]
    by (cases p rule: AuthPermissionRecord.cases) (auto simp: Permission_from_record_def role_record_ok_def)
  then show ?thesis by (force simp: Role_from_record_def)
qed

lemma user_op_step:
  assumes "auth_op_in_tx C now op d = Inr d'" "auth_rows_ok C d" "codecs_ok C"
    and "op \<in> {UserSetPassword name hash, UserGrantRole name role, UserRevokeRole name role}"
  shows "auth_rows_ok C d' \<and> stored_view C d' = apply_auth_op_to_view op (stored_view C d)"
proof -
  have grant: "user_entry (rec\<lparr>au_roles := (if role \<in> set (au_roles rec) then au_roles rec else au_roles rec @ [role])\<rparr>) =
      (user_entry rec)\<lparr>ue_roles := insert role (ue_roles (user_entry rec))\<rparr>"
    "user_entry (drop_role role rec) = (user_entry rec)\<lparr>ue_roles := ue_roles (user_entry rec) - {role}\<rparr>" for rec
    by (auto simp: user_entry_def drop_role_def)
  consider "op = UserSetPassword name hash" | "op = UserGrantRole name role" | "op = UserRevokeRole name role" using assms(4) by blast
  then show ?thesis
  proof cases
    case 1
    have up: "update_record (ac_user C) (AUTH_USER_PREFIX @ name) (\<lambda>rec. Some (rec\<lparr>au_password_hash := hash\<rparr>)) d = Inr d'"
      using assms(1) 1 by simp
    show ?thesis unfolding 1 apply_auth_op_to_view.simps
      by (rule update_user_rows [OF up assms(2,3)]) (simp_all add: user_entry_def)
  next
    case 2
    have up: "update_record (ac_user C) (AUTH_USER_PREFIX @ name) (\<lambda>rec.
        Some (rec\<lparr>au_roles := (if role \<in> set (au_roles rec) then au_roles rec else au_roles rec @ [role])\<rparr>)) d = Inr d'"
      using assms(1) 2 by simp
    show ?thesis unfolding 2 apply_auth_op_to_view.simps by (rule update_user_rows [OF up assms(2,3) _ grant(1)]) simp
  next
    case 3
    have up: "update_record (ac_user C) (AUTH_USER_PREFIX @ name) (\<lambda>rec. Some (drop_role role rec)) d = Inr d'"
      using assms(1) 3 by simp
    show ?thesis unfolding 3 apply_auth_op_to_view.simps
      by (rule update_user_rows [OF up assms(2,3) _ grant(2)]) (simp add: drop_role_def)
  qed
qed

lemma role_op_step:
  assumes "auth_op_in_tx C now op d = Inr d'" "auth_rows_ok C d" "codecs_ok C" "auth_fits (stored_view C d) op"
    and "op \<in> {RoleGrantPermission role t key range_end, RoleRevokePermission role key range_end,
      RoleGrantCapability role cap scope, RoleRevokeCapability role cap scope}"
  shows "auth_rows_ok C d' \<and> stored_view C d' = apply_auth_op_to_view op (stored_view C d)"
proof -
  have r: "role \<noteq> ROOT_ROLE" using assms(4,5) by auto
  note up = update_role_rows [OF _ r assms(2,3)]
  consider "op = RoleGrantPermission role t key range_end" | "op = RoleRevokePermission role key range_end"
    | "op = RoleGrantCapability role cap scope" | "op = RoleRevokeCapability role cap scope" using assms(5) by blast
  then show ?thesis
  proof cases
    case 1
    then have t: "t \<le> 2" using assms(4) by simp
    show ?thesis unfolding 1 apply_auth_op_to_view.simps
    proof (rule up)
      show "update_record (ac_role C) (AUTH_ROLE_PREFIX @ role) (\<lambda>rec.
          let p = \<lparr>ap_perm_type = t, ap_key_prefix = key, ap_range_end = range_end\<rparr>
          in if p \<in> set (ar_permissions rec) then None
             else Some (rec\<lparr>ar_permissions := ar_permissions rec @ [p]\<rparr>)) d = Inr d'" using assms(1) 1 by simp
    qed (use from_record_mem [OF _ t] t in \<open>auto simp: Let_def role_record_ok_def Role_from_record_def Permission_from_record_def\<close>)
  next
    case 2
    show ?thesis unfolding 2 apply_auth_op_to_view.simps
    proof (rule up)
      show "update_record (ac_role C) (AUTH_ROLE_PREFIX @ role) (\<lambda>rec. Some (rec\<lparr>ar_permissions :=
          filter (\<lambda>p. \<not> (ap_key_prefix p = key \<and> ap_range_end p = range_end)) (ar_permissions rec)\<rparr>)) d = Inr d'" using assms(1) 2 by simp
    qed (auto simp: role_record_ok_def Role_from_record_def Permission_from_record_def filter_map comp_def)
  next
    case 3
    show ?thesis unfolding 3 apply_auth_op_to_view.simps
    proof (rule up)
      show "update_record (ac_role C) (AUTH_ROLE_PREFIX @ role) (\<lambda>rec.
          let g = \<lparr>cg_capability_id = cap, cg_scope = scope\<rparr>
          in if g \<in> set (ar_capability_grants rec) then None
             else Some (rec\<lparr>ar_capability_grants := ar_capability_grants rec @ [g]\<rparr>)) d = Inr d'" using assms(1) 3 by simp
    qed (auto simp: Let_def role_record_ok_def Role_from_record_def)
  next
    case 4
    show ?thesis unfolding 4 apply_auth_op_to_view.simps
    proof (rule up)
      show "update_record (ac_role C) (AUTH_ROLE_PREFIX @ role) (\<lambda>rec. Some (rec\<lparr>ar_capability_grants :=
          filter (\<lambda>g. \<not> (cg_capability_id g = cap \<and> cg_scope g = scope)) (ar_capability_grants rec)\<rparr>)) d = Inr d'" using assms(1) 4 by simp
    qed (auto simp: role_record_ok_def Role_from_record_def)
  qed
qed

lemma insert_record_cases:
  assumes "insert_record pc (pre @ n) rec d = Inr d'" "named pc pre name P d"
  obtains "get_record pc (pre @ n) d = None" "put_record pc (pre @ n) rec d = Inr d'"
  | old where "get_record pc (pre @ n) d = Some old" "d' = d"
proof (cases "get_record pc (pre @ n) d")
  case None
  then show ?thesis using assms(1) named_get [OF assms(2), of n] by (intro that(1)) (simp_all add: insert_record_def)
next
  case (Some old)
  then show ?thesis using assms(1) named_get [OF assms(2), of n] by (intro that(2)) (simp_all add: insert_record_def)
qed

lemma add_role_step:
  assumes "auth_op_in_tx C now (RoleAdd role) d = Inr d'" "auth_rows_ok C d" "codecs_ok C" "role \<noteq> ROOT_ROLE"
  shows "auth_rows_ok C d' \<and> stored_view C d' = apply_auth_op_to_view (RoleAdd role) (stored_view C d)"
proof -
  have "named (ac_role C) AUTH_ROLE_PREFIX ar_name role_record_ok d" using assms(2) by (simp add: auth_rows_ok_def)
  with assms(1) [unfolded auth_op_in_tx.simps] show ?thesis
  proof (cases rule: insert_record_cases)
    case 1
    from put_role [OF 1(2) assms(2,3)] show ?thesis
      using assms(4) 1(1) by (simp add: role_record_ok_def Role_from_record_def)
  next
    case 2
    then show ?thesis using assms(2,4) by simp
  qed
qed

lemma token_op_step:
  assumes "auth_op_in_tx C now op d = Inr d'" "auth_rows_ok C d" "codecs_ok C" "auth_fits (stored_view C d) op"
    and "op \<in> {IssueBootstrapToken token hash label creator at expires, ConsumeBootstrapToken token at, RevokeBootstrapToken token}"
  shows "auth_rows_ok C d' \<and> stored_view C d' = apply_auth_op_to_view op (stored_view C d)"
proof -
  have rows: "named (ac_token C) AUTH_BOOTSTRAP_PREFIX bt_id (\<lambda>_. True) d" using assms(2) by (simp add: auth_rows_ok_def)
  consider "op = IssueBootstrapToken token hash label creator at expires" | "op = ConsumeBootstrapToken token at"
    | "op = RevokeBootstrapToken token" using assms(5) by blast
  then show ?thesis
  proof cases
    case 1
    have none: "get_record (ac_token C) (AUTH_BOOTSTRAP_PREFIX @ token) d = None" using assms(4) 1 by simp
    from assms(1) [unfolded 1 auth_op_in_tx.simps] rows show ?thesis
    proof (cases rule: insert_record_cases)
      case 1
      from put_token [OF 1(2) assms(2,3)] show ?thesis by (simp add: \<open>op = _\<close>)
    qed (simp add: none)
  next
    case 2
    from assms(1) [unfolded 2 auth_op_in_tx.simps] show ?thesis
    proof (cases rule: update_record_cases)
      case 1
      then show ?thesis using assms(2) by (simp add: 2)
    next
      case (2 rec)
      then have "bt_consumed_at_unix rec = Some at" using assms(4) \<open>op = _\<close> by (auto split: if_splits)
      then have "rec\<lparr>bt_consumed_at_unix := Some at\<rparr> = rec" by simp
      then have "apply_auth_op_to_view op (stored_view C d) = stored_view C d"
        using 2(1) \<open>op = _\<close> by (auto simp: fun_upd_idem intro!: AuthManager.equality)
      then show ?thesis using 2(3) assms(2) by simp
    next
      case (3 rec upd)
      then have "upd = rec\<lparr>bt_consumed_at_unix := Some at\<rparr>" "bt_id upd = token"
        using named_record [OF rows 3(1)] by (auto split: if_splits)
      with put_token [OF 3(3) assms(2,3)] show ?thesis using 3(1) by (simp add: 2)
    qed
  next
    case 3
    then show ?thesis using remove_token [OF assms(2), of d' token] assms(1) by simp
  qed
qed

lemma session_op_step:
  assumes "auth_op_in_tx C now op d = Inr d'" "auth_rows_ok C d"
    and "op \<in> {RevokeJti jti, IssueSession hash user expires refresh, ConsumeSession hash, ConsumeSessions hashes}"
  shows "auth_rows_ok C d' \<and> stored_view C d' = apply_auth_op_to_view op (stored_view C d)"
proof -
  have ok: "db_ok d" using assms(2) by (simp add: auth_rows_ok_def)
  have fold: "db_ok d \<Longrightarrow> db_ok (fold (\<lambda>h d. tx_remove d T_kv (AUTH_SESSION_PREFIX @ h)) hs d) \<and>
      (\<forall>k. (\<forall>x. k \<noteq> AUTH_SESSION_PREFIX @ x) \<longrightarrow>
        tx_get (fold (\<lambda>h d. tx_remove d T_kv (AUTH_SESSION_PREFIX @ h)) hs d) T_kv k = tx_get d T_kv k)" for hs d
    by (induction hs arbitrary: d) (auto simp: table_simps)
  have "db_ok d' \<and> (\<forall>k. (\<forall>x. k \<noteq> AUTH_SESSION_PREFIX @ x \<and> k \<noteq> AUTH_REVOKED_PREFIX @ x) \<longrightarrow> tx_get d' T_kv k = tx_get d T_kv k)"
    using assms(1,3) ok fold [OF ok, of hashes]
    by (auto simp: insert_record_def put_record_def table_simps split: if_splits option.splits)
  then have "auth_rows_ok C d'" "stored_view C d' = stored_view C d"
    using rows_elsewhere [OF assms(2), of d'] by (auto simp del: append_eq_conv_conj)
  then show ?thesis using assms(3) by auto
qed

lemma auth_op_step:
  assumes "auth_op_in_tx C now op d = Inr d'" "auth_rows_ok C d" "codecs_ok C" "auth_fits (stored_view C d) op"
  shows "auth_rows_ok C d' \<and> stored_view C d' = apply_auth_op_to_view op (stored_view C d)"
proof (cases op)
  case (UserAdd name hash roles)
  let ?rec = "\<lparr>au_name = name, au_password_hash = hash, au_roles = roles\<rparr>"
  have put: "put_record (ac_user C) (AUTH_USER_PREFIX @ name) ?rec d = Inr d'" using assms(1) UserAdd by simp
  from put_user [OF put assms(2,3)] show ?thesis using UserAdd by (simp add: user_entry_def)
next
  case (UserDelete name)
  then show ?thesis using remove_user [OF assms(2), of d' name] assms(1) by simp
next
  case (RoleDelete role)
  then show ?thesis using assms(4) delete_role_rows [OF assms(2,3) _ assms(1) [unfolded RoleDelete]] by simp
next
  case (RoleAdd role)
  then show ?thesis using add_role_step [OF _ assms(2,3)] assms(1,4) by simp
qed (rule user_op_step [OF assms(1-3)], blast | rule role_op_step [OF assms], blast | rule token_op_step [OF assms], blast |
    rule session_op_step [OF assms(1,2)], blast)+

section \<open>Runs and restarts\<close>

text \<open>A run of log entries, each with its position and the clock of the replica that applies it.\<close>

record auth_entry =
  ax_op :: AuthOp
  ax_revision :: u64
  ax_applied :: AppliedLogId
  ax_now_ms :: i64

definition auth_step :: "auth_codec \<Rightarrow> auth_entry \<Rightarrow> MvccStorage \<times> AuthManager \<Rightarrow> MvccStorage \<times> AuthManager" where
  "auth_step C e = apply_auth_command C (ax_now_ms e) (ax_op e) (ax_revision e) (ax_applied e)"

fun fitting_run :: "auth_codec \<Rightarrow> auth_entry list \<Rightarrow> MvccStorage \<times> AuthManager \<Rightarrow> bool" where
  "fitting_run C [] sm \<longleftrightarrow> True"
| "fitting_run C (e # es) sm \<longleftrightarrow> auth_fits (snd sm) (ax_op e) \<and> fitting_run C es (auth_step C e sm)"

lemma frame_view:
  assumes "auth_rows_ok C d" "db_ok d'" "\<And>k. tx_get d' T_kv k = tx_get d T_kv k"
  shows "auth_rows_ok C d' \<and> stored_view C d' = stored_view C d"
  using rows_elsewhere [OF assms(1,2)] assms(3) by simp

lemma auth_step_view:
  assumes "auth_rows_ok C (backend s)" "codecs_ok C" "auth_fits (stored_view C (backend s)) (ax_op e)"
    and "auth_step C e (s, stored_view C (backend s)) = (s', m')"
  shows "auth_rows_ok C (backend s') \<and> m' = stored_view C (backend s')"
proof (cases "apply_auth_op C (ax_now_ms e) s (ax_op e) (ax_revision e) (ax_applied e)")
  case (Pair res s1)
  have s1: "s' = s1" using assms(4) Pair by (auto simp: auth_step_def apply_auth_command_def split: sum.splits)
  show ?thesis
  proof (cases "changelog_contains_revision s (ax_revision e) \<or> (\<exists>err. res = Inl err)")
    case True
    then have "s1 = s" "m' = stored_view C (backend s)"
      using Pair assms(4) by (auto simp: apply_auth_op_def auth_step_def apply_auth_command_def split: if_splits)
    then show ?thesis using assms(1) s1 by simp
  next
    case False
    let ?d = "note_log_index_revision (revision_mode s) (backend s) (ax_revision e)"
    obtain d1 where d1: "res = Inr \<lparr>replayed = False\<rparr>" "auth_op_in_tx C (ax_now_ms e) (ax_op e) ?d = Inr d1"
      "s1 = s\<lparr>backend := put_applied (put_event d1 \<lparr>ev_revision = ax_revision e, ev_changes = [], ev_event_type = Put\<rparr>) (ax_applied e)\<rparr>"
      using False Pair by (cases res) (auto simp: apply_auth_op_def bind_result_def split: if_splits sum.splits)
    have ok: "db_ok (backend s)" using assms(1) by (simp add: auth_rows_ok_def)
    have d: "auth_rows_ok C ?d" "stored_view C ?d = stored_view C (backend s)"
      using frame_view [OF assms(1), of ?d] ok by (simp_all add: note_log_index_rows)
    from auth_op_step [OF d1(2) d(1) assms(2)] assms(3)
    have step: "auth_rows_ok C d1" "stored_view C d1 = apply_auth_op_to_view (ax_op e) (stored_view C (backend s))"
      unfolding d(2) by blast+
    have "auth_rows_ok C (backend s1) \<and> stored_view C (backend s1) = stored_view C d1"
    proof (rule frame_view [OF step(1)])
      show "db_ok (backend s1)" using step(1) by (simp add: d1(3) auth_rows_ok_def put_event_def put_applied_def)
      show "tx_get (backend s1) T_kv k = tx_get d1 T_kv k" for k by (simp add: d1(3) table_simps)
    qed
    moreover have "m' = apply_auth_op_to_view (ax_op e) (stored_view C (backend s))"
      using assms(4) Pair d1(1) by (simp add: auth_step_def apply_auth_command_def)
    ultimately show ?thesis using s1 step(2) by simp
  qed
qed

lemma auth_run_view:
  "auth_rows_ok C (backend s) \<Longrightarrow> codecs_ok C \<Longrightarrow> fitting_run C es (s, stored_view C (backend s)) \<Longrightarrow>
    fold (auth_step C) es (s, stored_view C (backend s)) = (s', m') \<Longrightarrow>
    auth_rows_ok C (backend s') \<and> m' = stored_view C (backend s')"
proof (induction es arbitrary: s)
  case (Cons e es)
  obtain s1 m1 where e: "auth_step C e (s, stored_view C (backend s)) = (s1, m1)" by fastforce
  have "auth_rows_ok C (backend s1) \<and> m1 = stored_view C (backend s1)"
    using auth_step_view [OF Cons.prems(1,2) _ e] Cons.prems(3) by simp
  then show ?case using Cons.IH [of s1] Cons.prems e by simp
qed auto

lemma load_one_entry:
  assumes "auth_rows_ok C d" and k: "tx_get d T_kv k = Some v"
  shows "load_entry C (k, v) m = m\<lparr>
      am_users := (\<lambda>n. if AUTH_USER_PREFIX @ n = k then am_users (stored_view C d) n else am_users m n),
      am_roles := (\<lambda>n. if AUTH_ROLE_PREFIX @ n = k then am_roles (stored_view C d) n else am_roles m n),
      am_bootstrap_tokens := (\<lambda>n. if AUTH_BOOTSTRAP_PREFIX @ n = k then am_bootstrap_tokens (stored_view C d) n
                                  else am_bootstrap_tokens m n)\<rparr>"
proof -
  have named: "named (ac_user C) AUTH_USER_PREFIX au_name (\<lambda>_. True) d" "named (ac_role C) AUTH_ROLE_PREFIX ar_name role_record_ok d"
    "named (ac_token C) AUTH_BOOTSTRAP_PREFIX bt_id (\<lambda>_. True) d" using assms(1) by (simp_all add: auth_rows_ok_def)
  consider n where "k = AUTH_USER_PREFIX @ n" | n where "k = AUTH_ROLE_PREFIX @ n" | n where "k = AUTH_BOOTSTRAP_PREFIX @ n"
    | "\<not> prefix AUTH_USER_PREFIX k" "\<not> prefix AUTH_ROLE_PREFIX k" "\<not> prefix AUTH_BOOTSTRAP_PREFIX k"
    by (auto simp: prefix_def)
  then show ?thesis
  proof cases
    case 1
    then obtain rec where "envelope_ok (ac_user C) v = Some rec" "au_name rec = n" using named(1) k by (auto simp: named_def)
    then show ?thesis using 1 k by (auto simp: get_record_def user_entry_def fun_eq_iff intro!: AuthManager.equality)
  next
    case 2
    then obtain rec where rec: "envelope_ok (ac_role C) v = Some rec" "ar_name rec = n" "role_record_ok rec"
      using named(2) k by (fastforce simp: named_def)
    then have "n \<noteq> ROOT_ROLE" by (auto simp: role_record_ok_def)
    then have "am_roles (stored_view C d) n = Some (Role_from_record rec)" using 2 k rec by (simp add: get_record_def)
    moreover have "\<not> prefix AUTH_USER_PREFIX k" "prefix AUTH_ROLE_PREFIX k" by (simp_all add: 2 ascii_def)
    ultimately show ?thesis using 2 rec by (auto simp: fun_eq_iff intro!: AuthManager.equality)
  next
    case 3
    then obtain rec where rec: "envelope_ok (ac_token C) v = Some rec" "bt_id rec = n" using named(3) k by (auto simp: named_def)
    moreover have "\<not> prefix AUTH_USER_PREFIX k" "\<not> prefix AUTH_ROLE_PREFIX k" "prefix AUTH_BOOTSTRAP_PREFIX k"
      by (simp_all add: 3 ascii_def)
    ultimately show ?thesis using 3 k by (auto simp: get_record_def fun_eq_iff intro!: AuthManager.equality)
  next
    case 4
    then show ?thesis by (auto simp: fun_eq_iff intro!: AuthManager.equality)
  qed
qed

lemma load_entries:
  assumes "auth_rows_ok C d" "\<And>k v. (k, v) \<in> set es \<Longrightarrow> tx_get d T_kv k = Some v"
  shows "fold (load_entry C) es m = m\<lparr>
    am_users := (\<lambda>n. if AUTH_USER_PREFIX @ n \<in> fst ` set es then am_users (stored_view C d) n else am_users m n),
    am_roles := (\<lambda>n. if AUTH_ROLE_PREFIX @ n \<in> fst ` set es then am_roles (stored_view C d) n else am_roles m n),
    am_bootstrap_tokens := (\<lambda>n. if AUTH_BOOTSTRAP_PREFIX @ n \<in> fst ` set es then am_bootstrap_tokens (stored_view C d) n
                                else am_bootstrap_tokens m n)\<rparr>"
  using assms(2)
proof (induction es arbitrary: m)
  case (Cons e es)
  obtain k v where e: "e = (k, v)" by (cases e)
  have k: "tx_get d T_kv k = Some v" using Cons.prems by (auto simp: e)
  have "fold (load_entry C) (e # es) m = fold (load_entry C) es (load_entry C (k, v) m)" by (simp add: e)
  also have "\<dots> = (load_entry C (k, v) m)\<lparr>
      am_users := (\<lambda>n. if AUTH_USER_PREFIX @ n \<in> fst ` set es then am_users (stored_view C d) n
                       else am_users (load_entry C (k, v) m) n),
      am_roles := (\<lambda>n. if AUTH_ROLE_PREFIX @ n \<in> fst ` set es then am_roles (stored_view C d) n
                       else am_roles (load_entry C (k, v) m) n),
      am_bootstrap_tokens := (\<lambda>n. if AUTH_BOOTSTRAP_PREFIX @ n \<in> fst ` set es then am_bootstrap_tokens (stored_view C d) n
                                  else am_bootstrap_tokens (load_entry C (k, v) m) n)\<rparr>"
    by (rule Cons.IH) (use Cons.prems in auto)
  finally show ?case unfolding load_one_entry [OF assms(1) k]
    by (auto simp: e fun_eq_iff intro!: AuthManager.equality)
qed simp

lemma reload_view:
  assumes "auth_rows_ok C d"
  shows "load_from_entries C (tx_iter_prefix d T_kv AUTH_PREFIX) AuthManager_new_empty = stored_view C d"
proof -
  let ?es = "tx_iter_prefix d T_kv AUTH_PREFIX"
  have ok: "db_ok d" using assms by (simp add: auth_rows_ok_def)
  have mem: "k \<in> fst ` set ?es \<longleftrightarrow> prefix AUTH_PREFIX k \<and> tx_get d T_kv k \<noteq> None" for k
  proof -
    have "k \<in> fst ` set ?es \<longleftrightarrow> (\<exists>v. (k, v) \<in> set ?es)" by force
    then show ?thesis unfolding tx_iter_prefix_iff [OF ok] by auto
  qed
  have pre: "prefix AUTH_PREFIX (AUTH_USER_PREFIX @ n)" "prefix AUTH_PREFIX (AUTH_ROLE_PREFIX @ n)"
    "prefix AUTH_PREFIX (AUTH_BOOTSTRAP_PREFIX @ n)" for n by (simp_all add: ascii_def)
  have none: "tx_get d T_kv (AUTH_USER_PREFIX @ n) = None \<Longrightarrow> am_users (stored_view C d) n = None"
    "tx_get d T_kv (AUTH_ROLE_PREFIX @ n) = None \<Longrightarrow> am_roles (stored_view C d) n = (if n = ROOT_ROLE then Some root_role else None)"
    "tx_get d T_kv (AUTH_BOOTSTRAP_PREFIX @ n) = None \<Longrightarrow> am_bootstrap_tokens (stored_view C d) n = None" for n
    by (simp_all add: stored_view_def get_record_def)
  have "load_from_entries C ?es AuthManager_new_empty = AuthManager_new_empty\<lparr>
      am_users := (\<lambda>n. if AUTH_USER_PREFIX @ n \<in> fst ` set ?es then am_users (stored_view C d) n else None),
      am_roles := (\<lambda>n. if AUTH_ROLE_PREFIX @ n \<in> fst ` set ?es then am_roles (stored_view C d) n
                      else if n = ROOT_ROLE then Some root_role else None),
      am_bootstrap_tokens := (\<lambda>n. if AUTH_BOOTSTRAP_PREFIX @ n \<in> fst ` set ?es then am_bootstrap_tokens (stored_view C d) n else None)\<rparr>"
  proof (cases "?es = []")
    case True
    then show ?thesis by (auto simp: load_from_entries_def AuthManager_new_empty_def fun_eq_iff)
  next
    case False
    have "\<And>k v. (k, v) \<in> set ?es \<Longrightarrow> tx_get d T_kv k = Some v" using tx_iter_prefix_iff [OF ok] by blast
    from load_entries [OF assms this] False show ?thesis
      by (auto simp: load_from_entries_def AuthManager_new_empty_def fun_eq_iff)
  qed
  also have "\<dots> = AuthManager_new_empty\<lparr>am_users := am_users (stored_view C d), am_roles := am_roles (stored_view C d),
      am_bootstrap_tokens := am_bootstrap_tokens (stored_view C d)\<rparr>"
  proof -
    have "(if AUTH_USER_PREFIX @ n \<in> fst ` set ?es then am_users (stored_view C d) n else None) = am_users (stored_view C d) n"
      "(if AUTH_ROLE_PREFIX @ n \<in> fst ` set ?es then am_roles (stored_view C d) n
        else if n = ROOT_ROLE then Some root_role else None) = am_roles (stored_view C d) n"
      "(if AUTH_BOOTSTRAP_PREFIX @ n \<in> fst ` set ?es then am_bootstrap_tokens (stored_view C d) n else None) =
        am_bootstrap_tokens (stored_view C d) n" for n
      unfolding mem using pre [of n] none [of n] by presburger+
    then show ?thesis by presburger
  qed
  also have "\<dots> = stored_view C d" by (simp add: stored_view_def AuthManager_new_empty_def)
  finally show ?thesis .
qed

text \<open>C7: A restart loses nothing: after any run of user, role, token and session commands that fit,
  replays and failed commands included, the tables a node rebuilds from its stored rows
  are exactly the tables it had in memory.\<close>

theorem auth_restart_exact:
  assumes "codecs_ok C" "fitting_run C es (fresh mode, AuthManager_new_empty)"
    and "fold (auth_step C) es (fresh mode, AuthManager_new_empty) = (s, m)"
  shows "load_from_entries C (list_raw_prefix s AUTH_PREFIX) AuthManager_new_empty = m"
proof -
  have ok: "auth_rows_ok C (backend (fresh mode))"
    by (simp add: auth_rows_ok_def named_def new_with_revision_mode_def)
  have "stored_view C (backend (fresh mode)) = AuthManager_new_empty"
    by (auto simp: stored_view_def get_record_def new_with_revision_mode_def AuthManager_new_empty_def fun_eq_iff)
  then have "auth_rows_ok C (backend s) \<and> m = stored_view C (backend s)"
    using auth_run_view [OF ok assms(1)] assms(2,3) by simp
  then show ?thesis using reload_view by (simp add: list_raw_prefix_def)
qed

definition sample_auth_codec :: auth_codec where
  "sample_auth_codec =
    \<lparr>ac_user = table_codec [\<lparr>au_name = [1], au_password_hash = [2], au_roles = [[3]]\<rparr>],
     ac_role = table_codec [\<lparr>ar_name = [3], ar_permissions = [], ar_capability_grants = [], ar_high_sensitive = False\<rparr>],
     ac_token = table_codec [], ac_session = table_codec [],
     ac_revocation = table_codec [\<lparr>av_jti = [9], av_revoked_at = 1\<rparr>, \<lparr>av_jti = [9], av_revoked_at = 2\<rparr>]\<rparr>"

theorem auth_restart_exact_witness:
  "\<exists>s m. fold (auth_step sample_auth_codec)
      [\<lparr>ax_op = RoleAdd [3], ax_revision = 1, ax_applied = standalone 1, ax_now_ms = 0\<rparr>,
       \<lparr>ax_op = UserAdd [1] [2] [[3]], ax_revision = 2, ax_applied = standalone 2, ax_now_ms = 0\<rparr>]
      (fresh LogIndex, AuthManager_new_empty) = (s, m) \<and>
    am_users m [1] \<noteq> None \<and> load_from_entries sample_auth_codec (list_raw_prefix s AUTH_PREFIX) AuthManager_new_empty = m"
proof -
  let ?es = "[\<lparr>ax_op = RoleAdd [3], ax_revision = 1, ax_applied = standalone 1, ax_now_ms = 0\<rparr>,
       \<lparr>ax_op = UserAdd [1] [2] [[3]], ax_revision = 2, ax_applied = standalone 2, ax_now_ms = 0\<rparr>]"
  obtain s m where run: "fold (auth_step sample_auth_codec) ?es (fresh LogIndex, AuthManager_new_empty) = (s, m)"
    by fastforce
  have ok: "codecs_ok sample_auth_codec" by (simp add: codecs_ok_def sample_auth_codec_def table_codec_ok)
  have fit: "fitting_run sample_auth_codec ?es (fresh LogIndex, AuthManager_new_empty)" by (simp add: ROOT_ROLE_def ascii_def)
  have "encode_changelog_key 1 \<noteq> encode_changelog_key 2" by (simp add: encode_changelog_key_def)
  then have "am_users m [1] \<noteq> None"
    using run by (auto simp: auth_step_def apply_auth_command_def apply_auth_op_def changelog_contains_revision_def write_store_def
      backend_write_def bind_result_def insert_record_def put_record_def sample_auth_codec_def table_codec_def envelope_encode_def
      new_with_revision_mode_def note_log_index_rows table_simps AuthManager_new_empty_def split: if_splits option.splits)
  with auth_restart_exact [OF ok fit run] run show ?thesis by blast
qed

text \<open>The built-in root role is outside that guarantee. It is in the tables but has no row, so a
  grant to it changes the tables and stores nothing: the grant is gone after a restart.\<close>

theorem root_grant_lost:
  "case auth_step C \<lparr>ax_op = RoleGrantCapability ROOT_ROLE cap scope, ax_revision = revision, ax_applied = applied, ax_now_ms = now\<rparr>
      (fresh mode, AuthManager_new_empty) of
    (s, m) \<Rightarrow> am_roles m ROOT_ROLE = Some (root_role\<lparr>ro_capability_grants := [\<lparr>cg_capability_id = cap, cg_scope = scope\<rparr>]\<rparr>) \<and>
      am_roles (load_from_entries C (list_raw_prefix s AUTH_PREFIX) AuthManager_new_empty) ROOT_ROLE = Some root_role"
proof -
  let ?e = "\<lparr>ax_op = RoleGrantCapability ROOT_ROLE cap scope, ax_revision = revision, ax_applied = applied, ax_now_ms = now\<rparr>"
  let ?d = "note_log_index_revision mode (backend (fresh mode)) revision"
  let ?d' = "put_applied (put_event ?d \<lparr>ev_revision = revision, ev_changes = [], ev_event_type = Put\<rparr>) applied"
  have kv: "tx_get ?d T_kv k = None" "tx_get ?d' T_kv k = None" for k
    by (simp_all add: note_log_index_rows table_simps new_with_revision_mode_def)
  have "auth_op_in_tx C now (RoleGrantCapability ROOT_ROLE cap scope) ?d = Inr ?d"
    by (simp add: update_record_def get_record_def kv)
  then have step: "auth_step C ?e (fresh mode, AuthManager_new_empty) =
      ((fresh mode)\<lparr>backend := ?d'\<rparr>, apply_auth_op_to_view (RoleGrantCapability ROOT_ROLE cap scope) AuthManager_new_empty)"
    by (simp add: auth_step_def apply_auth_command_def apply_auth_op_def changelog_contains_revision_def write_store_def
      backend_write_def bind_result_def new_with_revision_mode_def)
  have "db_ok ?d'" by (simp add: note_log_index_rows new_with_revision_mode_def put_event_def put_applied_def)
  then have "tx_iter_prefix ?d' T_kv AUTH_PREFIX = []"
    using tx_iter_prefix_iff [of ?d' _ _ T_kv AUTH_PREFIX] kv(2) by (cases "tx_iter_prefix ?d' T_kv AUTH_PREFIX") auto
  then have load: "load_from_entries C (list_raw_prefix ((fresh mode)\<lparr>backend := ?d'\<rparr>) AUTH_PREFIX) AuthManager_new_empty =
      AuthManager_new_empty" by (simp add: list_raw_prefix_def load_from_entries_def)
  show ?thesis unfolding step prod.case load by (simp add: AuthManager_new_empty_def update_role_def root_role_def)
qed

text \<open>Revoking a token is not deterministic: the stored record carries the clock of the replica that
  applies it, so two replicas that apply the same log entry to the same state in
  different seconds end in different states.\<close>

theorem revocation_diverges:
  assumes "postcard_ok (ac_revocation C)"
    and "envelope_encode (ac_revocation C) \<lparr>av_jti = jti, av_revoked_at = now div 1000\<rparr> \<noteq> None"
    and "envelope_encode (ac_revocation C) \<lparr>av_jti = jti, av_revoked_at = now' div 1000\<rparr> \<noteq> None"
    and "now div 1000 \<noteq> now' div 1000"
  shows "snd (apply_auth_op C now (fresh mode) (RevokeJti jti) revision applied) \<noteq>
    snd (apply_auth_op C now' (fresh mode) (RevokeJti jti) revision applied)"
proof -
  let ?k = "AUTH_REVOKED_PREFIX @ jti"
  have row: "tx_get (backend (snd (apply_auth_op C t (fresh mode) (RevokeJti jti) revision applied))) T_kv ?k = Some bs"
    if "envelope_encode (ac_revocation C) \<lparr>av_jti = jti, av_revoked_at = t div 1000\<rparr> = Some bs" for t bs
    using that by (simp add: apply_auth_op_def changelog_contains_revision_def write_store_def backend_write_def bind_result_def
      insert_record_def put_record_def new_with_revision_mode_def note_log_index_rows table_simps)
  obtain bs bs' where e: "envelope_encode (ac_revocation C) \<lparr>av_jti = jti, av_revoked_at = now div 1000\<rparr> = Some bs"
    "envelope_encode (ac_revocation C) \<lparr>av_jti = jti, av_revoked_at = now' div 1000\<rparr> = Some bs'" using assms(2,3) by blast
  have "bs \<noteq> bs'"
    using envelope_decode_encode(2) [OF assms(1) e(1)] envelope_decode_encode(2) [OF assms(1) e(2)] assms(4) by auto
  then show ?thesis using row [OF e(1)] row [OF e(2)] by auto
qed

theorem revocation_diverges_witness:
  "snd (apply_auth_op sample_auth_codec 1000 (fresh LogIndex) (RevokeJti [9]) 1 (standalone 1)) \<noteq>
    snd (apply_auth_op sample_auth_codec 2000 (fresh LogIndex) (RevokeJti [9]) 1 (standalone 1))"
proof (rule revocation_diverges)
  show "postcard_ok (ac_revocation sample_auth_codec)" by (simp add: sample_auth_codec_def table_codec_ok)
qed (simp_all add: sample_auth_codec_def table_codec_def envelope_encode_def)

section \<open>One use per token\<close>

datatype token_event =
    Consume "(bytes \<times> AuthBootstrapTokenRecord) list" bytes u64
  | Revert bytes u64
  | Prune u64
  | Command AuthOp

fun token_step :: "token_event \<Rightarrow> AuthManager \<Rightarrow> AuthManager" where
  "token_step (Consume order hash_hex now) m = snd (consume_bootstrap_token_atomic order hash_hex now m)"
| "token_step (Revert token expected) m = snd (revert_bootstrap_token_consumption token expected m)"
| "token_step (Prune now) m = prune_expired_bootstrap_tokens now m"
| "token_step (Command op) m = apply_auth_op_to_view op m"

text \<open>
  The events that make a consumed token usable again: a revert that names the
  consumption on record, and a new issue under the same name.
\<close>

fun renews :: "bytes \<Rightarrow> AuthManager \<Rightarrow> token_event \<Rightarrow> bool" where
  "renews token m (Revert t expected) \<longleftrightarrow> t = token \<and>
    (case am_bootstrap_tokens m token of Some rec \<Rightarrow> bt_consumed_at_unix rec = Some expected | None \<Rightarrow> False)"
| "renews token m (Command (IssueBootstrapToken t hash_hex label created_by created_at expires_at)) \<longleftrightarrow> t = token"
| "renews token m e \<longleftrightarrow> False"

fun renewed :: "bytes \<Rightarrow> AuthManager \<Rightarrow> token_event list \<Rightarrow> bool" where
  "renewed token m [] \<longleftrightarrow> False"
| "renewed token m (e # es) \<longleftrightarrow> renews token m e \<or> renewed token (token_step e m) es"

definition spent :: "bytes \<Rightarrow> AuthManager \<Rightarrow> bool" where
  "spent token m \<longleftrightarrow> (case am_bootstrap_tokens m token of Some r \<Rightarrow> bt_consumed_at_unix r \<noteq> None | None \<Rightarrow> True)"

lemma update_tokens [simp]:
  "am_bootstrap_tokens (update_user n f m) = am_bootstrap_tokens m" "am_bootstrap_tokens (update_role n g m) = am_bootstrap_tokens m"
  by (simp_all add: update_user_def update_role_def split: option.split)

lemma spent_step: "spent token m \<Longrightarrow> \<not> renews token m e \<Longrightarrow> spent token (token_step e m)"
proof (cases e)
  case (Command op)
  assume "spent token m" "\<not> renews token m e"
  then show ?thesis by (cases op) (auto simp: Command spent_def split: option.splits)
qed (auto simp: spent_def consume_bootstrap_token_atomic_def revert_bootstrap_token_consumption_def
  prune_expired_bootstrap_tokens_def Let_def split: option.splits if_splits prod.splits)

lemma spent_run: "spent token m \<Longrightarrow> \<not> renewed token m es \<Longrightarrow> spent token (fold token_step es m)"
  by (induction es arbitrary: m) (auto simp: spent_step)

definition tokens_named :: "AuthManager \<Rightarrow> bool" where
  "tokens_named m \<longleftrightarrow> (\<forall>token r. am_bootstrap_tokens m token = Some r \<longrightarrow> bt_id r = token)"

lemma tokens_named_step: "tokens_named m \<Longrightarrow> tokens_named (token_step e m)"
proof (cases e)
  case (Command op)
  assume "tokens_named m"
  then show ?thesis by (cases op) (auto simp: Command tokens_named_def split: option.splits)
qed (auto simp: tokens_named_def consume_bootstrap_token_atomic_def revert_bootstrap_token_consumption_def
  prune_expired_bootstrap_tokens_def Let_def split: option.splits if_splits prod.splits)

lemma tokens_named_run: "tokens_named m \<Longrightarrow> tokens_named (fold token_step es m)"
  by (induction es arbitrary: m) (auto simp: tokens_named_step)

text \<open>C39: A bootstrap token buys one credential: once a consumption took a token, no later one takes it
  again, whatever other consumptions, reverts, prunings and commands come in between and
  in whatever order the table is walked, unless a revert names exactly the consumption on
  record or the token is issued anew.\<close>

theorem bootstrap_token_once:
  assumes "consume_bootstrap_token_atomic order hash_hex now m = (Some rec, m1)"
    and "tokens_named m" "\<not> renewed (bt_id rec) m1 es"
    and "\<forall>x \<in> set order'. am_bootstrap_tokens (fold token_step es m1) (fst x) = Some (snd x)"
    and "consume_bootstrap_token_atomic order' hash_hex' now' (fold token_step es m1) = (Some rec', m2)"
  shows "bt_id rec' \<noteq> bt_id rec"
proof -
  obtain token r where t: "am_bootstrap_tokens m token = Some r" "rec = r\<lparr>bt_consumed_at_unix := Some now\<rparr>"
    "m1 = m\<lparr>am_bootstrap_tokens := (am_bootstrap_tokens m)(token \<mapsto> rec)\<rparr>"
    using assms(1) by (auto simp: consume_bootstrap_token_atomic_def Let_def split: option.splits)
  have "bt_id rec = token" using assms(2) t(1,2) by (simp add: tokens_named_def)
  moreover from this have "spent (bt_id rec) m1" by (simp add: spent_def t(2,3))
  ultimately have s: "spent token (fold token_step es m1)" using spent_run [OF _ assms(3)] by simp
  obtain token' r' where t': "(token', r') \<in> set order'" "is_usable r' now'"
    "am_bootstrap_tokens (fold token_step es m1) token' = Some r'" "rec' = r'\<lparr>bt_consumed_at_unix := Some now'\<rparr>"
    using assms(4,5) by (fastforce simp: consume_bootstrap_token_atomic_def Let_def find_Some_iff split: option.splits dest: nth_mem)
  have "token' \<noteq> token" using s t'(2,3) by (auto simp: spent_def is_usable_def)
  moreover have "tokens_named m1" using tokens_named_step [OF assms(2), of "Consume order hash_hex now"] assms(1) by simp
  ultimately show ?thesis
    using tokens_named_run [of m1 es] t'(3,4) \<open>bt_id rec = token\<close> by (simp add: tokens_named_def)
qed

theorem bootstrap_token_once_witness:
  "\<exists>m m1 rec m2 rec'. consume_bootstrap_token_atomic [([1], rec\<lparr>bt_consumed_at_unix := None\<rparr>)] [7] 5 m = (Some rec, m1) \<and>
    consume_bootstrap_token_atomic [([2], rec'\<lparr>bt_consumed_at_unix := None\<rparr>)] [8] 6 (token_step (Revert [1] 4) m1) = (Some rec', m2) \<and>
    bt_id rec' \<noteq> bt_id rec"
proof -
  let ?r = "\<lambda>i h. \<lparr>bt_id = [i], bt_hash_hex = [h], bt_label = [], bt_created_by = [], bt_created_at_unix = 0,
    bt_expires_at_unix = 9, bt_consumed_at_unix = None\<rparr> :: AuthBootstrapTokenRecord"
  let ?m = "AuthManager_new_empty\<lparr>am_bootstrap_tokens := [[1] \<mapsto> ?r 1 7, [2] \<mapsto> ?r 2 8]\<rparr>"
  let ?rec = "(?r 1 7)\<lparr>bt_consumed_at_unix := Some 5\<rparr>" and ?rec' = "(?r 2 8)\<lparr>bt_consumed_at_unix := Some 6\<rparr>"
  let ?m1 = "?m\<lparr>am_bootstrap_tokens := (am_bootstrap_tokens ?m)([1] \<mapsto> ?rec)\<rparr>"
  let ?m2 = "?m1\<lparr>am_bootstrap_tokens := (am_bootstrap_tokens ?m1)([2] \<mapsto> ?rec')\<rparr>"
  have first: "consume_bootstrap_token_atomic [([1], ?r 1 7)] [7] 5 ?m = (Some ?rec, ?m1)"
    by (simp add: consume_bootstrap_token_atomic_def is_usable_def word_le_nat_alt Let_def)
  have stays: "token_step (Revert [1] 4) ?m1 = ?m1" by (simp add: revert_bootstrap_token_consumption_def)
  have second: "consume_bootstrap_token_atomic [([2], ?r 2 8)] [8] 6 ?m1 = (Some ?rec', ?m2)"
    by (simp add: consume_bootstrap_token_atomic_def is_usable_def word_le_nat_alt Let_def)
  have named: "tokens_named ?m" by (auto simp: tokens_named_def)
  have "\<not> renewed [1] ?m1 [Revert [1] 4]" by simp
  then have "bt_id ?rec' \<noteq> bt_id ?rec"
    using bootstrap_token_once [OF first named, of "[Revert [1] 4]" "[([2], ?r 2 8)]" "[8]" 6 ?rec' ?m2] second stays by simp
  then show ?thesis
    by - (rule exI [of _ ?m], rule exI [of _ ?m1], rule exI [of _ ?rec], rule exI [of _ ?m2], rule exI [of _ ?rec'],
      use first second stays in simp)
qed

end
