(* ===== verification/Spec2Isabelle.thy ===== *)
theory Spec2Isabelle
  imports Time_Travel Tso Commit_Trim Decision_Apply Move_Source Commit_Shards Auth_Manager
begin

text \<open>
  Coord: a verification library for the coordination service.

  \<^bold>\<open>The program.\<close> Coord is a Raft-replicated key-value service with revisions,
  transactions, leases and watches. A committed Raft entry is a command that the
  state machine (\<open>coord-server/src/raft/state_machine.rs\<close>) applies to a multi-version
  store (\<open>coord-server/src/storage/mvcc.rs\<close>) in one write transaction of an ordered
  table engine (\<open>coord-core/src/storage.rs\<close>, \<open>storage/redb_backend.rs\<close>). A store counts
  its revision in Raft log positions or in commit timestamps. In the second mode the key
  space is divided into regions with a store each (\<open>storage/region_table.rs\<close>); a
  timestamp oracle hands out timestamps (\<open>raft/tso.rs\<close>), the sequencer of region 0 decides
  which transactions commit and logs the decisions, every region applies its slice of the
  log (\<open>kvt/decision_apply.rs\<close>) and writes commit records to an outbox, which is shipped to
  the shards of the commit log (\<open>storage/commit_log.rs\<close>, \<open>kvt/commit_log_shards.rs\<close>); ranges
  move between regions by paged copies (\<open>split_merge.rs\<close>). Requests pass scope and capability
  checks (\<open>coord-core/src/auth/trie.rs\<close>, \<open>grpc_auth.rs\<close>, \<open>coord-server/src/auth\<close>).

  \<^bold>\<open>How it is modelled.\<close> A byte string is a list of 8-bit words in Rust's slice order,
  machine integers keep their width, a Rust \<open>Result\<close> is \<open>error + 'a\<close> with the \<open>?\<close> operator as
  \<open>bind_result\<close>. A store is the record \<open>MvccStorage\<close>: the tables (\<open>db\<close>), the encryption
  barrier and the revision mode. A command is a function from its arguments and the store to
  its result and the next store; a transaction that fails leaves the store. Loops are
  recursive functions over the rows they visit. Definitions bear the names of the Rust items,
  and every definition is executable.

  \<^bold>\<open>Foundations.\<close>
  \<^item> \<open>Prelude\<close>: bytes, words, errors, big-endian numbers, the shared list lemmas and the
    collections \<open>table_simps\<close> and \<open>row_simps\<close> that carry the proofs about rows.
  \<^item> \<open>Kv_Range\<close>: what a request range means (\<open>coord-core/src/kv_range.rs\<close>) and what a watch of
    the first protocol delivers.
  \<^item> \<open>Backend\<close>: the tables. The locale \<open>ordered_table\<close> is the contract of a table, interpreted
    on sorted rows; the scan loops of the engine adapter return what the contract promises.
  \<^item> \<open>Envelope\<close>, \<open>Barrier\<close>, \<open>Mvcc_Codec\<close>: the format envelope, encryption at rest, and the
    keys and records of the store as bytes. The locale \<open>codec\<close> is the round trip of a record
    format, \<open>ordered_key\<close> that of a key format that keeps the order of numbers; both are
    interpreted on every format of the store.

  \<^bold>\<open>One store.\<close>
  \<^item> \<open>Mvcc\<close>, \<open>Mvcc_Commit\<close>: puts, deletes, range deletes and reads. \<open>mvcc_ok\<close> is the invariant,
    \<open>live\<close> the map of the values a reader sees, \<open>committed\<close> what every write does to it. What a
    get, a range read, a range delete and a replayed write answer is stated exactly.
  \<^item> \<open>Txn_Exec\<close>: compare-and-swap transactions, refined to the map.
  \<^item> \<open>Mvcc_History\<close>, \<open>Time_Travel\<close>: reads at a revision from the changelog, and compaction.
    They agree with the plain reads of the past, or say that the history is gone.
  \<^item> \<open>Registers\<close>: the watermarks and fences of a region. The locale \<open>monotone_register\<close> is
    their contract, interpreted on three of them.
  \<^item> \<open>Lease_Table\<close>: the lease records of both protocols and the deletion of bound keys.

  \<^bold>\<open>Many regions.\<close>
  \<^item> \<open>Tso\<close>: the allocator and the client cache. The locale \<open>tso_source\<close> is what the cache
    needs of a source of batches, interpreted on the allocator behind Raft.
  \<^item> \<open>Sequencer\<close>, \<open>Sequencer_Occ\<close>, \<open>Sequencer_Log\<close>: the commit sequencer with its validation
    indexes, serializability of what it commits, and the decision log.
  \<^item> \<open>Region_Table\<close>: the region table with splits and merges. It tiles the key space.
  \<^item> \<open>Decision_Apply\<close>: the slices of the decision log; with the sequencer and the region table
    it gives the theorem of this theory: the cluster reads as if transactions ran serially.
  \<^item> \<open>Commit_Log\<close>, \<open>Commit_Trim\<close>: commit records, the append command of a shard and trimming
    of the outbox. \<open>Commit_Shards\<close>: the table of the shards, the watermark of a node, shipping
    and the leader's part of the coordinator tick; the table tiles the timestamps.
  \<^item> \<open>Range_Move\<close>, \<open>Move_Source\<close>: export, import and the page loop of a move. A move
    delivers one snapshot while the commands of the inductive relation \<open>region_step\<close> change the
    source; that those commands move the revision whenever they change a row is proved there
    for each of them, not assumed. On a quiet source the loop ends.

  \<^bold>\<open>Access.\<close>
  \<^item> \<open>Scope_Auth\<close>: the scope trie, the check of a request and the guards of both watch services.
  \<^item> \<open>Auth_Manager\<close>: users, roles and grants in the store and in memory, capability checks,
    bootstrap tokens. The tables rebuilt from the store at a start are those in memory.

  \<^bold>\<open>Parameters.\<close> Code outside the sources is an argument of the definitions that use it:
  the postcard encoder (\<open>postcard_ok\<close>: reading back a written value consumes its bytes), the
  AEAD cipher with its nonces (\<open>aead_ok\<close>: what was sealed opens, plus a 16-byte tag), SHA-256
  (no collision among the messages of the log at hand, in \<open>log_ok\<close>), zstd (\<open>zstd_ok\<close>), Raft (the
  log position of every proposal, or its failure), the wall clock, the answers to polls, the
  stores of shard groups, and the order in which a hash map is walked. Each hypothesis about
  them is shown to be satisfiable by the witness of the theorem that uses it.

  \<^bold>\<open>Fuel.\<close> Loops without a bound of their own take fuel, and the theorems say how much is
  enough: \<open>get_ts_loop\<close> three rounds; the rebuilding of the indexes and the shipping loop
  of a region one round more than there are decisions, since every round passes at
  least one decision; the page loop of a move one round more than there are live keys. The
  compaction loop is total, by a termination proof on the number of stale rows. Sizes in
  memory (\<open>usize\<close> sums of lengths) are natural numbers.

  \<^bold>\<open>Theorems about flaws.\<close> Some theorems show a behaviour that the documentation or the
  intention excludes, next to the definitions they concern; the text before each says which.

  \<^bold>\<open>Not modelled.\<close> The Raft algorithm and its log store (the openraft crate), the redb engine
  below the table contract, gRPC services, streams and process assembly (async I/O), timers, the
  placement driver (heuristics over floating-point loads), snapshots and object bodies (files),
  token signing and password hashing (cryptographic crates), the workflow engine, the agent,
  the client library and the command line. The concurrency of the tokio tasks is not modelled
  either: commands of one group are applied one after the other, as Raft delivers them, and
  tasks that read between them see a sequence of stores, as in \<open>Move_Source\<close>.
\<close>

section \<open>The cluster\<close>

text \<open>C1: The cluster reads serially. Take any run of the commit sequencer, a region table that was read
  from a store, and for every region of the table a replica that leads it and holds the
  committed transactions up to its own cursor. Then one pass that ships the decision
  log to the regions returns without an error, and afterwards the replica every key is
  routed to reads what running all committed transactions one after the other gives,
  although every region applied its slices on its own.\<close>

theorem cluster_reads_serial:
  assumes "seq_clean s0" "postcard_ok (interval_codec E)" "sequencer_run E cmds s0 = (K, system)" "log_ok E K"
    and "postcard_ok (decision_codec E)" "\<forall>e \<in> set K. st_commit_ts (fst e) \<noteq> - 1"
    and "region_table pc t = Inr table" "rt_version table \<noteq> 0"
    and cover: "set (rt_regions table) \<subseteq> rr_meta ` set rts"
    and ready: "\<forall>rt \<in> set rts. rr_leader rt \<and> runtime_ready K st rt"
    and fuel: "length K < fuel"
  shows "\<exists>n rts'. apply_pending_decisions fuel E Z True (Some rts) system batch = (Inr n, Some rts') \<and>
    (\<forall>key. \<exists>rt \<in> set rts'. route table key = Some (rr_meta rt) \<and> get (rr_store rt) key = Inr (serial_state K st key))"
proof -
  have regions: "regions_ok (rt_regions table)" using assms(7,8) by (rule region_table_regions)
  have "0 < max batch 1" "\<forall>rt \<in> set rts. rr_leader rt \<longrightarrow> runtime_ready K st rt" using ready by auto
  from runtimes_converge [OF assms(1-6) this(1) fuel this(2), of Z 0] obtain n rts' where
    rts': "apply_runtimes fuel E Z system (max batch 1) rts 0 None = (Inr n, rts')" "list_all2 (caught_up K st) rts rts'"
    by blast
  have "\<exists>rt \<in> set rts'. route table key = Some (rr_meta rt) \<and> get (rr_store rt) key = Inr (serial_state K st key)" for key
  proof -
    obtain m where m: "m \<in> set (rt_regions table)" "contains_key m key" "route table key = Some m"
      using regions by (rule regions_locate [of table key]) simp
    then obtain rt where rt: "rt \<in> set rts" "rr_meta rt = m" using cover by blast
    obtain i where i: "i < length rts" "rts ! i = rt" using rt(1) by (auto simp: in_set_conv_nth)
    have mem: "rts' ! i \<in> set rts'" and up: "caught_up K st rt (rts' ! i)"
      using list_all2_nthD [OF rts'(2) i(1)] list_all2_lengthD [OF rts'(2)] i by simp_all
    have "key_in_region (rr_meta rt) key" using m(2) rt(2) by (simp add: contains_key_def key_in_region_def)
    then have "rr_meta (rts' ! i) = m" "get (rr_store (rts' ! i)) key = Inr (serial_state K st key)"
      using up ready rt by (simp_all add: caught_up_def)
    then show ?thesis using mem m(3) by (intro bexI [of _ "rts' ! i"]) simp_all
  qed
  then show ?thesis using rts'(1) by (auto simp: apply_pending_decisions_def)
qed

theorem cluster_reads_serial_witness:
  "\<exists>K system n rts'. sequencer_run sample_env sample_cmds (fresh LogIndex) = (K, system) \<and>
    apply_pending_decisions 3 sample_env sample_log_env True
      (Some (map (\<lambda>m. \<lparr>rr_meta = m, rr_leader = True, rr_env = sample_apply_env, rr_store = fresh CommitTs\<rparr>)
                 (rt_regions sample_table))) system 1 = (Inr n, Some rts') \<and>
    (\<exists>rt \<in> set rts'. route sample_table [7] = Some (rr_meta rt) \<and> get (rr_store rt) [7] = Inr (Some [70]))"
proof -
  let ?K = "[(sample_writer, []), (sample_reader 5 9 2, [])] :: seq_entry list"
  let ?rts = "map (\<lambda>m. \<lparr>rr_meta = m, rr_leader = True, rr_env = sample_apply_env, rr_store = fresh CommitTs\<rparr>)
                 (rt_regions sample_table)"
  obtain system where run: "sequencer_run sample_env sample_cmds (fresh LogIndex) = (?K, system)"
    using sample_run by blast
  have pc: "postcard_ok (decision_codec sample_env)" by (simp add: sample_env_def table_codec_ok)
  have ts: "\<forall>e \<in> set ?K. st_commit_ts (fst e) \<noteq> - 1" by (simp add: sample_writer_def sample_reader_def)
  have ready: "\<forall>rt \<in> set ?rts. rr_leader rt \<and> runtime_ready ?K (\<lambda>_. None) rt"
    using sample_region_ready by (simp add: sample_apply_env_def runtime_ready_def)
  have v: "rt_version sample_table \<noteq> 0" by (simp add: sample_table_ok(2))
  have cover: "set (rt_regions sample_table) \<subseteq> rr_meta ` set ?rts" by force
  from cluster_reads_serial [OF sample_ok(1,2) run sample_ok(3) pc ts sample_region_table v cover ready,
      of 3 sample_log_env 1]
  obtain n rts' where rts': "apply_pending_decisions 3 sample_env sample_log_env True (Some ?rts) system 1 = (Inr n, Some rts')"
    "\<exists>rt \<in> set rts'. route sample_table [7] = Some (rr_meta rt) \<and>
      get (rr_store rt) [7] = Inr (serial_state ?K (\<lambda>_. None) [7])" by auto
  have "serial_state ?K (\<lambda>_. None) [7] = Some [70]"
    by (simp add: serial_state_def txn_effect_def sample_writer_def sample_reader_def)
  then show ?thesis using run rts' by auto
qed

end
